(* ===== verification/VM_Prelude.thy ===== *)
theory VM_Prelude
  imports Main "HOL-Library.Word"
begin

text \<open>
  Shared vocabulary of the development: the machine integer types of the Rust sources,
  the outcome type of fallible Rust code (an error value or a panic), the loop
  combinators that stand for \<open>for\<close> loops over index ranges, and the invariant rules
  with which every loop of the components is verified.
\<close>

unbundle bit_operations_syntax

type_synonym u8 = "8 word"
type_synonym u16 = "16 word"
type_synonym u32 = "32 word"
type_synonym u64 = "64 word"

text \<open>A Rust \<open>char\<close> is a Unicode scalar value; a \<open>&str\<close> is the list of its scalars.\<close>

type_synonym rchar = nat
type_synonym rstring = "rchar list"

definition ascii :: "string \<Rightarrow> rstring" where
  "ascii = map of_char"

named_theorems limb_simps \<open>values of the machine arithmetic on limbs\<close>

text \<open>
  The outcome of a Rust function that may fail: \<open>ErrMsg\<close> is a returned \<open>Err\<close> with its
  message, \<open>Panicked\<close> is a panic (an index out of range, an \<open>unwrap\<close> of \<open>None\<close>).
\<close>

datatype rust_err = ErrMsg string | Panicked

type_synonym 'a outcome = "rust_err + 'a"

definition bind_outcome :: "'e + 'a \<Rightarrow> ('a \<Rightarrow> 'e + 'b) \<Rightarrow> 'e + 'b" where
  "bind_outcome m f = (case m of Inl e \<Rightarrow> Inl e | Inr x \<Rightarrow> f x)"

text \<open>A \<open>for\<close> loop whose body may return early with an error (the \<open>?\<close> operator).\<close>

fun fold_outcome :: "('i \<Rightarrow> 's \<Rightarrow> 'e + 's) \<Rightarrow> 'i list \<Rightarrow> 's \<Rightarrow> 'e + 's" where
  "fold_outcome f [] s = Inr s"
| "fold_outcome f (i # is) s = bind_outcome (f i s) (fold_outcome f is)"

text \<open>A sequence of checks: the first error wins, as with \<open>?\<close> on each of them.\<close>

fun all_checks :: "('e + unit) list \<Rightarrow> 'e + unit" where
  "all_checks [] = Inr ()"
| "all_checks (c # cs) = (case c of Inl e \<Rightarrow> Inl e | Inr _ \<Rightarrow> all_checks cs)"

text \<open>Slice access \<open>xs.get(i)\<close>, with \<open>None\<close> out of range.\<close>

definition get_at :: "'a list \<Rightarrow> nat \<Rightarrow> 'a option" where
  "get_at xs i = (if i < length xs then Some (xs ! i) else None)"

text \<open>Slice access \<open>xs[i]\<close>, which panics out of range.\<close>

definition index_at :: "'a list \<Rightarrow> nat \<Rightarrow> 'a outcome" where
  "index_at xs i = (if i < length xs then Inr (xs ! i) else Inl Panicked)"

section \<open>Outcomes\<close>

lemma bind_outcome_simps [simp]:
  "bind_outcome (Inl e) f = Inl e"
  "bind_outcome (Inr x) f = f x"
  by (simp_all add: bind_outcome_def)

lemma bind_outcome_Inr_iff:
  "bind_outcome m f = Inr y \<longleftrightarrow> (\<exists>x. m = Inr x \<and> f x = Inr y)"
  by (cases m) auto

lemma bind_outcome_Inl_iff:
  "bind_outcome m f = Inl e \<longleftrightarrow> m = Inl e \<or> (\<exists>x. m = Inr x \<and> f x = Inl e)"
  by (cases m) auto

lemma all_checks_Inr_iff [simp]: "all_checks cs = Inr u \<longleftrightarrow> list_all (\<lambda>c. c = Inr ()) cs"
  by (induction cs) (auto split: sum.splits)

declare all_checks.simps [simp del]

lemma all_checks_append: "all_checks (cs @ ds) = bind_outcome (all_checks cs) (\<lambda>_. all_checks ds)"
  by (induction cs) (auto simp: all_checks.simps split: sum.splits)

lemma all_checks_Inl_mem: "all_checks cs = Inl e \<Longrightarrow> Inl e \<in> set cs"
  by (induction cs) (auto simp: all_checks.simps split: sum.splits)

lemma get_at_simps [simp]:
  "i < length xs \<Longrightarrow> get_at xs i = Some (xs ! i)"
  "length xs \<le> i \<Longrightarrow> get_at xs i = None"
  by (simp_all add: get_at_def)

lemma get_at_SomeD: "get_at xs i = Some x \<Longrightarrow> i < length xs \<and> xs ! i = x"
  by (auto simp: get_at_def split: if_splits)

section \<open>Loops over index ranges\<close>

text \<open>\<open>for i in 0..n\<close>: an invariant indexed by the number of iterations done.\<close>

lemma for_up_invariant:
  assumes "P 0 s" and "\<And>i s. i < n \<Longrightarrow> P i s \<Longrightarrow> P (Suc i) (f i s)"
  shows "P n (fold f [0..<n] s)"
  using assms(2)
proof (induction n)
  case 0
  then show ?case using assms(1) by simp
next
  case (Suc n)
  then show ?case by simp
qed

text \<open>\<open>for i in (0..n).rev()\<close>: the invariant counts down.\<close>

lemma for_down_invariant:
  assumes "P n s" and "\<And>i s. i < n \<Longrightarrow> P (Suc i) s \<Longrightarrow> P i (f i s)"
  shows "P 0 (fold f (rev [0..<n]) s)"
  using assms
proof (induction n arbitrary: s)
  case 0
  then show ?case by simp
next
  case (Suc n)
  have "P n (f n s)" using Suc.prems by blast
  then show ?case using Suc.IH [of "f n s"] Suc.prems(2) by simp
qed

text \<open>The same two rules for loops whose body can fail.\<close>

lemma fold_outcome_append:
  "fold_outcome f (xs @ ys) s = bind_outcome (fold_outcome f xs s) (fold_outcome f ys)"
  by (induction xs arbitrary: s) (auto simp: bind_outcome_def split: sum.splits)

lemma for_up_outcome_invariant:
  assumes "P 0 s" and "fold_outcome f [0..<n] s = Inr t"
    and "\<And>i s s'. i < n \<Longrightarrow> P i s \<Longrightarrow> f i s = Inr s' \<Longrightarrow> P (Suc i) s'"
  shows "P n t"
  using assms(2,3)
proof (induction n arbitrary: t)
  case 0
  then show ?case using assms(1) by simp
next
  case (Suc n)
  from Suc.prems(1) obtain r where r: "fold_outcome f [0..<n] s = Inr r" "f n r = Inr t"
    by (auto simp: fold_outcome_append bind_outcome_Inr_iff)
  have "P n r" by (rule Suc.IH [OF r(1)]) (auto intro: Suc.prems(2))
  then show ?case using Suc.prems(2) r(2) by blast
qed

lemma for_up_outcome_total:
  assumes "P 0 s" and "\<And>i s. i < n \<Longrightarrow> P i s \<Longrightarrow> \<exists>s'. f i s = Inr s' \<and> P (Suc i) s'"
  shows "\<exists>t. fold_outcome f [0..<n] s = Inr t \<and> P n t"
  using assms(2)
proof (induction n)
  case 0
  then show ?case using assms(1) by simp
next
  case (Suc n)
  then obtain r where "fold_outcome f [0..<n] s = Inr r" "P n r" by (metis less_SucI)
  moreover from this obtain t where "f n r = Inr t" "P (Suc n) t" using Suc.prems by blast
  ultimately show ?case by (auto simp: fold_outcome_append)
qed

section \<open>Words\<close>

text \<open>
  The conversions the limb arithmetic uses: a widening cast keeps the value, a narrowing
  cast reduces it modulo \<open>2 ^ 32\<close>, a right shift divides.
\<close>

lemma u32_bound: "unat (x :: u32) < 2 ^ 32"
  using unsigned_less [of x, where ?'a = nat] by simp

lemma u32_uint_bound: "uint (x :: u32) < 2 ^ 32"
  using unsigned_less [of x, where ?'a = int] by simp

lemma u32_uint_nonneg: "0 \<le> uint (x :: u32)"
  by simp

lemma u64_bound: "unat (x :: u64) < 2 ^ 64"
  using unsigned_less [of x, where ?'a = nat] by simp

lemma unat_widen [simp]: "unat (ucast (x :: u32) :: u64) = unat x"
  using u32_bound [of x] by (simp add: unsigned_ucast_eq take_bit_nat_eq_self)

lemma unat_narrow: "unat (ucast (x :: u64) :: u32) = unat x mod 2 ^ 32"
  by (simp add: unsigned_ucast_eq take_bit_eq_mod)

lemma unat_drop: "unat (drop_bit n (x :: 'a::len word)) = unat x div 2 ^ n"
  by (subst unat_drop_bit_eq) (simp add: drop_bit_eq_div)

lemma unat_high: "unat (drop_bit 32 (x :: u64)) = unat x div 2 ^ 32"
  by (subst unat_drop_bit_eq) (simp add: drop_bit_eq_div)

lemma unat_add_u64: "unat a + unat b < 2 ^ 64 \<Longrightarrow> unat (a + b :: u64) = unat a + unat b"
  by (simp add: unat_word_ariths)

lemma unat_mult_u64: "unat a * unat b < 2 ^ 64 \<Longrightarrow> unat (a * b :: u64) = unat a * unat b"
  by (simp add: unat_word_ariths)

lemma narrow_high_split:
  "unat (ucast (x :: u64) :: u32) + 2 ^ 32 * unat (drop_bit 32 x) = unat x"
  unfolding unat_narrow unat_high by (metis mod_mult_div_eq)

text \<open>Or-ing disjoint bit fields adds them: the \<open>(high << n) | low\<close> idiom.\<close>

lemma nat_push_or: "(m :: nat) < 2 ^ n \<Longrightarrow> push_bit n k OR m = 2 ^ n * k + m"
proof -
  assume "m < 2 ^ n"
  then have "m = take_bit n m" by (simp add: take_bit_nat_eq_self)
  then have "push_bit n k AND m = 0"
    by (metis (no_types, lifting) and.commute bit_and_iff bit_eqI bit_push_bit_iff bit_take_bit_iff
        bit_0_eq bot_apply bot_bool_def not_less)
  then have "push_bit n k + m = push_bit n k OR m" by (rule disjunctive_add_eq_or)
  then show ?thesis by (simp add: push_bit_eq_mult mult.commute)
qed

lemma unat_push_or:
  assumes "unat w * 2 ^ n < 2 ^ LENGTH('a)" and "unat c < 2 ^ n"
  shows "unat (push_bit n w OR c) = 2 ^ n * unat (w :: 'a::len word) + unat c"
proof -
  have "take_bit LENGTH('a) (push_bit n (unat w)) = push_bit n (unat w)"
    using assms(1) by (simp add: take_bit_nat_eq_self push_bit_eq_mult)
  then show ?thesis
    using nat_push_or [OF assms(2), of "unat w"] by (simp add: unsigned_or_eq unsigned_push_bit_eq)
qed

lemma mod_low_high: "(u :: nat) < b \<Longrightarrow> (u + b * m) mod (b * n) = u + b * (m mod n)"
  by (simp add: mod_mult2_eq)

lemma bit_unat: "bit (unat x) n = bit (x :: 'a::len word) n"
  by (simp add: bit_unsigned_iff)

lemma bit_word_iff_odd: "bit (x :: 'a::len word) n \<longleftrightarrow> odd (unat x div 2 ^ n)"
proof -
  have "bit (unat x) n = odd (unat x div 2 ^ n)" by (rule bit_iff_odd)
  then show ?thesis by (simp only: bit_unat)
qed

end
