(* ===== verification/Big_Int.thy ===== *)
theory Big_Int
  imports VM_Prelude
begin

text \<open>
  The arbitrary-precision integers behind \<open>BigInt\<close> (\<open>bigint.rs\<close>): sign and magnitude over
  base \<open>2 ^ 32\<close> limbs, least significant limb first. This theory holds the data type, every
  integer operation of the source, and the correctness of the magnitude algorithms against
  the natural number a limb list denotes. The operators themselves are verified in
  \<open>Big_Int_Ops\<close>.
\<close>

section \<open>The data type\<close>

definition MAX_LIMBS :: nat where
  "MAX_LIMBS = 4096"

record big_int =
  negative :: bool
  limbs :: "u32 list"

definition overflow :: rust_err where
  "overflow = ErrMsg ''RangeError: BigInt is too large''"

datatype ordering = Less | Equal | Greater

definition zero_big :: big_int where
  "zero_big = \<lparr>negative = False, limbs = []\<rparr>"

definition is_zero :: "big_int \<Rightarrow> bool" where
  "is_zero b = (limbs b = [])"

definition is_negative :: "big_int \<Rightarrow> bool" where
  "is_negative b = negative b"

text \<open>\<open>while limbs.last() == Some(&0) { limbs.pop(); }\<close>\<close>

function pop_zeros :: "u32 list \<Rightarrow> u32 list" where
  "pop_zeros xs = (if xs \<noteq> [] \<and> last xs = 0 then pop_zeros (butlast xs) else xs)"
  by pat_completeness auto
termination
  by (relation "measure length") auto

declare pop_zeros.simps [simp del]

definition normalized :: "bool \<Rightarrow> u32 list \<Rightarrow> big_int" where
  "normalized neg ls =
     (let ls = pop_zeros ls in \<lparr>negative = neg \<and> ls \<noteq> [], limbs = ls\<rparr>)"

definition unsigned_abs :: "u64 \<Rightarrow> u64" where
  "unsigned_abs v = (if sint v < 0 then - v else v)"

definition from_i64 :: "u64 \<Rightarrow> big_int" where
  "from_i64 v =
     (let magnitude = unsigned_abs v
      in normalized (sint v < 0) [ucast magnitude, ucast (drop_bit 32 magnitude)])"

section \<open>Magnitude helpers\<close>

text \<open>\<open>*a.get(index).unwrap_or(&0)\<close>\<close>

definition limb_at :: "u32 list \<Rightarrow> nat \<Rightarrow> u32" where
  "limb_at a i = (case get_at a i of None \<Rightarrow> 0 | Some x \<Rightarrow> x)"

definition cmp_limb :: "u32 \<Rightarrow> u32 \<Rightarrow> ordering" where
  "cmp_limb x y = (if x < y then Less else if x = y then Equal else Greater)"

fun cmp_zip :: "u32 list \<Rightarrow> u32 list \<Rightarrow> ordering" where
  "cmp_zip (x # xs) (y # ys) = (if x \<noteq> y then cmp_limb x y else cmp_zip xs ys)"
| "cmp_zip _ _ = Equal"

definition cmp_magnitude :: "u32 list \<Rightarrow> u32 list \<Rightarrow> ordering" where
  "cmp_magnitude a b =
     (if length a \<noteq> length b then (if length a < length b then Less else Greater)
      else cmp_zip (rev a) (rev b))"

definition add_step :: "u32 list \<Rightarrow> u32 list \<Rightarrow> nat \<Rightarrow> u32 list \<times> u64 \<Rightarrow> u32 list \<times> u64" where
  "add_step a b index = (\<lambda>(out, carry).
     let sum = carry + ucast (limb_at a index) + ucast (limb_at b index)
     in (out @ [ucast sum], drop_bit 32 sum))"

definition add_magnitude :: "u32 list \<Rightarrow> u32 list \<Rightarrow> u32 list outcome" where
  "add_magnitude a b =
     (let (out, carry) = fold (add_step a b) [0..<max (length a) (length b)] ([], 0);
          out = (if carry > 0 then out @ [ucast carry] else out)
      in if length out > MAX_LIMBS then Inl overflow else Inr out)"

text \<open>
  The differences are \<open>i64\<close> values between \<open>-2 ^ 32\<close> and \<open>2 ^ 32\<close>, so an \<open>int\<close> carries
  them; the cast back to \<open>u32\<close> is \<open>word_of_int\<close>.
\<close>

definition sub_step :: "u32 list \<Rightarrow> u32 list \<Rightarrow> nat \<Rightarrow> u32 list \<times> int \<Rightarrow> u32 list \<times> int" where
  "sub_step a b index = (\<lambda>(out, borrow).
     let diff = uint (a ! index) - uint (limb_at b index) - borrow
     in if diff < 0 then (out @ [word_of_int (diff + 2 ^ 32)], 1)
        else (out @ [word_of_int diff], 0))"

definition sub_magnitude :: "u32 list \<Rightarrow> u32 list \<Rightarrow> u32 list" where
  "sub_magnitude a b = fst (fold (sub_step a b) [0..<length a] ([], 0))"

definition mul_inner :: "u32 \<Rightarrow> u32 list \<Rightarrow> nat \<Rightarrow> nat \<Rightarrow> u32 list \<times> u64 \<Rightarrow> u32 list \<times> u64" where
  "mul_inner x b i j = (\<lambda>(out, carry).
     let slot = i + j;
         total = ucast (out ! slot) + ucast x * ucast (b ! j) + carry
     in (out[slot := ucast total], drop_bit 32 total))"

text \<open>The trailing carry loop indexes \<open>out[slot]\<close> with a growing slot: past the end it panics.\<close>

function mul_carry :: "u32 list \<Rightarrow> nat \<Rightarrow> u64 \<Rightarrow> u32 list outcome" where
  "mul_carry out slot carry =
     (if carry = 0 then Inr out
      else if slot < length out then
        (let total = ucast (out ! slot) + carry
         in mul_carry (out[slot := ucast total]) (Suc slot) (drop_bit 32 total))
      else Inl Panicked)"
  by pat_completeness auto
termination
  by (relation "measure (\<lambda>(out, slot, carry). length out - slot)") auto

declare mul_carry.simps [simp del]

definition mul_row :: "u32 list \<Rightarrow> u32 list \<Rightarrow> nat \<Rightarrow> u32 list \<Rightarrow> u32 list outcome" where
  "mul_row a b i out =
     (let (out, carry) = fold (mul_inner (a ! i) b i) [0..<length b] (out, 0)
      in mul_carry out (i + length b) carry)"

definition mul_magnitude :: "u32 list \<Rightarrow> u32 list \<Rightarrow> u32 list outcome" where
  "mul_magnitude a b =
     (if a = [] \<or> b = [] then Inr []
      else if length a + length b > MAX_LIMBS then Inl overflow
      else fold_outcome (mul_row a b) [0..<length a] (replicate (length a + length b) 0))"

text \<open>\<open>(a[bit / 32] >> (bit % 32)) & 1\<close>\<close>

definition limb_bit :: "u32 list \<Rightarrow> nat \<Rightarrow> u32" where
  "limb_bit a k = drop_bit (k mod 32) (a ! (k div 32)) AND 1"

fun shl1_loop :: "u32 list \<Rightarrow> u32 \<Rightarrow> u32 list \<times> u32" where
  "shl1_loop [] carry = ([], carry)"
| "shl1_loop (limb # ls) carry =
     (let shifted = push_bit 1 (ucast limb :: u64) OR ucast carry;
          (rest, high) = shl1_loop ls (ucast (drop_bit 32 shifted))
      in (ucast shifted # rest, high))"

definition divmod_step ::
  "u32 list \<Rightarrow> u32 list \<Rightarrow> nat \<Rightarrow> u32 list \<times> u32 list \<Rightarrow> u32 list \<times> u32 list" where
  "divmod_step a b k = (\<lambda>(quotient, remainder).
     let (remainder, carry) = shl1_loop remainder (limb_bit a k);
         remainder = pop_zeros (if carry > 0 then remainder @ [carry] else remainder)
     in if cmp_magnitude remainder b \<noteq> Less
        then (quotient[k div 32 := quotient ! (k div 32) OR push_bit (k mod 32) 1],
              pop_zeros (sub_magnitude remainder b))
        else (quotient, remainder))"

definition divmod_magnitude :: "u32 list \<Rightarrow> u32 list \<Rightarrow> u32 list \<times> u32 list" where
  "divmod_magnitude a b =
     (if cmp_magnitude a b = Less then ([], a)
      else fold (divmod_step a b) (rev [0..<length a * 32]) (replicate (length a) 0, []))"

text \<open>
  One pass of the repeated short division of \<open>to_radix\<close> and \<open>to_decimal\<close>, from the most
  significant limb down; the first list is the magnitude in that order.
\<close>

fun short_div_loop :: "u64 \<Rightarrow> u32 list \<Rightarrow> u64 \<Rightarrow> u32 list \<times> u64" where
  "short_div_loop d [] r = ([], r)"
| "short_div_loop d (limb # ls) r =
     (let current = push_bit 32 r OR ucast limb;
          (rest, r') = short_div_loop d ls (current mod d)
      in (ucast (current div d) # rest, r'))"

definition short_div :: "u64 \<Rightarrow> u32 list \<Rightarrow> u32 list \<times> u64" where
  "short_div d ls = (let (q, r) = short_div_loop d (rev ls) 0 in (pop_zeros (rev q), r))"

section \<open>Operators\<close>

definition add_big :: "big_int \<Rightarrow> big_int \<Rightarrow> big_int outcome" where
  "add_big a b =
     (if negative a = negative b then
        bind_outcome (add_magnitude (limbs a) (limbs b)) (\<lambda>m. Inr (normalized (negative a) m))
      else case cmp_magnitude (limbs a) (limbs b) of
        Equal \<Rightarrow> Inr zero_big
      | Greater \<Rightarrow> Inr (normalized (negative a) (sub_magnitude (limbs a) (limbs b)))
      | Less \<Rightarrow> Inr (normalized (negative b) (sub_magnitude (limbs b) (limbs a))))"

definition negate :: "big_int \<Rightarrow> big_int" where
  "negate a = normalized (\<not> negative a) (limbs a)"

definition sub_big :: "big_int \<Rightarrow> big_int \<Rightarrow> big_int outcome" where
  "sub_big a b = add_big a (negate b)"

definition mul_big :: "big_int \<Rightarrow> big_int \<Rightarrow> big_int outcome" where
  "mul_big a b =
     bind_outcome (mul_magnitude (limbs a) (limbs b))
       (\<lambda>m. Inr (normalized (negative a \<noteq> negative b) m))"

definition division_by_zero :: rust_err where
  "division_by_zero = ErrMsg ''RangeError: Division by zero''"

definition div_big :: "big_int \<Rightarrow> big_int \<Rightarrow> big_int outcome" where
  "div_big a b =
     (if is_zero b then Inl division_by_zero
      else Inr (normalized (negative a \<noteq> negative b) (fst (divmod_magnitude (limbs a) (limbs b)))))"

definition rem_big :: "big_int \<Rightarrow> big_int \<Rightarrow> big_int outcome" where
  "rem_big a b =
     (if is_zero b then Inl division_by_zero
      else Inr (normalized (negative a) (snd (divmod_magnitude (limbs a) (limbs b)))))"

definition leading_zeros :: "u32 \<Rightarrow> nat" where
  "leading_zeros x = length (takeWhile (\<lambda>k. \<not> bit x k) (rev [0..<32]))"

definition bit_length :: "big_int \<Rightarrow> nat" where
  "bit_length b =
     (if limbs b = [] then 0
      else (length (limbs b) - 1) * 32 + (32 - leading_zeros (last (limbs b))))"

definition pow_step :: "u32 list \<Rightarrow> nat \<Rightarrow> nat \<Rightarrow> big_int \<times> big_int \<Rightarrow> (big_int \<times> big_int) outcome" where
  "pow_step e bits k = (\<lambda>(result, base).
     bind_outcome (if limb_bit e k = 1 then mul_big result base else Inr result) (\<lambda>result.
     bind_outcome (if k + 1 < bits then mul_big base base else Inr base) (\<lambda>base.
     Inr (result, base))))"

definition pow_big :: "big_int \<Rightarrow> big_int \<Rightarrow> big_int outcome" where
  "pow_big a e =
     (if negative e then Inl (ErrMsg ''RangeError: Exponent must be non-negative'')
      else bind_outcome
        (fold_outcome (pow_step (limbs e) (bit_length e)) [0..<bit_length e] (from_i64 1, a))
        (\<lambda>(result, base). Inr result))"

fun compare_big :: "big_int \<Rightarrow> big_int \<Rightarrow> ordering" where
  "compare_big a b =
     (case (negative a, negative b) of
        (False, True) \<Rightarrow> Greater
      | (True, False) \<Rightarrow> Less
      | (False, False) \<Rightarrow> cmp_magnitude (limbs a) (limbs b)
      | (True, True) \<Rightarrow> cmp_magnitude (limbs b) (limbs a))"

declare compare_big.simps [simp del]

definition small_shift :: "big_int \<Rightarrow> nat outcome" where
  "small_shift amount =
     (if length (limbs amount) > 1 then Inl overflow
      else let bits = unat (limb_at (limbs amount) 0)
           in if bits > MAX_LIMBS * 32 then Inl overflow else Inr bits)"

fun shl_loop :: "nat \<Rightarrow> u32 list \<Rightarrow> u32 \<Rightarrow> u32 list \<times> u32" where
  "shl_loop offset [] carry = ([], carry)"
| "shl_loop offset (limb # ls) carry =
     (let (rest, high) = shl_loop offset ls (if offset = 0 then 0 else drop_bit (32 - offset) limb)
      in ((push_bit offset limb OR carry) # rest, high))"

text \<open>\<open>shl\<close> and \<open>shr\<close> hand a negative amount to each other, negated; the common bodies for a
  non-negative amount come first.\<close>

definition shl_nonneg :: "big_int \<Rightarrow> big_int \<Rightarrow> big_int outcome" where
  "shl_nonneg a amount =
     bind_outcome (small_shift amount) (\<lambda>bits.
       let (shifted, carry) = shl_loop (bits mod 32) (limbs a) 0;
           ls = replicate (bits div 32) 0 @ shifted;
           ls = (if carry > 0 then ls @ [carry] else ls)
       in if length ls > MAX_LIMBS then Inl overflow else Inr (normalized (negative a) ls))"

definition shr_limb :: "u32 list \<Rightarrow> nat \<Rightarrow> nat \<Rightarrow> u32" where
  "shr_limb ls offset index =
     drop_bit offset (ls ! index) OR
     (if offset = 0 then 0
      else case get_at ls (Suc index) of None \<Rightarrow> 0 | Some next \<Rightarrow> push_bit (32 - offset) next)"

definition shr_nonneg :: "big_int \<Rightarrow> big_int \<Rightarrow> big_int outcome" where
  "shr_nonneg a amount =
     bind_outcome (small_shift amount) (\<lambda>bits.
       if bits div 32 \<ge> length (limbs a)
       then Inr (if negative a then from_i64 (- 1) else zero_big)
       else
         let shifted = normalized (negative a)
               (map (shr_limb (limbs a) (bits mod 32)) [bits div 32..<length (limbs a)])
         in if negative a then
              bind_outcome (shl_nonneg shifted amount) (\<lambda>restored.
                if compare_big restored a \<noteq> Equal then sub_big shifted (from_i64 1)
                else Inr shifted)
            else Inr shifted)"

definition shl_big :: "big_int \<Rightarrow> big_int \<Rightarrow> big_int outcome" where
  "shl_big a amount =
     (if negative amount then shr_nonneg a (negate amount) else shl_nonneg a amount)"

definition shr_big :: "big_int \<Rightarrow> big_int \<Rightarrow> big_int outcome" where
  "shr_big a amount =
     (if negative amount then shl_nonneg a (negate amount) else shr_nonneg a amount)"

fun carry_in :: "u32 list \<Rightarrow> u64 \<Rightarrow> u32 list" where
  "carry_in [] carry = []"
| "carry_in (limb # ls) carry =
     (let sum = ucast limb + carry; carry = drop_bit 32 sum
      in ucast sum # (if carry = 0 then ls else carry_in ls carry))"

text \<open>\<open>limbs.resize(width, 0)\<close>: pads with zeros or truncates.\<close>

definition resize_limbs :: "u32 list \<Rightarrow> nat \<Rightarrow> u32 list" where
  "resize_limbs ls width = take width ls @ replicate (width - length ls) 0"

definition twos_complement :: "big_int \<Rightarrow> nat \<Rightarrow> u32 list" where
  "twos_complement b width =
     (let ls = resize_limbs (limbs b) width
      in if \<not> negative b then ls else carry_in (map (\<lambda>limb. NOT limb) ls) 1)"

definition from_twos_complement :: "u32 list \<Rightarrow> big_int" where
  "from_twos_complement ls =
     (if \<not> (ls \<noteq> [] \<and> drop_bit 31 (last ls) = 1) then normalized False ls
      else normalized True (carry_in (map (\<lambda>limb. NOT limb) ls) 1))"

definition bitwise :: "(u32 \<Rightarrow> u32 \<Rightarrow> u32) \<Rightarrow> big_int \<Rightarrow> big_int \<Rightarrow> big_int outcome" where
  "bitwise f a b =
     (let width = max (length (limbs a)) (length (limbs b)) + 1
      in Inr (from_twos_complement
           (map (\<lambda>(x, y). f x y) (zip (twos_complement a width) (twos_complement b width)))))"

definition bitand :: "big_int \<Rightarrow> big_int \<Rightarrow> big_int outcome" where
  "bitand = bitwise (AND)"

definition bitor :: "big_int \<Rightarrow> big_int \<Rightarrow> big_int outcome" where
  "bitor = bitwise (OR)"

definition bitxor :: "big_int \<Rightarrow> big_int \<Rightarrow> big_int outcome" where
  "bitxor = bitwise (XOR)"

definition bitnot :: "big_int \<Rightarrow> big_int outcome" where
  "bitnot a = sub_big (negate a) (from_i64 1)"

definition mask_limb :: "nat \<Rightarrow> nat \<Rightarrow> u32 \<Rightarrow> u32" where
  "mask_limb bits index limb =
     (let low = index * 32
      in if low \<ge> bits then 0
         else if low + 32 > bits then limb AND (push_bit (bits - low) 1 - 1)
         else limb)"

definition extend_limb :: "nat \<Rightarrow> nat \<Rightarrow> u32 \<Rightarrow> u32" where
  "extend_limb bits index limb =
     (let low = index * 32
      in if low \<ge> bits then - 1
         else if low + 32 > bits then limb OR NOT (push_bit (bits - low) 1 - 1)
         else limb)"

definition map_index :: "(nat \<Rightarrow> u32 \<Rightarrow> u32) \<Rightarrow> u32 list \<Rightarrow> u32 list" where
  "map_index f ls = map (\<lambda>i. f i (ls ! i)) [0..<length ls]"

definition as_n_bit :: "big_int \<Rightarrow> nat \<Rightarrow> bool \<Rightarrow> big_int outcome" where
  "as_n_bit a bits is_signed =
     (if bits = 0 then Inr zero_big
      else if (is_signed \<and> bits > bit_length a) \<or>
              (\<not> is_signed \<and> \<not> negative a \<and> bits \<ge> bit_length a) then Inr a
      else if bits > MAX_LIMBS * 32 then Inl overflow
      else
        let width = (bits + 31) div 32 + 1;
            ls = map_index (mask_limb bits) (twos_complement a width);
            top_bit_set = (limb_bit ls (bits - 1) = 1)
        in if is_signed \<and> top_bit_set
           then Inr (from_twos_complement (map_index (extend_limb bits) ls))
           else Inr (normalized False ls))"

section \<open>Conversions\<close>

fun to_words_loop :: "u32 list \<Rightarrow> u64 list" where
  "to_words_loop [] = []"
| "to_words_loop [low] = [ucast low]"
| "to_words_loop (low # high # ls) = (push_bit 32 (ucast high) OR ucast low) # to_words_loop ls"

definition to_words :: "big_int \<Rightarrow> bool \<times> u64 list" where
  "to_words b = (negative b, to_words_loop (limbs b))"

definition from_words :: "bool \<Rightarrow> u64 list \<Rightarrow> big_int" where
  "from_words neg words =
     normalized neg (concat (map (\<lambda>word. [ucast word, ucast (drop_bit 32 word)]) words))"

text \<open>Decimal digits as the formatting machinery of Rust prints an unsigned integer.\<close>

fun dec_digits :: "nat \<Rightarrow> rstring" where
  "dec_digits n = (if n < 10 then [48 + n] else dec_digits (n div 10) @ [48 + n mod 10])"

declare dec_digits.simps [simp del]

definition pad9 :: "nat \<Rightarrow> rstring" where
  "pad9 n = replicate (9 - length (dec_digits n)) 48 @ dec_digits n"

definition from_digit :: "nat \<Rightarrow> rchar" where
  "from_digit d = (if d < 10 then 48 + d else 87 + d)"

definition to_digit :: "nat \<Rightarrow> rchar \<Rightarrow> nat option" where
  "to_digit radix c =
     (let d = (if 48 \<le> c \<and> c \<le> 57 then Some (c - 48)
               else if 97 \<le> c \<and> c \<le> 122 then Some (c - 87)
               else if 65 \<le> c \<and> c \<le> 90 then Some (c - 55)
               else None)
      in case d of None \<Rightarrow> None | Some d \<Rightarrow> if d < radix then Some d else None)"

text \<open>
  The outer loop of \<open>to_radix\<close> and \<open>to_decimal\<close>: divide until the magnitude is empty, pushing
  the remainders. \<open>None\<close> is a loop that does not end.
\<close>

partial_function (option) short_div_digits :: "u64 \<Rightarrow> u32 list \<Rightarrow> u64 list option" where
  "short_div_digits d ls =
     (if ls = [] then Some []
      else Option.bind (short_div_digits d (fst (short_div d ls)))
             (\<lambda>rest. Some (snd (short_div d ls) # rest)))"

definition to_decimal :: "big_int \<Rightarrow> rstring option" where
  "to_decimal b =
     (if is_zero b then Some [48]
      else Option.bind (short_div_digits 1000000000 (limbs b)) (\<lambda>chunks.
        Some ((if negative b then [45] else []) @
          (case rev chunks of
             [] \<Rightarrow> dec_digits 0
           | first # rest \<Rightarrow> dec_digits (unat first) @ concat (map (\<lambda>c. pad9 (unat c)) rest)))))"

text \<open>A radix of 0 divides by zero and one above 36 has no digits: both panic.\<close>

definition to_radix :: "nat \<Rightarrow> big_int \<Rightarrow> rstring outcome option" where
  "to_radix radix b =
     (if radix = 10 then Option.bind (to_decimal b) (\<lambda>s. Some (Inr s))
      else if is_zero b then Some (Inr [48])
      else if radix = 0 \<or> radix > 36 then Some (Inl Panicked)
      else Option.bind (short_div_digits (of_nat radix) (limbs b)) (\<lambda>ds.
        Some (Inr (rev (map (\<lambda>d. from_digit (unat d)) ds @ (if negative b then [45] else []))))))"

definition is_whitespace :: "rchar \<Rightarrow> bool" where
  "is_whitespace c =
     ((9 \<le> c \<and> c \<le> 13) \<or> c = 32 \<or> c = 133 \<or> c = 160 \<or> c = 5760 \<or> (8192 \<le> c \<and> c \<le> 8202) \<or>
      c = 8232 \<or> c = 8233 \<or> c = 8239 \<or> c = 8287 \<or> c = 12288)"

definition trim :: "rstring \<Rightarrow> rstring" where
  "trim text = rev (dropWhile is_whitespace (rev (dropWhile is_whitespace text)))"

definition syntax_error :: rust_err where
  "syntax_error = ErrMsg ''SyntaxError: Cannot convert to a BigInt''"

definition parse_step :: "nat \<Rightarrow> rchar \<Rightarrow> big_int \<Rightarrow> big_int outcome" where
  "parse_step radix c value =
     (if c = 95 then Inr value
      else case to_digit radix c of
        None \<Rightarrow> Inl syntax_error
      | Some digit \<Rightarrow>
          bind_outcome (mul_big value (from_i64 (of_nat radix)))
            (\<lambda>value. add_big value (from_i64 (of_nat digit))))"

text \<open>The sign, then the radix prefix (\<open>0x\<close>, \<open>0o\<close>, \<open>0b\<close> in either case), of a trimmed text.\<close>

definition split_sign :: "rstring \<Rightarrow> bool \<times> rstring" where
  "split_sign text =
     (case text of [] \<Rightarrow> (False, text)
      | c # rest \<Rightarrow> if c = 45 then (True, rest) else if c = 43 then (False, rest) else (False, text))"

definition split_radix :: "rstring \<Rightarrow> nat \<times> rstring" where
  "split_radix rest =
     (case rest of
        c1 # c2 # d \<Rightarrow>
          if c1 = 48 \<and> (c2 = 120 \<or> c2 = 88) then (16, d)
          else if c1 = 48 \<and> (c2 = 111 \<or> c2 = 79) then (8, d)
          else if c1 = 48 \<and> (c2 = 98 \<or> c2 = 66) then (2, d)
          else (10, rest)
      | _ \<Rightarrow> (10, rest))"

definition parse_big :: "rstring \<Rightarrow> big_int outcome" where
  "parse_big text =
     (let text = trim text
      in if text = [] then Inr zero_big
         else
           let (neg, rest) = split_sign text; (radix, digits) = split_radix rest
           in if digits = [] then Inl syntax_error
              else bind_outcome (fold_outcome (parse_step radix) digits zero_big)
                (\<lambda>value. Inr (value\<lparr>negative := neg \<and> \<not> is_zero value\<rparr>)))"

section \<open>What a magnitude denotes\<close>

primrec mag_val :: "u32 list \<Rightarrow> nat" where
  "mag_val [] = 0"
| "mag_val (x # xs) = unat x + 2 ^ 32 * mag_val xs"

definition no_top_zero :: "u32 list \<Rightarrow> bool" where
  "no_top_zero ls = (ls = [] \<or> last ls \<noteq> 0)"

lemma mag_val_append: "mag_val (xs @ ys) = mag_val xs + 2 ^ (32 * length xs) * mag_val ys"
  by (induction xs) (simp_all add: power_add algebra_simps)

lemma mag_val_replicate0 [simp]: "mag_val (replicate n 0) = 0"
  by (induction n) simp_all

lemma mag_val_bound: "mag_val xs < 2 ^ (32 * length xs)"
proof (induction xs)
  case Nil
  then show ?case by simp
next
  case (Cons x xs)
  have "unat x + 2 ^ 32 * mag_val xs < 2 ^ 32 * Suc (mag_val xs)"
    using u32_bound [of x] by simp
  also have "\<dots> \<le> 2 ^ 32 * 2 ^ (32 * length xs)"
    using Cons by (intro mult_le_mono2) simp
  finally show ?case by (simp add: power_add)
qed

lemma limb_at_simps [simp]:
  "i < length a \<Longrightarrow> limb_at a i = a ! i"
  "length a \<le> i \<Longrightarrow> limb_at a i = 0"
  by (simp_all add: limb_at_def)

lemma mag_val_take_Suc:
  "mag_val (take (Suc i) a) = mag_val (take i a) + 2 ^ (32 * i) * unat (limb_at a i)"
proof (cases "i < length a")
  case True
  then show ?thesis by (simp add: take_Suc_conv_app_nth mag_val_append)
next
  case False
  then show ?thesis by simp
qed

lemma mag_val_update:
  "i < length a \<Longrightarrow>
   mag_val (a[i := y]) + 2 ^ (32 * i) * unat (a ! i) = mag_val a + 2 ^ (32 * i) * unat y"
proof (induction a arbitrary: i)
  case Nil
  then show ?case by simp
next
  case (Cons x xs)
  show ?case
  proof (cases i)
    case 0
    then show ?thesis by simp
  next
    case (Suc j)
    with Cons have "mag_val (xs[j := y]) + 2 ^ (32 * j) * unat (xs ! j) = mag_val xs + 2 ^ (32 * j) * unat y"
      by simp
    then have "2 ^ 32 * (mag_val (xs[j := y]) + 2 ^ (32 * j) * unat (xs ! j)) =
      2 ^ 32 * (mag_val xs + 2 ^ (32 * j) * unat y)" by simp
    then show ?thesis using Suc by (simp add: power_add algebra_simps)
  qed
qed

lemma mag_val_butlast:
  "xs \<noteq> [] \<Longrightarrow> mag_val xs = mag_val (butlast xs) + 2 ^ (32 * (length xs - 1)) * unat (last xs)"
  using mag_val_append [of "butlast xs" "[last xs]"] by simp

lemma pop_zeros_val [simp]: "mag_val (pop_zeros xs) = mag_val xs"
proof (induction xs rule: pop_zeros.induct)
  case (1 xs)
  then show ?case
    by (cases "xs \<noteq> [] \<and> last xs = 0") (auto simp: pop_zeros.simps [of xs] mag_val_butlast)
qed

lemma pop_zeros_no_top_zero [simp]: "no_top_zero (pop_zeros xs)"
proof (induction xs rule: pop_zeros.induct)
  case (1 xs)
  then show ?case
    by (cases "xs \<noteq> [] \<and> last xs = 0") (auto simp: pop_zeros.simps [of xs] no_top_zero_def)
qed

lemma pop_zeros_id: "no_top_zero xs \<Longrightarrow> pop_zeros xs = xs"
  by (subst pop_zeros.simps) (auto simp: no_top_zero_def)

lemma length_pop_zeros: "length (pop_zeros xs) \<le> length xs"
proof (induction xs rule: pop_zeros.induct)
  case (1 xs)
  then show ?case
    by (cases "xs \<noteq> [] \<and> last xs = 0") (auto simp: pop_zeros.simps [of xs])
qed

text \<open>A magnitude without leading zeros is at least the weight of its top limb.\<close>

lemma no_top_zero_lower:
  assumes "no_top_zero xs" and "xs \<noteq> []"
  shows "2 ^ (32 * (length xs - 1)) \<le> mag_val xs"
proof -
  have "last xs \<noteq> 0" using assms by (simp add: no_top_zero_def)
  then have "1 \<le> unat (last xs)" by (simp add: unat_gt_0 Suc_leI)
  then have "2 ^ (32 * (length xs - 1)) * 1 \<le> (2 :: nat) ^ (32 * (length xs - 1)) * unat (last xs)"
    by (intro mult_le_mono2)
  then show ?thesis using mag_val_butlast [OF assms(2)] by linarith
qed

lemma no_top_zero_0_iff: "no_top_zero xs \<Longrightarrow> mag_val xs = 0 \<longleftrightarrow> xs = []"
  by (metis no_top_zero_lower mag_val.simps(1) le_zero_eq power_not_zero zero_neq_numeral)

text \<open>Pushing the low half of a 64-bit sum and carrying its high half keeps the value.\<close>

lemma limb_carry:
  assumes "length out = i"
  shows "mag_val (out @ [ucast (w :: u64)]) + 2 ^ (32 * Suc i) * unat (drop_bit 32 w) =
    mag_val out + 2 ^ (32 * i) * unat w"
proof -
  have "mag_val (out @ [ucast w]) + 2 ^ (32 * Suc i) * unat (drop_bit 32 w) =
      mag_val out + 2 ^ (32 * i) * (unat (ucast w :: u32) + 2 ^ 32 * unat (drop_bit 32 w))"
    by (simp add: assms mag_val_append power_add algebra_simps)
  also have "\<dots> = mag_val out + 2 ^ (32 * i) * unat w" by (simp only: narrow_high_split)
  finally show ?thesis .
qed

section \<open>Comparison\<close>

definition cmp_of :: "'a::linorder \<Rightarrow> 'a \<Rightarrow> ordering" where
  "cmp_of m n = (if m < n then Less else if m = n then Equal else Greater)"

lemma mag_val_top_less:
  assumes "length xs = length ys" and "x < y"
  shows "mag_val (xs @ [x]) < mag_val (ys @ [y])"
proof -
  have "Suc (unat x) \<le> unat y" using assms(2) by (simp add: word_less_nat_alt Suc_leI)
  then have "2 ^ (32 * length ys) * Suc (unat x) \<le> 2 ^ (32 * length ys) * unat y"
    by (intro mult_le_mono2)
  then show ?thesis using mag_val_bound [of xs] assms(1) by (simp add: mag_val_append)
qed

lemma cmp_zip_mag:
  "length xs = length ys \<Longrightarrow> cmp_zip xs ys = cmp_of (mag_val (rev xs)) (mag_val (rev ys))"
proof (induction xs ys rule: list_induct2)
  case Nil
  then show ?case by (simp add: cmp_of_def)
next
  case (Cons x xs y ys)
  consider "x < y" | "y < x" | "x = y" by (meson linorder_cases)
  then show ?case
  proof cases
    case 3
    then show ?thesis using Cons by (simp add: cmp_of_def mag_val_append)
  qed (use Cons mag_val_top_less [of "rev xs" "rev ys" x y]
        mag_val_top_less [of "rev ys" "rev xs" y x] in \<open>auto simp: cmp_of_def cmp_limb_def\<close>)
qed

lemma mag_val_shorter:
  assumes "no_top_zero b" and "length a < length b"
  shows "mag_val a < mag_val b"
proof -
  have "b \<noteq> []" using assms(2) by auto
  have "mag_val a < 2 ^ (32 * length a)" by (rule mag_val_bound)
  also have "\<dots> \<le> 2 ^ (32 * (length b - 1))" using assms(2) by (intro power_increasing) auto
  also have "\<dots> \<le> mag_val b" by (rule no_top_zero_lower [OF assms(1) \<open>b \<noteq> []\<close>])
  finally show ?thesis .
qed

lemma cmp_magnitude_correct:
  assumes "no_top_zero a" and "no_top_zero b"
  shows "cmp_magnitude a b = cmp_of (mag_val a) (mag_val b)"
  using assms mag_val_shorter [of a b] mag_val_shorter [of b a] cmp_zip_mag [of "rev a" "rev b"]
  by (cases "length a" "length b" rule: linorder_cases) (auto simp: cmp_magnitude_def cmp_of_def)

section \<open>Addition and subtraction\<close>

lemma add_step_value:
  assumes "unat (carry :: u64) \<le> 1"
  shows "unat (carry + ucast (x :: u32) + ucast (y :: u32)) = unat carry + unat x + unat y"
proof -
  have "unat (carry + ucast x) = unat carry + unat x"
    using assms u32_bound [of x] by (subst unat_add_u64) auto
  then show ?thesis
    using assms u32_bound [of x] u32_bound [of y] by (subst unat_add_u64) auto
qed

fun add_inv :: "u32 list \<Rightarrow> u32 list \<Rightarrow> nat \<Rightarrow> u32 list \<times> u64 \<Rightarrow> bool" where
  "add_inv a b i (out, carry) \<longleftrightarrow> length out = i \<and> unat carry \<le> 1 \<and>
     mag_val out + 2 ^ (32 * i) * unat carry = mag_val (take i a) + mag_val (take i b)"

lemma add_step_inv: "add_inv a b i s \<Longrightarrow> add_inv a b (Suc i) (add_step a b i s)"
proof -
  assume inv: "add_inv a b i s"
  obtain out carry where s: "s = (out, carry)" by (cases s)
  define sum where "sum = carry + ucast (limb_at a i) + ucast (limb_at b i)"
  have c: "unat carry \<le> 1" and len: "length out = i" using inv s by auto
  have sv: "unat sum = unat carry + unat (limb_at a i) + unat (limb_at b i)"
    unfolding sum_def by (rule add_step_value [OF c])
  then have "unat sum < 2 * 2 ^ 32"
    using c u32_bound [of "limb_at a i"] u32_bound [of "limb_at b i"] by simp
  then have "unat (drop_bit 32 sum) \<le> 1" by (subst unat_high) simp
  moreover have "mag_val (out @ [ucast sum]) + 2 ^ (32 * Suc i) * unat (drop_bit 32 sum) =
      mag_val out + 2 ^ (32 * i) * unat sum"
    by (rule limb_carry) (simp add: len)
  moreover have "add_step a b i s = (out @ [ucast sum], drop_bit 32 sum)"
    by (simp add: s add_step_def Let_def sum_def)
  ultimately show ?thesis
    using inv len by (simp add: s sv mag_val_take_Suc distrib_left)
qed

lemma add_magnitude_correct:
  assumes "add_magnitude a b = Inr m"
  shows "mag_val m = mag_val a + mag_val b" and "length m \<le> MAX_LIMBS"
proof -
  let ?n = "max (length a) (length b)"
  obtain out carry where loop: "fold (add_step a b) [0..<?n] ([], 0) = (out, carry)"
    by (metis surj_pair)
  have "add_inv a b ?n (fold (add_step a b) [0..<?n] ([], 0))"
    by (rule for_up_invariant) (auto intro: add_step_inv)
  then have inv: "add_inv a b ?n (out, carry)" by (simp add: loop)
  have m: "m = (if carry > 0 then out @ [ucast carry] else out)" and "length m \<le> MAX_LIMBS"
    using assms by (auto simp: add_magnitude_def loop split: if_splits)
  then show "length m \<le> MAX_LIMBS" by simp
  have "unat (ucast carry :: u32) = unat carry" using inv by (simp add: unat_narrow)
  then show "mag_val m = mag_val a + mag_val b"
    using inv m by (auto simp: mag_val_append word_gt_0)
qed

lemma add_magnitude_total:
  assumes "length a < MAX_LIMBS" and "length b < MAX_LIMBS"
  shows "\<exists>m. add_magnitude a b = Inr m"
proof -
  let ?n = "max (length a) (length b)"
  have "add_inv a b ?n (fold (add_step a b) [0..<?n] ([], 0))"
    by (rule for_up_invariant) (auto intro: add_step_inv)
  then show ?thesis using assms by (auto simp: add_magnitude_def Let_def split: prod.splits)
qed

lemma add_magnitude_within:
  assumes "mag_val a + mag_val b < 2 ^ (32 * n)" and "length a \<le> n" and "length b \<le> n"
    and "n \<le> MAX_LIMBS"
  shows "\<exists>m. add_magnitude a b = Inr m"
proof -
  let ?n = "max (length a) (length b)"
  obtain out carry where loop: "fold (add_step a b) [0..<?n] ([], 0) = (out, carry)"
    by (metis surj_pair)
  have "add_inv a b ?n (fold (add_step a b) [0..<?n] ([], 0))"
    by (rule for_up_invariant) (auto intro: add_step_inv)
  then have inv: "add_inv a b ?n (out, carry)" by (simp add: loop)
  have "carry > 0 \<Longrightarrow> ?n < n"
  proof -
    assume "carry > 0"
    then have "2 ^ (32 * ?n) * 1 \<le> 2 ^ (32 * ?n) * unat carry"
      by (intro mult_le_mono2) (simp add: word_gt_0 unat_gt_0 Suc_leI)
    moreover have "mag_val out + 2 ^ (32 * ?n) * unat carry = mag_val a + mag_val b" using inv by simp
    ultimately have "(2 :: nat) ^ (32 * ?n) < 2 ^ (32 * n)" using assms(1) by linarith
    then show "?n < n" by (simp add: power_less_imp_less_exp)
  qed
  then show ?thesis using inv loop assms by (auto simp: add_magnitude_def)
qed

lemma add_magnitude_error: "add_magnitude a b = Inl e \<Longrightarrow> e = overflow"
  by (auto simp: add_magnitude_def Let_def split: prod.splits if_splits)

fun sub_inv :: "u32 list \<Rightarrow> u32 list \<Rightarrow> nat \<Rightarrow> u32 list \<times> int \<Rightarrow> bool" where
  "sub_inv a b i (out, borrow) \<longleftrightarrow> length out = i \<and> (borrow = 0 \<or> borrow = 1) \<and>
     int (mag_val out) - 2 ^ (32 * i) * borrow = int (mag_val (take i a)) - int (mag_val (take i b))"

lemma unat_of_diff: "0 \<le> d \<Longrightarrow> d < 2 ^ 32 \<Longrightarrow> int (unat (word_of_int d :: u32)) = d"
  by (simp add: uint_word_of_int unat_eq_nat_uint)

lemma sub_step_inv:
  assumes inv: "sub_inv a b i s" and i: "i < length a"
  shows "sub_inv a b (Suc i) (sub_step a b i s)"
proof -
  obtain out borrow where s: "s = (out, borrow)" by (cases s)
  define d where "d = uint (a ! i) - uint (limb_at b i) - borrow"
  define c where "c = (if d < 0 then 1 else 0 :: int)"
  have len: "length out = i" and bor: "borrow = 0 \<or> borrow = 1" using inv s by auto
  have "0 \<le> borrow" "borrow \<le> 1" using bor by auto
  then have "- (2 ^ 32) \<le> d" "d < 2 ^ 32"
    using u32_uint_bound [of "a ! i"] u32_uint_bound [of "limb_at b i"]
      u32_uint_nonneg [of "a ! i"] u32_uint_nonneg [of "limb_at b i"]
    unfolding d_def by linarith+
  then have "0 \<le> d + c * 2 ^ 32" "d + c * 2 ^ 32 < 2 ^ 32" by (simp_all add: c_def)
  moreover define w :: u32 where "w = word_of_int (d + c * 2 ^ 32)"
  ultimately have limb: "int (unat w) = d + c * 2 ^ 32"
    by (simp only: unat_of_diff)
  have step: "sub_step a b i s = (out @ [w], c)"
    by (simp add: s sub_step_def d_def c_def w_def)
  have "int (mag_val (out @ [w])) - 2 ^ (32 * Suc i) * c = int (mag_val out) + 2 ^ (32 * i) * d"
    using limb by (simp add: len mag_val_append power_add algebra_simps)
  moreover have "int (mag_val (take (Suc i) a)) - int (mag_val (take (Suc i) b)) =
      int (mag_val (take i a)) - int (mag_val (take i b)) + 2 ^ (32 * i) * (d + borrow)"
    using i by (simp add: mag_val_take_Suc d_def algebra_simps)
  moreover have "c = 0 \<or> c = 1" by (simp add: c_def)
  ultimately show ?thesis
    using inv len by (simp add: step) (simp add: s distrib_left)
qed

lemma sub_magnitude_correct:
  assumes "mag_val b \<le> mag_val a" and "length b \<le> length a"
  shows "mag_val (sub_magnitude a b) = mag_val a - mag_val b"
    and "length (sub_magnitude a b) = length a"
proof -
  obtain out borrow where loop: "fold (sub_step a b) [0..<length a] ([], 0) = (out, borrow)"
    by (metis surj_pair)
  have "sub_inv a b (length a) (fold (sub_step a b) [0..<length a] ([], 0))"
    by (rule for_up_invariant) (auto intro: sub_step_inv)
  then have inv: "sub_inv a b (length a) (out, borrow)" by (simp add: loop)
  then have "int (mag_val out) = int (mag_val a) - int (mag_val b) + 2 ^ (32 * length a) * borrow"
    using assms(2) by simp
  moreover have "borrow = 0"
  proof (rule ccontr)
    assume "borrow \<noteq> 0"
    then have "int (mag_val out) = int (mag_val a) - int (mag_val b) + 2 ^ (32 * length a)"
      using calculation inv by simp
    then have "int (2 ^ (32 * length a)) \<le> int (mag_val out)" using assms(1) by simp
    moreover have "mag_val out < 2 ^ (32 * length a)" using mag_val_bound [of out] inv by simp
    ultimately show False by (simp only: of_nat_le_iff)
  qed
  ultimately show "mag_val (sub_magnitude a b) = mag_val a - mag_val b"
    using loop by (simp add: sub_magnitude_def)
  show "length (sub_magnitude a b) = length a" using inv loop by (simp add: sub_magnitude_def)
qed

section \<open>Multiplication\<close>

lemma limb_store:
  assumes "slot < length out"
  shows "mag_val (out[slot := ucast (w :: u64)]) + 2 ^ (32 * Suc slot) * unat (drop_bit 32 w) +
      2 ^ (32 * slot) * unat (out ! slot) = mag_val out + 2 ^ (32 * slot) * unat w"
proof -
  have "2 ^ (32 * Suc slot) * unat (drop_bit 32 w) = 2 ^ (32 * slot) * (2 ^ 32 * unat (drop_bit 32 w))"
    by (simp add: power_add algebra_simps)
  moreover have "2 ^ (32 * slot) * unat w =
      2 ^ (32 * slot) * unat (ucast w :: u32) + 2 ^ (32 * slot) * (2 ^ 32 * unat (drop_bit 32 w))"
    using narrow_high_split [of w] by (metis distrib_left)
  ultimately show ?thesis using mag_val_update [OF assms, of "ucast w"] by linarith
qed

text \<open>The 64-bit accumulator of the inner loop never wraps.\<close>

lemma mul_total_bound:
  assumes "x < 2 ^ 32" and "y < 2 ^ 32" and "z < 2 ^ 32" and "c < (2 :: nat) ^ 32"
  shows "z + x * y + c < 2 ^ 64"
proof -
  have "x * y \<le> (2 ^ 32 - 1) * (2 ^ 32 - 1)" using assms by (intro mult_le_mono) auto
  then have "z + x * y + c \<le> (2 ^ 32 - 1) + (2 ^ 32 - 1) * (2 ^ 32 - 1) + (2 ^ 32 - 1)"
    using assms(3,4) by linarith
  also have "\<dots> < 2 ^ 64" by simp
  finally show ?thesis .
qed

lemma mul_total_value:
  assumes "unat carry < 2 ^ 32"
  shows "unat (ucast (z :: u32) + ucast (x :: u32) * ucast (y :: u32) + carry :: u64) =
    unat z + unat x * unat y + unat carry"
proof -
  have bound: "unat z + unat x * unat y + unat carry < 2 ^ 64"
    by (rule mul_total_bound [OF u32_bound u32_bound u32_bound assms])
  then have p: "unat (ucast x * ucast y :: u64) = unat x * unat y" by (subst unat_mult_u64) auto
  have "unat (ucast z + ucast x * ucast y :: u64) = unat z + unat x * unat y"
    using bound by (subst unat_add_u64) (auto simp: p)
  then show ?thesis using bound by (subst unat_add_u64) auto
qed

fun mul_inv :: "u32 \<Rightarrow> u32 list \<Rightarrow> nat \<Rightarrow> u32 list \<Rightarrow> nat \<Rightarrow> u32 list \<times> u64 \<Rightarrow> bool" where
  "mul_inv x b i out0 j (out, carry) \<longleftrightarrow> length out = length out0 \<and> unat carry < 2 ^ 32 \<and>
     mag_val out + 2 ^ (32 * (i + j)) * unat carry =
       mag_val out0 + 2 ^ (32 * i) * (unat x * mag_val (take j b)) \<and>
     (\<forall>k \<ge> i + j. k < length out0 \<longrightarrow> out ! k = out0 ! k)"

lemma mul_inner_inv:
  assumes inv: "mul_inv x b i out0 j s" and j: "j < length b" and room: "i + length b \<le> length out0"
  shows "mul_inv x b i out0 (Suc j) (mul_inner x b i j s)"
proof -
  obtain out carry where s: "s = (out, carry)" by (cases s)
  define w where "w = ucast (out ! (i + j)) + ucast x * ucast (b ! j) + carry"
  have c: "unat carry < 2 ^ 32" and len: "length out = length out0" using inv s by auto
  have wv: "unat w = unat (out ! (i + j)) + unat x * unat (b ! j) + unat carry"
    unfolding w_def by (rule mul_total_value [OF c])
  have step: "mul_inner x b i j s = (out[i + j := ucast w], drop_bit 32 w)"
    by (simp add: s mul_inner_def Let_def w_def)
  have "unat w < 2 ^ 32 * 2 ^ 32" using u64_bound [of w] by simp
  then have "unat (drop_bit 32 w) < 2 ^ 32" by (subst unat_high) (rule less_mult_imp_div_less)
  moreover have "mag_val (out[i + j := ucast w]) + 2 ^ (32 * Suc (i + j)) * unat (drop_bit 32 w) =
      mag_val out + 2 ^ (32 * (i + j)) * unat carry + 2 ^ (32 * (i + j)) * (unat x * unat (b ! j))"
    using limb_store [of "i + j" out w] j room len by (simp add: wv distrib_left)
  moreover have "mag_val (take (Suc j) b) = mag_val (take j b) + 2 ^ (32 * j) * unat (b ! j)"
    using j by (simp add: mag_val_take_Suc)
  ultimately show ?thesis
    using inv len by (simp add: step) (simp add: s power_add algebra_simps)
qed

lemma mul_carry_clear:
  assumes "slot < length out" and "out ! slot = 0" and "unat carry < 2 ^ 32"
  shows "mul_carry out slot carry = Inr (if carry = 0 then out else out[slot := ucast carry])"
proof -
  have "drop_bit 32 carry = 0"
    using assms(3) by (simp add: unat_high flip: unat_eq_0)
  then show ?thesis
    using assms by (simp add: mul_carry.simps [of out slot] mul_carry.simps [of _ "Suc slot" 0])
qed

fun rows_inv :: "u32 list \<Rightarrow> u32 list \<Rightarrow> nat \<Rightarrow> u32 list \<Rightarrow> bool" where
  "rows_inv a b i out \<longleftrightarrow> length out = length a + length b \<and>
     mag_val out = mag_val (take i a) * mag_val b \<and>
     (\<forall>k \<ge> i + length b. k < length a + length b \<longrightarrow> out ! k = 0)"

lemma mul_row_inv:
  assumes inv: "rows_inv a b i out" and i: "i < length a"
  shows "\<exists>out'. mul_row a b i out = Inr out' \<and> rows_inv a b (Suc i) out'"
proof -
  let ?lb = "length b"
  obtain out1 carry where loop: "fold (mul_inner (a ! i) b i) [0..<?lb] (out, 0) = (out1, carry)"
    by (metis surj_pair)
  have "mul_inv (a ! i) b i out ?lb (fold (mul_inner (a ! i) b i) [0..<?lb] (out, 0))"
    by (rule for_up_invariant) (use inv i in \<open>auto intro!: mul_inner_inv\<close>)
  then have m: "mul_inv (a ! i) b i out ?lb (out1, carry)" by (simp add: loop)
  have slot: "i + ?lb < length out1" "out1 ! (i + ?lb) = 0" and c: "unat carry < 2 ^ 32"
    using m inv i by auto
  define out2 where "out2 = (if carry = 0 then out1 else out1[i + ?lb := ucast carry])"
  have row: "mul_row a b i out = Inr out2"
    using mul_carry_clear [OF slot c] by (simp add: mul_row_def loop out2_def)
  have "mag_val out2 = mag_val out1 + 2 ^ (32 * (i + ?lb)) * unat carry"
    using mag_val_update [OF slot(1), of "ucast carry"] slot(2) c
    by (auto simp: out2_def unat_narrow)
  also have "\<dots> = mag_val (take i a) * mag_val b + 2 ^ (32 * i) * (unat (a ! i) * mag_val b)"
    using m inv by simp
  also have "\<dots> = mag_val (take (Suc i) a) * mag_val b"
    using i by (simp add: mag_val_take_Suc algebra_simps)
  finally show ?thesis using row m inv i by (auto simp: out2_def)
qed

lemma mul_magnitude_total:
  assumes "length a + length b \<le> MAX_LIMBS"
  shows "\<exists>m. mul_magnitude a b = Inr m \<and> mag_val m = mag_val a * mag_val b \<and>
    length m \<le> length a + length b"
proof (cases "a = [] \<or> b = []")
  case True
  then show ?thesis by (auto simp: mul_magnitude_def)
next
  case False
  have "\<exists>m. fold_outcome (mul_row a b) [0..<length a] (replicate (length a + length b) 0) = Inr m \<and>
      rows_inv a b (length a) m"
    by (rule for_up_outcome_total) (auto intro: mul_row_inv simp del: rows_inv.simps(1), simp)
  then show ?thesis using False assms by (auto simp: mul_magnitude_def)
qed

lemma mul_magnitude_overflow:
  "mul_magnitude a b = Inl e \<longleftrightarrow>
     e = overflow \<and> a \<noteq> [] \<and> b \<noteq> [] \<and> length a + length b > MAX_LIMBS"
proof (cases "length a + length b \<le> MAX_LIMBS")
  case True
  then show ?thesis using mul_magnitude_total [OF True] by auto
next
  case False
  then show ?thesis by (auto simp: mul_magnitude_def)
qed

end
