(* ===== verification/Big_Int_Long.thy ===== *)
theory Big_Int_Long
  imports Big_Int
begin

text \<open>
  The remaining magnitude algorithms of \<open>bigint.rs\<close>: bit-at-a-time long division, the short
  division behind the decimal and radix conversions, the shifts and the two's-complement
  forms. Each is shown to compute the arithmetic operation on the denoted number.
\<close>

section \<open>Long division\<close>

lemma shl1_loop_correct:
  assumes "shl1_loop ls carry = (rest, high)" and "unat carry \<le> 1"
  shows "length rest = length ls \<and> unat high \<le> 1 \<and>
    mag_val rest + 2 ^ (32 * length ls) * unat high = 2 * mag_val ls + unat carry"
  using assms
proof (induction ls arbitrary: carry rest high)
  case Nil
  then show ?case by simp
next
  case (Cons l ls)
  define w where "w = (push_bit 1 (ucast l :: u64) OR ucast carry)"
  obtain rest' where rec: "shl1_loop ls (ucast (drop_bit 32 w)) = (rest', high)"
    and rest: "rest = ucast w # rest'"
    using Cons.prems(1) by (auto simp: w_def Let_def split: prod.splits)
  have "unat (ucast l :: u64) * 2 ^ 1 < 2 ^ LENGTH(64)" using u32_bound [of l] by simp
  then have wv: "unat w = 2 * unat l + unat carry"
    unfolding w_def using Cons.prems(2) by (subst unat_push_or) auto
  then have "unat w < 2 * 2 ^ 32" using Cons.prems(2) u32_bound [of l] by simp
  then have high: "unat (drop_bit 32 w) \<le> 1" by (subst unat_high) simp
  then have nar: "unat (ucast (drop_bit 32 w) :: u32) = unat (drop_bit 32 w)"
    by (simp add: unat_narrow)
  have IH: "length rest' = length ls \<and> unat high \<le> 1 \<and>
      mag_val rest' + 2 ^ (32 * length ls) * unat high = 2 * mag_val ls + unat (drop_bit 32 w)"
    using Cons.IH [OF rec] high nar by simp
  have "mag_val rest + 2 ^ (32 * length (l # ls)) * unat high =
      unat (ucast w :: u32) + 2 ^ 32 * (mag_val rest' + 2 ^ (32 * length ls) * unat high)"
    by (simp add: rest power_add algebra_simps)
  also have "\<dots> = unat (ucast w :: u32) + 2 ^ 32 * unat (drop_bit 32 w) + 2 ^ 32 * (2 * mag_val ls)"
    using IH by (simp add: algebra_simps)
  also have "\<dots> = 2 * mag_val (l # ls) + unat carry"
    by (simp only: narrow_high_split wv) simp
  finally show ?case using IH rest by simp
qed

text \<open>The bit test and the bit set on a limb list are those of the denoted number.\<close>

lemma mag_val_div_limb:
  "mag_val a div 2 ^ (32 * i) = mag_val (drop i a)"
proof (cases "i \<le> length a")
  case True
  have "mag_val a = mag_val (take i a) + 2 ^ (32 * length (take i a)) * mag_val (drop i a)"
    by (metis append_take_drop_id mag_val_append)
  moreover have "mag_val (take i a) < 2 ^ (32 * i)" using mag_val_bound [of "take i a"] True by simp
  ultimately show ?thesis using True by simp
next
  case False
  have "mag_val a < 2 ^ (32 * length a)" by (rule mag_val_bound)
  also have "\<dots> \<le> 2 ^ (32 * i)" using False by (intro power_increasing) auto
  finally show ?thesis using False by simp
qed

lemma unat_bit_test: "unat (drop_bit j (x :: u32) AND 1) = unat x div 2 ^ j mod 2"
  unfolding unsigned_and_eq unat_drop_bit_eq unsigned_1 by (simp only: and_one_eq drop_bit_eq_div)

lemma limb_bit_value:
  assumes "k < 32 * length a"
  shows "unat (limb_bit a k) = mag_val a div 2 ^ k mod 2"
proof -
  let ?i = "k div 32" and ?j = "k mod 32"
  have i: "?i < length a" using assms by (simp add: less_mult_imp_div_less mult.commute)
  have "unat (limb_bit a k) = unat (a ! ?i) div 2 ^ ?j mod 2"
    by (simp only: limb_bit_def unat_bit_test)
  also have "\<dots> = (unat (a ! ?i) + 2 ^ 32 * mag_val (drop (Suc ?i) a)) div 2 ^ ?j mod 2"
  proof -
    have "32 = ?j + Suc (31 - ?j)" by simp
    then have "(2 :: nat) ^ 32 = 2 ^ ?j * (2 * 2 ^ (31 - ?j))" by (metis power_Suc power_add)
    then have "(unat (a ! ?i) + 2 ^ 32 * mag_val (drop (Suc ?i) a)) div 2 ^ ?j =
        (unat (a ! ?i) + 2 ^ ?j * (2 * 2 ^ (31 - ?j) * mag_val (drop (Suc ?i) a))) div 2 ^ ?j"
      by (simp only: mult.assoc)
    also have "\<dots> = 2 * (2 ^ (31 - ?j) * mag_val (drop (Suc ?i) a)) + unat (a ! ?i) div 2 ^ ?j"
      by simp
    finally have "(unat (a ! ?i) + 2 ^ 32 * mag_val (drop (Suc ?i) a)) div 2 ^ ?j mod 2 =
        unat (a ! ?i) div 2 ^ ?j mod 2"
      by (simp only: mod_mult_self4)
    then show ?thesis by simp
  qed
  also have "\<dots> = mag_val (drop ?i a) div 2 ^ ?j mod 2"
    using i by (simp add: Cons_nth_drop_Suc [symmetric])
  also have "\<dots> = mag_val a div 2 ^ (32 * ?i) div 2 ^ ?j mod 2" by (simp add: mag_val_div_limb)
  also have "\<dots> = mag_val a div 2 ^ k mod 2"
    by (simp add: div_mult2_eq [symmetric] power_add [symmetric])
  finally show ?thesis .
qed

lemma limb_bit_le1: "unat (limb_bit a k) \<le> 1"
  using mod_less_divisor [of 2 "unat (a ! (k div 32)) div 2 ^ (k mod 32)"]
  by (simp only: limb_bit_def unat_bit_test)

lemma unat_set_bit:
  assumes "j < 32" and "unat x div 2 ^ j mod 2 = 0"
  shows "unat (x OR push_bit j (1 :: u32)) = unat x + 2 ^ j"
proof -
  have "\<not> bit (unat x) j" using assms(2) by (simp only: bit_iff_odd even_iff_mod_2_eq_zero)
  then have "unat x AND 2 ^ j = 0" by (simp add: and_exp_eq_0_iff_not_bit)
  then have "unat x OR 2 ^ j = unat x + 2 ^ j" by (simp add: disjunctive_add_eq_or)
  moreover have "unat (push_bit j (1 :: u32)) = 2 ^ j"
    using assms(1) unsigned_push_bit_eq [of j "1 :: u32", where ?'a = nat]
    by (simp add: take_bit_push_bit push_bit_eq_mult take_bit_of_1)
  ultimately show ?thesis by (simp only: unsigned_or_eq)
qed

lemma set_limb_bit:
  assumes "k < 32 * length q" and "mag_val q div 2 ^ k mod 2 = 0"
  shows "mag_val (q[k div 32 := q ! (k div 32) OR push_bit (k mod 32) 1]) = mag_val q + 2 ^ k"
proof -
  let ?i = "k div 32" and ?j = "k mod 32"
  have i: "?i < length q" using assms(1) by (simp add: less_mult_imp_div_less mult.commute)
  have "unat (q ! ?i) div 2 ^ ?j mod 2 = 0"
    using limb_bit_value [OF assms(1)] assms(2) by (simp only: limb_bit_def unat_bit_test)
  then have "unat (q ! ?i OR push_bit ?j 1) = unat (q ! ?i) + 2 ^ ?j" by (intro unat_set_bit) simp_all
  then show ?thesis
    using mag_val_update [OF i, of "q ! ?i OR push_bit ?j 1"]
    by (simp add: distrib_left power_add [symmetric])
qed

fun div_inv :: "u32 list \<Rightarrow> u32 list \<Rightarrow> nat \<Rightarrow> u32 list \<times> u32 list \<Rightarrow> bool" where
  "div_inv a b i (q, r) \<longleftrightarrow> length q = length a \<and> no_top_zero r \<and> mag_val r < mag_val b \<and>
     2 ^ i dvd mag_val q \<and> mag_val a div 2 ^ i = mag_val q div 2 ^ i * mag_val b + mag_val r"

lemma shifted_remainder:
  assumes "shl1_loop r (limb_bit a k) = (rest, high)" and "k < 32 * length a"
  shows "mag_val (pop_zeros (if high > 0 then rest @ [high] else rest)) =
    2 * mag_val r + mag_val a div 2 ^ k mod 2"
proof -
  have "mag_val rest + 2 ^ (32 * length r) * unat high = 2 * mag_val r + unat (limb_bit a k)"
    and "length rest = length r"
    using shl1_loop_correct [OF assms(1) limb_bit_le1] by auto
  then show ?thesis
    by (auto simp: mag_val_append limb_bit_value [OF assms(2)] word_gt_0)
qed

lemma div_pow_Suc: "(n :: nat) div 2 ^ k = 2 * (n div 2 ^ Suc k) + n div 2 ^ k mod 2"
  by (metis div_mult2_eq mult_div_mod_eq power_Suc2)

lemma divmod_step_inv:
  assumes inv: "div_inv a b (Suc k) s" and k: "k < 32 * length a" and b: "no_top_zero b"
  shows "div_inv a b k (divmod_step a b k s)"
proof -
  obtain q r where s: "s = (q, r)" by (cases s)
  obtain rest high where sh: "shl1_loop r (limb_bit a k) = (rest, high)" by (metis surj_pair)
  define r1 where "r1 = pop_zeros (if high > 0 then rest @ [high] else rest)"
  have r1v: "mag_val r1 = 2 * mag_val r + mag_val a div 2 ^ k mod 2"
    unfolding r1_def by (rule shifted_remainder [OF sh k])
  have nz: "no_top_zero r1" by (simp add: r1_def)
  obtain m where m: "mag_val q = 2 ^ Suc k * m" using inv s by auto
  have qk: "mag_val q div 2 ^ k = 2 * m" and qS: "mag_val q div 2 ^ Suc k = m"
    using m by simp_all
  have main: "mag_val a div 2 ^ k = 2 * m * mag_val b + mag_val r1"
    using inv div_pow_Suc [of "mag_val a" k] by (simp add: s qS r1v del: power_Suc)
  show ?thesis
  proof (cases "cmp_magnitude r1 b = Less")
    case True
    then have "mag_val r1 < mag_val b"
      using cmp_magnitude_correct [OF nz b] by (auto simp: cmp_of_def split: if_splits)
    moreover have "divmod_step a b k s = (q, r1)"
      using True by (simp add: s divmod_step_def sh r1_def Let_def)
    ultimately show ?thesis using inv nz main qk m by (simp add: s)
  next
    case False
    then have ge: "mag_val b \<le> mag_val r1"
      using cmp_magnitude_correct [OF nz b] by (auto simp: cmp_of_def split: if_splits)
    then have len: "length b \<le> length r1" using mag_val_shorter [OF b, of r1] by force
    define q1 where "q1 = q[k div 32 := q ! (k div 32) OR push_bit (k mod 32) 1]"
    have q1v: "mag_val q1 = 2 ^ k * (2 * m + 1)"
      unfolding q1_def using set_limb_bit [of k q] inv k qk m by (simp add: s algebra_simps)
    have step: "divmod_step a b k s = (q1, pop_zeros (sub_magnitude r1 b))"
      using False by (simp add: s divmod_step_def sh r1_def q1_def Let_def)
    have "mag_val r < mag_val b" using inv s by simp
    then have "mag_val r1 - mag_val b < mag_val b" using r1v by linarith
    then show ?thesis
      using inv main ge sub_magnitude_correct(1) [OF ge len]
      by (simp add: step q1v) (simp add: s q1_def algebra_simps)
  qed
qed

lemma divmod_magnitude_correct:
  assumes a: "no_top_zero a" and b: "no_top_zero b" "b \<noteq> []" and res: "divmod_magnitude a b = (q, r)"
  shows "mag_val q = mag_val a div mag_val b" and "mag_val r = mag_val a mod mag_val b"
    and "no_top_zero r"
proof -
  have pos: "0 < mag_val b" using no_top_zero_0_iff [OF b(1)] b(2) by simp
  have "mag_val a = mag_val q * mag_val b + mag_val r \<and> mag_val r < mag_val b \<and> no_top_zero r"
  proof (cases "cmp_magnitude a b = Less")
    case True
    then have "mag_val a < mag_val b"
      using cmp_magnitude_correct [OF a b(1)] by (auto simp: cmp_of_def split: if_splits)
    then show ?thesis using True res a by (auto simp: divmod_magnitude_def)
  next
    case False
    have "div_inv a b 0 (fold (divmod_step a b) (rev [0..<length a * 32]) (replicate (length a) 0, []))"
    proof (rule for_down_invariant)
      show "div_inv a b (length a * 32) (replicate (length a) 0, [])"
        using mag_val_bound [of a] pos by (simp add: no_top_zero_def mult.commute)
    qed (auto intro: divmod_step_inv [OF _ _ b(1)])
    then show ?thesis using False res by (simp add: divmod_magnitude_def)
  qed
  then show "mag_val q = mag_val a div mag_val b" "mag_val r = mag_val a mod mag_val b"
    "no_top_zero r" by auto
qed

section \<open>Short division and digit lists\<close>

lemma short_div_limb:
  assumes "unat r < unat d" and "unat d \<le> 2 ^ 32"
    and c_def: "c = (push_bit 32 r OR ucast (l :: u32) :: u64)"
  shows "unat c = 2 ^ 32 * unat r + unat l"
    and "unat (ucast (c div d) :: u32) = unat c div unat d"
proof -
  have "unat r * 2 ^ 32 < 2 ^ LENGTH(64)" using assms(1,2) by simp
  then show cv: "unat c = 2 ^ 32 * unat r + unat l"
    unfolding c_def using u32_bound [of l] by (subst unat_push_or) auto
  have "2 ^ 32 * Suc (unat r) \<le> 2 ^ 32 * unat d" using assms(1) by (intro mult_le_mono2) simp
  then have "unat c < 2 ^ 32 * unat d" using cv u32_bound [of l] by simp
  then have "unat c div unat d < 2 ^ 32" by (rule less_mult_imp_div_less)
  then show "unat (ucast (c div d) :: u32) = unat c div unat d"
    by (simp add: unat_narrow unat_div)
qed

lemma short_div_loop_correct:
  assumes "short_div_loop d ls r = (q, r')" and "unat r < unat d" and "unat d \<le> 2 ^ 32"
  shows "length q = length ls \<and> unat r' < unat d \<and>
    mag_val (rev ls) + 2 ^ (32 * length ls) * unat r = mag_val (rev q) * unat d + unat r'"
  using assms(1,2)
proof (induction ls arbitrary: r q)
  case Nil
  then show ?case by simp
next
  case (Cons l ls)
  define c :: u64 where "c = push_bit 32 r OR ucast l"
  obtain q1 where rec: "short_div_loop d ls (c mod d) = (q1, r')" and q: "q = ucast (c div d) # q1"
    using Cons.prems(1) by (auto simp: c_def Let_def split: prod.splits)
  note limb = short_div_limb [OF Cons.prems(2) assms(3) c_def]
  have "unat (c mod d) < unat d" using Cons.prems(2) by (simp add: unat_mod)
  then have IH: "length q1 = length ls \<and> unat r' < unat d \<and>
      mag_val (rev ls) + 2 ^ (32 * length ls) * (unat c mod unat d) = mag_val (rev q1) * unat d + unat r'"
    using Cons.IH [OF rec] by (simp add: unat_mod)
  have "mag_val (rev (l # ls)) + 2 ^ (32 * length (l # ls)) * unat r =
      mag_val (rev ls) + 2 ^ (32 * length ls) * (2 ^ 32 * unat r + unat l)"
    by (simp add: mag_val_append power_add algebra_simps)
  also have "\<dots> = mag_val (rev ls) + 2 ^ (32 * length ls) * (unat c mod unat d + unat d * (unat c div unat d))"
    by (simp only: limb(1) [symmetric] mod_mult_div_eq)
  also have "\<dots> = mag_val (rev q1) * unat d + unat r' +
      2 ^ (32 * length ls) * (unat d * (unat c div unat d))"
    using IH by (simp only: distrib_left add.assoc [symmetric])
  also have "\<dots> = mag_val (rev q) * unat d + unat r'"
    using IH limb(2) by (simp add: q mag_val_append algebra_simps)
  finally show ?case using IH q by simp
qed

lemma short_div_correct:
  assumes "0 < unat d" and "unat d \<le> 2 ^ 32"
  shows "mag_val (fst (short_div d ls)) = mag_val ls div unat d"
    and "unat (snd (short_div d ls)) = mag_val ls mod unat d"
    and "no_top_zero (fst (short_div d ls))"
proof -
  obtain q r where loop: "short_div_loop d (rev ls) 0 = (q, r)" by (metis surj_pair)
  have "unat r < unat d" "mag_val ls = mag_val (rev q) * unat d + unat r"
    using short_div_loop_correct [OF loop _ assms(2)] assms(1) by auto
  then show "mag_val (fst (short_div d ls)) = mag_val ls div unat d"
    "unat (snd (short_div d ls)) = mag_val ls mod unat d" "no_top_zero (fst (short_div d ls))"
    by (auto simp: short_div_def loop)
qed

primrec base_val :: "nat \<Rightarrow> nat list \<Rightarrow> nat" where
  "base_val d [] = 0"
| "base_val d (x # xs) = x + d * base_val d xs"

text \<open>The loop ends for every divisor from 2 up, and its remainders are the base-\<open>d\<close> digits.\<close>

lemma short_div_digits_correct:
  assumes "2 \<le> unat d" and "unat d \<le> 2 ^ 32" and "no_top_zero ls"
  shows "\<exists>ds. short_div_digits d ls = Some ds \<and> (\<forall>x \<in> set ds. unat x < unat d) \<and>
    base_val (unat d) (map unat ds) = mag_val ls \<and> (ds \<noteq> [] \<longrightarrow> last ds \<noteq> 0) \<and> (ds = [] \<longleftrightarrow> ls = [])"
  using assms(3)
proof (induction "mag_val ls" arbitrary: ls rule: less_induct)
  case less
  show ?case
  proof (cases "ls = []")
    case True
    then show ?thesis by (simp add: short_div_digits.simps)
  next
    case False
    let ?q = "fst (short_div d ls)" and ?r = "snd (short_div d ls)"
    have pos: "0 < mag_val ls" using no_top_zero_0_iff [OF less.prems] False by simp
    have d: "0 < unat d" using assms(1) by simp
    note sd = short_div_correct [OF d assms(2), of ls]
    have "mag_val ?q < mag_val ls" using sd(1) pos assms(1) by simp
    then obtain ds where ds: "short_div_digits d ?q = Some ds" "\<forall>x \<in> set ds. unat x < unat d"
      "base_val (unat d) (map unat ds) = mag_val ?q" "ds \<noteq> [] \<longrightarrow> last ds \<noteq> 0" "ds = [] \<longleftrightarrow> ?q = []"
      using less.hyps [OF _ sd(3)] by blast
    have "ds = [] \<Longrightarrow> ?r \<noteq> 0"
      using ds(5) sd(1,2) pos by (metis mag_val.simps(1) mod_mult_div_eq mult_0_right add.right_neutral
          less_irrefl unsigned_0)
    then show ?thesis
      using ds sd d False by (auto simp: short_div_digits.simps [of d ls])
  qed
qed

section \<open>Shifts\<close>

lemma shl_limb_value:
  assumes "offset < 32" and "unat carry < 2 ^ offset"
  shows "unat (push_bit offset l OR carry) + 2 ^ 32 *
      unat (if offset = 0 then 0 else drop_bit (32 - offset) (l :: u32)) = 2 ^ offset * unat l + unat carry"
proof -
  have split: "unat l = unat l mod 2 ^ (32 - offset) + 2 ^ (32 - offset) * (unat l div 2 ^ (32 - offset))"
    by simp
  have "unat (push_bit offset l OR carry) = push_bit offset (take_bit (32 - offset) (unat l)) OR unat carry"
    by (simp add: unsigned_or_eq unsigned_push_bit_eq take_bit_push_bit)
  also have "\<dots> = 2 ^ offset * (unat l mod 2 ^ (32 - offset)) + unat carry"
    using nat_push_or [OF assms(2)] by (simp add: take_bit_eq_mod)
  finally have low: "unat (push_bit offset l OR carry) = \<dots>" .
  have high: "unat (if offset = 0 then 0 else drop_bit (32 - offset) l) = unat l div 2 ^ (32 - offset)"
  proof (cases "offset = 0")
    case True
    then show ?thesis using u32_bound [of l] by simp
  next
    case False
    then show ?thesis by (simp only: if_False unat_drop_bit_eq) (simp add: drop_bit_eq_div)
  qed
  have pow: "(2 :: nat) ^ 32 = 2 ^ offset * 2 ^ (32 - offset)" using assms(1) by (simp flip: power_add)
  have "2 ^ offset * unat l =
      2 ^ offset * (unat l mod 2 ^ (32 - offset) + 2 ^ (32 - offset) * (unat l div 2 ^ (32 - offset)))"
    by simp
  also have "\<dots> = 2 ^ offset * (unat l mod 2 ^ (32 - offset)) + 2 ^ 32 * (unat l div 2 ^ (32 - offset))"
    unfolding pow by (simp only: distrib_left mult.assoc)
  finally show ?thesis unfolding low high by linarith
qed

lemma shl_loop_correct:
  assumes "shl_loop offset ls carry = (rest, high)" and "offset < 32" and "unat carry < 2 ^ offset"
  shows "length rest = length ls \<and> unat high < 2 ^ offset \<and>
    mag_val rest + 2 ^ (32 * length ls) * unat high = 2 ^ offset * mag_val ls + unat carry"
  using assms(1,3)
proof (induction ls arbitrary: carry rest high)
  case Nil
  then show ?case by simp
next
  case (Cons l ls)
  define c where "c = (if offset = 0 then 0 else drop_bit (32 - offset) l)"
  obtain rest' where rec: "shl_loop offset ls c = (rest', high)"
    and rest: "rest = (push_bit offset l OR carry) # rest'"
    using Cons.prems(1) by (auto simp: c_def Let_def split: prod.splits)
  note limb = shl_limb_value [OF assms(2) Cons.prems(2), of l, folded c_def]
  have "2 ^ offset * Suc (unat l) \<le> 2 ^ offset * 2 ^ 32" using u32_bound [of l] by (intro mult_le_mono2) simp
  then have "2 ^ 32 * unat c < 2 ^ offset * 2 ^ 32"
    using limb Cons.prems(2) unfolding mult_Suc_right by linarith
  then have c: "unat c < 2 ^ offset" by simp
  have IH: "length rest' = length ls \<and> unat high < 2 ^ offset \<and>
      mag_val rest' + 2 ^ (32 * length ls) * unat high = 2 ^ offset * mag_val ls + unat c"
    by (rule Cons.IH [OF rec c])
  have "mag_val rest + 2 ^ (32 * length (l # ls)) * unat high = unat (push_bit offset l OR carry) +
      2 ^ 32 * (mag_val rest' + 2 ^ (32 * length ls) * unat high)"
    by (simp add: rest power_add algebra_simps)
  also have "\<dots> = unat (push_bit offset l OR carry) + 2 ^ 32 * unat c + 2 ^ 32 * (2 ^ offset * mag_val ls)"
    using IH by (simp add: algebra_simps)
  also have "\<dots> = 2 ^ offset * mag_val (l # ls) + unat carry"
    unfolding limb by (simp add: algebra_simps)
  finally show ?case using IH rest by simp
qed

text \<open>The right shift of a suffix of limbs, one limb at a time.\<close>

fun shr_list :: "nat \<Rightarrow> u32 list \<Rightarrow> u32 list" where
  "shr_list offset [] = []"
| "shr_list offset (x # xs) =
     (drop_bit offset x OR
      (if offset = 0 then 0 else case xs of [] \<Rightarrow> 0 | y # _ \<Rightarrow> push_bit (32 - offset) y)) #
     shr_list offset xs"

lemma length_shr_list [simp]: "length (shr_list offset xs) = length xs"
  by (induction offset xs rule: shr_list.induct) auto

lemma shr_limb_list: "map (shr_limb ls offset) [d..<length ls] = shr_list offset (drop d ls)"
proof (induction "length ls - d" arbitrary: d)
  case 0
  then show ?case by simp
next
  case (Suc n)
  then have d: "d < length ls" and "n = length ls - Suc d" by auto
  then have "map (shr_limb ls offset) [Suc d..<length ls] = shr_list offset (drop (Suc d) ls)"
    using Suc.hyps(1) by blast
  moreover have "drop d ls = ls ! d # drop (Suc d) ls" using d by (simp add: Cons_nth_drop_Suc)
  moreover have "(case drop (Suc d) ls of [] \<Rightarrow> 0 | y # _ \<Rightarrow> push_bit (32 - offset) y) =
      (case get_at ls (Suc d) of None \<Rightarrow> 0 | Some y \<Rightarrow> push_bit (32 - offset) y)"
    by (cases "Suc d < length ls") (simp_all add: Cons_nth_drop_Suc [symmetric])
  ultimately show ?case using d by (simp add: upt_conv_Cons shr_limb_def)
qed

lemma shr_limb_value:
  assumes "offset < 32"
  shows "unat (drop_bit offset x OR (if offset = 0 then 0 else push_bit (32 - offset) (y :: u32))) =
    unat x div 2 ^ offset + 2 ^ (32 - offset) * (unat y mod 2 ^ offset)"
proof (cases "offset = 0")
  case True
  then show ?thesis by simp
next
  case False
  have "unat x div 2 ^ offset < 2 ^ (32 - offset)"
    using u32_bound [of x] assms by (simp add: less_mult_imp_div_less flip: power_add)
  then have "push_bit (32 - offset) (unat y mod 2 ^ offset) OR unat x div 2 ^ offset =
      2 ^ (32 - offset) * (unat y mod 2 ^ offset) + unat x div 2 ^ offset" by (rule nat_push_or)
  moreover have "unat (drop_bit offset x OR push_bit (32 - offset) y) =
      push_bit (32 - offset) (unat y mod 2 ^ offset) OR unat x div 2 ^ offset"
  proof -
    have "take_bit LENGTH(32) (push_bit (32 - offset) (unat y)) = push_bit (32 - offset) (unat y mod 2 ^ offset)"
      using assms by (simp add: take_bit_push_bit flip: take_bit_eq_mod)
    then show ?thesis
      unfolding unsigned_or_eq unat_drop_bit_eq unsigned_push_bit_eq
      by (simp only: drop_bit_eq_div or.commute)
  qed
  ultimately show ?thesis using False by simp
qed

lemma shr_list_correct:
  assumes "offset < 32"
  shows "mag_val (shr_list offset xs) = mag_val xs div 2 ^ offset"
proof (induction xs)
  case Nil
  then show ?case by simp
next
  case (Cons x xs)
  let ?P = "2 ^ offset :: nat" and ?Q = "2 ^ (32 - offset) :: nat" and ?M = "mag_val xs"
  define y where "y = (case xs of [] \<Rightarrow> 0 | y # _ \<Rightarrow> y)"
  have pow: "(2 :: nat) ^ 32 = ?P * ?Q" using assms by (simp flip: power_add)
  have "unat y mod ?P = ?M mod ?P"
  proof (cases xs)
    case (Cons z zs)
    have "?M = unat z + ?P * (?Q * mag_val zs)" using Cons pow by (simp only: mag_val.simps mult.assoc)
    then have "?M mod ?P = unat z mod ?P" by (simp only: mod_mult_self2)
    then show ?thesis by (simp only: y_def Cons list.case)
  qed (simp add: y_def)
  moreover have "(if offset = 0 then 0 else case xs of [] \<Rightarrow> 0 | y # _ \<Rightarrow> push_bit (32 - offset) y) =
      (if offset = 0 then 0 else push_bit (32 - offset) y)"
    by (simp add: y_def split: list.split)
  ultimately have "mag_val (shr_list offset (x # xs)) =
      unat x div ?P + ?Q * (?M mod ?P) + 2 ^ 32 * (?M div ?P)"
    using Cons shr_limb_value [OF assms, of x y] by simp
  also have "\<dots> = unat x div ?P + ?Q * (?M mod ?P + ?P * (?M div ?P))"
    unfolding pow by (simp only: distrib_left mult.assoc mult.left_commute add.assoc)
  also have "\<dots> = (unat x + ?P * (?Q * ?M)) div ?P" by simp
  also have "\<dots> = mag_val (x # xs) div ?P" unfolding mag_val.simps pow by (simp only: mult.assoc)
  finally show ?case .
qed

lemma shr_limbs_correct:
  "mag_val (map (shr_limb ls (bits mod 32)) [bits div 32..<length ls]) = mag_val ls div 2 ^ bits"
proof -
  have "(2 :: nat) ^ bits = 2 ^ (32 * (bits div 32)) * 2 ^ (bits mod 32)"
    by (simp flip: power_add)
  then show ?thesis
    by (simp add: shr_limb_list shr_list_correct div_mult2_eq mag_val_div_limb)
qed

section \<open>Two's complement\<close>

lemma carry_in_correct:
  "unat c \<le> 1 \<Longrightarrow> mag_val (carry_in ls c) = (mag_val ls + unat c) mod 2 ^ (32 * length ls) \<and>
     length (carry_in ls c) = length ls"
proof (induction ls arbitrary: c)
  case Nil
  then show ?case by simp
next
  case (Cons l ls)
  define w where "w = ucast l + c"
  have wv: "unat w = unat l + unat c"
    unfolding w_def using Cons.prems u32_bound [of l] by (subst unat_add_u64) auto
  have hi: "unat (drop_bit 32 w) \<le> 1"
    using wv Cons.prems u32_bound [of l] by (subst unat_high) simp
  let ?T = "if drop_bit 32 w = 0 then ls else carry_in ls (drop_bit 32 w)"
  have T: "mag_val ?T = (mag_val ls + unat (drop_bit 32 w)) mod 2 ^ (32 * length ls)"
    "length ?T = length ls"
    using Cons.IH [OF hi] mag_val_bound [of ls] by auto
  have "mag_val (carry_in (l # ls) c) = unat (ucast w :: u32) + 2 ^ 32 * mag_val ?T"
    by (simp add: w_def Let_def)
  also have "\<dots> = (unat (ucast w :: u32) + 2 ^ 32 * (mag_val ls + unat (drop_bit 32 w))) mod
      (2 ^ 32 * 2 ^ (32 * length ls))"
    unfolding T(1) by (simp only: mod_low_high [OF u32_bound])
  also have "\<dots> = (2 ^ 32 * mag_val ls + (unat (ucast w :: u32) + 2 ^ 32 * unat (drop_bit 32 w))) mod
      (2 ^ 32 * 2 ^ (32 * length ls))"
    by (simp only: distrib_left add.left_commute)
  also have "\<dots> = (mag_val (l # ls) + unat c) mod 2 ^ (32 * length (l # ls))"
    unfolding narrow_high_split wv by (simp add: power_add ac_simps)
  finally have "mag_val (carry_in (l # ls) c) = (mag_val (l # ls) + unat c) mod 2 ^ (32 * length (l # ls))" .
  moreover have "length (carry_in (l # ls) c) = Suc (length ?T)" by (simp add: w_def Let_def)
  ultimately show ?case by (simp only: T(2) list.size) simp
qed

lemma unat_not: "unat (NOT (x :: u32)) = 2 ^ 32 - 1 - unat x"
proof -
  have "NOT x = - 1 - x" by (simp add: not_eq_complement)
  then have "unat (NOT x) = unat (- 1 :: u32) - unat x" by (simp add: unat_sub)
  moreover have "unat (- 1 :: u32) = 2 ^ 32 - 1" by (simp add: unsigned_minus_1_eq_mask mask_eq_exp_minus_1)
  ultimately show ?thesis by simp
qed

lemma map_not_value: "mag_val (map (\<lambda>l. NOT l) ls) + mag_val ls + 1 = 2 ^ (32 * length ls)"
proof (induction ls)
  case Nil
  then show ?case by simp
next
  case (Cons l ls)
  have "unat (NOT l) + unat l + 1 = 2 ^ 32" using u32_bound [of l] by (simp add: unat_not)
  then have "mag_val (map (\<lambda>l. NOT l) (l # ls)) + mag_val (l # ls) + 1 =
      2 ^ 32 * (mag_val (map (\<lambda>l. NOT l) ls) + mag_val ls + 1)" by (simp add: algebra_simps)
  then show ?case using Cons by (simp add: power_add)
qed

lemma negate_limbs_value:
  "mag_val (carry_in (map (\<lambda>l. NOT l) ls) 1) = (2 ^ (32 * length ls) - mag_val ls) mod 2 ^ (32 * length ls)"
proof -
  have "mag_val (map (\<lambda>l. NOT l) ls) + 1 = 2 ^ (32 * length ls) - mag_val ls"
    using map_not_value [of ls] by linarith
  then show ?thesis using carry_in_correct [of 1 "map (\<lambda>l. NOT l) ls"] by simp
qed

lemma resize_limbs_value:
  "mag_val (resize_limbs ls w) = mag_val ls mod 2 ^ (32 * w)" "length (resize_limbs ls w) = w"
proof -
  show "mag_val (resize_limbs ls w) = mag_val ls mod 2 ^ (32 * w)"
  proof (cases "length ls \<le> w")
    case True
    then have "mag_val ls < 2 ^ (32 * w)"
      using mag_val_bound [of ls] by (metis less_le_trans mult_le_mono2 one_le_numeral power_increasing)
    then show ?thesis using True by (simp add: resize_limbs_def mag_val_append)
  next
    case False
    have "mag_val ls = mag_val (take w ls) + 2 ^ (32 * w) * mag_val (drop w ls)"
      using mag_val_append [of "take w ls" "drop w ls"] False by simp
    moreover have "mag_val (take w ls) < 2 ^ (32 * w)" using mag_val_bound [of "take w ls"] False by simp
    ultimately show ?thesis using False by (simp add: resize_limbs_def)
  qed
qed (simp add: resize_limbs_def)

text \<open>Bits of the denoted number are bits of the limbs.\<close>

lemma mag_val_Cons_or: "int (mag_val (x # xs)) = push_bit 32 (int (mag_val xs)) OR uint x"
proof -
  have "mag_val (x # xs) = push_bit 32 (mag_val xs) OR unat x"
    using nat_push_or [OF u32_bound [of x], of "mag_val xs"] by simp
  then show ?thesis by (simp only: of_nat_or_eq of_nat_push_bit uint_nat)
qed

lemma bit_push_or_low:
  "bit (push_bit 32 m OR uint (x :: u32)) k \<longleftrightarrow> (if k < 32 then bit x k else bit (m :: int) (k - 32))"
  using bit_imp_le_length [of x k] by (auto simp: bit_simps)

end
