(* ===== verification/Big_Int_Ops.thy ===== *)
theory Big_Int_Ops
  imports Big_Int_Long "HOL-Library.Signed_Division"
begin

text \<open>
  The \<open>BigInt\<close> operators of \<open>bigint.rs\<close> against the integers: every operation keeps the
  representation invariant (no leading zero limb, zero is not negative) and computes the
  integer operation the language defines, or fails with the size error.
\<close>

section \<open>The denoted integer and the representation invariant\<close>

definition to_int :: "big_int \<Rightarrow> int" where
  "to_int b = (if negative b then - int (mag_val (limbs b)) else int (mag_val (limbs b)))"

definition wf_big :: "big_int \<Rightarrow> bool" where
  "wf_big b = (no_top_zero (limbs b) \<and> (negative b \<longrightarrow> limbs b \<noteq> []))"

lemma normalized_wf [simp]: "wf_big (normalized neg ls)"
  by (simp add: wf_big_def normalized_def Let_def)

lemma normalized_val [simp]:
  "to_int (normalized neg ls) = (if neg then - int (mag_val ls) else int (mag_val ls))"
proof -
  have "pop_zeros ls = [] \<Longrightarrow> mag_val ls = 0" by (metis mag_val.simps(1) pop_zeros_val)
  then show ?thesis by (auto simp: to_int_def normalized_def Let_def)
qed

lemma limbs_normalized [simp]: "limbs (normalized neg ls) = pop_zeros ls"
  by (simp add: normalized_def Let_def)

lemma zero_big_wf [simp]: "wf_big zero_big" "to_int zero_big = 0"
  by (simp_all add: wf_big_def to_int_def zero_big_def no_top_zero_def)

lemma is_zero_iff: "wf_big b \<Longrightarrow> is_zero b \<longleftrightarrow> to_int b = 0"
  using no_top_zero_0_iff [of "limbs b"] by (auto simp: is_zero_def wf_big_def to_int_def)

lemma mag_val_inj_length: "length xs = length ys \<Longrightarrow> mag_val xs = mag_val ys \<Longrightarrow> xs = ys"
proof (induction xs ys rule: list_induct2)
  case Nil
  then show ?case by simp
next
  case (Cons x xs y ys)
  have "unat x = unat y"
    using arg_cong [OF Cons.prems, of "\<lambda>n. n mod 2 ^ 32"] u32_bound [of x] u32_bound [of y] by simp
  moreover from this have "mag_val xs = mag_val ys" using Cons.prems by simp
  ultimately show ?case using Cons.IH by (simp add: word_unat_eq_iff)
qed

lemma mag_val_inj:
  assumes "no_top_zero xs" and "no_top_zero ys" and "mag_val xs = mag_val ys"
  shows "xs = ys"
  using assms mag_val_shorter [of xs ys] mag_val_shorter [of ys xs] mag_val_inj_length [of xs ys]
  by (metis less_irrefl linorder_cases)

lemma to_int_inj:
  assumes "wf_big a" and "wf_big b" and "to_int a = to_int b"
  shows "a = b"
proof -
  have "mag_val (limbs a) = mag_val (limbs b)"
    using assms(3) by (auto simp: to_int_def split: if_splits)
  then have l: "limbs a = limbs b" using assms(1,2) mag_val_inj by (auto simp: wf_big_def)
  moreover have "negative a = negative b"
    using assms l no_top_zero_0_iff [of "limbs a"] by (auto simp: wf_big_def to_int_def split: if_splits)
  ultimately show ?thesis by simp
qed

lemma unsigned_abs_value: "int (unat (unsigned_abs v)) = \<bar>sint v\<bar>"
proof -
  have v: "v = word_of_int (sint v)" by simp
  have "unsigned_abs v = word_of_int \<bar>sint v\<bar>"
    by (metis unsigned_abs_def abs_of_neg abs_of_nonneg linorder_not_le of_int_minus v)
  moreover have "\<bar>sint v\<bar> < 2 ^ 64"
    using sint_greater_eq [of v] sint_less [of v] by simp
  ultimately show ?thesis by (simp add: uint_word_of_int)
qed

lemma from_i64_val [simp]: "to_int (from_i64 v) = sint v" "wf_big (from_i64 v)"
proof -
  have "mag_val [ucast (unsigned_abs v), ucast (drop_bit 32 (unsigned_abs v))] = unat (unsigned_abs v)"
  proof -
    have "unat (drop_bit 32 (unsigned_abs v)) < 2 ^ 32"
      using u64_bound [of "unsigned_abs v"] by (subst unat_high) simp
    then show ?thesis using narrow_high_split [of "unsigned_abs v"]
      by (simp add: unat_narrow [of "drop_bit 32 (unsigned_abs v)"])
  qed
  then show "to_int (from_i64 v) = sint v"
    using unsigned_abs_value [of v] by (simp add: from_i64_def Let_def del: mag_val.simps)
qed (simp add: from_i64_def Let_def)

lemma length_from_i64: "length (limbs (from_i64 v)) \<le> 2"
  using length_pop_zeros [of "[ucast (unsigned_abs v), ucast (drop_bit 32 (unsigned_abs v))]"]
  by (simp add: from_i64_def Let_def)

section \<open>Addition, subtraction, multiplication\<close>

lemma compare_correct: "wf_big a \<Longrightarrow> wf_big b \<Longrightarrow> compare_big a b = cmp_of (to_int a) (to_int b)"
  using cmp_magnitude_correct [of "limbs a" "limbs b"] cmp_magnitude_correct [of "limbs b" "limbs a"]
    no_top_zero_0_iff [of "limbs a"] no_top_zero_0_iff [of "limbs b"]
  by (auto simp: compare_big.simps wf_big_def to_int_def cmp_of_def split: bool.splits)

lemma wf_length_mono:
  "wf_big a \<Longrightarrow> wf_big b \<Longrightarrow> mag_val (limbs b) \<le> mag_val (limbs a) \<Longrightarrow>
   length (limbs b) \<le> length (limbs a)"
  using mag_val_shorter [of "limbs b" "limbs a"] by (force simp: wf_big_def)

lemma add_big_correct:
  assumes "wf_big a" and "wf_big b" and "add_big a b = Inr c"
  shows "wf_big c \<and> to_int c = to_int a + to_int b"
proof (cases "negative a = negative b")
  case True
  then obtain m where "add_magnitude (limbs a) (limbs b) = Inr m" "c = normalized (negative a) m"
    using assms(3) by (auto simp: add_big_def bind_outcome_Inr_iff)
  then show ?thesis
    using True add_magnitude_correct(1) by (simp add: to_int_def [of a] to_int_def [of b])
next
  case False
  have cmp: "cmp_magnitude (limbs a) (limbs b) = cmp_of (mag_val (limbs a)) (mag_val (limbs b))"
    using assms(1,2) cmp_magnitude_correct by (simp add: wf_big_def)
  consider "mag_val (limbs a) < mag_val (limbs b)" | "mag_val (limbs a) = mag_val (limbs b)"
    | "mag_val (limbs b) < mag_val (limbs a)" by linarith
  then show ?thesis
    using False assms cmp sub_magnitude_correct(1) [of "limbs a" "limbs b"]
      sub_magnitude_correct(1) [of "limbs b" "limbs a"] wf_length_mono [of a b] wf_length_mono [of b a]
    by cases (auto simp: add_big_def cmp_of_def to_int_def [of a] to_int_def [of b])
qed

lemma add_big_error: "add_big a b = Inl e \<Longrightarrow> e = overflow"
  using add_magnitude_error
  by (auto simp: add_big_def bind_outcome_Inl_iff split: if_splits ordering.splits)

lemma add_big_total:
  assumes "length (limbs a) < MAX_LIMBS" and "length (limbs b) < MAX_LIMBS"
  shows "\<exists>c. add_big a b = Inr c"
  using add_magnitude_total [OF assms] by (auto simp: add_big_def split: ordering.splits)

lemma negate_val [simp]: "to_int (negate b) = - to_int b" "wf_big (negate b)"
  by (auto simp: negate_def to_int_def [of b])

lemma length_negate: "length (limbs (negate b)) \<le> length (limbs b)"
  by (simp add: negate_def length_pop_zeros)

lemma sub_big_correct:
  "wf_big a \<Longrightarrow> wf_big b \<Longrightarrow> sub_big a b = Inr c \<Longrightarrow> wf_big c \<and> to_int c = to_int a - to_int b"
  using add_big_correct [of a "negate b" c] by (simp add: sub_big_def)

lemma mul_big_correct:
  assumes "mul_big a b = Inr c"
  shows "wf_big c \<and> to_int c = to_int a * to_int b"
proof -
  obtain m where m: "mul_magnitude (limbs a) (limbs b) = Inr m" "c = normalized (negative a \<noteq> negative b) m"
    using assms by (auto simp: mul_big_def bind_outcome_Inr_iff)
  have "mag_val m = mag_val (limbs a) * mag_val (limbs b)"
  proof (cases "length (limbs a) + length (limbs b) \<le> MAX_LIMBS")
    case True
    then show ?thesis using mul_magnitude_total [OF True] m(1) by auto
  next
    case False
    then show ?thesis using m(1) by (auto simp: mul_magnitude_def split: if_splits)
  qed
  then show ?thesis using m(2) by (simp add: to_int_def [of a] to_int_def [of b])
qed

lemma mul_big_error: "mul_big a b = Inl e \<Longrightarrow> e = overflow"
  by (auto simp: mul_big_def bind_outcome_Inl_iff mul_magnitude_overflow)


section \<open>Division\<close>

lemmas divmod_parts = divmod_magnitude_correct [OF _ _ _ prod.collapse [symmetric]]

lemma div_big_correct:
  assumes "wf_big a" and "wf_big b" and "div_big a b = Inr c"
  shows "wf_big c \<and> to_int c = to_int a sdiv to_int b"
proof -
  have "limbs b \<noteq> []" using assms(3) by (auto simp: div_big_def is_zero_def split: if_splits)
  then have "mag_val (fst (divmod_magnitude (limbs a) (limbs b))) = mag_val (limbs a) div mag_val (limbs b)"
    using divmod_parts(1) assms(1,2) by (simp add: wf_big_def)
  moreover have "c = normalized (negative a \<noteq> negative b) (fst (divmod_magnitude (limbs a) (limbs b)))"
    using assms(3) by (auto simp: div_big_def split: if_splits)
  ultimately show ?thesis
    by (auto simp: to_int_def [of a] to_int_def [of b] signed_divide_int_def zdiv_int sgn_if)
qed

lemma rem_big_correct:
  assumes "wf_big a" and "wf_big b" and "rem_big a b = Inr c"
  shows "wf_big c \<and> to_int c = to_int a smod to_int b"
proof -
  have "limbs b \<noteq> []" using assms(3) by (auto simp: rem_big_def is_zero_def split: if_splits)
  then have "mag_val (snd (divmod_magnitude (limbs a) (limbs b))) = mag_val (limbs a) mod mag_val (limbs b)"
    using divmod_parts(2) assms(1,2) by (simp add: wf_big_def)
  moreover have "c = normalized (negative a) (snd (divmod_magnitude (limbs a) (limbs b)))"
    using assms(3) by (auto simp: rem_big_def split: if_splits)
  moreover have dm: "int m mod int n = int m - int m div int n * int n" for m n
    by (simp add: minus_div_mult_eq_mod)
  ultimately show ?thesis
    by (auto simp: zmod_int dm to_int_def [of a] to_int_def [of b] signed_modulo_int_def signed_divide_int_def sgn_if)
qed

section \<open>Exponentiation\<close>

text \<open>
  What square-and-multiply needs of a fallible multiplication: where it succeeds, it keeps
  the invariant and multiplies the denoted integers.
\<close>

locale partial_product =
  fixes mult :: "'a \<Rightarrow> 'a \<Rightarrow> 'e + 'a"
    and ok :: "'a \<Rightarrow> bool"
    and val :: "'a \<Rightarrow> int"
  assumes mult_ok: "ok a \<Longrightarrow> ok b \<Longrightarrow> mult a b = Inr c \<Longrightarrow> ok c"
    and mult_val: "ok a \<Longrightarrow> ok b \<Longrightarrow> mult a b = Inr c \<Longrightarrow> val c = val a * val b"
begin

text \<open>One round: the accumulated power and the repeated square, for exponent \<open>e < 2 ^ bits\<close>.\<close>

lemma square_multiply_round:
  assumes r: "ok r" "val r = x ^ (e mod 2 ^ k)" and b: "ok b" "k < bits \<longrightarrow> val b = x ^ (2 ^ k)"
    and k: "k < bits"
    and r': "(if odd (e div 2 ^ k) then mult r b else Inr r) = Inr r'"
    and b': "(if k + 1 < bits then mult b b else Inr b) = Inr b'"
  shows "ok r' \<and> ok b' \<and> val r' = x ^ (e mod 2 ^ Suc k) \<and> (Suc k < bits \<longrightarrow> val b' = x ^ (2 ^ Suc k))"
proof -
  have e: "e mod 2 ^ Suc k = e mod 2 ^ k + 2 ^ k * (e div 2 ^ k mod 2)"
    by (simp only: power_Suc2 mod_mult2_eq add.commute)
  have "ok r'" using r b r' mult_ok [OF r(1) b(1), of r'] by (auto split: if_splits)
  moreover have "ok b'" using b b' mult_ok [OF b(1) b(1), of b'] by (auto split: if_splits)
  moreover have "val r' = x ^ (e mod 2 ^ Suc k)"
  proof (cases "odd (e div 2 ^ k)")
    case True
    then have "e div 2 ^ k mod 2 = 1" by (simp add: odd_iff_mod_2_eq_one)
    then show ?thesis
      using True r b k r' mult_val [OF r(1) b(1), of r'] unfolding e by (simp add: power_add)
  next
    case False
    then show ?thesis using r r' unfolding e by simp
  qed
  moreover have "Suc k < bits \<longrightarrow> val b' = x ^ (2 ^ Suc k)"
    using b b' k mult_val [OF b(1) b(1), of b'] by (auto simp: mult_2 power_add split: if_splits)
  ultimately show ?thesis by blast
qed

end

interpretation big_product: partial_product mul_big wf_big to_int
  by unfold_locales (use mul_big_correct in auto)

lemma leading_zeros_bounds:
  assumes "x \<noteq> 0"
  shows "leading_zeros x < 32" and "2 ^ (31 - leading_zeros x) \<le> unat x"
    and "unat x < 2 ^ (32 - leading_zeros x)"
proof -
  let ?ks = "rev [0..<32] :: nat list" and ?P = "\<lambda>k. \<not> bit x k"
  have nth: "?ks ! i = 31 - i" if "i < 32" for i using that by (simp add: rev_nth)
  have "\<exists>k<32. bit x k"
    using assms bit_imp_le_length [of x] by (auto simp: bit_eq_iff)
  then have "\<not> (\<forall>k \<in> set ?ks. ?P k)" by auto
  then have "takeWhile ?P ?ks \<noteq> ?ks" by (metis takeWhile_eq_all_conv)
  then have lt: "leading_zeros x < length ?ks"
    using takeWhile_eq_take [of ?P ?ks] length_takeWhile_le [of ?P ?ks]
    unfolding leading_zeros_def by (metis le_neq_implies_less take_all_iff order_refl)
  then show "leading_zeros x < 32" by simp
  have top: "bit x (31 - leading_zeros x)"
    using nth_length_takeWhile [of ?P ?ks] lt nth by (simp add: leading_zeros_def)
  then have "odd (unat x div 2 ^ (31 - leading_zeros x))"
    by (rule bit_word_iff_odd [THEN iffD1])
  then have "unat x div 2 ^ (31 - leading_zeros x) \<noteq> 0" by (metis even_zero)
  then show "2 ^ (31 - leading_zeros x) \<le> unat x" by (simp add: div_eq_0_iff not_less)
  have none: "\<not> bit x k" if "32 - leading_zeros x \<le> k" for k
  proof (cases "k < 32")
    case True
    then have "31 - k < leading_zeros x" using that by simp
    then have "\<not> bit x (?ks ! (31 - k))"
      unfolding leading_zeros_def by (metis (no_types, lifting) nth_mem set_takeWhileD takeWhile_nth)
    then show ?thesis using True nth by simp
  qed (use bit_imp_le_length [of x k] in auto)
  have "take_bit (32 - leading_zeros x) (unat x) = unat x"
    by (rule bit_eqI) (metis bit_take_bit_iff bit_unat none not_less)
  then show "unat x < 2 ^ (32 - leading_zeros x)" by (metis take_bit_nat_less_exp)
qed

lemma bit_length_bounds:
  assumes "wf_big b"
  shows "mag_val (limbs b) < 2 ^ bit_length b"
    and "limbs b \<noteq> [] \<Longrightarrow> 2 ^ (bit_length b - 1) \<le> mag_val (limbs b) \<and> 0 < bit_length b"
proof -
  let ?L = "limbs b" and ?n = "length (limbs b) - 1" and ?z = "leading_zeros (last (limbs b))"
  have "mag_val ?L < 2 ^ bit_length b \<and> (2 ^ (bit_length b - 1) \<le> mag_val ?L \<and> 0 < bit_length b)"
    if ne: "?L \<noteq> []"
  proof -
    have top: "last ?L \<noteq> 0" using assms ne by (auto simp: wf_big_def no_top_zero_def)
    note lz = leading_zeros_bounds [OF top]
    have bl: "bit_length b = 32 * ?n + (32 - ?z)" using ne by (simp add: bit_length_def)
    then have bl1: "bit_length b - 1 = 32 * ?n + (31 - ?z)" using lz(1) by simp
    note v = mag_val_butlast [OF ne]
    have low: "mag_val (butlast ?L) < 2 ^ (32 * ?n)" using mag_val_bound [of "butlast ?L"] by simp
    have "2 ^ (32 * ?n) * Suc (unat (last ?L)) \<le> 2 ^ (32 * ?n) * 2 ^ (32 - ?z)"
      using lz(3) by (intro mult_le_mono2) simp
    then have "mag_val ?L < 2 ^ bit_length b" using v low by (simp add: bl power_add)
    moreover have "2 ^ (32 * ?n) * 2 ^ (31 - ?z) \<le> 2 ^ (32 * ?n) * unat (last ?L)"
      using lz(2) by (rule mult_le_mono2)
    then have "2 ^ (bit_length b - 1) \<le> mag_val ?L" unfolding bl1 power_add using v by linarith
    ultimately show ?thesis using bl lz(1) by simp
  qed
  then show "mag_val ?L < 2 ^ bit_length b"
    and "?L \<noteq> [] \<Longrightarrow> 2 ^ (bit_length b - 1) \<le> mag_val ?L \<and> 0 < bit_length b"
    by (cases "?L = []"; simp add: bit_length_def)+
qed

lemma bit_length_limbs: "bit_length b \<le> 32 * length (limbs b)"
  by (cases "limbs b") (auto simp: bit_length_def)

lemma limb_bit_odd:
  assumes "k < 32 * length a"
  shows "limb_bit a k = 1 \<longleftrightarrow> odd (mag_val a div 2 ^ k)"
  using limb_bit_value [OF assms] by (simp add: odd_iff_mod_2_eq_one word_unat_eq_iff)

fun pow_inv :: "int \<Rightarrow> nat \<Rightarrow> nat \<Rightarrow> nat \<Rightarrow> big_int \<times> big_int \<Rightarrow> bool" where
  "pow_inv x e bits k (r, b) \<longleftrightarrow> wf_big r \<and> wf_big b \<and> to_int r = x ^ (e mod 2 ^ k) \<and>
     (k < bits \<longrightarrow> to_int b = x ^ (2 ^ k))"

lemma pow_step_inv:
  assumes "pow_inv x (mag_val e) bits k s" and "pow_step e bits k s = Inr t"
    and "k < bits" and "k < 32 * length e"
  shows "pow_inv x (mag_val e) bits (Suc k) t"
proof -
  obtain r b where s: "s = (r, b)" by (cases s)
  obtain r' b' where t: "t = (r', b')"
    "(if odd (mag_val e div 2 ^ k) then mul_big r b else Inr r) = Inr r'"
    "(if k + 1 < bits then mul_big b b else Inr b) = Inr b'"
    using assms(2) limb_bit_odd [OF assms(4)]
    by (auto simp: s pow_step_def bind_outcome_Inr_iff)
  show ?thesis
    using big_product.square_multiply_round [OF _ _ _ _ assms(3) t(2,3), of x] assms(1) s t(1) by simp
qed

lemma pow_big_correct:
  assumes "wf_big a" and "wf_big e" and "pow_big a e = Inr c"
  shows "wf_big c \<and> to_int c = to_int a ^ nat (to_int e)"
proof -
  let ?bits = "bit_length e"
  obtain b where run: "fold_outcome (pow_step (limbs e) ?bits) [0..<?bits] (from_i64 1, a) = Inr (c, b)"
    and pos: "\<not> negative e"
    using assms(3) by (auto simp: pow_big_def bind_outcome_Inr_iff split: if_splits)
  have "pow_inv (to_int a) (mag_val (limbs e)) ?bits ?bits (c, b)"
  proof (rule for_up_outcome_invariant [where P = "pow_inv (to_int a) (mag_val (limbs e)) ?bits", OF _ run])
    show "pow_inv (to_int a) (mag_val (limbs e)) ?bits 0 (from_i64 1, a)" using assms(1) by simp
  next
    fix i s s'
    assume "i < ?bits" "pow_inv (to_int a) (mag_val (limbs e)) ?bits i s"
      "pow_step (limbs e) ?bits i s = Inr s'"
    then show "pow_inv (to_int a) (mag_val (limbs e)) ?bits (Suc i) s'"
      using pow_step_inv bit_length_limbs [of e] by (meson less_le_trans)
  qed
  then show ?thesis using bit_length_bounds(1) [OF assms(2)] pos by (simp add: to_int_def)
qed

lemma pow_step_error: "pow_step e bits k s = Inl err \<Longrightarrow> err = overflow"
  using mul_big_error by (auto simp: pow_step_def bind_outcome_Inl_iff split: prod.splits if_splits)

section \<open>Shifts\<close>


lemma shl_limbs_value:
  assumes "shl_loop (bits mod 32) ls 0 = (shifted, carry)"
  shows "mag_val (replicate (bits div 32) 0 @ shifted @ [carry]) = mag_val ls * 2 ^ bits"
    and "length shifted = length ls"
proof -
  have loop: "mag_val shifted + 2 ^ (32 * length ls) * unat carry = 2 ^ (bits mod 32) * mag_val ls"
    "length shifted = length ls"
    using shl_loop_correct [OF assms] by auto
  have "2 ^ (32 * (bits div 32)) * (2 ^ (bits mod 32) :: nat) = 2 ^ bits"
    by (simp flip: power_add)
  then show "mag_val (replicate (bits div 32) 0 @ shifted @ [carry]) = mag_val ls * 2 ^ bits"
    using loop by (simp add: mag_val_append mult.assoc [symmetric])
  show "length shifted = length ls" by (rule loop)
qed

lemma shl_nonneg_correct:
  assumes "small_shift amount = Inr bits" and "shl_nonneg a amount = Inr c"
  shows "wf_big c \<and> to_int c = to_int a * 2 ^ bits"
proof -
  obtain shifted carry where loop: "shl_loop (bits mod 32) (limbs a) 0 = (shifted, carry)"
    by (metis surj_pair)
  define ls where "ls = replicate (bits div 32) 0 @ shifted @ (if carry > 0 then [carry] else [])"
  have c: "c = normalized (negative a) ls"
    using assms by (auto simp: shl_nonneg_def loop ls_def Let_def split: if_splits)
  have "mag_val ls = mag_val (replicate (bits div 32) 0 @ shifted @ [carry])"
    by (auto simp: ls_def mag_val_append word_gt_0)
  then show ?thesis using shl_limbs_value(1) [OF loop] by (simp add: c to_int_def [of a])
qed

text \<open>
  Shifting the quotient of a right shift back never exceeds the original limb count, so the
  restoring left shift inside \<open>shr\<close> cannot fail.
\<close>

lemma shl_nonneg_within:
  assumes "small_shift amount = Inr bits" and "wf_big a" and "limbs a \<noteq> []"
    and bound: "mag_val (limbs a) * 2 ^ bits < 2 ^ (32 * n)" and n: "n \<le> MAX_LIMBS"
  shows "\<exists>c. shl_nonneg a amount = Inr c"
proof -
  obtain shifted carry where loop: "shl_loop (bits mod 32) (limbs a) 0 = (shifted, carry)"
    by (metis surj_pair)
  let ?k = "bits div 32 + length shifted"
  have v: "mag_val (replicate (bits div 32) 0 @ shifted @ [carry]) < 2 ^ (32 * n)"
    and len: "length shifted = length (limbs a)"
    using shl_limbs_value [OF loop] bound by auto
  have "?k + (if carry > 0 then 1 else 0) \<le> n"
  proof (cases "carry > 0")
    case True
    then have "1 \<le> unat carry" by (simp add: word_gt_0 unat_gt_0 Suc_leI)
    then have "2 ^ (32 * ?k) * 1 \<le> 2 ^ (32 * ?k) * unat carry" by (rule mult_le_mono2)
    also have "\<dots> < 2 ^ (32 * n)"
      using v mag_val_append [of "replicate (bits div 32) 0 @ shifted" "[carry]"] by simp
    finally have "32 * ?k < 32 * n" by (simp add: power_less_imp_less_exp)
    then show ?thesis using True by simp
  next
    case False
    have "2 ^ (32 * (length (limbs a) - 1)) * 2 ^ bits \<le> mag_val (limbs a) * 2 ^ bits"
      using no_top_zero_lower [of "limbs a"] assms(2,3) by (simp add: wf_big_def)
    then have "(2 :: nat) ^ (32 * (length (limbs a) - 1) + bits) < 2 ^ (32 * n)"
      using bound unfolding power_add by linarith
    then have "32 * (length (limbs a) - 1) + bits < 32 * n" by (simp add: power_less_imp_less_exp)
    then have "length (limbs a) - 1 + bits div 32 < n" by linarith
    then show ?thesis using False len assms(3) by (cases "limbs a") auto
  qed
  then show ?thesis using assms(1) n by (auto simp: shl_nonneg_def loop Let_def)
qed

lemma shr_floor:
  "- int m div 2 ^ k = (if int (m div 2 ^ k) * 2 ^ k = int m then - int (m div 2 ^ k) else - int (m div 2 ^ k) - 1)"
proof (cases "2 ^ k dvd m")
  case True
  then obtain j where m: "m = 2 ^ k * j" by (auto simp: dvd_def)
  then have "- int m = 2 ^ k * (- int j)" by simp
  then have "- int m div 2 ^ k = (2 ^ k * (- int j)) div 2 ^ k" by (simp only:)
  also have "\<dots> = - int j" by (rule nonzero_mult_div_cancel_left) simp
  finally have "- int m div 2 ^ k = - int j" .
  then show ?thesis by (simp add: m)
next
  case False
  then have "\<not> (2 ^ k :: int) dvd int m"
    using int_dvd_int_iff [of "2 ^ k" m] by simp
  then have "- int m div 2 ^ k = - (int m div 2 ^ k) - 1" by (simp add: zdiv_zminus1_eq_if dvd_eq_mod_eq_0)
  moreover have "m div 2 ^ k * 2 ^ k \<noteq> m" using False by (metis dvd_triv_right)
  then have "int (m div 2 ^ k) * 2 ^ k \<noteq> int m"
    using of_nat_eq_iff [of "m div 2 ^ k * 2 ^ k" m, where ?'a = int] by simp
  ultimately show ?thesis by (simp add: zdiv_int)
qed

lemma from_i64_one: "limbs (from_i64 1) = [1]" "negative (from_i64 1) = False"
  by (simp_all add: from_i64_def unsigned_abs_def normalized_def Let_def pop_zeros.simps)

lemma sub_one_within:
  assumes "wf_big s" and "negative s \<or> limbs s = []" and "mag_val (limbs s) + 1 < 2 ^ (32 * n)"
    and "length (limbs s) \<le> n" and "0 < n" and "n \<le> MAX_LIMBS"
  shows "\<exists>c. sub_big s (from_i64 1) = Inr c"
proof -
  have neg: "limbs (negate (from_i64 1)) = [1]" "negative (negate (from_i64 1))"
    by (simp_all add: negate_def normalized_def from_i64_one pop_zeros.simps)
  then have "\<exists>m. add_magnitude (limbs s) (limbs (negate (from_i64 1))) = Inr m"
    using add_magnitude_within [of "limbs s" "[1]" n] assms by simp
  then show ?thesis by (auto simp: sub_big_def add_big_def split: ordering.split)
qed

lemma shr_nonneg_correct:
  assumes amt: "small_shift amount = Inr bits" and a: "wf_big a" and len: "length (limbs a) \<le> MAX_LIMBS"
  shows "\<exists>c. shr_nonneg a amount = Inr c \<and> wf_big c \<and> to_int c = to_int a div 2 ^ bits"
proof -
  let ?m = "mag_val (limbs a)"
  define shifted where "shifted = normalized (negative a)
    (map (shr_limb (limbs a) (bits mod 32)) [bits div 32..<length (limbs a)])"
  have sv: "to_int shifted = (if negative a then - int (?m div 2 ^ bits) else int (?m div 2 ^ bits))"
    by (simp add: shifted_def shr_limbs_correct del: of_nat_div)
  have wf: "wf_big shifted" by (simp add: shifted_def)
  consider "bits div 32 \<ge> length (limbs a)" | "bits div 32 < length (limbs a)" "\<not> negative a"
    | "bits div 32 < length (limbs a)" "negative a" by linarith
  then show ?thesis
  proof cases
    case 1
    have "?m < 2 ^ (32 * length (limbs a))" by (rule mag_val_bound)
    also have "\<dots> \<le> 2 ^ bits" using 1 by (intro power_increasing) auto
    finally have small: "?m < 2 ^ bits" .
    have "int ?m < 2 ^ bits" using small by (metis of_nat_less_iff of_nat_numeral of_nat_power)
    moreover have "negative a \<Longrightarrow> 0 < ?m"
      using a no_top_zero_0_iff [of "limbs a"] by (auto simp: wf_big_def)
    ultimately have "to_int a div 2 ^ bits = (if negative a then - 1 else 0)"
      by (auto simp: to_int_def div_pos_pos_trivial zdiv_zminus1_eq_if)
    then show ?thesis using 1 amt by (auto simp: shr_nonneg_def)
  next
    case 2
    then show ?thesis
      using amt by (auto simp: shr_nonneg_def to_int_def [of a] zdiv_int shr_limbs_correct)
  next
    case 3
    let ?q = "?m div 2 ^ bits" and ?n = "length (limbs a)"
    have m: "?m < 2 ^ (32 * ?n)" by (rule mag_val_bound)
    have qle: "?q * 2 ^ bits \<le> ?m" by (rule div_times_less_eq_dividend)
    have sm: "mag_val (limbs shifted) = ?q" by (simp add: shifted_def shr_limbs_correct)
    have "\<exists>r. shl_nonneg shifted amount = Inr r"
    proof (cases "limbs shifted = []")
      case True
      then show ?thesis using amt 3(1) len by (simp add: shl_nonneg_def)
    next
      case False
      then show ?thesis using shl_nonneg_within [OF amt wf False, of ?n] qle m sm len by simp
    qed
    then obtain r where r: "shl_nonneg shifted amount = Inr r" ..
    then have rv: "wf_big r" "to_int r = - int ?q * 2 ^ bits"
      using shl_nonneg_correct [OF amt r] sv 3(2) by auto
    have shr: "shr_nonneg a amount = (if compare_big r a \<noteq> Equal then sub_big shifted (from_i64 1) else Inr shifted)"
      using 3 amt r unfolding shifted_def by (simp add: shr_nonneg_def Let_def)
    have av: "to_int a = - int ?m" using 3(2) by (simp add: to_int_def)
    have eq: "compare_big r a = Equal \<longleftrightarrow> int ?q * 2 ^ bits = int ?m"
      using compare_correct [OF rv(1) a] rv(2) av by (auto simp: cmp_of_def)
    show ?thesis
    proof (cases "compare_big r a = Equal")
      case True
      then show ?thesis using shr wf sv 3(2) eq shr_floor [of ?m bits] av by simp
    next
      case False
      then have "?q * 2 ^ bits < ?m"
        using eq qle by (metis le_neq_implies_less of_nat_mult of_nat_numeral of_nat_power)
      moreover have "?q * 1 \<le> ?q * 2 ^ bits" by (rule mult_le_mono2) simp
      ultimately have "?q + 1 < 2 ^ (32 * ?n)" using m by linarith
      moreover have "length (limbs shifted) \<le> ?n"
        unfolding shifted_def limbs_normalized by (rule order_trans [OF length_pop_zeros]) simp
      moreover have "negative shifted \<or> limbs shifted = []"
        using 3(2) by (simp add: shifted_def normalized_def Let_def)
      moreover have "limbs a \<noteq> []" using 3(1) by auto
      ultimately obtain c where c: "sub_big shifted (from_i64 1) = Inr c"
        using sub_one_within [OF wf, of ?n] len sm by auto
      then have "wf_big c \<and> to_int c = to_int shifted - 1" using sub_big_correct [OF wf _ c] by simp
      then show ?thesis using shr False c sv 3(2) eq shr_floor [of ?m bits] av by simp
    qed
  qed
qed

section \<open>Bitwise operators\<close>

lemma neg_mod_int:
  assumes "m < 2 ^ n"
  shows "int ((2 ^ n - m) mod 2 ^ n) = (- int m) mod 2 ^ n"
proof -
  have "int ((2 ^ n - m) mod 2 ^ n) = (2 ^ n - int m) mod 2 ^ n"
    using assms by (simp add: zmod_int of_nat_diff)
  also have "\<dots> = (- int m) mod 2 ^ n" by (metis add.commute mod_add_self1 uminus_add_conv_diff)
  finally show ?thesis .
qed

lemma twos_complement_value:
  "int (mag_val (twos_complement b w)) = take_bit (32 * w) (to_int b)"
  "length (twos_complement b w) = w"
proof -
  show "length (twos_complement b w) = w"
    using carry_in_correct [of 1 "map (\<lambda>l. NOT l) (resize_limbs (limbs b) w)"]
    by (simp add: twos_complement_def Let_def resize_limbs_value)
  have "mag_val (resize_limbs (limbs b) w) < 2 ^ (32 * w)" by (simp add: resize_limbs_value)
  then have "int ((2 ^ (32 * w) - mag_val (resize_limbs (limbs b) w)) mod 2 ^ (32 * w)) =
      (- int (mag_val (limbs b))) mod 2 ^ (32 * w)"
    by (subst neg_mod_int) (simp_all add: resize_limbs_value zmod_int mod_minus_eq)
  then show "int (mag_val (twos_complement b w)) = take_bit (32 * w) (to_int b)"
    by (simp add: twos_complement_def Let_def negate_limbs_value resize_limbs_value take_bit_eq_mod
        to_int_def zmod_int)
qed

text \<open>Reading limbs as two's complement.\<close>

lemma top_bit_mag:
  assumes "ls \<noteq> []"
  shows "drop_bit 31 (last ls) = 1 \<longleftrightarrow> bit (int (mag_val ls)) (32 * length ls - 1)"
proof -
  let ?n = "32 * (length ls - 1)"
  have n: "32 * length ls - 1 = ?n + 31" using assms by (cases ls) auto
  have "mag_val (butlast ls) < 2 ^ ?n" using mag_val_bound [of "butlast ls"] by simp
  then have "mag_val ls div 2 ^ ?n = unat (last ls)" using mag_val_butlast [OF assms] by simp
  then have "mag_val ls div 2 ^ (?n + 31) = unat (last ls) div 2 ^ 31"
    by (simp only: power_add div_mult2_eq)
  then have "bit (mag_val ls) (?n + 31) \<longleftrightarrow> odd (unat (drop_bit 31 (last ls)))"
    by (simp only: bit_iff_odd unat_drop)
  moreover have "unat (drop_bit 31 (last ls)) < 2"
    using u32_bound [of "last ls"] by (simp only: unat_drop) simp
  then have "odd (unat (drop_bit 31 (last ls))) \<longleftrightarrow> unat (drop_bit 31 (last ls)) = 1" by presburger
  ultimately show ?thesis by (simp only: n bit_of_nat_iff_bit word_unat_eq_iff unsigned_1)
qed

lemma from_twos_complement_value:
  "wf_big (from_twos_complement ls) \<and>
   to_int (from_twos_complement ls) =
     (if ls = [] then 0 else signed_take_bit (32 * length ls - 1) (int (mag_val ls)))"
proof (cases "ls \<noteq> [] \<and> drop_bit 31 (last ls) = 1")
  case True
  let ?n = "32 * length ls"
  have ls: "ls \<noteq> []" and bit: "bit (int (mag_val ls)) (?n - 1)" using True top_bit_mag by auto
  have m: "mag_val ls < 2 ^ ?n" by (rule mag_val_bound)
  have pos: "0 < mag_val ls" using bit by (cases "mag_val ls") auto
  have "signed_take_bit (?n - 1) (int (mag_val ls)) = int (mag_val ls) - 2 ^ ?n"
  proof -
    have "Suc (?n - 1) = ?n" using ls by (cases ls) auto
    moreover have "take_bit ?n (int (mag_val ls)) = int (mag_val ls)"
      using m by (simp add: take_bit_int_eq_self_iff)
    ultimately show ?thesis using bit by (simp add: signed_take_bit_eq_take_bit_minus del: of_nat_power)
  qed
  moreover have "(2 ^ ?n - mag_val ls) mod 2 ^ ?n = 2 ^ ?n - mag_val ls" using pos by simp
  ultimately show ?thesis
    using True m by (simp add: from_twos_complement_def negate_limbs_value of_nat_diff)
next
  case False
  have "ls \<noteq> [] \<Longrightarrow> signed_take_bit (32 * length ls - 1) (int (mag_val ls)) = int (mag_val ls)"
  proof -
    assume ls: "ls \<noteq> []"
    then have "\<not> bit (int (mag_val ls)) (32 * length ls - 1)" using False top_bit_mag by auto
    moreover have "take_bit (32 * length ls) (int (mag_val ls)) = int (mag_val ls)"
      using mag_val_bound [of ls]
      by (simp add: take_bit_int_eq_self_iff)
    moreover have "Suc (32 * length ls - 1) = 32 * length ls" using ls by (cases ls) auto
    ultimately show ?thesis by (simp add: signed_take_bit_eq_take_bit_minus)
  qed
  then show ?thesis using False by (auto simp: from_twos_complement_def)
qed

lemma to_int_range:
  assumes "length (limbs b) < w"
  shows "- (2 ^ (32 * w - 1)) \<le> to_int b" and "to_int b < 2 ^ (32 * w - 1)"
proof -
  have "mag_val (limbs b) < 2 ^ (32 * length (limbs b))" by (rule mag_val_bound)
  also have "\<dots> \<le> 2 ^ (32 * w - 1)" using assms by (intro power_increasing) auto
  finally have "int (mag_val (limbs b)) < 2 ^ (32 * w - 1)" by (simp flip: of_nat_power)
  then show "- (2 ^ (32 * w - 1)) \<le> to_int b" and "to_int b < 2 ^ (32 * w - 1)"
    unfolding to_int_def by (cases "negative b"; simp only: if_True if_False; linarith)+
qed

lemma signed_take_bit_to_int:
  "length (limbs b) < w \<Longrightarrow> signed_take_bit (32 * w - 1) (to_int b) = to_int b"
  using to_int_range [of b w] by (simp add: signed_take_bit_int_eq_self)

text \<open>
  The contract of a limb-wise operator: on limbs and on integers it is the same truth function
  of the bits. The three operators of the language are instances.
\<close>

locale limbwise =
  fixes f :: "u32 \<Rightarrow> u32 \<Rightarrow> u32"
    and g :: "int \<Rightarrow> int \<Rightarrow> int"
    and t :: "bool \<Rightarrow> bool \<Rightarrow> bool"
  assumes bit_limb: "k < 32 \<Longrightarrow> bit (f x y) k \<longleftrightarrow> t (bit x k) (bit y k)"
    and bit_int: "bit (g m n) k \<longleftrightarrow> t (bit m k) (bit n k)"
    and zero_bit: "\<not> t False False"
begin

lemma zip_value:
  "length xs = length ys \<Longrightarrow>
   int (mag_val (map (\<lambda>(x, y). f x y) (zip xs ys))) = g (int (mag_val xs)) (int (mag_val ys))"
proof (induction xs ys rule: list_induct2)
  case Nil
  show ?case by (rule bit_eqI) (simp add: bit_int zero_bit)
next
  case (Cons x xs y ys)
  show ?case
    by (rule bit_eqI)
      (simp add: mag_val_Cons_or bit_push_or_low bit_int bit_limb Cons.IH del: mag_val.simps)
qed

lemma signed_take_bit_distrib:
  "signed_take_bit n (g x y) = g (signed_take_bit n x) (signed_take_bit n y)"
  by (rule bit_eqI) (simp add: bit_signed_take_bit_iff bit_int)

lemma bitwise_value:
  "\<exists>c. bitwise f a b = Inr c \<and> wf_big c \<and> to_int c = g (to_int a) (to_int b)"
proof -
  let ?w = "max (length (limbs a)) (length (limbs b)) + 1"
  let ?ls = "map (\<lambda>(x, y). f x y) (zip (twos_complement a ?w) (twos_complement b ?w))"
  have ne: "?ls \<noteq> []" and len: "length ?ls = ?w"
    using twos_complement_value(2) [of a ?w] twos_complement_value(2) [of b ?w] by (auto simp: zip_eq_Nil_iff)
  have suc: "Suc (32 * ?w - 1) = 32 * ?w" by simp
  have "int (mag_val ?ls) = g (take_bit (32 * ?w) (to_int a)) (take_bit (32 * ?w) (to_int b))"
    by (subst zip_value) (simp_all only: twos_complement_value)
  then have "signed_take_bit (32 * ?w - 1) (int (mag_val ?ls)) =
      g (signed_take_bit (32 * ?w - 1) (to_int a)) (signed_take_bit (32 * ?w - 1) (to_int b))"
    by (simp only: signed_take_bit_distrib) (simp add: signed_take_bit_take_bit)
  also have "\<dots> = g (to_int a) (to_int b)"
    by (simp only: signed_take_bit_to_int [of a ?w] signed_take_bit_to_int [of b ?w])
  finally have "to_int (from_twos_complement ?ls) = g (to_int a) (to_int b)"
    using from_twos_complement_value [of ?ls] ne len by simp
  then show ?thesis using from_twos_complement_value [of ?ls] by (simp add: bitwise_def Let_def)
qed

end

interpretation limb_and: limbwise "(AND)" "(AND)" "(\<and>)"
  by unfold_locales (auto simp: bit_simps)

interpretation limb_or: limbwise "(OR)" "(OR)" "(\<or>)"
  by unfold_locales (auto simp: bit_simps)

interpretation limb_xor: limbwise "(XOR)" "(XOR)" "\<lambda>p q. p \<noteq> q"
  by unfold_locales (auto simp: bit_simps)

section \<open>Fixed-width wrapping\<close>

lemma bit_mag_val:
  "bit (mag_val ls) k \<longleftrightarrow> k div 32 < length ls \<and> bit (ls ! (k div 32)) (k mod 32)"
proof (cases "k < 32 * length ls")
  case True
  then have i: "k div 32 < length ls" by (simp add: less_mult_imp_div_less mult.commute)
  have "mag_val ls div 2 ^ k mod 2 = unat (ls ! (k div 32)) div 2 ^ (k mod 32) mod 2"
    using limb_bit_value [OF True] by (simp only: limb_bit_def unat_bit_test)
  then have "odd (mag_val ls div 2 ^ k) \<longleftrightarrow> odd (unat (ls ! (k div 32)) div 2 ^ (k mod 32))"
    by (metis even_iff_mod_2_eq_zero)
  then show ?thesis using i by (simp only: bit_iff_odd [of "mag_val ls"] bit_word_iff_odd) simp
next
  case False
  have "mag_val ls < 2 ^ (32 * length ls)" by (rule mag_val_bound)
  also have "\<dots> \<le> 2 ^ k" using False by (intro power_increasing) auto
  finally show ?thesis using False by (simp add: bit_iff_odd not_less less_mult_imp_div_less) linarith
qed

lemma length_map_index [simp]: "length (map_index f ls) = length ls"
  by (simp add: map_index_def)

lemma bit_mask_limb: "j < 32 \<Longrightarrow> bit (mask_limb bits i l) j \<longleftrightarrow> bit l j \<and> i * 32 + j < bits"
  by (auto simp: mask_limb_def Let_def bit_simps mask_eq_exp_minus_1 [symmetric] push_bit_eq_mult)

lemma bit_extend_limb: "j < 32 \<Longrightarrow> bit (extend_limb bits i l) j \<longleftrightarrow> bit l j \<or> bits \<le> i * 32 + j"
  by (auto simp: extend_limb_def Let_def bit_simps mask_eq_exp_minus_1 [symmetric] push_bit_eq_mult)

lemma bit_map_index:
  assumes "\<And>i j l. j < 32 \<Longrightarrow> bit (f i l) j \<longleftrightarrow> P (bit l j) (i * 32 + j)"
  shows "bit (mag_val (map_index f ls)) k \<longleftrightarrow>
    k div 32 < length ls \<and> P (bit (ls ! (k div 32)) (k mod 32)) k"
proof -
  have "bit (f (k div 32) (ls ! (k div 32))) (k mod 32) \<longleftrightarrow> P (bit (ls ! (k div 32)) (k mod 32)) k"
    using assms [of "k mod 32" "k div 32" "ls ! (k div 32)"] by simp
  then show ?thesis by (cases "k div 32 < length ls") (simp_all add: bit_mag_val map_index_def)
qed

lemma masked_value:
  assumes "bits \<le> 32 * w"
  shows "int (mag_val (map_index (mask_limb bits) (twos_complement a w))) = take_bit bits (to_int a)"
proof (rule bit_eqI)
  fix k
  have "bit (int (mag_val (twos_complement a w))) k = bit (take_bit (32 * w) (to_int a)) k"
    by (simp only: twos_complement_value)
  then have "bit (mag_val (twos_complement a w)) k \<longleftrightarrow> k < 32 * w \<and> bit (to_int a) k"
    by (simp add: bit_take_bit_iff bit_of_nat_iff_bit)
  then show "bit (int (mag_val (map_index (mask_limb bits) (twos_complement a w)))) k =
      bit (take_bit bits (to_int a)) k"
    using bit_map_index [of "mask_limb bits" "\<lambda>p k. p \<and> k < bits" "twos_complement a w" k] assms
    by (auto simp: bit_mask_limb bit_mag_val bit_take_bit_iff bit_of_nat_iff_bit)
qed

lemma extended_value:
  assumes "0 < bits" and "bits < 32 * length ls" and "bit (mag_val ls) (bits - 1)"
    and "int (mag_val ls) = take_bit bits x"
  shows "signed_take_bit (32 * length ls - 1) (int (mag_val (map_index (extend_limb bits) ls))) =
    signed_take_bit (bits - 1) x"
proof (rule bit_eqI)
  fix k
  let ?M = "mag_val (map_index (extend_limb bits) ls)" and ?k = "min (32 * length ls - 1) k"
  have x: "bit x j" if "j = bits - 1" for j
    using assms(1,3,4) that by (metis bit_of_nat_iff_bit bit_take_bit_iff)
  have k: "?k div 32 < length ls" using assms(2) by (simp add: less_mult_imp_div_less mult.commute min_def)
  have "bit ?M ?k \<longleftrightarrow> bit (mag_val ls) ?k \<or> bits \<le> ?k"
    using bit_map_index [of "extend_limb bits" "\<lambda>p k. p \<or> bits \<le> k" ls ?k] k
    by (simp add: bit_extend_limb bit_mag_val)
  also have "bit (mag_val ls) ?k \<longleftrightarrow> ?k < bits \<and> bit x ?k"
    using assms(4) by (metis bit_of_nat_iff_bit bit_take_bit_iff)
  finally have M: "bit ?M ?k \<longleftrightarrow> ?k < bits \<and> bit x ?k \<or> bits \<le> ?k" .
  consider "k < bits - 1" | "k = bits - 1" | "bits \<le> k" by linarith
  then have "bit ?M ?k \<longleftrightarrow> bit x (min (bits - 1) k)"
    by cases (use M assms(1,2) x in \<open>auto simp: min_def\<close>)
  then show "bit (signed_take_bit (32 * length ls - 1) (int ?M)) k = bit (signed_take_bit (bits - 1) x) k"
    by (simp add: bit_signed_take_bit_iff bit_of_nat_iff_bit)
qed

lemma fits_take_bit:
  assumes "wf_big a" and "\<not> negative a" and "bit_length a \<le> bits"
  shows "take_bit bits (to_int a) = to_int a"
proof -
  have "mag_val (limbs a) < 2 ^ bits"
    using bit_length_bounds(1) [OF assms(1)] by (metis assms(3) less_le_trans one_le_numeral power_increasing)
  then show ?thesis using assms(2) by (simp add: to_int_def take_bit_int_eq_self_iff)
qed

lemma fits_signed:
  assumes "wf_big a" and "bit_length a < bits"
  shows "signed_take_bit (bits - 1) (to_int a) = to_int a"
proof -
  have "bit_length a \<le> bits - 1" using assms(2) by simp
  then have "mag_val (limbs a) < 2 ^ (bits - 1)"
    using bit_length_bounds(1) [OF assms(1)] by (metis less_le_trans one_le_numeral power_increasing)
  then have "int (mag_val (limbs a)) < 2 ^ (bits - 1)" by (simp flip: of_nat_power)
  then have "- (2 ^ (bits - 1)) \<le> to_int a" "to_int a < 2 ^ (bits - 1)"
    unfolding to_int_def by (cases "negative a"; simp only: if_True if_False; linarith)+
  then show ?thesis by (rule signed_take_bit_int_eq_self)
qed

lemma as_n_bit_correct:
  assumes a: "wf_big a" and res: "as_n_bit a bits is_signed = Inr c"
  shows "wf_big c \<and> to_int c =
    (if bits = 0 then 0
     else if is_signed then signed_take_bit (bits - 1) (to_int a) else take_bit bits (to_int a))"
proof -
  consider "bits = 0" | "0 < bits" "is_signed" "bits > bit_length a"
    | "0 < bits" "\<not> is_signed" "\<not> negative a" "bits \<ge> bit_length a"
    | "0 < bits" "\<not> ((is_signed \<and> bits > bit_length a) \<or> (\<not> is_signed \<and> \<not> negative a \<and> bits \<ge> bit_length a))"
    by linarith
  then show ?thesis
  proof cases
    case 4
    define w where "w = (bits + 31) div 32 + 1"
    define ls where "ls = map_index (mask_limb bits) (twos_complement a w)"
    have w: "bits < 32 * w" by (simp add: w_def)
    have len: "length ls = w" by (simp add: ls_def twos_complement_value)
    have v: "int (mag_val ls) = take_bit bits (to_int a)" unfolding ls_def using w by (intro masked_value) simp
    have top: "limb_bit ls (bits - 1) = 1 \<longleftrightarrow> bit (mag_val ls) (bits - 1)"
      using limb_bit_odd [of "bits - 1" ls] w len by (simp add: bit_iff_odd)
    have c: "c = (if is_signed \<and> bit (mag_val ls) (bits - 1)
        then from_twos_complement (map_index (extend_limb bits) ls) else normalized False ls)"
      using res 4 top unfolding ls_def w_def as_n_bit_def Let_def by (auto split: if_splits)
    show ?thesis
    proof (cases "is_signed \<and> bit (mag_val ls) (bits - 1)")
      case True
      moreover have "map_index (extend_limb bits) ls \<noteq> []" using len w by (auto simp: map_index_def)
      ultimately show ?thesis
        using from_twos_complement_value [of "map_index (extend_limb bits) ls"] 4(1) w len v c
          extended_value [of bits ls "to_int a"] by simp
    next
      case False
      have "is_signed \<Longrightarrow> signed_take_bit (bits - 1) (to_int a) = take_bit bits (to_int a)"
      proof -
        assume "is_signed"
        then have "\<not> bit (take_bit bits (to_int a)) (bits - 1)" using False v by (metis bit_of_nat_iff_bit)
        then show ?thesis using 4(1) by (simp add: signed_take_bit_eq_take_bit_minus bit_take_bit_iff)
      qed
      then show ?thesis using False v c 4(1) by auto
    qed
  qed (use a res fits_signed [OF a] fits_take_bit [OF a] in \<open>auto simp: as_n_bit_def\<close>)
qed

section \<open>Machine words\<close>

lemma split_word:
  fixes l h :: u32
  defines "w \<equiv> push_bit 32 (ucast h) OR ucast l :: u64"
  shows "ucast w = l" and "ucast (drop_bit 32 w) = h"
  unfolding w_def by (rule bit_eqI, auto simp: bit_simps dest: bit_imp_le_length)+

lemma to_words_value:
  "mag_val (concat (map (\<lambda>word. [ucast word, ucast (drop_bit 32 word)]) (to_words_loop ls))) = mag_val ls"
proof (induction ls rule: to_words_loop.induct)
  case (2 low)
  have "(ucast (ucast low :: u64) :: u32) = low" "(ucast (drop_bit 32 (ucast low :: u64)) :: u32) = 0"
    by (rule bit_eqI, auto simp: bit_simps dest: bit_imp_le_length)+
  then show ?case by simp
next
  case (3 low high ls)
  then show ?case
    by (simp only: to_words_loop.simps list.map concat.simps append.simps mag_val.simps split_word)
qed simp

lemma from_to_words:
  assumes "wf_big b"
  shows "from_words (fst (to_words b)) (snd (to_words b)) = b"
proof (rule to_int_inj [OF _ assms])
  show "to_int (from_words (fst (to_words b)) (snd (to_words b))) = to_int b"
    by (simp add: from_words_def to_words_def to_words_value to_int_def [of b])
qed (simp add: from_words_def)

section \<open>Decimal text\<close>











lemma wf_length_bound:
  assumes "wf_big b" and "mag_val (limbs b) < 2 ^ (32 * k)"
  shows "length (limbs b) \<le> k"
proof (rule ccontr)
  assume "\<not> length (limbs b) \<le> k"
  then have k: "k \<le> length (limbs b) - 1" and ne: "limbs b \<noteq> []" by auto
  have "2 ^ (32 * k) \<le> (2 :: nat) ^ (32 * (length (limbs b) - 1))" using k by (intro power_increasing) auto
  also have "\<dots> \<le> mag_val (limbs b)" using no_top_zero_lower ne assms(1) by (simp add: wf_big_def)
  finally show False using assms(2) by simp
qed

lemma to_int_nonneg: "wf_big b \<Longrightarrow> to_int b = int n \<Longrightarrow> \<not> negative b \<and> mag_val (limbs b) = n"
  using no_top_zero_0_iff [of "limbs b"] by (auto simp: wf_big_def to_int_def split: if_splits)









section \<open>The contract of the operators\<close>

lemma div_rem_total:
  assumes "wf_big a" and "wf_big b" and "to_int b \<noteq> 0"
  shows "\<exists>q r. div_big a b = Inr q \<and> rem_big a b = Inr r"
  using assms is_zero_iff [of b] by (simp add: div_big_def rem_big_def)

lemma pow_big_error:
  assumes "pow_big a e = Inl err"
  shows "negative e \<or> err = overflow"
proof (rule disjCI)
  assume "err \<noteq> overflow"
  have "fold_outcome (pow_step ls n) ks s = Inl err \<Longrightarrow> err = overflow" for ls n ks s
    by (induction ks arbitrary: s) (auto simp: bind_outcome_Inl_iff dest: pow_step_error)
  then show "negative e"
    using assms \<open>err \<noteq> overflow\<close>
    by (auto simp: pow_big_def bind_outcome_Inl_iff split: if_splits)
qed

lemma shl_nonneg_error: "shl_nonneg a amount = Inl e \<Longrightarrow> e = overflow"
  by (auto simp: shl_nonneg_def small_shift_def bind_outcome_Inl_iff Let_def split: if_splits prod.splits)


lemma negate_nonneg: "negative b \<Longrightarrow> \<not> negative (negate b)"
  by (simp add: negate_def normalized_def Let_def)

lemma small_shift_total:
  assumes "wf_big m" and "\<not> negative m" and "to_int m \<le> int MAX_LIMBS * 32"
  shows "small_shift m = Inr (nat (to_int m))"
proof -
  have v: "mag_val (limbs m) \<le> MAX_LIMBS * 32" using assms(2,3) by (simp add: to_int_def)
  then have "mag_val (limbs m) < 2 ^ (32 * 1)" by (simp add: MAX_LIMBS_def)
  then have "length (limbs m) \<le> 1" by (rule wf_length_bound [OF assms(1)])
  then show ?thesis
    using v assms(2) by (cases "limbs m") (auto simp: small_shift_def to_int_def Let_def)
qed

lemma shl_nonneg_zero:
  assumes "wf_big a" and "length (limbs a) \<le> MAX_LIMBS" and "wf_big m" and "to_int m = 0"
  shows "\<exists>c. shl_nonneg a m = Inr c"
proof -
  have s: "small_shift m = Inr 0"
    using assms(4) to_int_nonneg [OF assms(3), of 0] by (subst small_shift_total [OF assms(3)]) auto
  show ?thesis
  proof (cases "limbs a = []")
    case True
    then show ?thesis using s by (simp add: shl_nonneg_def)
  next
    case False
    then show ?thesis
      using shl_nonneg_within [OF s assms(1) False, of "length (limbs a)"] assms(2) mag_val_bound by simp
  qed
qed

text \<open>
  C18. Addition and subtraction of \<open>BigInt\<close>s: on well-formed operands the result is well
  formed and denotes the integer sum or difference; the only failure is the size error, and it
  needs an operand that already fills the limb cap.
\<close>

theorem big_add_sub_exact:
  assumes "wf_big a" and "wf_big b"
  shows "(case add_big a b of Inr c \<Rightarrow> wf_big c \<and> to_int c = to_int a + to_int b
      | Inl e \<Rightarrow> e = overflow \<and> (MAX_LIMBS \<le> length (limbs a) \<or> MAX_LIMBS \<le> length (limbs b))) \<and>
    (case sub_big a b of Inr c \<Rightarrow> wf_big c \<and> to_int c = to_int a - to_int b
      | Inl e \<Rightarrow> e = overflow \<and> (MAX_LIMBS \<le> length (limbs a) \<or> MAX_LIMBS \<le> length (limbs b)))"
  using add_big_correct [OF assms] sub_big_correct [OF assms] add_big_error [of a b]
    add_big_error [of a "negate b"] add_big_total [of a b] add_big_total [of a "negate b"]
    length_negate [of b]
  by (fastforce simp: sub_big_def not_le split: sum.split)

theorem big_add_sub_exact_witness:
  "wf_big (from_i64 7) \<and> wf_big (from_i64 (- 9)) \<and>
   (case add_big (from_i64 7) (from_i64 (- 9)) of Inr c \<Rightarrow> wf_big c \<and> to_int c = - 2
      | Inl e \<Rightarrow> e = overflow \<and> (MAX_LIMBS \<le> length (limbs (from_i64 7)) \<or>
          MAX_LIMBS \<le> length (limbs (from_i64 (- 9)))))"
proof -
  have "sint (7 :: u64) + sint (- 9 :: u64) = - 2" by simp
  then show ?thesis using big_add_sub_exact [of "from_i64 7" "from_i64 (- 9)"] by (simp split: sum.splits)
qed

text \<open>
  C19. Multiplication is exact, never panics (the trailing carry loop stays inside the
  product), and fails exactly when two non-zero operands have more than the cap of limbs
  between them.
\<close>

theorem big_mul_exact:
  "case mul_big a b of Inr c \<Rightarrow> wf_big c \<and> to_int c = to_int a * to_int b
     | Inl e \<Rightarrow> e = overflow \<and> limbs a \<noteq> [] \<and> limbs b \<noteq> [] \<and>
         length (limbs a) + length (limbs b) > MAX_LIMBS"
  using mul_big_correct [of a b]
  by (auto simp: mul_big_def bind_outcome_Inl_iff mul_magnitude_overflow split: sum.split)

text \<open>
  C20. Division truncates towards zero and the remainder takes the sign of the dividend:
  for a non-zero divisor both succeed with \<open>sdiv\<close> and \<open>smod\<close> of the integers, so they
  recompose the dividend; a zero divisor is the division error.
\<close>

theorem big_div_rem_exact:
  assumes "wf_big a" and "wf_big b"
  shows "if to_int b = 0 then div_big a b = Inl division_by_zero \<and> rem_big a b = Inl division_by_zero
    else \<exists>q r. div_big a b = Inr q \<and> rem_big a b = Inr r \<and> wf_big q \<and> wf_big r \<and>
      to_int q = to_int a sdiv to_int b \<and> to_int r = to_int a smod to_int b \<and>
      to_int a = to_int q * to_int b + to_int r"
proof (cases "to_int b = 0")
  case True
  then show ?thesis using is_zero_iff [OF assms(2)] by (simp add: div_big_def rem_big_def)
next
  case False
  then obtain q r where "div_big a b = Inr q" "rem_big a b = Inr r"
    using div_rem_total [OF assms] by blast
  moreover have "to_int a sdiv to_int b * to_int b + to_int a smod to_int b = to_int a"
    by (rule sdiv_mult_smod_eq)
  ultimately show ?thesis
    using False div_big_correct [OF assms] rem_big_correct [OF assms] by simp
qed

theorem big_div_rem_exact_witness:
  "wf_big (from_i64 (- 7)) \<and> wf_big (from_i64 2) \<and>
   (\<exists>q r. div_big (from_i64 (- 7)) (from_i64 2) = Inr q \<and> rem_big (from_i64 (- 7)) (from_i64 2) = Inr r \<and>
      to_int q = - 3 \<and> to_int r = - 1)"
proof -
  have "(- 7 :: int) sdiv 2 = - 3" "(- 7 :: int) smod 2 = - 1"
    by (simp_all add: signed_divide_int_def signed_modulo_int_def)
  then show ?thesis using big_div_rem_exact [of "from_i64 (- 7)" "from_i64 2"] by auto
qed

text \<open>
  Exponentiation by squaring computes the power; a negative exponent is the exponent
  error and every other failure is the size error.
\<close>

theorem big_pow_exact:
  assumes "wf_big a" and "wf_big e"
  shows "case pow_big a e of Inr c \<Rightarrow> 0 \<le> to_int e \<and> wf_big c \<and> to_int c = to_int a ^ nat (to_int e)
    | Inl err \<Rightarrow> if to_int e < 0 then err = ErrMsg ''RangeError: Exponent must be non-negative''
        else err = overflow"
proof -
  have neg: "negative e \<longleftrightarrow> to_int e < 0"
    using assms(2) no_top_zero_0_iff [of "limbs e"] by (auto simp: wf_big_def to_int_def)
  show ?thesis
  proof (cases "pow_big a e")
    case (Inl err)
    then show ?thesis using pow_big_error [OF Inl] neg by (simp add: pow_big_def split: if_splits)
  next
    case (Inr c)
    then have "\<not> negative e" by (auto simp: pow_big_def)
    then show ?thesis using Inr pow_big_correct [OF assms Inr] neg by simp
  qed
qed

theorem big_pow_exact_witness:
  "wf_big (from_i64 3) \<and> wf_big (from_i64 4) \<and>
   (case pow_big (from_i64 3) (from_i64 4) of Inr c \<Rightarrow> wf_big c \<and> to_int c = 81
     | Inl err \<Rightarrow> err = overflow)"
  using big_pow_exact [of "from_i64 3" "from_i64 4"] by (simp split: sum.splits)

text \<open>
  Shifts: within the accepted amounts, a left shift multiplies by a power of two or
  reports the size error, and a right shift always succeeds and rounds towards negative
  infinity; a negative amount shifts the other way.
\<close>

theorem big_shift_exact:
  assumes "wf_big a" and "length (limbs a) \<le> MAX_LIMBS" and "wf_big n" and "\<bar>to_int n\<bar> \<le> int MAX_LIMBS * 32"
  shows "(case shl_big a n of
      Inr c \<Rightarrow> wf_big c \<and> to_int c =
        (if to_int n < 0 then to_int a div 2 ^ nat (- to_int n) else to_int a * 2 ^ nat (to_int n))
    | Inl e \<Rightarrow> e = overflow \<and> 0 < to_int n) \<and>
    (case shr_big a n of
      Inr c \<Rightarrow> wf_big c \<and> to_int c =
        (if to_int n < 0 then to_int a * 2 ^ nat (- to_int n) else to_int a div 2 ^ nat (to_int n))
    | Inl e \<Rightarrow> e = overflow \<and> to_int n < 0)"
proof -
  have amount: "small_shift m = Inr (nat (to_int m))" if m: "wf_big m" "\<not> negative m" "to_int m \<le> int MAX_LIMBS * 32" for m
    using small_shift_total [OF m] .
  have neg: "negative n \<longleftrightarrow> to_int n < 0"
    using assms(3) no_top_zero_0_iff [of "limbs n"] by (auto simp: wf_big_def to_int_def)
  have shl: "case shl_nonneg a m of Inr c \<Rightarrow> wf_big c \<and> to_int c = to_int a * 2 ^ nat (to_int m)
      | Inl e \<Rightarrow> e = overflow \<and> to_int m \<noteq> 0"
    if m: "wf_big m" "\<not> negative m" "to_int m \<le> int MAX_LIMBS * 32" for m
    using shl_nonneg_correct [OF amount [OF m]] shl_nonneg_error [of a m]
      shl_nonneg_zero [OF assms(1,2) m(1)] by (auto split: sum.split)
  note shr = shr_nonneg_correct [OF amount assms(1,2)]
  show ?thesis
  proof (cases "negative n")
    case True
    then show ?thesis
      using shl [of "negate n"] shr [of "negate n"] assms(4) neg negate_nonneg [OF True]
      by (auto simp: shl_big_def shr_big_def split: sum.splits)
  next
    case False
    then show ?thesis
      using shl [of n] shr [of n] assms(3,4) neg by (auto simp: shl_big_def shr_big_def split: sum.splits)
  qed
qed

theorem big_shift_exact_witness:
  "wf_big (from_i64 (- 5)) \<and> length (limbs (from_i64 (- 5))) \<le> MAX_LIMBS \<and> wf_big (from_i64 1) \<and>
   \<bar>to_int (from_i64 1)\<bar> \<le> int MAX_LIMBS * 32 \<and>
   (case shr_big (from_i64 (- 5)) (from_i64 1) of Inr c \<Rightarrow> to_int c = - 3 | Inl e \<Rightarrow> False)"
proof -
  have h: "wf_big (from_i64 (- 5))" "length (limbs (from_i64 (- 5))) \<le> MAX_LIMBS" "wf_big (from_i64 1)"
    "\<bar>to_int (from_i64 1)\<bar> \<le> int MAX_LIMBS * 32"
    using length_from_i64 [of "- 5"] by (simp_all add: MAX_LIMBS_def)
  then show ?thesis using big_shift_exact [OF h] by (auto split: sum.splits)
qed

text \<open>
  C21. The bitwise operators act on the infinite two's-complement representation: AND, OR, XOR
  and complement of the denoted integers.
\<close>

theorem big_bitwise_exact:
  "(\<exists>c. bitand a b = Inr c \<and> wf_big c \<and> to_int c = to_int a AND to_int b) \<and>
   (\<exists>c. bitor a b = Inr c \<and> wf_big c \<and> to_int c = to_int a OR to_int b) \<and>
   (\<exists>c. bitxor a b = Inr c \<and> wf_big c \<and> to_int c = to_int a XOR to_int b) \<and>
   (case bitnot a of Inr c \<Rightarrow> wf_big c \<and> to_int c = NOT (to_int a) | Inl e \<Rightarrow> e = overflow)"
proof -
  have "case bitnot a of Inr c \<Rightarrow> wf_big c \<and> to_int c = NOT (to_int a) | Inl e \<Rightarrow> e = overflow"
    using sub_big_correct [of "negate a" "from_i64 1"] add_big_error [of "negate a" "negate (from_i64 1)"]
    by (auto simp: bitnot_def sub_big_def not_int_def split: sum.split)
  then show ?thesis
    using limb_and.bitwise_value [of a b] limb_or.bitwise_value [of a b] limb_xor.bitwise_value [of a b]
    by (simp add: bitand_def bitor_def bitxor_def)
qed

text \<open>
  \<open>asUintN\<close> and \<open>asIntN\<close> reduce modulo \<open>2 ^ bits\<close>, into the unsigned and the signed range;
  the only failure is the size error for widths beyond the cap that the value does not fit.
\<close>

theorem big_as_n_bit_exact:
  assumes "wf_big a"
  shows "case as_n_bit a bits is_signed of
      Inr c \<Rightarrow> wf_big c \<and> to_int c =
        (if bits = 0 then 0
         else if is_signed then signed_take_bit (bits - 1) (to_int a) else take_bit bits (to_int a))
    | Inl e \<Rightarrow> e = overflow \<and> bits > MAX_LIMBS * 32"
  using as_n_bit_correct [OF assms, of bits is_signed]
  by (auto simp: as_n_bit_def Let_def split: sum.splits if_splits)

theorem big_as_n_bit_exact_witness:
  "wf_big (from_i64 200) \<and>
   (case as_n_bit (from_i64 200) 8 True of Inr c \<Rightarrow> to_int c = - 56 | Inl e \<Rightarrow> False)"
proof -
  have "signed_take_bit 7 (200 :: int) = - 56" by (simp add: signed_take_bit_eq_take_bit_minus take_bit_eq_mod)
  then show ?thesis
    using big_as_n_bit_exact [of "from_i64 200" 8 True] by (auto simp: MAX_LIMBS_def split: sum.splits)
qed



text \<open>
  The 64-bit words of the Node-API accessors carry the value: rebuilding from them gives
  the same \<open>BigInt\<close>, and rebuilding from arbitrary words gives a well-formed one with their value.
\<close>

theorem big_words_roundtrip:
  assumes "wf_big b"
  shows "from_words (fst (to_words b)) (snd (to_words b)) = b \<and>
    wf_big (from_words neg ws) \<and>
    \<bar>to_int (from_words neg ws)\<bar> = (\<Sum>i<length ws. uint (ws ! i) * 2 ^ (64 * i))"
proof -
  have "int (mag_val (concat (map (\<lambda>word. [ucast word, ucast (drop_bit 32 word)]) ws))) =
      (\<Sum>i<length ws. uint (ws ! i) * 2 ^ (64 * i))"
  proof (induction ws)
    case (Cons w ws)
    have "unat (drop_bit 32 w) < 2 ^ 32" using u64_bound [of w] by (subst unat_high) simp
    then have "unat (ucast w :: u32) + 2 ^ 32 * unat (ucast (drop_bit 32 w) :: u32) = unat w"
      using narrow_high_split [of w] by (simp add: unat_narrow [of "drop_bit 32 w"])
    then have "mag_val (concat (map (\<lambda>word. [ucast word, ucast (drop_bit 32 word)]) (w # ws))) =
        unat w + 2 ^ 64 * mag_val (concat (map (\<lambda>word. [ucast word, ucast (drop_bit 32 word)]) ws))"
      by simp
    then have "int (mag_val (concat (map (\<lambda>word. [ucast word, ucast (drop_bit 32 word)]) (w # ws)))) =
        uint w + 2 ^ 64 * (\<Sum>i<length ws. uint (ws ! i) * 2 ^ (64 * i))"
      by (simp only: of_nat_add of_nat_mult of_nat_power of_nat_numeral Cons uint_nat)
    also have "\<dots> = (\<Sum>i<length (w # ws). uint ((w # ws) ! i) * 2 ^ (64 * i))"
      by (simp add: sum.lessThan_Suc_shift sum_distrib_left power_add mult.left_commute del: sum.lessThan_Suc)
    finally show ?case .
  qed simp
  then show ?thesis using from_to_words [OF assms] by (auto simp: from_words_def)
qed

theorem big_words_roundtrip_witness:
  "wf_big (from_i64 (- 3)) \<and>
   from_words (fst (to_words (from_i64 (- 3)))) (snd (to_words (from_i64 (- 3)))) = from_i64 (- 3)"
  using big_words_roundtrip [of "from_i64 (- 3)" False "[]"] by simp

text \<open>
  \<open>compare\<close> is the order of the denoted integers, and well-formed representations are
  canonical: two of them compare equal exactly when they are the same record.
\<close>

theorem big_compare_canonical:
  assumes "wf_big a" and "wf_big b"
  shows "compare_big a b =
      (if to_int a < to_int b then Less else if to_int a = to_int b then Equal else Greater) \<and>
    (compare_big a b = Equal \<longleftrightarrow> a = b)"
  using compare_correct [OF assms] to_int_inj [OF assms] by (auto simp: cmp_of_def)

theorem big_compare_canonical_witness:
  "wf_big (from_i64 (- 1)) \<and> wf_big (from_i64 4) \<and> compare_big (from_i64 (- 1)) (from_i64 4) = Less"
  using big_compare_canonical [of "from_i64 (- 1)" "from_i64 4"] by simp



end
