(* ===== verification/Js_String.thy ===== *)
theory Js_String
  imports VM_Prelude
begin

text \<open>
  ECMAScript strings (\<open>js_string.rs\<close>): sequences of UTF-16 code units with a lazily filled
  UTF-8 view, their searching, slicing and iteration operations, and the lossless property-key
  encoding. A Rust \<open>char\<close> is its scalar value; a \<open>OnceLock\<close> is an option that an operation may
  fill or take.
\<close>

section \<open>UTF-16\<close>

definition is_high :: "u16 \<Rightarrow> bool" where
  "is_high u = (0xD800 \<le> u \<and> u \<le> 0xDBFF)"

definition is_low :: "u16 \<Rightarrow> bool" where
  "is_low u = (0xDC00 \<le> u \<and> u \<le> 0xDFFF)"

definition is_surrogate :: "u16 \<Rightarrow> bool" where
  "is_surrogate u = (0xD800 \<le> u \<and> u \<le> 0xDFFF)"

definition valid_char :: "rchar \<Rightarrow> bool" where
  "valid_char c = (c < 0xD800 \<or> (0xE000 \<le> c \<and> c < 0x110000))"

definition combine_pair :: "u16 \<Rightarrow> u16 \<Rightarrow> rchar" where
  "combine_pair hi lo = 0x10000 + 0x400 * (unat hi - 0xD800) + (unat lo - 0xDC00)"

text \<open>\<open>char::decode_utf16\<close>: an unpaired surrogate is an error item.\<close>

fun decode_utf16 :: "u16 list \<Rightarrow> (u16 + rchar) list" where
  "decode_utf16 [] = []"
| "decode_utf16 [u] = [if is_surrogate u then Inl u else Inr (unat u)]"
| "decode_utf16 (u # v # us) =
     (if \<not> is_surrogate u then Inr (unat u) # decode_utf16 (v # us)
      else if is_high u \<and> is_low v then Inr (combine_pair u v) # decode_utf16 us
      else Inl u # decode_utf16 (v # us))"

text \<open>\<open>char::encode_utf16\<close>\<close>

definition encode_char :: "rchar \<Rightarrow> u16 list" where
  "encode_char c =
     (if c < 0x10000 then [of_nat c]
      else [of_nat (0xD800 + (c - 0x10000) div 0x400), of_nat (0xDC00 + (c - 0x10000) mod 0x400)])"

definition encode_utf16 :: "rstring \<Rightarrow> u16 list" where
  "encode_utf16 s = concat (map encode_char s)"

definition from_utf16_lossy :: "u16 list \<Rightarrow> rstring" where
  "from_utf16_lossy us = map (\<lambda>x. case x of Inl _ \<Rightarrow> 0xFFFD | Inr c \<Rightarrow> c) (decode_utf16 us)"

definition from_utf16 :: "u16 list \<Rightarrow> rstring option" where
  "from_utf16 us =
     (if list_all (\<lambda>x. case x of Inl _ \<Rightarrow> False | Inr _ \<Rightarrow> True) (decode_utf16 us)
      then Some (from_utf16_lossy us) else None)"

section \<open>The string type and its operations\<close>

record js_string =
  units :: "u16 list"
  utf8 :: "rstring option"

definition from_units :: "u16 list \<Rightarrow> js_string" where
  "from_units us = \<lparr>units = us, utf8 = None\<rparr>"

definition from_str :: "rstring \<Rightarrow> js_string" where
  "from_str s = \<lparr>units = encode_utf16 s, utf8 = Some s\<rparr>"

definition default_string :: js_string where
  "default_string = from_str []"

definition truncate :: "nat \<Rightarrow> js_string \<Rightarrow> js_string" where
  "truncate n s = \<lparr>units = take n (units s), utf8 = None\<rparr>"

definition js_len :: "js_string \<Rightarrow> nat" where
  "js_len s = length (units s)"

definition js_is_empty :: "js_string \<Rightarrow> bool" where
  "js_is_empty s = (units s = [])"

text \<open>\<open>as_str\<close> fills the cache on first use and returns the cached text.\<close>

definition as_str :: "js_string \<Rightarrow> rstring \<times> js_string" where
  "as_str s =
     (case utf8 s of
        Some t \<Rightarrow> (t, s)
      | None \<Rightarrow> let t = from_utf16_lossy (units s) in (t, s\<lparr>utf8 := Some t\<rparr>))"

definition to_utf8 :: "js_string \<Rightarrow> rstring option" where
  "to_utf8 s = from_utf16 (units s)"

text \<open>Slicing \<open>units[start..end]\<close> panics when the range is inverted or past the end.\<close>

definition slice :: "js_string \<Rightarrow> nat \<Rightarrow> nat \<Rightarrow> js_string outcome" where
  "slice s a b =
     (if a \<le> b \<and> b \<le> js_len s then Inr (from_units (take (b - a) (drop a (units s))))
      else Inl Panicked)"

definition js_concat :: "js_string \<Rightarrow> js_string \<Rightarrow> js_string" where
  "js_concat s t = from_units (units s @ units t)"

definition push_str :: "js_string \<Rightarrow> js_string \<Rightarrow> js_string" where
  "push_str t s = \<lparr>units = units s @ units t, utf8 = None\<rparr>"

definition push :: "rchar \<Rightarrow> js_string \<Rightarrow> js_string" where
  "push c s = \<lparr>units = units s @ encode_char c, utf8 = None\<rparr>"

definition repeat_string :: "nat \<Rightarrow> js_string \<Rightarrow> js_string" where
  "repeat_string n s = from_units (concat (replicate n (units s)))"

text \<open>\<open>windows(k)\<close> of a slice and the position of the first equal one.\<close>

fun window_position :: "u16 list \<Rightarrow> u16 list \<Rightarrow> nat option" where
  "window_position needle us =
     (if length us < length needle then None
      else if take (length needle) us = needle then Some 0
      else case us of [] \<Rightarrow> None | _ # rest \<Rightarrow> map_option Suc (window_position needle rest))"

declare window_position.simps [simp del]

definition find_from :: "js_string \<Rightarrow> js_string \<Rightarrow> nat \<Rightarrow> nat option" where
  "find_from s needle start =
     (if start > js_len s then None
      else if js_is_empty needle then Some start
      else map_option (\<lambda>i. start + i) (window_position (units needle) (drop start (units s))))"

definition unit_whitespace :: "u16 \<Rightarrow> bool" where
  "unit_whitespace u =
     ((0x9 \<le> u \<and> u \<le> 0xD) \<or> u = 0x20 \<or> u = 0xA0 \<or> u = 0x1680 \<or> (0x2000 \<le> u \<and> u \<le> 0x200A) \<or>
      u = 0x2028 \<or> u = 0x2029 \<or> u = 0x202F \<or> u = 0x205F \<or> u = 0x3000 \<or> u = 0xFEFF)"

function trim_front :: "u16 list \<Rightarrow> nat \<Rightarrow> nat \<Rightarrow> nat" where
  "trim_front us a b = (if a < b \<and> unit_whitespace (us ! a) then trim_front us (Suc a) b else a)"
  by pat_completeness auto
termination
  by (relation "measure (\<lambda>(us, a, b). b - a)") auto

declare trim_front.simps [simp del]

function trim_back :: "u16 list \<Rightarrow> nat \<Rightarrow> nat \<Rightarrow> nat" where
  "trim_back us a b = (if b > a \<and> unit_whitespace (us ! (b - 1)) then trim_back us a (b - 1) else b)"
  by pat_completeness auto
termination
  by (relation "measure (\<lambda>(us, a, b). b - a)") auto

declare trim_back.simps [simp del]

definition trim_units :: "js_string \<Rightarrow> bool \<Rightarrow> bool \<Rightarrow> js_string outcome" where
  "trim_units s at_start at_end =
     (let a = (if at_start then trim_front (units s) 0 (js_len s) else 0);
          b = (if at_end then trim_back (units s) a (js_len s) else js_len s)
      in slice s a b)"

text \<open>Case mapping keeps unpaired surrogates; the Unicode table of the standard library is the
  argument \<open>case_map\<close>.\<close>

definition map_case :: "(bool \<Rightarrow> rchar \<Rightarrow> rstring) \<Rightarrow> bool \<Rightarrow> js_string \<Rightarrow> js_string" where
  "map_case case_map upper s =
     from_units (concat (map (\<lambda>x. case x of Inl u \<Rightarrow> [u] | Inr c \<Rightarrow> encode_utf16 (case_map upper c))
       (decode_utf16 (units s))))"

definition code_point_at :: "js_string \<Rightarrow> nat \<Rightarrow> nat option" where
  "code_point_at s i =
     (case get_at (units s) i of
        None \<Rightarrow> None
      | Some hi \<Rightarrow>
          (case (if is_high hi then get_at (units s) (Suc i) else None) of
             Some lo \<Rightarrow> if is_low lo then Some (combine_pair hi lo) else Some (unat hi)
           | None \<Rightarrow> Some (unat hi)))"

text \<open>The iterator \<open>code_points\<close>: the step at an offset, and the pieces it yields.\<close>

function code_points_from :: "js_string \<Rightarrow> nat \<Rightarrow> js_string outcome list" where
  "code_points_from s offset =
     (if offset < js_len s then
        (let next = (if is_high (units s ! offset) \<and>
                        (case get_at (units s) (Suc offset) of None \<Rightarrow> False | Some u \<Rightarrow> is_low u)
                     then Suc (Suc offset) else Suc offset)
         in slice s offset next # code_points_from s next)
      else [])"
  by pat_completeness auto
termination
  by (relation "measure (\<lambda>(s, offset). js_len s - offset)") (auto split: if_splits)

declare code_points_from.simps [simp del]

definition code_points :: "js_string \<Rightarrow> js_string outcome list" where
  "code_points s = code_points_from s 0"

section \<open>Property keys\<close>

text \<open>The reserved marker is the noncharacter U+FDD0; \<open>format!("{:04X}")\<close> of a unit.\<close>

definition marker :: rchar where
  "marker = 0xFDD0"

definition hex_digit :: "nat \<Rightarrow> rchar" where
  "hex_digit d = (if d < 10 then 48 + d else 55 + d)"

text \<open>A surrogate has four significant hexadecimal digits, so no padding arises.\<close>

definition hex4 :: "u16 \<Rightarrow> rstring" where
  "hex4 u = map hex_digit [unat u div 4096, unat u div 256 mod 16, unat u div 16 mod 16, unat u mod 16]"

definition key_item :: "u16 + rchar \<Rightarrow> rstring" where
  "key_item x =
     (case x of
        Inr c \<Rightarrow> if c = marker then [marker, marker] else [c]
      | Inl u \<Rightarrow> [marker, 115] @ hex4 u)"

definition to_key :: "js_string \<Rightarrow> rstring" where
  "to_key s = concat (map key_item (decode_utf16 (units s)))"

text \<open>The scan of \<open>to_key_cow\<close>: \<open>True\<close> when the loop reaches the end without an escape.\<close>

fun plain_key_scan :: "u16 list \<Rightarrow> bool" where
  "plain_key_scan [] = True"
| "plain_key_scan [u] = (u \<noteq> 0xFDD0 \<and> \<not> is_surrogate u)"
| "plain_key_scan (u # v # us) =
     (if u = 0xFDD0 then False
      else if is_high u \<and> is_low v then plain_key_scan us
      else if is_surrogate u then False
      else plain_key_scan (v # us))"

definition to_key_cow :: "js_string \<Rightarrow> rstring" where
  "to_key_cow s = (if plain_key_scan (units s) then fst (as_str s) else to_key s)"

definition hex_value :: "rchar \<Rightarrow> nat option" where
  "hex_value c =
     (if 48 \<le> c \<and> c \<le> 57 then Some (c - 48)
      else if 65 \<le> c \<and> c \<le> 70 then Some (c - 55)
      else if 97 \<le> c \<and> c \<le> 102 then Some (c - 87)
      else None)"

fun hex_fold :: "nat \<Rightarrow> rstring \<Rightarrow> nat option" where
  "hex_fold acc [] = (if acc < 65536 then Some acc else None)"
| "hex_fold acc (c # cs) =
     (case hex_value c of None \<Rightarrow> None | Some d \<Rightarrow> hex_fold (16 * acc + d) cs)"

text \<open>\<open>u16::from_str_radix(_, 16)\<close>: an optional plus sign and at least one digit.\<close>

definition from_str_radix16 :: "rstring \<Rightarrow> u16 option" where
  "from_str_radix16 s =
     (let digits = (case s of c # cs \<Rightarrow> if c = 43 then cs else s | [] \<Rightarrow> [])
      in if digits = [] then None else map_option of_nat (hex_fold 0 digits))"

function from_key_units :: "rstring \<Rightarrow> u16 list" where
  "from_key_units [] = []"
| "from_key_units (c # cs) =
     (if c \<noteq> marker then encode_char c @ from_key_units cs
      else case cs of
        [] \<Rightarrow> [0xFDD0]
      | d # ds \<Rightarrow>
          if d = marker then 0xFDD0 # from_key_units ds
          else if d = 115 then
            (case from_str_radix16 (take 4 ds) of
               Some u \<Rightarrow> u # from_key_units (drop 4 ds)
             | None \<Rightarrow> encode_utf16 [marker, 115] @ encode_utf16 (take 4 ds) @ from_key_units (drop 4 ds))
          else 0xFDD0 # encode_char d @ from_key_units ds)"
  by pat_completeness auto
termination
  by (relation "measure length") auto

declare from_key_units.simps [simp del]

definition from_key :: "rstring \<Rightarrow> js_string" where
  "from_key key = from_units (from_key_units key)"

section \<open>Encoding and decoding are inverse\<close>

text \<open>The units an item of the decoder stands for.\<close>

definition unit_item :: "u16 + rchar \<Rightarrow> u16 list" where
  "unit_item x = (case x of Inl u \<Rightarrow> [u] | Inr c \<Rightarrow> encode_char c)"

lemma u16_bound: "unat (u :: u16) < 65536"
  using unsigned_less [of u, where ?'a = nat] by simp

lemma encode_unit [simp]: "encode_char (unat (u :: u16)) = [u]"
  using u16_bound [of u] by (simp add: encode_char_def)

lemma encode_pair:
  assumes "is_high hi" and "is_low lo"
  shows "encode_char (combine_pair hi lo) = [hi, lo]"
proof -
  have h: "0xD800 \<le> unat hi" and l: "0xDC00 \<le> unat lo" "unat lo \<le> 0xDFFF"
    using assms by (simp_all add: is_high_def is_low_def word_le_nat_alt)
  define x where "x = unat hi - 0xD800"
  define y where "y = unat lo - 0xDC00"
  have y: "y < 0x400" using l by (simp add: y_def)
  have "combine_pair hi lo - 0x10000 = 0x400 * x + y" by (simp add: combine_pair_def x_def y_def)
  then have "(combine_pair hi lo - 0x10000) div 0x400 = x" "(combine_pair hi lo - 0x10000) mod 0x400 = y"
    using y by simp_all
  moreover have "0xD800 + x = unat hi" "0xDC00 + y = unat lo" using h l by (simp_all add: x_def y_def)
  moreover have "\<not> combine_pair hi lo < 0x10000" by (simp add: combine_pair_def)
  ultimately show ?thesis unfolding encode_char_def by (simp only: if_False) simp
qed

lemma units_of_decode: "concat (map unit_item (decode_utf16 us)) = us"
  by (induction us rule: decode_utf16.induct) (auto simp: unit_item_def encode_pair)

lemma decode_surrogates: "Inl u \<in> set (decode_utf16 us) \<Longrightarrow> is_surrogate u"
  by (induction us rule: decode_utf16.induct) (auto split: if_splits)

lemma decode_unit_append:
  "\<not> is_surrogate u \<Longrightarrow> decode_utf16 (u # us) = Inr (unat u) # decode_utf16 us"
  by (cases us) simp_all

lemma of_nat_u16: "n < 65536 \<Longrightarrow> unat (of_nat n :: u16) = n"
  by (simp add: unsigned_of_nat take_bit_nat_eq_self)

lemma decode_char_append:
  assumes "valid_char c"
  shows "decode_utf16 (encode_char c @ us) = Inr c # decode_utf16 us"
proof (cases "c < 0x10000")
  case True
  then have u: "unat (of_nat c :: u16) = c" by (simp add: of_nat_u16)
  then have "\<not> is_surrogate (of_nat c)"
    using assms True by (auto simp: valid_char_def is_surrogate_def word_le_nat_alt)
  then show ?thesis using True u by (simp add: encode_char_def decode_unit_append)
next
  case False
  define x where "x = (c - 0x10000) div 0x400"
  define y where "y = (c - 0x10000) mod 0x400"
  have x: "x < 0x400" using assms False by (simp add: x_def valid_char_def)
  have y: "y < 0x400" by (simp add: y_def)
  have c: "c = 0x10000 + 0x400 * x + y" using False by (simp add: x_def y_def)
  have hi: "unat (of_nat (0xD800 + x) :: u16) = 0xD800 + x" using x by (intro of_nat_u16) simp
  have lo: "unat (of_nat (0xDC00 + y) :: u16) = 0xDC00 + y" using y by (intro of_nat_u16) simp
  have "is_high (of_nat (0xD800 + x))" "is_low (of_nat (0xDC00 + y))" "is_surrogate (of_nat (0xD800 + x))"
    using x y unfolding is_high_def is_low_def is_surrogate_def word_le_nat_alt hi lo by simp_all
  moreover have "combine_pair (of_nat (0xD800 + x)) (of_nat (0xDC00 + y)) = c"
    unfolding combine_pair_def hi lo c by simp
  moreover have "encode_char c = [of_nat (0xD800 + x), of_nat (0xDC00 + y)]"
    using False by (simp add: encode_char_def x_def y_def)
  ultimately show ?thesis by (simp del: of_nat_add)
qed

lemma decode_encode: "list_all valid_char s \<Longrightarrow> decode_utf16 (encode_utf16 s) = map Inr s"
  by (induction s) (simp_all add: encode_utf16_def decode_char_append)

lemma lossy_encode: "list_all valid_char s \<Longrightarrow> from_utf16_lossy (encode_utf16 s) = s"
  by (simp add: from_utf16_lossy_def decode_encode o_def)

section \<open>Keys\<close>

lemma hex_value_digit: "d < 16 \<Longrightarrow> hex_value (hex_digit d) = Some d"
  by (simp add: hex_value_def hex_digit_def)

lemma hex_digits_value:
  fixes n :: nat
  shows "16 * (16 * (16 * (n div 4096) + n div 256 mod 16) + n div 16 mod 16) + n mod 16 = n"
proof -
  have "16 * (n div 4096) + n div 256 mod 16 = n div 256"
    using mult_div_mod_eq [of 16 "n div 256"] by (simp add: div_mult2_eq [symmetric])
  moreover have "16 * (n div 256) + n div 16 mod 16 = n div 16"
    using mult_div_mod_eq [of 16 "n div 16"] by (simp add: div_mult2_eq [symmetric])
  ultimately show ?thesis by simp
qed

lemma hex4_roundtrip: "from_str_radix16 (hex4 u) = Some u"
proof -
  have d: "unat u div 4096 < 16" using u16_bound [of u] by simp
  have "hex_digit d \<noteq> 43" if "d < 16" for d using that by (simp add: hex_digit_def)
  moreover have "hex_fold 0 (hex4 u) = Some (unat u)"
    using d u16_bound [of u] hex_digits_value [of "unat u"] by (simp add: hex4_def hex_value_digit)
  ultimately show ?thesis using d by (simp add: from_str_radix16_def hex4_def Let_def)
qed

lemma from_key_escape:
  "length ds = 4 \<Longrightarrow> from_str_radix16 ds = Some u \<Longrightarrow>
     from_key_units (marker # 115 # ds @ rest) = u # from_key_units rest"
  by (subst from_key_units.simps(2)) (simp add: marker_def)

lemma from_key_marker: "from_key_units (marker # marker # rest) = 0xFDD0 # from_key_units rest"
  by (simp add: from_key_units.simps(2) [of marker])

lemma from_key_plain: "c \<noteq> marker \<Longrightarrow> from_key_units (c # rest) = encode_char c @ from_key_units rest"
  by (simp add: from_key_units.simps(2))

lemma from_key_item:
  "from_key_units (key_item x @ rest) = unit_item x @ from_key_units rest"
proof (cases x)
  case (Inl u)
  have "length (hex4 u) = 4" by (simp add: hex4_def)
  then show ?thesis by (simp add: Inl key_item_def unit_item_def from_key_escape hex4_roundtrip)
next
  case (Inr c)
  have "encode_char marker = [0xFDD0]" by (simp add: encode_char_def marker_def)
  then show ?thesis
    by (simp add: Inr key_item_def unit_item_def from_key_marker from_key_plain)
qed

lemma from_key_items:
  "from_key_units (concat (map key_item xs)) = concat (map unit_item xs)"
  by (induction xs) (simp_all add: from_key_units.simps from_key_item)

lemma from_to_key_units: "units (from_key (to_key s)) = units s"
  by (simp add: from_key_def to_key_def from_units_def from_key_items units_of_decode)

section \<open>The cached text\<close>

definition coherent :: "js_string \<Rightarrow> bool" where
  "coherent s = (case utf8 s of None \<Rightarrow> True | Some t \<Rightarrow> t = from_utf16_lossy (units s))"

lemma as_str_coherent:
  "coherent s \<Longrightarrow> fst (as_str s) = from_utf16_lossy (units s) \<and> coherent (snd (as_str s)) \<and>
     units (snd (as_str s)) = units s"
  by (auto simp: coherent_def as_str_def Let_def split: option.split)

lemma plain_scan_items:
  "plain_key_scan us \<Longrightarrow> x \<in> set (decode_utf16 us) \<Longrightarrow> \<exists>c. x = Inr c \<and> c \<noteq> marker"
proof (induction us rule: plain_key_scan.induct)
  case (3 u v us)
  have m: "unat u \<noteq> marker" if "u \<noteq> 0xFDD0" using that by (simp add: marker_def word_unat_eq_iff)
  have "combine_pair u v \<noteq> marker" by (simp add: combine_pair_def marker_def)
  moreover have "is_high u \<Longrightarrow> is_surrogate u"
    by (auto simp: is_high_def is_surrogate_def word_le_nat_alt)
  ultimately show ?case using 3 m by (auto split: if_splits)
qed (auto simp: marker_def word_unat_eq_iff)

lemma plain_key_items:
  assumes "\<forall>x \<in> set xs. \<exists>c. x = Inr c \<and> c \<noteq> marker"
  shows "concat (map key_item xs) = map (\<lambda>x. case x of Inl _ \<Rightarrow> 0xFFFD | Inr c \<Rightarrow> c) xs"
  using assms by (induction xs) (auto simp: key_item_def)

lemma plain_cow: "coherent s \<Longrightarrow> to_key_cow s = to_key s"
  using plain_key_items [of "decode_utf16 (units s)"] plain_scan_items [of "units s"]
  by (simp add: to_key_cow_def as_str_coherent to_key_def from_utf16_lossy_def)

text \<open>The strings the constructors and operations of the type can build.\<close>

inductive built :: "js_string \<Rightarrow> bool" where
  built_units: "built (from_units us)"
| built_str: "list_all valid_char s \<Longrightarrow> built (from_str s)"
| built_cached: "built s \<Longrightarrow> built (snd (as_str s))"
| built_truncate: "built s \<Longrightarrow> built (truncate n s)"
| built_slice: "built s \<Longrightarrow> slice s a b = Inr t \<Longrightarrow> built t"
| built_concat: "built s \<Longrightarrow> built t \<Longrightarrow> built (js_concat s t)"
| built_push_str: "built s \<Longrightarrow> built t \<Longrightarrow> built (push_str t s)"
| built_push: "built s \<Longrightarrow> valid_char c \<Longrightarrow> built (push c s)"
| built_repeat: "built s \<Longrightarrow> built (repeat_string n s)"
| built_trim: "built s \<Longrightarrow> trim_units s p q = Inr t \<Longrightarrow> built t"
| built_case: "built s \<Longrightarrow> built (map_case f upper s)"
| built_key: "list_all valid_char k \<Longrightarrow> built (from_key k)"

lemma slice_coherent: "slice s a b = Inr t \<Longrightarrow> coherent t"
  by (auto simp: slice_def coherent_def from_units_def split: if_splits)

lemma built_coherent: "built s \<Longrightarrow> coherent s"
proof (induction rule: built.induct)
  case (built_cached s) then show ?case using as_str_coherent by blast
next
  case (built_slice s a b t) then show ?case using slice_coherent by blast
next
  case (built_trim s p q t) then show ?case by (simp add: trim_units_def Let_def slice_coherent)
qed (simp_all add: coherent_def from_units_def from_str_def lossy_encode truncate_def js_concat_def
  push_str_def push_def repeat_string_def map_case_def from_key_def)

section \<open>Searching, trimming and iterating\<close>

definition occurs_at :: "js_string \<Rightarrow> js_string \<Rightarrow> nat \<Rightarrow> bool" where
  "occurs_at s needle i =
     (i + js_len needle \<le> js_len s \<and> take (js_len needle) (drop i (units s)) = units needle)"

lemma window_position_Some:
  "window_position n us = Some i \<Longrightarrow>
     i + length n \<le> length us \<and> take (length n) (drop i us) = n \<and>
     (\<forall>j<i. take (length n) (drop j us) \<noteq> n)"
proof (induction us arbitrary: i)
  case Nil then show ?case by (auto simp: window_position.simps [of n] split: if_splits)
next
  case (Cons u us)
  show ?case
  proof (cases "take (length n) (u # us) = n")
    case True
    then show ?thesis using Cons.prems by (auto simp: window_position.simps [of n "u # us"] split: if_splits)
  next
    case False
    then obtain k where k: "window_position n us = Some k" "i = Suc k"
      using Cons.prems by (auto simp: window_position.simps [of n "u # us"] split: if_splits)
    show ?thesis using Cons.IH [OF k(1)] k(2) False by (auto simp: less_Suc_eq_0_disj)
  qed
qed

lemma window_position_None:
  "window_position n us = None \<Longrightarrow> i + length n \<le> length us \<Longrightarrow> take (length n) (drop i us) \<noteq> n"
proof (induction us arbitrary: i)
  case Nil then show ?case by (auto simp: window_position.simps [of n] split: if_splits)
next
  case (Cons u us)
  then have "take (length n) (u # us) \<noteq> n" "length us < length n \<or> window_position n us = None"
    by (auto simp: window_position.simps [of n "u # us"] split: if_splits)
  then show ?case using Cons.IH [of "i - 1"] Cons.prems(2) by (cases i) auto
qed

lemma find_from_some:
  "find_from s n a = Some i \<Longrightarrow> a \<le> i \<and> occurs_at s n i \<and> (\<forall>j. a \<le> j \<and> j < i \<longrightarrow> \<not> occurs_at s n j)"
proof -
  assume f: "find_from s n a = Some i"
  show ?thesis
  proof (cases "units n = []")
    case True
    then show ?thesis using f by (auto simp: find_from_def js_is_empty_def occurs_at_def js_len_def split: if_splits)
  next
    case False
    then obtain k where k: "a \<le> js_len s" "window_position (units n) (drop a (units s)) = Some k" "i = a + k"
      using f by (auto simp: find_from_def js_is_empty_def split: if_splits)
    have "\<not> occurs_at s n j" if "a \<le> j" "j < i" for j
      using window_position_Some [OF k(2)] k(3) that
      by (auto simp: occurs_at_def js_len_def dest!: spec [of _ "j - a"])
    then show ?thesis using window_position_Some [OF k(2)] k
      by (auto simp: occurs_at_def js_len_def add.commute)
  qed
qed

lemma find_from_none:
  "find_from s n a = None \<Longrightarrow> a \<le> i \<Longrightarrow> \<not> occurs_at s n i"
  using window_position_None [of "units n" "drop a (units s)" "i - a"]
  by (auto simp: find_from_def js_is_empty_def occurs_at_def js_len_def split: if_splits)

lemma trim_front_range: "a \<le> b \<Longrightarrow> a \<le> trim_front us a b \<and> trim_front us a b \<le> b"
proof (induction us a b rule: trim_front.induct)
  case (1 us a b)
  then show ?case
    by (cases "a < b \<and> unit_whitespace (us ! a)") (auto simp: trim_front.simps [of us a b])
qed

lemma trim_front_drop:
  "a \<le> length us \<Longrightarrow> drop (trim_front us a (length us)) us = dropWhile unit_whitespace (drop a us)"
proof (induction us a "length us" rule: trim_front.induct)
  case (1 us a)
  show ?case
  proof (cases "a < length us")
    case True
    then have "drop a us = us ! a # drop (Suc a) us" by (simp add: Cons_nth_drop_Suc)
    then show ?thesis using 1 True by (subst trim_front.simps) simp
  qed (use 1 in \<open>subst trim_front.simps, simp\<close>)
qed

lemma trim_back_take:
  "a \<le> b \<Longrightarrow> b \<le> length us \<Longrightarrow>
     a \<le> trim_back us a b \<and> trim_back us a b \<le> b \<and>
     take (trim_back us a b - a) (drop a us) = rev (dropWhile unit_whitespace (rev (take (b - a) (drop a us))))"
proof (induction us a b rule: trim_back.induct)
  case (1 us a b)
  show ?case
  proof (cases "a < b")
    case True
    then have "take (b - a) (drop a us) = take (b - 1 - a) (drop a us) @ [us ! (b - 1)]"
      using 1(3) take_Suc_conv_app_nth [of "b - 1 - a" "drop a us"] by (simp add: Suc_diff_Suc)
    moreover have "a \<le> b - 1" "b - 1 \<le> length us" "\<And>k. k \<le> b - 1 \<Longrightarrow> k \<le> b"
      using True 1(3) by simp_all
    ultimately show ?thesis using 1 True
      by (cases "unit_whitespace (us ! (b - 1))") (auto simp: trim_back.simps [of us a b])
  qed (use 1 in \<open>simp add: trim_back.simps [of us b b]\<close>)
qed

lemma drop_nth: "drop i xs = ys \<Longrightarrow> j < length ys \<Longrightarrow> i + j < length xs \<and> xs ! (i + j) = ys ! j"
  by auto

lemma pieces_from:
  "code_points_from s k = map (\<lambda>x. Inr (from_units (unit_item x))) (decode_utf16 (drop k (units s)))"
proof (induction s k rule: code_points_from.induct)
  case (1 s k)
  show ?case
  proof (cases "k < js_len s")
    case True
    then have d: "drop k (units s) = units s ! k # drop (Suc k) (units s)"
      by (simp add: js_len_def Cons_nth_drop_Suc)
    have sur: "is_high u \<Longrightarrow> is_surrogate u" for u
      by (auto simp: is_high_def is_surrogate_def word_le_nat_alt)
    show ?thesis
    proof (cases "Suc k < js_len s")
      case k: True
      then have e: "drop (Suc k) (units s) = units s ! Suc k # drop (Suc (Suc k)) (units s)"
        by (simp add: js_len_def Cons_nth_drop_Suc)
      show ?thesis using 1 True k sur [of "units s ! k"]
        by (subst code_points_from.simps)
          (auto simp: d e slice_def get_at_def js_len_def unit_item_def encode_pair)
    next
      case False
      then have e: "drop (Suc k) (units s) = []" "Suc k = js_len s" using True by (simp_all add: js_len_def)
      then show ?thesis using True
        by (subst code_points_from.simps, subst code_points_from.simps)
          (auto simp: d slice_def get_at_def js_len_def unit_item_def)
    qed
  qed (subst code_points_from.simps, simp add: js_len_def)
qed

section \<open>Properties of strings\<close>

text \<open>C24: a property key is lossless: decoding the key of any string, unpaired surrogates and the
  reserved marker included, gives back the string's code units, and so distinct strings never
  share a property key.\<close>

theorem key_roundtrip:
  "units (from_key (to_key s)) = units s \<and> (to_key s = to_key t) = (units s = units t)"
proof -
  have "to_key s = to_key t \<Longrightarrow> units s = units t"
    using from_to_key_units [of s] from_to_key_units [of t] by simp
  moreover have "units s = units t \<Longrightarrow> to_key s = to_key t" by (simp add: to_key_def)
  ultimately show ?thesis using from_to_key_units [of s] by blast
qed

text \<open>C25: on every string that the constructors and operations can build, the cached UTF-8 view is
  the lossy conversion of the code units however often it is read, and the borrowed fast path
  \<open>to_key_cow\<close> returns the same key as the escaping encoder.\<close>

theorem cache_coherent:
  assumes "built s"
  shows "fst (as_str s) = from_utf16_lossy (units s) \<and>
    fst (as_str (snd (as_str s))) = fst (as_str s) \<and> to_key_cow s = to_key s"
proof -
  have c: "coherent s" using assms by (rule built_coherent)
  note cached = as_str_coherent [OF c]
  then have "fst (as_str (snd (as_str s))) = from_utf16_lossy (units (snd (as_str s)))"
    using as_str_coherent by blast
  then have "fst (as_str (snd (as_str s))) = fst (as_str s)"
    unfolding conjunct2 [OF conjunct2 [OF cached]] conjunct1 [OF cached] .
  then show ?thesis using conjunct1 [OF cached] plain_cow [OF c] by blast
qed

theorem cache_coherent_witness:
  "fst (as_str (push_str (from_units [0xD800]) (snd (as_str (from_str [97]))))) = [97, 0xFFFD]"
proof -
  have "built (push_str (from_units [0xD800]) (snd (as_str (from_str [97]))))"
    by (rule built_push_str [OF built_cached [OF built_str] built_units]) (simp add: valid_char_def)
  from cache_coherent [OF this] show ?thesis
    by (simp add: push_str_def from_units_def as_str_def from_str_def from_utf16_lossy_def
        encode_utf16_def encode_char_def is_surrogate_def)
qed

text \<open>\<open>find_from\<close> returns the least index at or after the start where the needle occurs, and
  \<open>None\<close> exactly when there is no such index (an empty needle occurs at every index up to the
  length).\<close>

theorem find_from_first:
  "(find_from s n a = Some i \<longleftrightarrow>
      a \<le> i \<and> occurs_at s n i \<and> (\<forall>j. a \<le> j \<and> j < i \<longrightarrow> \<not> occurs_at s n j)) \<and>
   (find_from s n a = None \<longleftrightarrow> (\<forall>j. a \<le> j \<longrightarrow> \<not> occurs_at s n j))"
proof (cases "find_from s n a")
  case None
  then show ?thesis using find_from_none [OF None] by auto
next
  case (Some k)
  note k = find_from_some [OF Some]
  have "i = k" if "a \<le> i" "occurs_at s n i" "\<forall>j. a \<le> j \<and> j < i \<longrightarrow> \<not> occurs_at s n j"
    using that k by (meson linorder_neqE_nat)
  then show ?thesis using Some k by auto
qed

theorem find_from_first_witness:
  "find_from (from_units [1, 2, 1, 2]) (from_units [1, 2]) 1 = Some 2"
proof -
  have j: "\<not> occurs_at (from_units [1, 2, 1, 2]) (from_units [1, 2]) j" if "1 \<le> j \<and> j < 2" for j :: nat
  proof -
    have "j = 1" using that by simp
    then show ?thesis by (simp add: occurs_at_def from_units_def js_len_def)
  qed
  then show ?thesis
    using find_from_first [of "from_units [1, 2, 1, 2]" "from_units [1, 2]" 1 2]
    by (simp add: occurs_at_def from_units_def js_len_def)
qed

text \<open>Trimming never panics and drops exactly the longest whitespace prefix and suffix it is
  asked to drop.\<close>

theorem trim_units_exact:
  "trim_units s p q =
     Inr (from_units
       (let body = (if p then dropWhile unit_whitespace (units s) else units s)
        in if q then rev (dropWhile unit_whitespace (rev body)) else body))"
proof -
  define a where "a = (if p then trim_front (units s) 0 (js_len s) else 0)"
  have a: "a \<le> js_len s" using trim_front_range [of 0 "js_len s" "units s"] by (simp add: a_def)
  have body: "drop a (units s) = (if p then dropWhile unit_whitespace (units s) else units s)"
    using trim_front_drop [of 0 "units s"] by (simp add: a_def js_len_def)
  show ?thesis
    using trim_back_take [of a "js_len s" "units s"] a
    by (auto simp: trim_units_def a_def [symmetric] Let_def slice_def js_len_def simp flip: body)
qed

text \<open>Iterating a string yields exactly the pieces the UTF-16 decoder recognises (a surrogate
  pair as one piece, every other unit alone), each slice in range, and together they are the string.
  \<open>code_point_at\<close> reads the decoder's first item at the index.\<close>

theorem iteration_exact:
  "code_points s = map (\<lambda>x. Inr (from_units (unit_item x))) (decode_utf16 (units s)) \<and>
   concat (map unit_item (decode_utf16 (units s))) = units s \<and>
   code_point_at s i =
     (case decode_utf16 (drop i (units s)) of
        [] \<Rightarrow> None
      | x # _ \<Rightarrow> Some (case x of Inl u \<Rightarrow> unat u | Inr c \<Rightarrow> c))"
proof -
  have sur: "is_high u \<Longrightarrow> is_surrogate u" for u
    by (auto simp: is_high_def is_surrogate_def word_le_nat_alt)
  have "code_point_at s i =
     (case decode_utf16 (drop i (units s)) of
        [] \<Rightarrow> None
      | x # _ \<Rightarrow> Some (case x of Inl u \<Rightarrow> unat u | Inr c \<Rightarrow> c))"
  proof (cases "drop i (units s)" rule: decode_utf16.cases)
    case 1 then show ?thesis by (simp add: code_point_at_def)
  next
    case (2 u)
    then have "length (units s) - i = 1" by (metis length_drop One_nat_def length_Cons list.size(3))
    then have "length (units s) = Suc i" "units s ! i = u"
      using drop_nth [OF 2, of 0] by simp_all
    then show ?thesis using 2 by (auto simp: code_point_at_def)
  next
    case (3 u v us)
    then have "Suc i < length (units s)" "units s ! i = u" "units s ! Suc i = v"
      using drop_nth [OF 3, of 0] drop_nth [OF 3, of 1] by auto
    then show ?thesis using 3 sur [of u] by (auto simp: code_point_at_def)
  qed
  then show ?thesis by (simp add: code_points_def pieces_from units_of_decode)
qed

text \<open>Rust text survives the trip through UTF-16: converting a Rust string to code units and
  back is the identity.\<close>

theorem utf8_roundtrip:
  assumes "list_all valid_char t"
  shows "to_utf8 (from_str t) = Some t"
  using assms
  by (simp add: to_utf8_def from_str_def from_utf16_def decode_encode lossy_encode list_all_iff)

theorem utf8_roundtrip_witness: "to_utf8 (from_str [97, 0x1F600]) = Some [97, 0x1F600]"
  by (rule utf8_roundtrip) (simp add: valid_char_def)

end
