(* ===== verification/Object_Shape.thy ===== *)
theory Object_Shape
  imports VM_Prelude
begin

text \<open>
  Object shapes and property inline caches (\<open>shape.rs\<close>). Transition tables are association lists. The \<open>Rc<Shape>\<close> nodes of one thread live
  in a store and a node is named by its address; the lazily initialised thread-locals \<open>SHAPE_ROOT\<close>
  and \<open>NEXT_SHAPE_ID\<close> are fields of the same record. Whether an \<open>Rc\<close> has a single owner depends on
  the holders outside the store as well, which is an argument of \<open>append_key\<close>.
\<close>

section \<open>The transition tree\<close>

record shape_node =
  shape_id :: u32
  shape_keys :: "rstring list"
  shape_index :: "rstring \<rightharpoonup> u32"
  transitions :: "(rstring \<times> nat) list"

record shape_world =
  nodes :: "shape_node list"
  shape_root :: "nat option"
  next_shape_id :: u32

definition initial_world :: shape_world where
  "initial_world = \<lparr>nodes = [], shape_root = None, next_shape_id = 1\<rparr>"

definition mint :: "shape_world \<Rightarrow> u32 \<times> shape_world" where
  "mint w = (next_shape_id w, w\<lparr>next_shape_id := max (next_shape_id w + 1) 1\<rparr>)"

definition or_insert :: "'k \<Rightarrow> 'v \<Rightarrow> ('k \<rightharpoonup> 'v) \<Rightarrow> 'k \<rightharpoonup> 'v" where
  "or_insert k v m = (case m k of None \<Rightarrow> m(k \<mapsto> v) | Some _ \<Rightarrow> m)"

definition build_index :: "rstring list \<Rightarrow> rstring \<rightharpoonup> u32" where
  "build_index ks = fold (\<lambda>(slot, key). or_insert key (of_nat slot)) (enumerate 0 ks) Map.empty"

definition alloc :: "shape_node \<Rightarrow> shape_world \<Rightarrow> nat \<times> shape_world" where
  "alloc n w = (length (nodes w), w\<lparr>nodes := nodes w @ [n]\<rparr>)"

definition fresh :: "rstring list \<Rightarrow> shape_world \<Rightarrow> nat \<times> shape_world" where
  "fresh ks w =
     (let (sid, w) = mint w
      in alloc \<lparr>shape_id = sid, shape_keys = ks, shape_index = build_index ks, transitions = []\<rparr> w)"

text \<open>\<open>Shape::root\<close>: the first access initialises the thread-local.\<close>

definition root :: "shape_world \<Rightarrow> nat \<times> shape_world" where
  "root w =
     (case shape_root w of
        Some r \<Rightarrow> (r, w)
      | None \<Rightarrow> let (r, w) = fresh [] w in (r, w\<lparr>shape_root := Some r\<rparr>))"

definition node_at :: "shape_world \<Rightarrow> nat \<Rightarrow> shape_node" where
  "node_at w a = nodes w ! a"

definition update_node :: "nat \<Rightarrow> (shape_node \<Rightarrow> shape_node) \<Rightarrow> shape_world \<Rightarrow> shape_world" where
  "update_node a f w = w\<lparr>nodes := (nodes w)[a := f (node_at w a)]\<rparr>"

definition slot_of :: "shape_world \<Rightarrow> nat \<Rightarrow> rstring \<Rightarrow> nat option" where
  "slot_of w a key = map_option unat (shape_index (node_at w a) key)"

definition add_key :: "nat \<Rightarrow> rstring \<Rightarrow> shape_world \<Rightarrow> nat \<times> shape_world" where
  "add_key a key w =
     (case map_of (transitions (node_at w a)) key of
        Some child \<Rightarrow> (child, w)
      | None \<Rightarrow>
          let (child, w') = fresh (shape_keys (node_at w a) @ [key]) w
          in (child,
              if length (shape_keys (node_at w a)) < 128
              then update_node a (\<lambda>n. n\<lparr>transitions := (key, child) # transitions n\<rparr>) w'
              else w'))"

text \<open>\<open>Rc::get_mut\<close> succeeds when the caller holds the only reference: no other holder outside the
  store (\<open>sole\<close>), no memoised transition and not the root.\<close>

definition referenced :: "shape_world \<Rightarrow> nat \<Rightarrow> bool" where
  "referenced w a \<longleftrightarrow> shape_root w = Some a \<or> list_ex (\<lambda>n. list_ex (\<lambda>(k, c). c = a) (transitions n)) (nodes w)"

definition get_mut :: "bool \<Rightarrow> shape_world \<Rightarrow> nat \<Rightarrow> bool" where
  "get_mut sole w a \<longleftrightarrow> sole \<and> \<not> referenced w a"

definition append_key :: "bool \<Rightarrow> nat \<Rightarrow> rstring \<Rightarrow> shape_world \<Rightarrow> nat \<times> shape_world" where
  "append_key sole a key w =
     (if length (shape_keys (node_at w a)) \<ge> 128 \<and> get_mut sole w a then
        (let (sid, w') = mint w
         in (a, update_node a
                  (\<lambda>n. n\<lparr>shape_id := sid,
                         shape_index := or_insert key (of_nat (length (shape_keys n))) (shape_index n),
                         shape_keys := shape_keys n @ [key]\<rparr>) w'))
      else add_key a key w)"

definition created_count :: "shape_world \<Rightarrow> u32" where
  "created_count w = (if next_shape_id w = 0 then 0 else next_shape_id w - 1)"

definition rebuild_step :: "rstring \<Rightarrow> nat \<times> shape_world \<Rightarrow> nat \<times> shape_world" where
  "rebuild_step key = (\<lambda>(a, w). if shape_index (node_at w a) key \<noteq> None then (a, w) else add_key a key w)"

definition rebuild :: "rstring list \<Rightarrow> shape_world \<Rightarrow> nat \<times> shape_world" where
  "rebuild ks w = (if length ks > 128 then fresh ks w else fold rebuild_step ks (root w))"

section \<open>Leased contexts\<close>

text \<open>A detached owner's root shares the address space of the nodes; swapping forces the lazy root.\<close>

record shape_context =
  ctx_root :: nat
  ctx_next :: u32

definition default_context :: "shape_world \<Rightarrow> shape_context \<times> shape_world" where
  "default_context w =
     (let (a, w) = alloc \<lparr>shape_id = 1, shape_keys = [], shape_index = Map.empty, transitions = []\<rparr> w
      in (\<lparr>ctx_root = a, ctx_next = 2\<rparr>, w))"

definition swap_active :: "shape_context \<Rightarrow> shape_world \<Rightarrow> shape_context \<times> shape_world" where
  "swap_active c w =
     (let (r, w) = root w
      in (\<lparr>ctx_root = r, ctx_next = next_shape_id w\<rparr>,
          w\<lparr>shape_root := Some (ctx_root c), next_shape_id := ctx_next c\<rparr>))"

section \<open>Inline caches\<close>

definition CACHE_EMPTY :: u8 where "CACHE_EMPTY = 0"
definition CACHE_MONO :: u8 where "CACHE_MONO = 1"
definition CACHE_MEGA :: u8 where "CACHE_MEGA = 2"
definition MEGA_AT_FILLS :: u8 where "MEGA_AT_FILLS = 8"

record prop_cache =
  cache_state :: u8
  cache_shape :: u32
  cache_slot :: u32
  fills :: u8
  hits :: u32
  misses :: u32

definition empty_cache :: prop_cache where
  "empty_cache = \<lparr>cache_state = CACHE_EMPTY, cache_shape = 0, cache_slot = 0, fills = 0, hits = 0, misses = 0\<rparr>"

definition probe :: "u32 option \<Rightarrow> prop_cache \<Rightarrow> nat option \<times> prop_cache" where
  "probe sid_opt c =
     (case sid_opt of
        Some sid \<Rightarrow>
          if cache_state c = CACHE_MONO \<and> cache_shape c = sid
          then (Some (unat (cache_slot c)), c\<lparr>hits := hits c + 1\<rparr>)
          else (None, c\<lparr>misses := misses c + 1\<rparr>)
      | None \<Rightarrow> (None, c\<lparr>misses := misses c + 1\<rparr>))"

definition saturating_inc :: "u8 \<Rightarrow> u8" where
  "saturating_inc n = (if n = - 1 then n else n + 1)"

definition fill :: "u32 \<Rightarrow> nat \<Rightarrow> prop_cache \<Rightarrow> prop_cache" where
  "fill sid slot c =
     (if cache_state c = CACHE_MEGA then c
      else if cache_state c = CACHE_MONO \<and> cache_shape c = sid then c\<lparr>cache_slot := of_nat slot\<rparr>
      else
        let n = saturating_inc (fills c); c = c\<lparr>fills := n\<rparr>
        in if n > MEGA_AT_FILLS then c\<lparr>cache_state := CACHE_MEGA\<rparr>
           else c\<lparr>cache_state := CACHE_MONO, cache_shape := sid, cache_slot := of_nat slot\<rparr>)"

definition is_megamorphic :: "prop_cache \<Rightarrow> bool" where
  "is_megamorphic c = (cache_state c = CACHE_MEGA)"

definition stats :: "prop_cache \<Rightarrow> u32 \<times> u32" where
  "stats c = (hits c, misses c)"

definition clone_cache :: "prop_cache \<Rightarrow> prop_cache" where
  "clone_cache c =
     empty_cache\<lparr>cache_state := cache_state c, cache_shape := cache_shape c, cache_slot := cache_slot c,
       fills := fills c, hits := hits c, misses := misses c\<rparr>"

section \<open>Key indices\<close>

text \<open>The position a linear search would find.\<close>

fun position :: "'a \<Rightarrow> 'a list \<Rightarrow> nat option" where
  "position k [] = None"
| "position k (x # xs) = (if x = k then Some 0 else map_option Suc (position k xs))"

lemma position_None_iff: "position k xs = None \<longleftrightarrow> k \<notin> set xs"
  by (induction xs) auto

lemma position_Some_iff:
  "position k xs = Some i \<longleftrightarrow> i < length xs \<and> xs ! i = k \<and> (\<forall>j<i. xs ! j \<noteq> k)"
proof (induction xs arbitrary: i)
  case (Cons x xs)
  then show ?case by (cases i) (auto simp: less_Suc_eq_0_disj)
qed simp

lemma position_unique: "distinct xs \<Longrightarrow> i < length xs \<Longrightarrow> xs ! i = k \<Longrightarrow> position k xs = Some i"
  by (auto simp: position_Some_iff nth_eq_iff_index_eq)

lemma position_append:
  "position k (xs @ ys) =
     (case position k xs of Some i \<Rightarrow> Some i | None \<Rightarrow> map_option (\<lambda>j. length xs + j) (position k ys))"
proof (induction xs)
  case (Cons x xs)
  then show ?case by (cases "position k xs"; cases "position k ys") auto
qed (cases "position k ys"; simp)

lemma or_insert_apply: "or_insert x v m k = (if k = x \<and> m x = None then Some v else m k)"
  by (auto simp: or_insert_def split: option.split)

lemma index_snoc:
  "fold (\<lambda>(slot, key). or_insert key (f slot)) (enumerate n (ks @ [k])) m =
     or_insert k (f (n + length ks)) (fold (\<lambda>(slot, key). or_insert key (f slot)) (enumerate n ks) m)"
  by (simp add: enumerate_append_eq)

lemma build_index_snoc: "build_index (ks @ [k]) = or_insert k (of_nat (length ks)) (build_index ks)"
  using index_snoc [of of_nat 0 ks k Map.empty] by (simp add: build_index_def)

lemma first_wins_position:
  "fold (\<lambda>(slot, key). or_insert key (f slot)) (enumerate 0 ks) Map.empty k = map_option f (position k ks)"
proof (induction ks arbitrary: k rule: rev_induct)
  case (snoc x ks)
  note step = trans [OF fun_cong [OF index_snoc] or_insert_apply]
  show ?case
    unfolding step snoc.IH by (cases "position k ks") (auto simp: position_append)
qed simp

lemma build_index_position: "build_index ks k = map_option of_nat (position k ks)"
  unfolding build_index_def by (rule first_wins_position)

lemma build_index_dom: "build_index ks k = None \<longleftrightarrow> k \<notin> set ks"
  by (simp add: build_index_position position_None_iff)

section \<open>The tree invariant\<close>

text \<open>Every node's index is the first-wins index of its keys; a memoised transition leads to an
  allocated node whose keys extend the parent's, and only small nodes have transitions; the root is
  the empty layout.\<close>

definition node_ok :: "shape_world \<Rightarrow> shape_node \<Rightarrow> bool" where
  "node_ok w n \<longleftrightarrow>
     shape_index n = build_index (shape_keys n) \<and>
     (\<forall>(k, c) \<in> set (transitions n).
        c < length (nodes w) \<and> shape_keys (node_at w c) = shape_keys n @ [k]) \<and>
     (128 \<le> length (shape_keys n) \<longrightarrow> transitions n = [])"

definition shape_inv :: "shape_world \<Rightarrow> bool" where
  "shape_inv w \<longleftrightarrow>
     (\<forall>n \<in> set (nodes w). node_ok w n) \<and>
     (\<forall>r. shape_root w = Some r \<longrightarrow> r < length (nodes w) \<and> shape_keys (node_at w r) = [])"

lemma initial_inv: "shape_inv initial_world"
  by (simp add: shape_inv_def initial_world_def)

lemma mint_simps [simp]:
  "nodes (snd (mint w)) = nodes w" "shape_root (snd (mint w)) = shape_root w"
  "fst (mint w) = next_shape_id w" "node_at (snd (mint w)) a = node_at w a"
  by (simp_all add: mint_def node_at_def)

lemma fresh_simps [simp]:
  "fst (fresh ks w) = length (nodes w)"
  "nodes (snd (fresh ks w)) =
     nodes w @ [\<lparr>shape_id = next_shape_id w, shape_keys = ks, shape_index = build_index ks, transitions = []\<rparr>]"
  "shape_root (snd (fresh ks w)) = shape_root w"
  "next_shape_id (snd (fresh ks w)) = max (next_shape_id w + 1) 1"
  by (simp_all add: fresh_def alloc_def Let_def mint_def)

lemma node_at_inv: "shape_inv w \<Longrightarrow> a < length (nodes w) \<Longrightarrow> node_ok w (node_at w a)"
  by (simp add: shape_inv_def node_at_def)

lemma node_at_fresh:
  "a < length (nodes w) \<Longrightarrow> node_at (snd (fresh ks w)) a = node_at w a"
  "node_at (snd (fresh ks w)) (length (nodes w)) =
     \<lparr>shape_id = next_shape_id w, shape_keys = ks, shape_index = build_index ks, transitions = []\<rparr>"
  by (simp_all add: node_at_def nth_append)

lemma fresh_inv: "shape_inv w \<Longrightarrow> shape_inv (snd (fresh ks w))"
  by (fastforce simp: shape_inv_def node_ok_def node_at_fresh)

lemma update_node_simps [simp]:
  "length (nodes (update_node a f w)) = length (nodes w)"
  "shape_root (update_node a f w) = shape_root w"
  "next_shape_id (update_node a f w) = next_shape_id w"
  "a < length (nodes w) \<Longrightarrow>
     node_at (update_node a f w) b = (if b = a then f (node_at w a) else node_at w b)"
  by (simp_all add: update_node_def node_at_def)

lemma shape_inv_alt:
  "shape_inv w \<longleftrightarrow>
     (\<forall>a < length (nodes w). node_ok w (node_at w a)) \<and>
     (\<forall>r. shape_root w = Some r \<longrightarrow> r < length (nodes w) \<and> shape_keys (node_at w r) = [])"
  by (auto simp: shape_inv_def node_at_def all_set_conv_all_nth)

lemma root_Some [simp]: "shape_root w = Some r \<Longrightarrow> root w = (r, w)"
  by (simp add: root_def)

lemma root_None:
  "shape_root w = None \<Longrightarrow>
     root w = (length (nodes w), (snd (fresh [] w))\<lparr>shape_root := Some (length (nodes w))\<rparr>)"
  by (simp add: root_def Let_def split_beta)

lemma root_inv: "shape_inv w \<Longrightarrow> shape_inv (snd (root w))"
proof (cases "shape_root w")
  case None
  assume "shape_inv w"
  then have "shape_inv (snd (fresh [] w))" by (rule fresh_inv)
  then show ?thesis
    using None by (auto simp: root_None shape_inv_def node_ok_def node_at_def)
qed simp

lemma child_lookup:
  assumes "shape_inv w" and "a < length (nodes w)" and "map_of (transitions (node_at w a)) k = Some c"
  shows "c < length (nodes w) \<and> shape_keys (node_at w c) = shape_keys (node_at w a) @ [k]"
  using node_at_inv [OF assms(1,2)] map_of_SomeD [OF assms(3)] by (fastforce simp: node_ok_def)

lemma add_key_inv:
  assumes inv: "shape_inv w" and a: "a < length (nodes w)"
  shows "shape_inv (snd (add_key a k w))"
proof (cases "map_of (transitions (node_at w a)) k")
  case None
  let ?ks = "shape_keys (node_at w a) @ [k]"
  let ?w = "snd (fresh ?ks w)" and ?c = "length (nodes w)"
  have w': "shape_inv ?w" using inv by (rule fresh_inv)
  show ?thesis
  proof (cases "length (shape_keys (node_at w a)) < 128")
    case True
    define u where "u = update_node a (\<lambda>n. n\<lparr>transitions := (k, ?c) # transitions n\<rparr>) ?w"
    have keys: "shape_keys (node_at u b) = shape_keys (node_at ?w b)" for b using a by (simp add: u_def)
    have len: "length (nodes u) = length (nodes ?w)" by (simp add: u_def)
    have "node_ok u (node_at u b)" if b: "b < length (nodes u)" for b
    proof (cases "b = a")
      case [simp]: True
      have "node_ok ?w (node_at ?w a)" using w' a by (simp add: shape_inv_alt)
      then show ?thesis
        using \<open>length _ < 128\<close> a unfolding node_ok_def keys len
        by (auto simp: u_def node_at_fresh)
    next
      case False
      then have "node_at u b = node_at ?w b" using a by (simp add: u_def)
      moreover have "node_ok ?w (node_at ?w b)" using w' b len by (simp add: shape_inv_alt)
      ultimately show ?thesis unfolding node_ok_def keys len by simp
    qed
    then have "shape_inv u" using w' unfolding shape_inv_alt keys len by (simp add: u_def)
    then show ?thesis using None True by (simp add: add_key_def Let_def split_beta u_def)
  qed (use None w' in \<open>simp add: add_key_def Let_def split_beta\<close>)
qed (use inv in \<open>simp add: add_key_def\<close>)

lemma add_key_result:
  assumes inv: "shape_inv w" and a: "a < length (nodes w)"
  shows "fst (add_key a k w) < length (nodes (snd (add_key a k w))) \<and>
    shape_keys (node_at (snd (add_key a k w)) (fst (add_key a k w))) = shape_keys (node_at w a) @ [k]"
proof (cases "map_of (transitions (node_at w a)) k")
  case None
  then show ?thesis using a by (auto simp: add_key_def Let_def split_beta node_at_fresh)
next
  case (Some c)
  then show ?thesis using child_lookup [OF assms Some] by (simp add: add_key_def)
qed

lemma unreferenced_child:
  "\<not> referenced w c \<Longrightarrow> a < length (nodes w) \<Longrightarrow> (k, c) \<notin> set (transitions (node_at w a))"
  by (force simp: referenced_def list_ex_iff node_at_def)

lemma append_key_inv:
  assumes inv: "shape_inv w" and a: "a < length (nodes w)"
  shows "shape_inv (snd (append_key sole a k w))"
proof (cases "128 \<le> length (shape_keys (node_at w a)) \<and> get_mut sole w a")
  case True
  define u where "u = snd (append_key sole a k w)"
  have u: "nodes u = (nodes w)[a := (node_at w a)\<lparr>shape_id := next_shape_id w,
      shape_index := or_insert k (of_nat (length (shape_keys (node_at w a)))) (shape_index (node_at w a)),
      shape_keys := shape_keys (node_at w a) @ [k]\<rparr>]" "shape_root u = shape_root w"
    using True by (simp_all add: u_def append_key_def Let_def split_beta update_node_def node_at_def)
  have other: "node_at u b = node_at w b" if "b \<noteq> a" for b using that u by (simp add: node_at_def)
  have free: "\<not> referenced w a" using True by (simp add: get_mut_def)
  have "node_ok u (node_at u b)" if b: "b < length (nodes u)" for b
  proof (cases "b = a")
    case [simp]: True
    have "node_ok w (node_at w a)" using inv a by (simp add: shape_inv_alt)
    then show ?thesis
      using \<open>_ \<and> _\<close> a by (simp add: node_ok_def u(1) node_at_def build_index_snoc)
  next
    case False
    have "node_ok w (node_at w b)" using inv b by (simp add: shape_inv_alt u)
    moreover have "c \<noteq> a" if "(k', c) \<in> set (transitions (node_at w b))" for k' c
      using unreferenced_child [OF free, of b k'] b that by (auto simp: u)
    ultimately show ?thesis using False by (fastforce simp: node_ok_def other u(1))
  qed
  moreover have "shape_root w = Some r \<Longrightarrow> r \<noteq> a" for r using free by (auto simp: referenced_def)
  ultimately have "shape_inv u" using inv by (auto simp: shape_inv_alt u other)
  then show ?thesis by (simp add: u_def)
qed (use add_key_inv [OF assms] in \<open>auto simp: append_key_def\<close>)

section \<open>Memoised transitions persist\<close>

definition keeps :: "shape_world \<Rightarrow> shape_world \<Rightarrow> bool" where
  "keeps w w' \<longleftrightarrow>
     length (nodes w) \<le> length (nodes w') \<and>
     (\<forall>r. shape_root w = Some r \<longrightarrow> shape_root w' = Some r) \<and>
     (\<forall>a < length (nodes w). map_of (transitions (node_at w a)) \<subseteq>\<^sub>m map_of (transitions (node_at w' a)))"

lemma keeps_refl [simp]: "keeps w w"
  by (simp add: keeps_def)

lemma keeps_trans [trans]: "keeps u v \<Longrightarrow> keeps v w \<Longrightarrow> keeps u w"
  unfolding keeps_def by (meson map_le_trans order_trans order_less_le_trans)

lemma fresh_keeps: "keeps w (snd (fresh ks w))"
  by (simp add: keeps_def node_at_fresh)

lemma root_keeps: "keeps w (snd (root w))"
  using fresh_keeps [of w "[]"]
  by (cases "shape_root w") (auto simp: root_None keeps_def node_at_def)

lemma add_key_keeps: "a < length (nodes w) \<Longrightarrow> keeps w (snd (add_key a k w))"
  by (auto simp: add_key_def Let_def split_beta keeps_def node_at_fresh map_le_def split: option.split)

lemma append_key_keeps: "a < length (nodes w) \<Longrightarrow> keeps w (snd (append_key sole a k w))"
  using add_key_keeps [of a w k]
  by (auto simp: append_key_def Let_def split_beta keeps_def mint_def update_node_def node_at_def nth_list_update)

fun walk :: "shape_world \<Rightarrow> nat \<Rightarrow> rstring list \<Rightarrow> nat option" where
  "walk w a [] = Some a"
| "walk w a (k # ks) =
     (case map_of (transitions (node_at w a)) k of None \<Rightarrow> None | Some c \<Rightarrow> walk w c ks)"

lemma walk_keeps:
  assumes "shape_inv w" and "keeps w w'"
  shows "a < length (nodes w) \<Longrightarrow> walk w a ks = Some b \<Longrightarrow>
    walk w' a ks = Some b \<and> b < length (nodes w) \<and> shape_keys (node_at w b) = shape_keys (node_at w a) @ ks"
proof (induction ks arbitrary: a)
  case (Cons k ks)
  then obtain c where c: "map_of (transitions (node_at w a)) k = Some c" "walk w c ks = Some b"
    by (auto split: option.splits)
  have "map_of (transitions (node_at w' a)) k = Some c"
    using assms(2) Cons.prems(1) c(1) by (auto simp: keeps_def map_le_def dom_def)
  then show ?case using Cons.IH [of c] child_lookup [OF assms(1) Cons.prems(1) c(1)] c(2) by simp
qed simp

lemma walk_append: "walk w a (ks @ [k]) =
    (case walk w a ks of None \<Rightarrow> None | Some b \<Rightarrow> map_of (transitions (node_at w b)) k)"
  by (induction ks arbitrary: a) (auto split: option.split)

section \<open>Replaying keys\<close>

lemma index_None_iff:
  "shape_inv w \<Longrightarrow> a < length (nodes w) \<Longrightarrow>
     shape_index (node_at w a) k = None \<longleftrightarrow> k \<notin> set (shape_keys (node_at w a))"
  using node_at_inv [of w a] by (simp add: node_ok_def build_index_dom)

text \<open>A replay of arbitrary keys keeps the invariant and every memoised transition.\<close>

lemma replay_inv:
  "shape_inv w \<Longrightarrow> a < length (nodes w) \<Longrightarrow>
     (case fold rebuild_step ks (a, w) of (b, w') \<Rightarrow> shape_inv w' \<and> keeps w w' \<and> b < length (nodes w'))"
proof (induction ks arbitrary: a w)
  case (Cons k ks)
  obtain c w1 where c: "rebuild_step k (a, w) = (c, w1)" by fastforce
  have "shape_inv w1 \<and> keeps w w1 \<and> c < length (nodes w1)"
  proof (cases "shape_index (node_at w a) k")
    case None
    then have "add_key a k w = (c, w1)" using c by (simp add: rebuild_step_def)
    then show ?thesis
      using add_key_inv [OF Cons.prems, of k] add_key_result [OF Cons.prems, of k]
        add_key_keeps [OF Cons.prems(2), of k] by simp
  qed (use c Cons.prems in \<open>auto simp: rebuild_step_def\<close>)
  then show ?case using Cons.IH [of w1 c] c keeps_trans by (fastforce split: prod.splits)
qed simp

text \<open>A replay of new keys lands on the node their memoised path leads to.\<close>

lemma replay_walk:
  "shape_inv w \<Longrightarrow> a < length (nodes w) \<Longrightarrow> distinct (shape_keys (node_at w a) @ ks) \<Longrightarrow>
     length (shape_keys (node_at w a)) + length ks \<le> 128 \<Longrightarrow>
     (case fold rebuild_step ks (a, w) of (b, w') \<Rightarrow> walk w' a ks = Some b)"
proof (induction ks arbitrary: a w)
  case (Cons k ks)
  obtain c w1 where c: "add_key a k w = (c, w1)" by fastforce
  have step: "rebuild_step k (a, w) = (c, w1)"
    using Cons.prems(3) c index_None_iff [OF Cons.prems(1,2), of k] by (simp add: rebuild_step_def)
  have inv: "shape_inv w1" and lt: "c < length (nodes w1)"
    and keys: "shape_keys (node_at w1 c) = shape_keys (node_at w a) @ [k]"
    and le: "keeps w w1"
    using add_key_inv [OF Cons.prems(1,2), of k] add_key_result [OF Cons.prems(1,2), of k]
      add_key_keeps [OF Cons.prems(2), of k] c by simp_all
  have memo: "map_of (transitions (node_at w1 a)) k = Some c"
    using c Cons.prems(2,4)
    by (auto simp: add_key_def Let_def split_beta node_at_fresh split: option.splits)
  obtain b w2 where b: "fold rebuild_step ks (c, w1) = (b, w2)" by fastforce
  have "walk w2 c ks = Some b" using Cons.IH [OF inv lt] Cons.prems b keys by auto
  moreover have "keeps w1 w2" using replay_inv [OF inv lt, of ks] b by simp
  then have "map_of (transitions (node_at w2 a)) k = Some c"
    using memo Cons.prems(2) le by (auto simp: keeps_def map_le_def dom_def)
  ultimately show ?case using step b by simp
qed simp

lemma replay_existing:
  "shape_inv w \<Longrightarrow> a < length (nodes w) \<Longrightarrow> distinct (shape_keys (node_at w a) @ ks) \<Longrightarrow>
     walk w a ks = Some b \<Longrightarrow> fold rebuild_step ks (a, w) = (b, w)"
proof (induction ks arbitrary: a)
  case (Cons k ks)
  then obtain c where c: "map_of (transitions (node_at w a)) k = Some c" "walk w c ks = Some b"
    by (auto split: option.splits)
  then have "rebuild_step k (a, w) = (c, w)"
    using Cons.prems(3) index_None_iff [OF Cons.prems(1,2), of k]
    by (simp add: rebuild_step_def add_key_def)
  then show ?case using Cons.IH [of c] Cons.prems child_lookup [OF Cons.prems(1,2) c(1)] c(2) by simp
qed simp

lemma root_node:
  "shape_inv w \<Longrightarrow> fst (root w) < length (nodes (snd (root w))) \<and>
     shape_keys (node_at (snd (root w)) (fst (root w))) = [] \<and>
     shape_root (snd (root w)) = Some (fst (root w))"
  by (cases "shape_root w") (auto simp: root_None shape_inv_def node_at_def)

lemma rebuild_inv:
  assumes "shape_inv w"
  shows "shape_inv (snd (rebuild ks w)) \<and> keeps w (snd (rebuild ks w))"
proof (cases "length ks > 128")
  case True
  then show ?thesis using fresh_inv [OF assms] fresh_keeps by (simp add: rebuild_def)
next
  case False
  obtain r w0 where r: "root w = (r, w0)" by fastforce
  obtain b w1 where b: "fold rebuild_step ks (r, w0) = (b, w1)" by fastforce
  have "shape_inv w0" "r < length (nodes w0)" "keeps w w0"
    using root_inv [OF assms] root_node [OF assms] root_keeps [of w] r by simp_all
  then have "shape_inv w1" "keeps w w1"
    using replay_inv [of w0 r ks] b keeps_trans [of w w0 w1] by simp_all
  then show ?thesis using False r b by (simp add: rebuild_def)
qed

lemma rebuild_path:
  assumes "shape_inv w" "distinct ks" "length ks \<le> 128"
  shows "\<exists>r. shape_root (snd (rebuild ks w)) = Some r \<and>
    walk (snd (rebuild ks w)) r ks = Some (fst (rebuild ks w))"
proof -
  note r = root_node [OF assms(1)] and i = root_inv [OF assms(1)]
  have "keeps (snd (root w)) (snd (rebuild ks w))"
    using replay_inv [OF i, of "fst (root w)" ks] r assms(3) by (auto simp: rebuild_def split: prod.splits)
  then have "shape_root (snd (rebuild ks w)) = Some (fst (root w))" using r by (simp add: keeps_def)
  then show ?thesis
    using replay_walk [OF i, of "fst (root w)" ks] r assms(2,3) by (auto simp: rebuild_def split: prod.splits)
qed

lemma rebuild_existing:
  assumes "shape_inv w" "distinct ks" "length ks \<le> 128" "shape_root w = Some r" "walk w r ks = Some b"
  shows "rebuild ks w = (b, w)"
  using replay_existing [OF assms(1), of r ks b] assms root_node [OF assms(1)] by (simp add: rebuild_def)

section \<open>Reachable trees\<close>

inductive shape_step :: "shape_world \<Rightarrow> shape_world \<Rightarrow> bool" where
  step_root: "shape_step w (snd (root w))"
| step_fresh: "shape_step w (snd (fresh ks w))"
| step_add: "a < length (nodes w) \<Longrightarrow> shape_step w (snd (add_key a k w))"
| step_append: "a < length (nodes w) \<Longrightarrow> shape_step w (snd (append_key sole a k w))"
| step_rebuild: "shape_step w (snd (rebuild ks w))"

lemma step_inv: "shape_step w w' \<Longrightarrow> shape_inv w \<Longrightarrow> shape_inv w' \<and> keeps w w'"
  by (cases rule: shape_step.cases)
    (auto simp: root_inv root_keeps fresh_inv fresh_keeps add_key_inv add_key_keeps append_key_inv
      append_key_keeps rebuild_inv)

lemma steps_inv: "shape_step\<^sup>*\<^sup>* w w' \<Longrightarrow> shape_inv w \<Longrightarrow> shape_inv w' \<and> keeps w w'"
  by (induction rule: rtranclp_induct) (auto dest: step_inv intro: keeps_trans)

lemma reachable_inv: "shape_step\<^sup>*\<^sup>* initial_world w \<Longrightarrow> shape_inv w"
  using steps_inv initial_inv by blast

section \<open>Layout identities\<close>

text \<open>The trees reachable before the 32-bit counter wraps.\<close>

inductive live_world :: "shape_world \<Rightarrow> bool" where
  live_initial: "live_world initial_world"
| live_root: "live_world w \<Longrightarrow> next_shape_id w \<noteq> - 1 \<Longrightarrow> live_world (snd (root w))"
| live_fresh: "live_world w \<Longrightarrow> next_shape_id w \<noteq> - 1 \<Longrightarrow> live_world (snd (fresh ks w))"
| live_add: "live_world w \<Longrightarrow> next_shape_id w \<noteq> - 1 \<Longrightarrow> a < length (nodes w) \<Longrightarrow>
    live_world (snd (add_key a k w))"
| live_append: "live_world w \<Longrightarrow> next_shape_id w \<noteq> - 1 \<Longrightarrow> a < length (nodes w) \<Longrightarrow>
    live_world (snd (append_key sole a k w))"

definition ids_ok :: "shape_world \<Rightarrow> bool" where
  "ids_ok w \<longleftrightarrow>
     distinct (map shape_id (nodes w)) \<and> (\<forall>i \<in> set (map shape_id (nodes w)). i < next_shape_id w)"

lemma next_id_grows:
  fixes n :: u32
  assumes "n \<noteq> - 1"
  shows "n < max (n + 1) 1"
proof -
  have "unat (- 1 :: u32) = 2 ^ 32 - 1"
    by (simp add: unsigned_minus_1_eq_mask mask_eq_exp_minus_1)
  then have "unat n \<noteq> 2 ^ 32 - 1" using assms by (metis word_unat_eq_iff)
  then have "Suc (unat n) < 2 ^ 32" using u32_bound [of n] by simp
  then have "n < n + 1" by (simp add: word_less_nat_alt unat_word_ariths)
  then show ?thesis by (simp add: less_max_iff_disj)
qed

lemma ids_ok_transitions:
  "ids_ok (update_node a (\<lambda>n. n\<lparr>transitions := f n\<rparr>) w) = ids_ok w"
proof (cases "a < length (nodes w)")
  case True
  then have "map shape_id (nodes (update_node a (\<lambda>n. n\<lparr>transitions := f n\<rparr>) w)) = map shape_id (nodes w)"
    by (simp add: update_node_def map_update node_at_def list_update_same_conv)
  then show ?thesis unfolding ids_ok_def by simp
qed (simp add: update_node_def ids_ok_def list_update_beyond)

lemma fresh_ids: "ids_ok w \<Longrightarrow> next_shape_id w \<noteq> - 1 \<Longrightarrow> ids_ok (snd (fresh ks w))"
  using next_id_grows [of "next_shape_id w"] by (fastforce simp: ids_ok_def)

lemma add_key_ids: "ids_ok w \<Longrightarrow> next_shape_id w \<noteq> - 1 \<Longrightarrow> ids_ok (snd (add_key a k w))"
  using fresh_ids [of w "shape_keys (node_at w a) @ [k]"]
  by (auto simp: add_key_def Let_def split_beta ids_ok_transitions split: option.split)

lemma root_ids: "ids_ok w \<Longrightarrow> next_shape_id w \<noteq> - 1 \<Longrightarrow> ids_ok (snd (root w))"
  using fresh_ids [of w "[]"] by (cases "shape_root w") (auto simp: root_None ids_ok_def)

lemma append_key_ids:
  assumes "ids_ok w" "next_shape_id w \<noteq> - 1" "a < length (nodes w)"
  shows "ids_ok (snd (append_key sole a k w))"
proof (cases "128 \<le> length (shape_keys (node_at w a)) \<and> get_mut sole w a")
  case True
  then have n: "map shape_id (nodes (snd (append_key sole a k w))) = (map shape_id (nodes w))[a := next_shape_id w]"
      "next_shape_id (snd (append_key sole a k w)) = max (next_shape_id w + 1) 1"
    by (simp_all add: append_key_def Let_def split_beta mint_def update_node_def map_update)
  have ids: "\<forall>i \<in> set (map shape_id (nodes w)). i < next_shape_id w" "distinct (map shape_id (nodes w))"
    using assms(1) by (auto simp: ids_ok_def)
  then have "distinct ((map shape_id (nodes w))[a := next_shape_id w])"
    by (intro distinct_list_update) auto
  moreover have "\<forall>i \<in> set ((map shape_id (nodes w))[a := next_shape_id w]). i < max (next_shape_id w + 1) 1"
    using ids(1) next_id_grows [OF assms(2)] set_update_subset_insert [of "map shape_id (nodes w)" a]
    by (blast intro: order.strict_trans)
  ultimately show ?thesis unfolding ids_ok_def n by blast
qed (use add_key_ids [OF assms(1,2)] in \<open>auto simp: append_key_def\<close>)

lemma live_inv: "live_world w \<Longrightarrow> shape_inv w \<and> ids_ok w"
proof (induction rule: live_world.induct)
  case live_initial
  show ?case using initial_inv by (simp add: ids_ok_def initial_world_def)
qed (auto simp: root_inv root_ids fresh_inv fresh_ids add_key_inv add_key_ids append_key_inv append_key_ids)

lemma ids_injective:
  "ids_ok w \<Longrightarrow> a < length (nodes w) \<Longrightarrow> b < length (nodes w) \<Longrightarrow>
     shape_id (node_at w a) = shape_id (node_at w b) \<Longrightarrow> a = b"
  by (auto simp: ids_ok_def node_at_def distinct_conv_nth)

section \<open>The cache as a function of its history\<close>

datatype cache_event = Probe "u32 option" | Fill u32 nat

fun cache_run :: "cache_event \<Rightarrow> prop_cache \<Rightarrow> prop_cache" where
  "cache_run (Probe sid) c = snd (probe sid c)"
| "cache_run (Fill sid slot) c = fill sid slot c"

fun fills_of :: "cache_event list \<Rightarrow> (u32 \<times> nat) list" where
  "fills_of [] = []"
| "fills_of (Probe _ # es) = fills_of es"
| "fills_of (Fill sid slot # es) = (sid, slot) # fills_of es"


lemma fills_of_snoc [simp]:
  "fills_of (es @ [Probe sid]) = fills_of es"
  "fills_of (es @ [Fill i slot]) = fills_of es @ [(i, slot)]"
  by (induction es rule: fills_of.induct) simp_all







section \<open>Properties of shapes and inline caches\<close>



text \<open>Growing an object key by key shares the layout of a literal with the same keys: appending a
  new key to a replayed layout of fewer than 128 keys leads to the node that replaying the longer
  list returns, without creating another.\<close>

theorem append_matches_literal:
  assumes "shape_step\<^sup>*\<^sup>* initial_world w" and "distinct (ks @ [k])" and "length ks < 128"
  shows "let (a, w1) = rebuild ks w; (c, w2) = append_key sole a k w1
    in rebuild (ks @ [k]) w2 = (c, w2) \<and> shape_keys (node_at w2 c) = ks @ [k]"
proof -
  obtain a w1 where a: "rebuild ks w = (a, w1)" by fastforce
  have inv: "shape_inv w1" using rebuild_inv [OF reachable_inv [OF assms(1)], of ks] a by simp
  obtain r where r: "shape_root w1 = Some r" "walk w1 r ks = Some a"
    using rebuild_path [OF reachable_inv [OF assms(1)], of ks] assms(2,3) a by auto
  have rl: "r < length (nodes w1)" "shape_keys (node_at w1 r) = []" using inv r(1) by (simp_all add: shape_inv_def)
  have al: "a < length (nodes w1)" "shape_keys (node_at w1 a) = ks"
    using walk_keeps [OF inv keeps_refl rl(1) r(2)] rl(2) by simp_all
  obtain c w2 where c: "add_key a k w1 = (c, w2)" by fastforce
  have ap: "append_key sole a k w1 = (c, w2)" using c al(2) assms(3) by (simp add: append_key_def)
  have w2: "shape_inv w2" "keeps w1 w2" "shape_keys (node_at w2 c) = ks @ [k]"
    using add_key_inv [OF inv al(1), of k] add_key_keeps [OF al(1), of k] add_key_result [OF inv al(1), of k] c al(2)
    by simp_all
  have "map_of (transitions (node_at w2 a)) k = Some c"
    using c al assms(3) by (auto simp: add_key_def Let_def split_beta node_at_fresh split: option.splits)
  then have "walk w2 r (ks @ [k]) = Some c"
    using walk_keeps [OF inv w2(2) rl(1) r(2)] by (simp add: walk_append)
  moreover have "shape_root w2 = Some r" using w2(2) r(1) by (simp add: keeps_def)
  ultimately have "rebuild (ks @ [k]) w2 = (c, w2)"
    using rebuild_existing [OF w2(1) assms(2)] assms(3) by simp
  then show ?thesis using a ap w2(3) by simp
qed

theorem append_matches_literal_witness:
  "let (a, w1) = rebuild [[97]] initial_world; (c, w2) = append_key True a [98] w1
    in rebuild [[97], [98]] w2 = (c, w2) \<and> shape_keys (node_at w2 c) = [[97], [98]]"
  using append_matches_literal [of initial_world "[[97]]" "[98]" True] by simp

text \<open>Layout identities never alias before the 32-bit counter wraps: two nodes with the same id
  are the same node, and growing a layout, also in place, gives an id different from the one the
  grown node or its parent had, so a cache filled for the old layout misses on the new one.\<close>

theorem shape_ids_unique:
  assumes "live_world w" and "a < length (nodes w)" and "next_shape_id w \<noteq> - 1"
  shows "(\<forall>b < length (nodes w). shape_id (node_at w a) = shape_id (node_at w b) \<longrightarrow> a = b) \<and>
    (let (c, w') = append_key sole a k w in shape_id (node_at w' c) \<noteq> shape_id (node_at w a))"
proof -
  have inv: "shape_inv w" and ids: "ids_ok w" using live_inv [OF assms(1)] by auto
  have "shape_id (node_at (snd (append_key sole a k w)) (fst (append_key sole a k w))) \<noteq> shape_id (node_at w a)"
  proof (cases "128 \<le> length (shape_keys (node_at w a)) \<and> get_mut sole w a")
    case True
    moreover have "shape_id (node_at w a) < next_shape_id w" using ids assms(2) by (auto simp: ids_ok_def node_at_def)
    ultimately show ?thesis using assms(2)
      by (auto simp: append_key_def Let_def split_beta mint_def update_node_def node_at_def)
  next
    case False
    obtain c w' where c: "add_key a k w = (c, w')" by fastforce
    have res: "c < length (nodes w')" "shape_keys (node_at w' c) = shape_keys (node_at w a) @ [k]"
      using add_key_result [OF inv assms(2), of k] c by simp_all
    have old: "shape_id (node_at w' a) = shape_id (node_at w a)" "shape_keys (node_at w' a) = shape_keys (node_at w a)"
      "a < length (nodes w')"
      using c assms(2) by (auto simp: add_key_def Let_def split_beta node_at_fresh split: option.splits if_splits)
    have "c \<noteq> a" using res(2) old(2) by auto
    moreover have "ids_ok w'" using add_key_ids [OF ids assms(3), of a k] c by simp
    ultimately have "shape_id (node_at w' c) \<noteq> shape_id (node_at w' a)"
      using ids_injective res(1) old(3) by blast
    then show ?thesis using False c old(1) by (auto simp: append_key_def)
  qed
  then show ?thesis using ids_injective [OF ids assms(2)] by (simp add: split_beta Let_def)
qed

theorem shape_ids_unique_witness:
  "let w = snd (root initial_world); (c, w') = append_key True 0 [97] w
    in shape_id (node_at w' c) \<noteq> shape_id (node_at w 0)"
proof -
  have "live_world (snd (root initial_world))"
    by (rule live_root [OF live_initial]) (simp add: initial_world_def)
  moreover have "next_shape_id (snd (root initial_world)) = 2" "0 < length (nodes (snd (root initial_world)))"
    by (simp_all add: initial_world_def root_None)
  ultimately show ?thesis
    using shape_ids_unique [of "snd (root initial_world)" 0 True "[97]"] by (simp add: Let_def)
qed


text \<open>Two shapes that take turns at one site count as a new shape each time.\<close>

lemma alternating_shapes_megamorphic:
  "is_megamorphic (fold cache_run (concat (replicate 5 [Fill 1 0, Fill 2 0])) empty_cache)"
  by code_simp

text \<open>The two ways to build a layout disagree on a repeated key: replaying \<open>a, a, b\<close> gives \<open>b\<close> the
  slot 1 while indexing the same keys directly gives it the slot 2, the position in the object.\<close>

theorem rebuild_duplicates_shift:
  "(let (a, w) = rebuild [[97], [97], [98]] initial_world in slot_of w a [98] = Some 1) \<and>
   (let (a, w) = fresh [[97], [97], [98]] initial_world in slot_of w a [98] = Some 2) \<and>
   position [98] [[97], [97], [98 :: nat]] = Some 2"
  by code_simp

end
