(* ===== verification/Lazy_Collections.thy ===== *)
theory Lazy_Collections
  imports VM_Prelude "HOL-Library.AList"
begin

text \<open>
  The unallocated-until-used hash collections of \<open>lazy_collections.rs\<close>, and the interface of a keyed
  table that the object metadata relies on. A \<open>HashMap\<close> is an association list with distinct keys, a
  \<open>HashSet\<close> a list without repetitions; \<open>None\<close> is the unallocated state.
\<close>

section \<open>Keyed tables\<close>

text \<open>A table whose lookup reflects the last write; \<open>conv\<close> is how a lookup reports a stored value.\<close>

locale keyed_table =
  fixes valid :: "'t \<Rightarrow> bool"
    and look :: "'t \<Rightarrow> 'k \<Rightarrow> 'r"
    and put :: "'k \<Rightarrow> 'v \<Rightarrow> 't \<Rightarrow> 't"
    and conv :: "'v \<Rightarrow> 'r"
  assumes put_valid: "valid t \<Longrightarrow> valid (put k v t)"
    and look_put: "valid t \<Longrightarrow> look (put k v t) k' = (if k' = k then conv v else look t k')"
begin

lemma puts_valid: "valid t \<Longrightarrow> valid (fold (\<lambda>(k, v). put k v) kvs t)"
  by (induction kvs arbitrary: t) (auto simp: put_valid)

lemma last_write:
  "valid t \<Longrightarrow> look (fold (\<lambda>(k, v). put k v) kvs t) k =
     (case map_of (rev kvs) k of Some v \<Rightarrow> conv v | None \<Rightarrow> look t k)"
proof (induction kvs rule: rev_induct)
  case (snoc kv kvs)
  then show ?case using puts_valid [OF snoc.prems, of kvs] by (cases kv) (simp add: look_put)
qed simp

lemma put_commute:
  "valid t \<Longrightarrow> k \<noteq> k' \<Longrightarrow> look (put k v (put k' v' t)) = look (put k' v' (put k v t))"
  by (auto simp: fun_eq_iff look_put put_valid)

end

section \<open>Lazy maps\<close>

type_synonym ('k, 'v) lazy_map = "('k \<times> 'v) list option"

definition lazy_empty :: "('k, 'v) lazy_map" where
  "lazy_empty = None"

definition lazy_get :: "('k, 'v) lazy_map \<Rightarrow> 'k \<rightharpoonup> 'v" where
  "lazy_get m key = (case m of None \<Rightarrow> None | Some t \<Rightarrow> map_of t key)"

definition lazy_contains_key :: "('k, 'v) lazy_map \<Rightarrow> 'k \<Rightarrow> bool" where
  "lazy_contains_key m key = (case m of None \<Rightarrow> False | Some t \<Rightarrow> map_of t key \<noteq> None)"

text \<open>\<open>get_or_insert_with\<close> allocates the table.\<close>

definition lazy_table :: "('k, 'v) lazy_map \<Rightarrow> ('k \<times> 'v) list" where
  "lazy_table m = (case m of None \<Rightarrow> [] | Some t \<Rightarrow> t)"

definition lazy_insert :: "'k \<Rightarrow> 'v \<Rightarrow> ('k, 'v) lazy_map \<Rightarrow> 'v option \<times> ('k, 'v) lazy_map" where
  "lazy_insert key v m = (map_of (lazy_table m) key, Some (AList.update key v (lazy_table m)))"

definition lazy_remove :: "'k \<Rightarrow> ('k, 'v) lazy_map \<Rightarrow> 'v option \<times> ('k, 'v) lazy_map" where
  "lazy_remove key m =
     (case m of None \<Rightarrow> (None, None) | Some t \<Rightarrow> (map_of t key, Some (AList.delete key t)))"

definition lazy_retain :: "('k \<Rightarrow> 'v \<Rightarrow> bool) \<Rightarrow> ('k, 'v) lazy_map \<Rightarrow> ('k, 'v) lazy_map" where
  "lazy_retain keep m = map_option (filter (\<lambda>(k, v). keep k v)) m"

definition lazy_extend :: "('k \<times> 'v) list \<Rightarrow> ('k, 'v) lazy_map \<Rightarrow> ('k, 'v) lazy_map" where
  "lazy_extend entries m =
     (if entries \<noteq> [] then Some (fold (\<lambda>(k, v). AList.update k v) entries (lazy_table m)) else m)"

definition lazy_len :: "('k, 'v) lazy_map \<Rightarrow> nat" where
  "lazy_len m = (case m of None \<Rightarrow> 0 | Some t \<Rightarrow> length t)"

definition lazy_is_empty :: "('k, 'v) lazy_map \<Rightarrow> bool" where
  "lazy_is_empty m = (case m of None \<Rightarrow> True | Some t \<Rightarrow> t = [])"

definition lazy_clear :: "('k, 'v) lazy_map \<Rightarrow> ('k, 'v) lazy_map" where
  "lazy_clear m = map_option (\<lambda>_. []) m"

definition lazy_iter :: "('k, 'v) lazy_map \<Rightarrow> ('k \<times> 'v) list" where
  "lazy_iter m = (case m of None \<Rightarrow> [] | Some t \<Rightarrow> t)"

definition lazy_drain :: "('k, 'v) lazy_map \<Rightarrow> ('k \<times> 'v) list \<times> ('k, 'v) lazy_map" where
  "lazy_drain m = (lazy_iter m, map_option (\<lambda>_. []) m)"

section \<open>Lazy sets\<close>

type_synonym 'a lazy_set = "'a list option"

definition lset_contains :: "'a lazy_set \<Rightarrow> 'a \<Rightarrow> bool" where
  "lset_contains s x = (case s of None \<Rightarrow> False | Some t \<Rightarrow> x \<in> set t)"

definition lset_insert :: "'a \<Rightarrow> 'a lazy_set \<Rightarrow> bool \<times> 'a lazy_set" where
  "lset_insert x s =
     (let t = (case s of None \<Rightarrow> [] | Some t \<Rightarrow> t)
      in if x \<in> set t then (False, Some t) else (True, Some (x # t)))"

definition lset_remove :: "'a \<Rightarrow> 'a lazy_set \<Rightarrow> bool \<times> 'a lazy_set" where
  "lset_remove x s =
     (case s of None \<Rightarrow> (False, None) | Some t \<Rightarrow> (x \<in> set t, Some (removeAll x t)))"

definition lset_retain :: "('a \<Rightarrow> bool) \<Rightarrow> 'a lazy_set \<Rightarrow> 'a lazy_set" where
  "lset_retain keep s = map_option (filter keep) s"

definition lset_len :: "'a lazy_set \<Rightarrow> nat" where
  "lset_len s = (case s of None \<Rightarrow> 0 | Some t \<Rightarrow> length t)"

definition lset_is_empty :: "'a lazy_set \<Rightarrow> bool" where
  "lset_is_empty s = (case s of None \<Rightarrow> True | Some t \<Rightarrow> t = [])"

section \<open>Behaviour as maps and sets\<close>

definition lazy_ok :: "('k, 'v) lazy_map \<Rightarrow> bool" where
  "lazy_ok m = (case m of None \<Rightarrow> True | Some t \<Rightarrow> distinct (map fst t))"

lemma lazy_get_table: "lazy_get m = map_of (lazy_table m)"
  by (cases m) (auto simp: lazy_get_def lazy_table_def)

lemma lazy_get_simps [simp]: "lazy_get None = Map.empty" "lazy_get (Some t) = map_of t"
  by (auto simp: lazy_get_def)

lemma lazy_ok_table: "lazy_ok m = distinct (map fst (lazy_table m))"
  by (cases m) (simp_all add: lazy_ok_def lazy_table_def)

lemma lazy_insert_table [simp]: "lazy_table (snd (lazy_insert k v m)) = AList.update k v (lazy_table m)"
  by (simp add: lazy_insert_def lazy_table_def)

lemma lazy_remove_table [simp]: "lazy_table (snd (lazy_remove k m)) = AList.delete k (lazy_table m)"
  by (cases m) (simp_all add: lazy_remove_def lazy_table_def)

interpretation lazy_map: keyed_table lazy_ok lazy_get "\<lambda>k v m. snd (lazy_insert k v m)" Some
  by unfold_locales (auto simp: lazy_ok_table lazy_get_table distinct_update update_conv')

lemma fold_update_table:
  "fold (\<lambda>(k, v). AList.update k v) kvs (lazy_table m) =
     lazy_table (fold (\<lambda>(k, v) m. snd (lazy_insert k v m)) kvs m)"
proof (induction kvs arbitrary: m)
  case (Cons kv kvs)
  then show ?case using Cons.IH [of "snd (lazy_insert (fst kv) (snd kv) m)"] by (simp add: split_beta)
qed simp

lemma lazy_get_remove: "lazy_get (snd (lazy_remove k m)) k' = (if k' = k then None else lazy_get m k')"
  by (auto simp: lazy_get_table delete_conv')

lemma lset_contains_insert [simp]: "lset_contains (snd (lset_insert x s)) y = (y = x \<or> lset_contains s y)"
  by (cases s) (auto simp: lset_contains_def lset_insert_def)

lemma lset_contains_remove [simp]: "lset_contains (snd (lset_remove x s)) y = (y \<noteq> x \<and> lset_contains s y)"
  by (cases s) (auto simp: lset_contains_def lset_remove_def)

lemma map_of_retain:
  "distinct (map fst t) \<Longrightarrow>
     map_of (filter (\<lambda>(k, v). keep k v) t) k =
     (case map_of t k of Some v \<Rightarrow> if keep k v then Some v else None | None \<Rightarrow> None)"
proof (induction t)
  case (Cons x t)
  have "map_of t k = None" if "k \<notin> fst ` set t" for k using that by (simp add: map_of_eq_None_iff)
  moreover have "map_of (filter (\<lambda>(k, v). keep k v) t) k = None" if "k \<notin> fst ` set t" for k
    using that by (auto simp: map_of_eq_None_iff)
  ultimately show ?case using Cons by (cases x) auto
qed simp

text \<open>A lazy map behaves as the map it stands for, allocated or not: insertion and removal report
  the previous value and change that key only, retaining keeps exactly the accepted entries,
  extending writes the entries in order, the length counts the keys, and clearing empties it.\<close>

theorem lazy_map_refines:
  assumes "lazy_ok m"
  shows "fst (lazy_insert k v m) = lazy_get m k \<and> lazy_get (snd (lazy_insert k v m)) = (lazy_get m)(k \<mapsto> v) \<and>
    fst (lazy_remove k m) = lazy_get m k \<and> lazy_get (snd (lazy_remove k m)) = (lazy_get m)(k := None) \<and>
    lazy_get (lazy_retain keep m) x =
      (case lazy_get m x of Some u \<Rightarrow> if keep x u then Some u else None | None \<Rightarrow> None) \<and>
    lazy_get (lazy_extend kvs m) x = (case map_of (rev kvs) x of Some u \<Rightarrow> Some u | None \<Rightarrow> lazy_get m x) \<and>
    lazy_contains_key m x = (lazy_get m x \<noteq> None) \<and> lazy_len m = card (dom (lazy_get m)) \<and>
    lazy_is_empty m = (lazy_get m = Map.empty) \<and> lazy_get (lazy_clear m) = Map.empty"
proof -
  have ins: "lazy_get (snd (lazy_insert k v m)) = (lazy_get m)(k \<mapsto> v)"
    using lazy_map.look_put [OF assms, of k v] by (auto simp: fun_eq_iff)
  have rem: "lazy_get (snd (lazy_remove k m)) = (lazy_get m)(k := None)"
    using lazy_get_remove [of k m] by (auto simp: fun_eq_iff)
  have ext: "lazy_get (lazy_extend kvs m) x = (case map_of (rev kvs) x of Some u \<Rightarrow> Some u | None \<Rightarrow> lazy_get m x)"
  proof -
    have "lazy_table (lazy_extend kvs m) = fold (\<lambda>(k, v). AList.update k v) kvs (lazy_table m)"
      by (simp add: lazy_extend_def lazy_table_def)
    also have "\<dots> = lazy_table (fold (\<lambda>(k, v) m. snd (lazy_insert k v m)) kvs m)"
      by (rule fold_update_table)
    finally show ?thesis using lazy_map.last_write [OF assms, of kvs x] by (simp add: lazy_get_table)
  qed
  have ret: "lazy_get (lazy_retain keep m) x =
      (case lazy_get m x of Some u \<Rightarrow> if keep x u then Some u else None | None \<Rightarrow> None)"
    using assms by (cases m) (auto simp: lazy_retain_def lazy_ok_def map_of_retain)
  have "card (dom (map_of t)) = length t" if "distinct (map fst t)" for t :: "('a \<times> 'b) list"
    using that by (simp add: dom_map_of_conv_image_fst card_distinct distinct_card flip: set_map)
  then have len: "lazy_len m = card (dom (lazy_get m))"
    using assms by (cases m) (auto simp: lazy_len_def lazy_ok_def)
  have "map_of t = Map.empty \<longleftrightarrow> t = []" for t :: "('a \<times> 'b) list"
    by (metis map_of_eq_empty_iff)
  then show ?thesis
    using ins rem ext ret len
    by (cases m) (auto simp: lazy_insert_def lazy_remove_def lazy_table_def lazy_contains_key_def
        lazy_is_empty_def lazy_clear_def)
qed

theorem lazy_map_refines_witness:
  "lazy_get (snd (lazy_insert (1 :: nat) (True) (Some [(2, False)]))) = [2 \<mapsto> False, 1 \<mapsto> True]"
  using lazy_map_refines [of "Some [(2 :: nat, False)]" 1 True] by (simp add: lazy_ok_def fun_eq_iff)

end
