(* ===== verification/Object_Cell.thy ===== *)
theory Object_Cell
  imports Object_Shape Lazy_Collections Big_Int_Ops
begin

text \<open>
  Property storage of ordinary objects (\<open>value.rs\<close>): canonical array indices, property attributes and
  the other per-object metadata, private elements, and the object cell with its two caches, the
  dictionary index and the shape. A value stored in a slot is either a value or a binding cell; the
  contents of binding cells are an explicit store. The cell's operations pass the thread's shape
  tree along.
\<close>

section \<open>Array indices\<close>

text \<open>The argument is \<open>key.as_bytes()\<close>; the accumulator is the \<open>u64\<close> of the code.\<close>

definition is_ascii_digit :: "u8 \<Rightarrow> bool" where
  "is_ascii_digit b = (48 \<le> b \<and> b \<le> 57)"

fun array_index_loop :: "u64 \<Rightarrow> u8 list \<Rightarrow> u64 option" where
  "array_index_loop index [] = Some index"
| "array_index_loop index (b # bytes) =
     (if \<not> is_ascii_digit b then None
      else let index = index * 10 + ucast (b - 48)
           in if index \<ge> 4294967295 then None else array_index_loop index bytes)"

definition array_index :: "u8 list \<Rightarrow> nat option" where
  "array_index bytes =
     (if bytes = [] \<or> length bytes > 10 then None
      else if length bytes > 1 \<and> hd bytes = 48 then None
      else map_option unat (array_index_loop 0 bytes))"

section \<open>Object metadata\<close>

record prop_attrs =
  writable :: bool
  enumerable :: bool
  configurable :: bool

definition default_attrs :: prop_attrs where
  "default_attrs = \<lparr>writable = True, enumerable = True, configurable = True\<rparr>"

record symbol_data =
  symbol_id :: u64
  description :: "rstring option"

text \<open>The fields of \<open>ObjectMeta\<close> that the property operations use; the branded internal slots of the
  builtins are not modelled. \<open>'v\<close> is the type of guest values.\<close>

record 'v object_meta =
  proto :: "'v option"
  uses_default_prototype :: bool
  attrs :: "(rstring \<times> prop_attrs) list"
  symbol_keys :: "(rstring \<times> symbol_data) list"
  non_extensible :: bool
  has_accessors :: bool
  data_property_keys :: "rstring lazy_set"
  accessor_kinds :: "(rstring, rstring) lazy_map"
  legacy_call_accessors :: bool
  empty_accessors :: "rstring list"
  is_arguments :: bool

definition default_meta :: "'v object_meta" where
  "default_meta = \<lparr>proto = None, uses_default_prototype = False, attrs = [], symbol_keys = [],
     non_extensible = False, has_accessors = False, data_property_keys = None, accessor_kinds = None,
     legacy_call_accessors = False, empty_accessors = [], is_arguments = False\<rparr>"

definition is_explicit_data :: "'v object_meta \<Rightarrow> rstring \<Rightarrow> bool" where
  "is_explicit_data m key = lset_contains (data_property_keys m) key"

definition legacy_call_name :: "'v object_meta \<Rightarrow> rstring \<Rightarrow> bool" where
  "legacy_call_name m key =
     (legacy_call_accessors m \<and> (key = ascii ''caller'' \<or> key = ascii ''arguments''))"

definition may_have_accessor :: "'v object_meta \<Rightarrow> rstring \<Rightarrow> bool" where
  "may_have_accessor m key =
     ((lazy_contains_key (accessor_kinds m) key \<or> has_accessors m \<or> legacy_call_name m key) \<and>
      \<not> is_explicit_data m key)"

definition explicit_accessor_kind :: "'v object_meta \<Rightarrow> rstring \<Rightarrow> rstring option" where
  "explicit_accessor_kind m key = lazy_get (accessor_kinds m) key"

definition set_explicit_accessor_kind :: "rstring \<Rightarrow> rstring option \<Rightarrow> 'v object_meta \<Rightarrow> 'v object_meta" where
  "set_explicit_accessor_kind key kind m =
     (case kind of
        Some kind \<Rightarrow> m\<lparr>accessor_kinds := snd (lazy_insert key kind (accessor_kinds m))\<rparr>
      | None \<Rightarrow> m\<lparr>accessor_kinds := snd (lazy_remove key (accessor_kinds m))\<rparr>)"

definition is_empty_accessor :: "'v object_meta \<Rightarrow> rstring \<Rightarrow> bool" where
  "is_empty_accessor m key = list_ex (\<lambda>name. name = key) (empty_accessors m)"

definition has_accessor_marker :: "'v object_meta \<Rightarrow> rstring \<Rightarrow> bool" where
  "has_accessor_marker m key =
     (if lazy_is_empty (accessor_kinds m) \<and> empty_accessors m = [] \<and> \<not> legacy_call_accessors m then False
      else \<not> is_explicit_data m key \<and>
        (lazy_contains_key (accessor_kinds m) key \<or> is_empty_accessor m key \<or> legacy_call_name m key))"

definition set_explicit_data :: "rstring \<Rightarrow> bool \<Rightarrow> 'v object_meta \<Rightarrow> 'v object_meta" where
  "set_explicit_data key data m =
     (if data
      then m\<lparr>data_property_keys := snd (lset_insert key (data_property_keys m)),
             accessor_kinds := snd (lazy_remove key (accessor_kinds m))\<rparr>
      else m\<lparr>data_property_keys := snd (lset_remove key (data_property_keys m))\<rparr>)"

definition attrs_of :: "'v object_meta \<Rightarrow> rstring \<Rightarrow> prop_attrs" where
  "attrs_of m key =
     (if attrs m = [] then default_attrs
      else case map_of (rev (attrs m)) key of Some a \<Rightarrow> a | None \<Rightarrow> default_attrs)"

text \<open>\<open>iter_mut().find\<close> and an assignment through the reference: the first entry changes.\<close>

fun set_first :: "'k \<Rightarrow> 'v \<Rightarrow> ('k \<times> 'v) list \<Rightarrow> ('k \<times> 'v) list option" where
  "set_first key v [] = None"
| "set_first key v (x # xs) =
     (if fst x = key then Some ((fst x, v) # xs) else map_option ((#) x) (set_first key v xs))"

definition set_attrs :: "rstring \<Rightarrow> prop_attrs \<Rightarrow> 'v object_meta \<Rightarrow> 'v object_meta" where
  "set_attrs key a m =
     (case set_first key a (attrs m) of
        Some t \<Rightarrow> m\<lparr>attrs := t\<rparr>
      | None \<Rightarrow> if a \<noteq> default_attrs then m\<lparr>attrs := attrs m @ [(key, a)]\<rparr> else m)"

definition symbol_key :: "'v object_meta \<Rightarrow> rstring \<Rightarrow> symbol_data option" where
  "symbol_key m key = map_of (symbol_keys m) key"

definition set_symbol_key :: "rstring \<Rightarrow> symbol_data \<Rightarrow> 'v object_meta \<Rightarrow> 'v object_meta" where
  "set_symbol_key key symbol m =
     (case set_first key symbol (symbol_keys m) of
        Some t \<Rightarrow> m\<lparr>symbol_keys := t\<rparr>
      | None \<Rightarrow> m\<lparr>symbol_keys := symbol_keys m @ [(key, symbol)]\<rparr>)"

definition set_empty_accessor :: "rstring \<Rightarrow> bool \<Rightarrow> 'v object_meta \<Rightarrow> 'v object_meta" where
  "set_empty_accessor key mark m =
     (let kept = filter (\<lambda>name. name \<noteq> key) (empty_accessors m)
      in m\<lparr>empty_accessors := if mark then kept @ [key] else kept\<rparr>)"

definition forget :: "rstring \<Rightarrow> 'v object_meta \<Rightarrow> 'v object_meta" where
  "forget key m =
     (let m = m\<lparr>accessor_kinds := snd (lazy_remove key (accessor_kinds m))\<rparr>;
          m = set_empty_accessor key False (set_explicit_data key False m)
      in m\<lparr>attrs := filter (\<lambda>(k, _). k \<noteq> key) (attrs m),
           symbol_keys := filter (\<lambda>(k, _). k \<noteq> key) (symbol_keys m)\<rparr>)"

section \<open>Private elements\<close>

datatype 'v private_element = Field 'v | Method 'v | Accessor "'v option" "'v option"

fun element_values :: "'v private_element \<Rightarrow> 'v list" where
  "element_values (Field v) = [v]"
| "element_values (Method v) = [v]"
| "element_values (Accessor g s) =
     (case g of Some v \<Rightarrow> [v] | None \<Rightarrow> []) @ (case s of Some v \<Rightarrow> [v] | None \<Rightarrow> [])"

definition duplicate_private :: rust_err where
  "duplicate_private = ErrMsg ''TypeError: duplicate private element definition''"

fun merge_element :: "'v private_element \<Rightarrow> 'v private_element \<Rightarrow> 'v private_element outcome" where
  "merge_element (Accessor g s) (Accessor g' s') =
     Inr (Accessor (if g' \<noteq> None then g' else g) (if s' \<noteq> None then s' else s))"
| "merge_element _ _ = Inl duplicate_private"

definition define_element ::
  "u64 \<Rightarrow> 'v private_element \<Rightarrow> (u64 \<times> 'v private_element) list \<Rightarrow> (u64 \<times> 'v private_element) list outcome" where
  "define_element eid element defs =
     (case map_of defs eid of
        Some existing \<Rightarrow>
          bind_outcome (merge_element existing element) (\<lambda>merged. Inr (the (set_first eid merged defs)))
      | None \<Rightarrow> Inr (defs @ [(eid, element)]))"

section \<open>Object cells\<close>

datatype 'v slot_value = Plain 'v | Binding nat

record 'v object_cell =
  slots :: "(rstring \<times> 'v slot_value) list"
  dict :: "(rstring \<rightharpoonup> nat) option"
  index_disabled :: bool
  meta :: "'v object_meta"
  cell_shape :: "nat option"
  read_once :: bool

definition MAX_OBJECT_PROPS :: nat where
  "MAX_OBJECT_PROPS = 262144"

definition too_many_props :: rust_err where
  "too_many_props = ErrMsg ''RangeError: Maximum object property count exceeded''"

abbreviation slot_keys :: "'v object_cell \<Rightarrow> rstring list" where
  "slot_keys c \<equiv> map fst (slots c)"

definition new_cell :: "(rstring \<times> 'v slot_value) list \<Rightarrow> 'v option \<Rightarrow> 'v object_cell" where
  "new_cell props p = \<lparr>slots = props, dict = None, index_disabled = False,
     meta = default_meta\<lparr>proto := p\<rparr>, cell_shape = None, read_once = False\<rparr>"

text \<open>The prototype that the realm allocates is an argument.\<close>

definition new_with_default_proto :: "'v option \<Rightarrow> (rstring \<times> 'v slot_value) list \<Rightarrow> 'v object_cell" where
  "new_with_default_proto realm_proto props = \<lparr>slots = props, dict = None, index_disabled = False,
     meta = default_meta\<lparr>uses_default_prototype := True, proto := realm_proto\<rparr>,
     cell_shape = None, read_once = False\<rparr>"

definition new_exotic_properties :: "'v object_cell" where
  "new_exotic_properties = \<lparr>slots = [], dict = None, index_disabled = False,
     meta = default_meta\<lparr>uses_default_prototype := True\<rparr>, cell_shape = None, read_once = False\<rparr>"

definition set_proto :: "'v option \<Rightarrow> 'v object_cell \<Rightarrow> 'v object_cell" where
  "set_proto p c = c\<lparr>meta := (meta c)\<lparr>proto := p, uses_default_prototype := False\<rparr>\<rparr>"

text \<open>Writing through \<open>borrow_mut\<close> or \<open>slots_mut\<close>, and through the reference that \<open>deref\<close> let
  escape: the new slots are whatever the caller left there.\<close>

definition write_borrowed :: "(rstring \<times> 'v slot_value) list \<Rightarrow> 'v object_cell \<Rightarrow> 'v object_cell" where
  "write_borrowed new c = c\<lparr>dict := None, slots := new\<rparr>"

definition deref_cell :: "'v object_cell \<Rightarrow> 'v object_cell" where
  "deref_cell c = c\<lparr>index_disabled := True, dict := None\<rparr>"

definition write_escaped :: "(rstring \<times> 'v slot_value) list \<Rightarrow> 'v object_cell \<Rightarrow> 'v object_cell" where
  "write_escaped new c = c\<lparr>slots := new\<rparr>"

definition clear_edges :: "'v object_cell \<Rightarrow> 'v object_cell" where
  "clear_edges c = c\<lparr>slots := [], dict := None,
     meta := (meta c)\<lparr>symbol_keys := [], proto := None\<rparr>, cell_shape := None, read_once := False\<rparr>"

definition build_dictionary :: "rstring list \<Rightarrow> rstring \<rightharpoonup> nat" where
  "build_dictionary ks = fold (\<lambda>(pos, name). or_insert name pos) (enumerate 0 ks) Map.empty"

text \<open>The answer of the cached shape, when the slot it names still holds the key.\<close>

definition shape_hit :: "rstring \<Rightarrow> 'v object_cell \<Rightarrow> shape_world \<Rightarrow> nat option" where
  "shape_hit key c w =
     (case cell_shape c of
        None \<Rightarrow> None
      | Some a \<Rightarrow>
          (case slot_of w a key of
             None \<Rightarrow> None
           | Some i \<Rightarrow>
               (case get_at (slots c) i of
                  None \<Rightarrow> None
                | Some (k, _) \<Rightarrow> if k = key then Some i else None)))"

definition rebuild_shape :: "'v object_cell \<Rightarrow> shape_world \<Rightarrow> 'v object_cell \<times> shape_world" where
  "rebuild_shape c w = (let (a, w) = rebuild (slot_keys c) w in (c\<lparr>cell_shape := Some a\<rparr>, w))"

definition own_index ::
  "rstring \<Rightarrow> 'v object_cell \<Rightarrow> shape_world \<Rightarrow> nat option \<times> 'v object_cell \<times> shape_world" where
  "own_index key c w =
     (if length (slots c) \<ge> 64 \<and> \<not> index_disabled c then
        (let d = (case dict c of Some d \<Rightarrow> d | None \<Rightarrow> build_dictionary (slot_keys c))
         in (d key, c\<lparr>dict := Some d\<rparr>, w))
      else
        (case shape_hit key c w of
           Some i \<Rightarrow> (Some i, c, w)
         | None \<Rightarrow>
             let found = position key (slot_keys c) in
             (case cell_shape c of
                None \<Rightarrow>
                  let second = read_once c; c = c\<lparr>read_once := True\<rparr>
                  in (found, if second \<and> found \<noteq> None then rebuild_shape c w else (c, w))
              | Some a \<Rightarrow>
                  let agree = (slot_of w a key = None \<and> found = None)
                  in (found, if agree then (c, w) else rebuild_shape c w))))"

definition slot_verified :: "nat \<Rightarrow> rstring \<Rightarrow> 'v object_cell \<Rightarrow> 'v slot_value option" where
  "slot_verified i key c =
     (case get_at (slots c) i of None \<Rightarrow> None | Some (k, v) \<Rightarrow> if k = key then Some v else None)"

text \<open>The hint is the \<open>Cell<Option<usize>>\<close> of the call site.\<close>

definition cached_own_value ::
  "rstring \<Rightarrow> nat option \<Rightarrow> 'v object_cell \<Rightarrow> shape_world \<Rightarrow>
     'v slot_value option \<times> nat option \<times> 'v object_cell \<times> shape_world" where
  "cached_own_value key cached c w =
     (if index_disabled c then (None, cached, c, w)
      else
        case (case cached of None \<Rightarrow> None | Some i \<Rightarrow> slot_verified i key c) of
          Some v \<Rightarrow> (Some v, cached, c, w)
        | None \<Rightarrow>
            (case own_index key c w of
               (None, c, w) \<Rightarrow> (None, cached, c, w)
             | (Some i, c, w) \<Rightarrow>
                 (case slot_verified i key c of
                    None \<Rightarrow> (None, cached, c, w)
                  | Some v \<Rightarrow> (Some v, Some i, c, w))))"

definition cached_own_index ::
  "rstring \<Rightarrow> nat option \<Rightarrow> 'v object_cell \<Rightarrow> shape_world \<Rightarrow>
     nat option \<times> nat option \<times> 'v object_cell \<times> shape_world" where
  "cached_own_index key cached c w =
     (if index_disabled c then (None, cached, c, w)
      else
        case (case cached of None \<Rightarrow> None | Some i \<Rightarrow> if slot_verified i key c \<noteq> None then Some i else None) of
          Some i \<Rightarrow> (Some i, cached, c, w)
        | None \<Rightarrow>
            (case own_index key c w of
               (None, c, w) \<Rightarrow> (None, cached, c, w)
             | (Some i, c, w) \<Rightarrow> (Some i, Some i, c, w)))"

type_synonym 'v bindings = "nat \<Rightarrow> 'v"

text \<open>Storing a value in slot \<open>i\<close>: an arguments object writes through a binding cell.\<close>

definition store_slot :: "nat \<Rightarrow> 'v \<Rightarrow> 'v object_cell \<Rightarrow> 'v bindings \<Rightarrow> 'v object_cell \<times> 'v bindings" where
  "store_slot i v c bs =
     (case slots c ! i of
        (k, Binding b) \<Rightarrow>
          if is_arguments (meta c) then (c, bs(b := v)) else (c\<lparr>slots := (slots c)[i := (k, Plain v)]\<rparr>, bs)
      | (k, Plain _) \<Rightarrow> (c\<lparr>slots := (slots c)[i := (k, Plain v)]\<rparr>, bs))"

definition set_slot_verified ::
  "nat \<Rightarrow> rstring \<Rightarrow> 'v \<Rightarrow> 'v object_cell \<Rightarrow> 'v bindings \<Rightarrow> 'v + 'v object_cell \<times> 'v bindings" where
  "set_slot_verified i key v c bs =
     (case get_at (slots c) i of
        None \<Rightarrow> Inl v
      | Some (k, _) \<Rightarrow> if k \<noteq> key then Inl v else Inr (store_slot i v c bs))"

definition own_value ::
  "rstring \<Rightarrow> 'v object_cell \<Rightarrow> shape_world \<Rightarrow> 'v slot_value option \<times> 'v object_cell \<times> shape_world" where
  "own_value key c w =
     (case own_index key c w of
        (None, c, w) \<Rightarrow> (None, c, w)
      | (Some i, c, w) \<Rightarrow> (slot_verified i key c, c, w))"

definition cell_shape_id :: "'v object_cell \<Rightarrow> shape_world \<Rightarrow> u32 option" where
  "cell_shape_id c w = map_option (\<lambda>a. shape_id (node_at w a)) (cell_shape c)"

definition has_shape :: "'v object_cell \<Rightarrow> bool" where
  "has_shape c = (cell_shape c \<noteq> None)"

definition note_key_added ::
  "bool \<Rightarrow> rstring \<Rightarrow> 'v object_cell \<Rightarrow> shape_world \<Rightarrow> 'v object_cell \<times> shape_world" where
  "note_key_added sole key c w =
     (case cell_shape c of
        None \<Rightarrow> (c, w)
      | Some a \<Rightarrow>
          if slot_of w a key \<noteq> None then rebuild_shape c w
          else let (a, w) = append_key sole a key w in (c\<lparr>cell_shape := Some a\<rparr>, w))"

definition push_slot :: "rstring \<Rightarrow> 'v \<Rightarrow> 'v object_cell \<Rightarrow> 'v object_cell" where
  "push_slot key v c =
     c\<lparr>slots := slots c @ [(key, Plain v)],
       dict := map_option (\<lambda>d. d(key \<mapsto> length (slots c))) (dict c)\<rparr>"

definition append_new_slot ::
  "bool \<Rightarrow> rstring \<Rightarrow> 'v \<Rightarrow> 'v object_cell \<Rightarrow> shape_world \<Rightarrow> ('v object_cell \<times> shape_world) outcome" where
  "append_new_slot sole key v c w =
     (if length (slots c) \<ge> MAX_OBJECT_PROPS then Inl too_many_props
      else Inr (note_key_added sole key (push_slot key v c) w))"

definition note_mutated :: "'v object_cell \<Rightarrow> 'v object_cell" where
  "note_mutated c = c\<lparr>cell_shape := None, dict := None\<rparr>"

text \<open>\<open>set_cell_prop\<close>: \<open>slots[index]\<close> panics out of range.\<close>

definition set_cell_prop ::
  "bool \<Rightarrow> rstring \<Rightarrow> 'v \<Rightarrow> 'v object_cell \<Rightarrow> 'v bindings \<Rightarrow> shape_world \<Rightarrow>
     ('v object_cell \<times> 'v bindings \<times> shape_world) outcome" where
  "set_cell_prop sole key v c bs w =
     (let may_write = writable (attrs_of (meta c) key);
          (i, c, w) = (if has_shape c \<or> length (slots c) \<ge> 64 then own_index key c w
                       else (position key (slot_keys c), c, w))
      in case i of
           Some i \<Rightarrow>
             if may_write
             then (if i < length (slots c) then (let (c, bs) = store_slot i v c bs in Inr (c, bs, w)) else Inl Panicked)
             else Inr (c, bs, w)
         | None \<Rightarrow>
             if non_extensible (meta c) then Inr (c, bs, w)
             else if length (slots c) \<ge> MAX_OBJECT_PROPS then Inl too_many_props
             else let c = push_slot key v c;
                      (c, w) = (if has_shape c then note_key_added sole key c w else (c, w))
                  in Inr (c, bs, w))"

section \<open>Metadata tables\<close>

lemma set_first_None_iff: "set_first k v t = None \<longleftrightarrow> k \<notin> fst ` set t"
  by (induction t) auto

lemma set_first_keys: "set_first k v t = Some t' \<Longrightarrow> map fst t' = map fst t"
  by (induction t arbitrary: t') (auto split: if_splits)

lemma set_first_lookup:
  "set_first k v t = Some t' \<Longrightarrow> map_of t' k' = (if k' = k then Some v else map_of t k')"
  by (induction t arbitrary: t') (auto split: if_splits)

lemma map_of_rev_distinct: "distinct (map fst t) \<Longrightarrow> map_of (rev t) = map_of t"
  by (rule map_of_eqI) (auto simp: rev_map [symmetric] map_of_is_SomeI dest: map_of_SomeD)

definition attrs_ok :: "'v object_meta \<Rightarrow> bool" where
  "attrs_ok m = distinct (map fst (attrs m))"

definition symbols_ok :: "'v object_meta \<Rightarrow> bool" where
  "symbols_ok m = distinct (map fst (symbol_keys m))"

lemma attrs_of_map:
  "attrs_ok m \<Longrightarrow> attrs_of m k = (case map_of (attrs m) k of Some a \<Rightarrow> a | None \<Rightarrow> default_attrs)"
  by (simp add: attrs_of_def attrs_ok_def map_of_rev_distinct)

lemma set_attrs_ok: "attrs_ok m \<Longrightarrow> attrs_ok (set_attrs k a m)"
  by (auto simp: attrs_ok_def set_attrs_def set_first_None_iff dest: set_first_keys split: option.split)

lemma attrs_of_set:
  assumes "attrs_ok m"
  shows "attrs_of (set_attrs k a m) k' = (if k' = k then a else attrs_of m k')"
proof (cases "set_first k a (attrs m)")
  case None
  then have "map_of (attrs m) k = None" by (simp add: set_first_None_iff map_of_eq_None_iff)
  then show ?thesis
    using assms None set_attrs_ok [OF assms, of k a]
    by (auto simp: attrs_of_map set_attrs_def map_add_def split: option.split)
next
  case (Some t)
  then show ?thesis
    using assms set_first_lookup [OF Some] set_attrs_ok [OF assms, of k a]
    by (auto simp: attrs_of_map set_attrs_def)
qed

interpretation attr_table: keyed_table attrs_ok attrs_of set_attrs "\<lambda>a. a"
  by unfold_locales (simp_all add: set_attrs_ok attrs_of_set)

lemma symbol_key_set: "symbol_key (set_symbol_key k s m) k' = (if k' = k then Some s else symbol_key m k')"
proof (cases "set_first k s (symbol_keys m)")
  case None
  then have "map_of (symbol_keys m) k = None" by (simp add: set_first_None_iff map_of_eq_None_iff)
  then show ?thesis using None by (auto simp: symbol_key_def set_symbol_key_def map_add_def split: option.split)
next
  case (Some t)
  then show ?thesis using set_first_lookup [OF Some] by (simp add: symbol_key_def set_symbol_key_def)
qed

lemma set_symbol_ok: "symbols_ok m \<Longrightarrow> symbols_ok (set_symbol_key k s m)"
  by (auto simp: symbols_ok_def set_symbol_key_def set_first_None_iff dest: set_first_keys split: option.split)

interpretation symbol_table: keyed_table symbols_ok symbol_key set_symbol_key Some
  by unfold_locales (simp_all add: set_symbol_ok symbol_key_set)

lemma map_of_filter_key: "map_of (filter (\<lambda>(k, _). k \<noteq> x) t) k = (if k = x then None else map_of t k)"
  by (induction t) auto

lemma accessor_marker_alt:
  "has_accessor_marker m key \<longleftrightarrow> \<not> is_explicit_data m key \<and>
     (explicit_accessor_kind m key \<noteq> None \<or> key \<in> set (empty_accessors m) \<or> legacy_call_name m key)"
  by (cases "accessor_kinds m")
    (auto simp: has_accessor_marker_def is_empty_accessor_def explicit_accessor_kind_def lazy_is_empty_def
      lazy_contains_key_def legacy_call_name_def list_ex_iff)

lemma forget_explicit:
  "is_explicit_data (forget k m) k' = (k' \<noteq> k \<and> is_explicit_data m k')"
  "explicit_accessor_kind (forget k m) k' = (if k' = k then None else explicit_accessor_kind m k')"
  "set (empty_accessors (forget k m)) = set (empty_accessors m) - {k}"
  "legacy_call_name (forget k m) k' = legacy_call_name m k'"
  "symbol_key (forget k m) k' = (if k' = k then None else symbol_key m k')"
  by (auto simp: forget_def Let_def set_explicit_data_def set_empty_accessor_def is_explicit_data_def
      explicit_accessor_kind_def lazy_get_remove legacy_call_name_def symbol_key_def map_of_filter_key)

lemma forget_attrs: "attrs_ok m \<Longrightarrow> attrs_of (forget k m) k' = (if k' = k then default_attrs else attrs_of m k')"
proof -
  assume ok: "attrs_ok m"
  have t: "attrs (forget k m) = filter (\<lambda>(k', _). k' \<noteq> k) (attrs m)"
    by (simp add: forget_def Let_def set_explicit_data_def set_empty_accessor_def)
  then have "attrs_ok (forget k m)" using ok by (simp add: attrs_ok_def distinct_map_filter)
  then show ?thesis using ok by (simp add: attrs_of_map t map_of_filter_key)
qed

section \<open>Lookup through the caches\<close>

definition dict_ok :: "'v object_cell \<Rightarrow> bool" where
  "dict_ok c \<longleftrightarrow>
     (\<forall>d. dict c = Some d \<longrightarrow> d = (\<lambda>k. position k (slot_keys c))) \<and> (index_disabled c \<longrightarrow> dict c = None)"

lemma build_dictionary_position: "build_dictionary ks = (\<lambda>k. position k ks)"
  using first_wins_position [of "\<lambda>i. i" ks] by (auto simp: build_dictionary_def fun_eq_iff option.map_ident)

lemma rebuild_shape_fst [simp]: "slots (fst (rebuild_shape c w)) = slots c"
  "meta (fst (rebuild_shape c w)) = meta c" "dict (fst (rebuild_shape c w)) = dict c"
  "index_disabled (fst (rebuild_shape c w)) = index_disabled c"
  by (simp_all add: rebuild_shape_def split_beta Let_def)

lemma own_index_frame:
  "slots (fst (snd (own_index k c w))) = slots c \<and> meta (fst (snd (own_index k c w))) = meta c \<and>
   index_disabled (fst (snd (own_index k c w))) = index_disabled c"
  by (auto simp: own_index_def Let_def split: option.split)

lemma own_index_dict: "dict_ok c \<Longrightarrow> dict_ok (fst (snd (own_index k c w)))"
  by (auto simp: dict_ok_def own_index_def Let_def build_dictionary_position split: option.splits)

lemma shape_hit_sound: "shape_hit k c w = Some i \<Longrightarrow> i < length (slots c) \<and> slot_keys c ! i = k"
  by (auto simp: shape_hit_def split: option.splits prod.splits if_splits dest!: get_at_SomeD)

text \<open>Without the cache shortcut the answer is the linear search.\<close>

lemma own_index_answer:
  assumes "dict_ok c"
  shows "fst (own_index k c w) = position k (slot_keys c) \<or> fst (own_index k c w) = shape_hit k c w \<and> shape_hit k c w \<noteq> None"
  using assms
  by (auto simp: dict_ok_def own_index_def Let_def build_dictionary_position split: option.splits)

lemma own_index_sound:
  assumes "dict_ok c"
  shows "(fst (own_index k c w) = None \<longleftrightarrow> k \<notin> set (slot_keys c)) \<and>
    (\<forall>j. fst (own_index k c w) = Some j \<longrightarrow> j < length (slots c) \<and> fst (slots c ! j) = k) \<and>
    (distinct (slot_keys c) \<longrightarrow> fst (own_index k c w) = position k (slot_keys c))"
proof (cases "fst (own_index k c w) = position k (slot_keys c)")
  case True
  then show ?thesis by (auto simp: position_None_iff position_Some_iff)
next
  case False
  then obtain i where i: "fst (own_index k c w) = Some i" "shape_hit k c w = Some i"
    using own_index_answer [OF assms, of k w] by auto
  note s = shape_hit_sound [OF i(2)]
  then have "k \<in> set (slot_keys c)" by (metis length_map nth_mem)
  then show ?thesis using i s position_unique [of "slot_keys c" i k] by auto
qed

lemma map_of_position:
  "map_of t k = (case position k (map fst t) of Some i \<Rightarrow> Some (snd (t ! i)) | None \<Rightarrow> None)"
  by (induction t) (auto split: option.split)

lemma slot_verified_map:
  "distinct (slot_keys c) \<Longrightarrow> slot_verified i k c = Some v \<Longrightarrow> map_of (slots c) k = Some v"
  by (auto simp: slot_verified_def dest!: get_at_SomeD split: option.splits prod.splits if_splits)
    (metis map_of_is_SomeI nth_mem)

lemma own_value_map:
  assumes "dict_ok c" "distinct (slot_keys c)"
  shows "fst (own_value k c w) = map_of (slots c) k"
proof -
  obtain i c' w' where r: "own_index k c w = (i, c', w')" by (cases "own_index k c w")
  have i: "i = position k (slot_keys c)" using own_index_sound [OF assms(1), of k w] assms(2) r by simp
  have c': "slots c' = slots c" using own_index_frame [of k c w] r by simp
  show ?thesis
  proof (cases "position k (slot_keys c)")
    case None
    then show ?thesis using r i by (simp add: own_value_def map_of_position)
  next
    case (Some j)
    then have "j < length (slots c)" "fst (slots c ! j) = k" by (auto simp: position_Some_iff)
    then show ?thesis
      using r i c' Some by (simp add: own_value_def map_of_position slot_verified_def split_beta)
  qed
qed

section \<open>Histories of a cell\<close>

text \<open>Everything that can happen to one object: its own operations, raw writes by the host through a
  borrow or through an escaped reference, metadata changes, and the growth of the shape tree by
  other objects.\<close>

type_synonym 'v cell_state = "'v object_cell \<times> 'v bindings \<times> shape_world"

inductive cell_step :: "'v cell_state \<Rightarrow> 'v cell_state \<Rightarrow> bool" where
  step_read: "own_index k c w = (i, c', w') \<Longrightarrow> cell_step (c, bs, w) (c', bs, w')"
| step_set: "set_cell_prop sole k v c bs w = Inr (c', bs', w') \<Longrightarrow> cell_step (c, bs, w) (c', bs', w')"
| step_new: "k \<notin> set (slot_keys c) \<Longrightarrow> append_new_slot sole k v c w = Inr (c', w') \<Longrightarrow>
    cell_step (c, bs, w) (c', bs, w')"
| step_slot: "set_slot_verified i k v c bs = Inr (c', bs') \<Longrightarrow> cell_step (c, bs, w) (c', bs', w)"
| step_mutated: "cell_step (c, bs, w) (note_mutated c, bs, w)"
| step_borrowed: "cell_step (c, bs, w) (write_borrowed new c, bs, w)"
| step_deref: "cell_step (c, bs, w) (deref_cell c, bs, w)"
| step_escaped: "index_disabled c \<Longrightarrow> cell_step (c, bs, w) (write_escaped new c, bs, w)"
| step_clear: "cell_step (c, bs, w) (clear_edges c, bs, w)"
| step_meta: "cell_step (c, bs, w) (c\<lparr>meta := m\<rparr>, bs, w)"
| step_others: "cell_step (c, bs, w) (c, bs', w')"

lemma position_snoc_new: "k \<notin> set ks \<Longrightarrow> (\<lambda>x. position x ks)(k \<mapsto> length ks) = (\<lambda>x. position x (ks @ [k]))"
proof
  fix x assume "k \<notin> set ks"
  then show "((\<lambda>x. position x ks)(k \<mapsto> length ks)) x = position x (ks @ [k])"
    by (cases "position x ks") (auto simp: position_append position_None_iff [symmetric])
qed

lemma push_slot_dict: "dict_ok c \<Longrightarrow> k \<notin> set (slot_keys c) \<Longrightarrow> dict_ok (push_slot k v c)"
  using position_snoc_new [of k "slot_keys c"] by (auto simp: dict_ok_def push_slot_def)

lemma note_key_added_frame:
  "slots (fst (note_key_added sole k c w)) = slots c" "dict (fst (note_key_added sole k c w)) = dict c"
  "meta (fst (note_key_added sole k c w)) = meta c"
  "index_disabled (fst (note_key_added sole k c w)) = index_disabled c"
  by (auto simp: note_key_added_def Let_def split_beta split: option.split)

lemma store_slot_frame:
  "i < length (slots c) \<Longrightarrow> slot_keys (fst (store_slot i v c bs)) = slot_keys c"
  "dict (fst (store_slot i v c bs)) = dict c" "meta (fst (store_slot i v c bs)) = meta c"
  "index_disabled (fst (store_slot i v c bs)) = index_disabled c"
  by (auto simp: store_slot_def map_update list_update_same_conv split: prod.split slot_value.split)

lemma dict_ok_cong:
  "slot_keys c' = slot_keys c \<Longrightarrow> dict c' = dict c \<Longrightarrow> index_disabled c' = index_disabled c \<Longrightarrow>
     dict_ok c' = dict_ok c"
  by (simp add: dict_ok_def)

text \<open>The specification of assignment that knows no cache.\<close>

definition set_spec ::
  "rstring \<Rightarrow> 'v \<Rightarrow> 'v object_cell \<Rightarrow> 'v bindings \<Rightarrow> ((rstring \<times> 'v slot_value) list \<times> 'v bindings) outcome" where
  "set_spec key v c bs =
     (case position key (slot_keys c) of
        Some i \<Rightarrow>
          if writable (attrs_of (meta c) key)
          then (let (c, bs) = store_slot i v c bs in Inr (slots c, bs)) else Inr (slots c, bs)
      | None \<Rightarrow>
          if non_extensible (meta c) then Inr (slots c, bs)
          else if length (slots c) \<ge> MAX_OBJECT_PROPS then Inl too_many_props
          else Inr (slots c @ [(key, Plain v)], bs))"

text \<open>The lookup that assignment performs, by the indexed path or by the linear scan.\<close>

definition set_lookup ::
  "rstring \<Rightarrow> 'v object_cell \<Rightarrow> shape_world \<Rightarrow> nat option \<times> 'v object_cell \<times> shape_world" where
  "set_lookup key c w =
     (if has_shape c \<or> length (slots c) \<ge> 64 then own_index key c w else (position key (slot_keys c), c, w))"

lemma set_lookup_frame:
  "set_lookup k c w = (i, c', w') \<Longrightarrow>
     slots c' = slots c \<and> meta c' = meta c \<and> index_disabled c' = index_disabled c \<and> (dict_ok c \<longrightarrow> dict_ok c')"
  using own_index_frame [of k c w] own_index_dict [of c k w]
  by (auto simp: set_lookup_def split: if_splits)

lemma set_lookup_sound:
  "dict_ok c \<Longrightarrow> set_lookup k c w = (i, c', w') \<Longrightarrow>
     (i = None \<longleftrightarrow> k \<notin> set (slot_keys c)) \<and> (\<forall>j. i = Some j \<longrightarrow> j < length (slots c) \<and> fst (slots c ! j) = k) \<and>
     (distinct (slot_keys c) \<longrightarrow> i = position k (slot_keys c))"
proof -
  assume ok: "dict_ok c" and r: "set_lookup k c w = (i, c', w')"
  show ?thesis
  proof (cases "has_shape c \<or> length (slots c) \<ge> 64")
    case True
    then have i: "i = fst (own_index k c w)" using r by (simp add: set_lookup_def)
    show ?thesis unfolding i by (rule own_index_sound [OF ok])
  next
    case False
    then have "i = position k (slot_keys c)" using r by (auto simp: set_lookup_def)
    then show ?thesis by (auto simp: position_None_iff position_Some_iff)
  qed
qed

lemma set_cell_prop_alt:
  "set_cell_prop sole key v c bs w =
     (case set_lookup key c w of (i, c', w') \<Rightarrow>
        case i of
           Some i \<Rightarrow>
             if writable (attrs_of (meta c) key)
             then (if i < length (slots c')
                   then Inr (fst (store_slot i v c' bs), snd (store_slot i v c' bs), w') else Inl Panicked)
             else Inr (c', bs, w')
         | None \<Rightarrow>
             if non_extensible (meta c') then Inr (c', bs, w')
             else if length (slots c') \<ge> MAX_OBJECT_PROPS then Inl too_many_props
             else Inr (fst (note_key_added sole key (push_slot key v c') w'), bs,
                       snd (note_key_added sole key (push_slot key v c') w')))"
proof -
  obtain i c' w' where r: "set_lookup key c w = (i, c', w')" by (cases "set_lookup key c w")
  have push: "cell_shape (push_slot key v c') = cell_shape c'" by (simp add: push_slot_def)
  have "note_key_added sole key (push_slot key v c') w' = (push_slot key v c', w')" if "\<not> has_shape (push_slot key v c')"
    using that by (simp add: note_key_added_def has_shape_def)
  then show ?thesis
    unfolding set_cell_prop_def set_lookup_def [symmetric] r by (cases i) (simp_all add: Let_def split_beta)
qed

lemma set_cell_prop_dict:
  assumes ok: "dict_ok c" and set: "set_cell_prop sole k v c bs w = Inr (c', bs', w')"
  shows "dict_ok c' \<and> meta c' = meta c \<and> (distinct (slot_keys c) \<longrightarrow> distinct (slot_keys c'))"
proof -
  obtain i c1 w1 where r: "set_lookup k c w = (i, c1, w1)" by (cases "set_lookup k c w")
  have f: "slots c1 = slots c" "meta c1 = meta c" "dict_ok c1" using set_lookup_frame [OF r] ok by auto
  note snd = set_lookup_sound [OF ok r]
  show ?thesis
  proof (cases i)
    case None
    then have new: "k \<notin> set (slot_keys c1)" using snd f(1) by simp
    note frame = note_key_added_frame [of sole k "push_slot k v c1" w1]
    have "dict_ok (fst (note_key_added sole k (push_slot k v c1) w1))"
      using push_slot_dict [OF f(3) new, of v] dict_ok_cong frame by metis
    then show ?thesis using set None r f new frame
      by (auto simp: set_cell_prop_alt push_slot_def split: if_splits)
  next
    case (Some j)
    then have j: "j < length (slots c1)" using snd f(1) by simp
    note frame = store_slot_frame(1) [OF j, of v bs] store_slot_frame(2-4) [of j v c1 bs]
    have "dict_ok (fst (store_slot j v c1 bs))" using f(3) dict_ok_cong frame by metis
    then show ?thesis using set Some r f j frame
      by (auto simp: set_cell_prop_alt split: if_splits)
  qed
qed

lemma append_new_slot_dict:
  assumes "dict_ok c" and "k \<notin> set (slot_keys c)" and "append_new_slot sole k v c w = Inr (c', w')"
  shows "dict_ok c'"
proof -
  have "c' = fst (note_key_added sole k (push_slot k v c) w)"
    using assms(3) by (auto simp: append_new_slot_def split: if_splits)
  then show ?thesis
    using push_slot_dict [OF assms(1,2), of v] dict_ok_cong note_key_added_frame by metis
qed

lemma cell_step_dict: "cell_step s s' \<Longrightarrow> dict_ok (fst s) \<Longrightarrow> dict_ok (fst s')"
proof (induction rule: cell_step.induct)
  case (step_read k c w i c' w' bs)
  then show ?case using own_index_dict [of c k w] by simp
next
  case (step_set sole k v c bs w c' bs' w')
  then show ?case using set_cell_prop_dict by fastforce
next
  case (step_new k c sole v w c' w' bs)
  then show ?case using append_new_slot_dict by fastforce
next
  case (step_slot i k v c bs c' bs' w)
  then have "i < length (slots c)" "(c', bs') = store_slot i v c bs"
    by (auto simp: set_slot_verified_def dest: get_at_SomeD split: option.splits if_splits)
  then show ?case
    using step_slot(2) dict_ok_cong [of "fst (store_slot i v c bs)" c] store_slot_frame(1) [of i c v bs]
      store_slot_frame(2-4) [of i v c bs] by (metis fst_conv)
qed (auto simp: dict_ok_def note_mutated_def write_borrowed_def deref_cell_def write_escaped_def clear_edges_def)

lemma reachable_dict:
  "cell_step\<^sup>*\<^sup>* (new_cell props p, bs0, w0) (c, bs, w) \<Longrightarrow> dict_ok c"
proof -
  have "dict_ok (fst s')" if "cell_step\<^sup>*\<^sup>* s s'" "dict_ok (fst s)" for s s' :: "'a cell_state"
    using that by (induction rule: rtranclp_induct) (auto dest: cell_step_dict)
  moreover have "dict_ok (new_cell props p)" by (simp add: dict_ok_def new_cell_def)
  ultimately show "cell_step\<^sup>*\<^sup>* (new_cell props p, bs0, w0) (c, bs, w) \<Longrightarrow> dict_ok c" by fastforce
qed

section \<open>Properties of property storage\<close>



text \<open>C29: assignment through the caches refines the assignment that knows no cache. After any history
  that leaves the keys distinct, it never panics, writes, refuses or fails with the property limit
  exactly as the linear specification does, and keeps the keys distinct.\<close>

theorem set_cell_prop_refines:
  assumes "cell_step\<^sup>*\<^sup>* (new_cell props p, bs0, w0) (c, bs, w)" and "distinct (slot_keys c)"
  shows "case set_cell_prop sole k v c bs w of
      Inr (c', bs', w') \<Rightarrow>
        set_spec k v c bs = Inr (slots c', bs') \<and> meta c' = meta c \<and> distinct (slot_keys c')
    | Inl e \<Rightarrow> set_spec k v c bs = Inl e"
proof -
  have ok: "dict_ok c" using assms(1) by (rule reachable_dict)
  obtain i c1 w1 where r: "set_lookup k c w = (i, c1, w1)" by (cases "set_lookup k c w")
  have f: "slots c1 = slots c" "meta c1 = meta c" using set_lookup_frame [OF r] by auto
  have i: "i = position k (slot_keys c)" using set_lookup_sound [OF ok r] assms(2) by blast
  have store: "slots (fst (store_slot j v c1 bs)) = slots (fst (store_slot j v c bs)) \<and>
      snd (store_slot j v c1 bs) = snd (store_slot j v c bs)" for j
    using f by (auto simp: store_slot_def split: prod.split slot_value.split)
  have "case set_cell_prop sole k v c bs w of
      Inr (c', bs', w') \<Rightarrow> set_spec k v c bs = Inr (slots c', bs') | Inl e \<Rightarrow> set_spec k v c bs = Inl e"
  proof (cases i)
    case None
    then show ?thesis
      using i f r note_key_added_frame(1) [of sole k "push_slot k v c1" w1]
      by (simp add: set_cell_prop_alt set_spec_def push_slot_def)
  next
    case (Some j)
    then have pos: "position k (slot_keys c) = Some j" using i by simp
    then have "j < length (slots c)" by (simp add: position_Some_iff)
    then show ?thesis
      using f r [unfolded Some] pos store [of j] by (simp add: set_cell_prop_alt set_spec_def split_beta Let_def)
  qed
  then show ?thesis using set_cell_prop_dict [OF ok, of sole k v bs w] assms(2)
    by (auto split: sum.splits)
qed

theorem set_cell_prop_refines_witness:
  "case set_cell_prop False [98] True (new_cell [([97], Plain False)] None) (\<lambda>_. False) initial_world of
     Inr (c', _, _) \<Rightarrow> slots c' = [([97], Plain False), ([98], Plain True)] | Inl e \<Rightarrow> False"
proof -
  have "set_spec [98] True (new_cell [([97], Plain False)] None) (\<lambda>_. False) =
      Inr ([([97], Plain False), ([98], Plain True)], \<lambda>_. False)"
    by (simp add: set_spec_def new_cell_def default_meta_def MAX_OBJECT_PROPS_def)
  moreover have "distinct (slot_keys (new_cell [([97], Plain False)] None))" by (simp add: new_cell_def)
  ultimately show ?thesis
    using set_cell_prop_refines [OF rtranclp.rtrancl_refl, of "[([97], Plain False)]" None]
    by (fastforce split: sum.splits)
qed

text \<open>Reading through a call site's index hint, whatever stale index it holds, or through
  \<open>own_value\<close>, returns the value a search of the slots finds; only a cell whose raw storage has
  escaped declines to answer through a hint.\<close>

theorem cached_reads_correct:
  assumes "cell_step\<^sup>*\<^sup>* (new_cell props p, bs0, w0) (c, bs, w)" and "distinct (slot_keys c)"
  shows "fst (own_value k c w) = map_of (slots c) k \<and>
    fst (cached_own_value k hint c w) = (if index_disabled c then None else map_of (slots c) k)"
proof -
  have ok: "dict_ok c" using assms(1) by (rule reachable_dict)
  have val: "fst (own_value k c w) = map_of (slots c) k" using ok assms(2) by (rule own_value_map)
  have "fst (cached_own_value k hint c w) = map_of (slots c) k" if "\<not> index_disabled c"
  proof (cases "case hint of None \<Rightarrow> None | Some i \<Rightarrow> slot_verified i k c")
    case None
    then have "fst (cached_own_value k hint c w) = fst (own_value k c w)"
      using that by (auto simp: cached_own_value_def own_value_def split: prod.split option.split)
    then show ?thesis using val by simp
  next
    case (Some v)
    then obtain i where "slot_verified i k c = Some v" by (auto split: option.splits)
    then show ?thesis using slot_verified_map [OF assms(2)] that Some by (simp add: cached_own_value_def)
  qed
  then show ?thesis using val by (simp add: cached_own_value_def)
qed

theorem cached_reads_correct_witness:
  "fst (cached_own_value [97] (Some 7) (new_cell [([97], Plain True)] None) initial_world) = Some (Plain True)"
proof -
  have "distinct (slot_keys (new_cell [([97], Plain True)] None))" by (simp add: new_cell_def)
  then show ?thesis
    using cached_reads_correct [OF rtranclp.rtrancl_refl, of "[([97], Plain True)]" None "[97]" initial_world "Some 7"]
    by (simp add: new_cell_def)
qed

text \<open>The metadata tables: after any sequence of attribute definitions a property has the last
  attributes it was given, or the default; the accessor marker's early exit agrees with the full
  test; and forgetting a deleted property resets exactly that property.\<close>

theorem metadata_tables:
  assumes "attrs_ok m"
  shows "attrs_of (fold (\<lambda>(k, a). set_attrs k a) kas m) x =
      (case map_of (rev kas) x of Some a \<Rightarrow> a | None \<Rightarrow> attrs_of m x) \<and>
    has_accessor_marker m x = (\<not> is_explicit_data m x \<and>
      (explicit_accessor_kind m x \<noteq> None \<or> x \<in> set (empty_accessors m) \<or> legacy_call_name m x)) \<and>
    attrs_of (forget k m) x = (if x = k then default_attrs else attrs_of m x) \<and>
    symbol_key (forget k m) x = (if x = k then None else symbol_key m x) \<and>
    has_accessor_marker (forget k m) x = (if x = k then legacy_call_name m x else has_accessor_marker m x)"
proof -
  have "has_accessor_marker (forget k m) x = (if x = k then legacy_call_name m x else has_accessor_marker m x)"
    unfolding accessor_marker_alt forget_explicit by auto
  then show ?thesis
    using attr_table.last_write [OF assms, of kas x] accessor_marker_alt [of m x] forget_attrs [OF assms, of k x]
      forget_explicit(5) [of k m x] by blast
qed

theorem metadata_tables_witness:
  "attrs_of (set_attrs [97] \<lparr>writable = False, enumerable = True, configurable = True\<rparr> (default_meta :: bool object_meta)) [97] =
     \<lparr>writable = False, enumerable = True, configurable = True\<rparr>"
  using metadata_tables [of "default_meta :: bool object_meta"
      "[([97], \<lparr>writable = False, enumerable = True, configurable = True\<rparr>)]" "[97]"]
  by (simp add: attrs_ok_def default_meta_def)

section \<open>Private elements and array indices\<close>

lemma map_of_snoc_new: "map_of t k = None \<Longrightarrow> map_of (t @ [(k, v)]) j = (if j = k then Some v else map_of t j)"
  by (auto simp: map_add_def split: option.split)

lemma set_first_some: "map_of t k = Some u \<Longrightarrow> \<exists>t'. set_first k v t = Some t'"
  by (metis map_of_eq_None_iff not_None_eq option.distinct(1) set_first_None_iff)

text \<open>Defining private elements keeps the identities distinct, merges the halves of an accessor and
  rejects every other redefinition.\<close>

lemma define_element_spec:
  assumes "distinct (map fst defs)"
  shows "case define_element i e defs of
      Inr defs' \<Rightarrow> distinct (map fst defs') \<and>
        (\<forall>j. map_of defs' j =
          (if j \<noteq> i then map_of defs j
           else case map_of defs i of None \<Rightarrow> Some e
             | Some old \<Rightarrow> (case merge_element old e of Inr new \<Rightarrow> Some new | Inl _ \<Rightarrow> None)))
    | Inl err \<Rightarrow> err = duplicate_private \<and> map_of defs i \<noteq> None"
proof (cases "map_of defs i")
  case None
  then have "i \<notin> set (map fst defs)" by (simp add: map_of_eq_None_iff)
  then show ?thesis using assms None map_of_snoc_new [OF None, of e] by (simp add: define_element_def)
next
  case (Some old)
  have err: "merge_element old e = Inl x \<Longrightarrow> x = duplicate_private" for x
    by (cases "(old, e)" rule: merge_element.cases) auto
  show ?thesis
  proof (cases "merge_element old e")
    case (Inl x)
    then show ?thesis using Some err by (simp add: define_element_def bind_outcome_def)
  next
    case (Inr new)
    obtain t where t: "set_first i new defs = Some t" using set_first_some [OF Some] by blast
    then show ?thesis
      using Some Inr assms set_first_keys [OF t] set_first_lookup [OF t]
      by (simp add: define_element_def bind_outcome_def)
  qed
qed

text \<open>The number a digit string denotes.\<close>

definition digits_value :: "u8 list \<Rightarrow> nat" where
  "digits_value bs = foldl (\<lambda>n b. n * 10 + (unat b - 48)) 0 bs"

lemma digits_value_simps [simp]:
  "digits_value [] = 0" "digits_value (bs @ [b]) = digits_value bs * 10 + (unat b - 48)"
  by (simp_all add: digits_value_def)

lemma digit_range: "is_ascii_digit b \<longleftrightarrow> 48 \<le> unat b \<and> unat b \<le> 57"
  by (simp add: is_ascii_digit_def word_le_nat_alt)

lemma digit_byte: "is_ascii_digit b \<Longrightarrow> of_nat (48 + (unat b - 48)) = b"
  by (simp add: digit_range)

lemma accumulate_ge: "n \<le> foldl (\<lambda>n b. n * 10 + (unat b - 48)) n bs"
proof (induction bs arbitrary: n)
  case (Cons b bs)
  have "n \<le> n * 10 + (unat b - 48)" by simp
  then show ?case using Cons.IH [of "n * 10 + (unat b - 48)"] by (simp del: foldl_Cons add: foldl_Cons)
qed simp

lemma array_index_loop_value:
  assumes "unat acc < 4294967295"
  shows "map_option unat (array_index_loop acc bs) =
    (let n = foldl (\<lambda>n b. n * 10 + (unat b - 48)) (unat acc) bs
     in if list_all is_ascii_digit bs \<and> n < 4294967295 then Some n else None)"
  using assms
proof (induction bs arbitrary: acc)
  case (Cons b bs)
  show ?case
  proof (cases "is_ascii_digit b")
    case True
    define d :: u64 where "d = ucast (b - 48)"
    have "unat (b - 48) = unat b - 48" using True by (simp add: digit_range word_le_nat_alt unat_sub)
    then have d: "unat d = unat b - 48"
      using unsigned_less [of "b - 48", where ?'a = nat] by (simp add: d_def unsigned_ucast_eq take_bit_nat_eq_self)
    have d9: "unat d \<le> 9" unfolding d using True unfolding digit_range by linarith
    have n: "unat (acc * 10 + d) = unat acc * 10 + (unat b - 48)"
    proof -
      have "unat acc * 10 + unat d < 2 ^ 64" using Cons.prems d9 by simp
      then show ?thesis using d by (simp add: unat_word_ariths)
    qed
    have ge: "4294967295 \<le> acc * 10 + d \<longleftrightarrow> 4294967295 \<le> unat acc * 10 + (unat b - 48)"
      by (simp add: word_le_nat_alt n)
    show ?thesis
    proof (cases "4294967295 \<le> unat acc * 10 + (unat b - 48)")
      case big: True
      then show ?thesis using True ge accumulate_ge [of "unat acc * 10 + (unat b - 48)" bs]
        by (simp add: Let_def d_def)
    next
      case False
      then show ?thesis using True ge Cons.IH [of "acc * 10 + d"] n by (simp add: Let_def d_def)
    qed
  qed simp
qed (simp add: Let_def)

lemma dec_digits_value: "list_all is_ascii_digit (map of_nat (dec_digits i)) \<and>
    digits_value (map of_nat (dec_digits i)) = i"
proof (induction i rule: dec_digits.induct)
  case (1 i)
  have digit: "is_ascii_digit (of_nat (48 + d)) \<and> unat (of_nat (48 + d) :: u8) = 48 + d" if "d < 10" for d
  proof -
    have "unat (of_nat (48 + d) :: u8) = 48 + d" using that by (simp only: unat_of_nat) simp
    then show ?thesis using that by (simp add: digit_range del: of_nat_add)
  qed
  show ?case
  proof (cases "i < 10")
    case True
    then show ?thesis using digit [OF True] by (simp add: dec_digits.simps [of i] digits_value_def del: of_nat_add)
  next
    case False
    have "i mod 10 < 10" by simp
    note d = digit [OF this]
    then show ?thesis using False 1 by (simp add: dec_digits.simps [of i] del: of_nat_add)
  qed
qed

lemma dec_digits_shape:
  "dec_digits i \<noteq> [] \<and> (10 \<le> i \<longrightarrow> hd (dec_digits i) \<noteq> 48 \<and> 1 < length (dec_digits i)) \<and>
   (0 < i \<longrightarrow> hd (dec_digits i) \<noteq> 48) \<and> (i < 10 \<longrightarrow> length (dec_digits i) = 1) \<and>
   set (dec_digits i) \<subseteq> {48..57}"
proof (induction i rule: dec_digits.induct)
  case (1 i)
  show ?case
  proof (cases "i < 10")
    case False
    then have "0 < i div 10" by simp
    then show ?thesis using 1 False by (auto simp: dec_digits.simps [of i] hd_append)
  qed (auto simp: dec_digits.simps [of i])
qed

lemma dec_digits_length: "i < 10 ^ Suc k \<Longrightarrow> length (dec_digits i) \<le> Suc k"
proof (induction k arbitrary: i)
  case (Suc k)
  then show ?case by (cases "i < 10") (auto simp: dec_digits.simps [of i])
qed (simp add: dec_digits.simps)

lemma canonical_digits:
  "bs \<noteq> [] \<Longrightarrow> list_all is_ascii_digit bs \<Longrightarrow> (1 < length bs \<longrightarrow> hd bs \<noteq> 48) \<Longrightarrow>
     map of_nat (dec_digits (digits_value bs)) = bs \<and> (1 < length bs \<longrightarrow> 0 < digits_value bs)"
proof (induction bs rule: rev_induct)
  case (snoc b bs)
  have b: "48 \<le> unat b" "unat b \<le> 57" "of_nat (48 + (unat b - 48)) = b"
    using snoc.prems(2) digit_byte [of b] by (simp_all add: digit_range)
  show ?case
  proof (cases "bs = []")
    case True
    have "unat b - 48 < 10" using b by linarith
    then have "dec_digits (unat b - 48) = [48 + (unat b - 48)]" by (simp add: dec_digits.simps)
    then show ?thesis using True b(3) by (simp add: digits_value_def)
  next
    case False
    have lead: "hd bs \<noteq> 48" using snoc.prems(3) False by simp
    have pos: "0 < digits_value bs"
    proof (cases "length bs = 1")
      case True
      then obtain c where c: "bs = [c]" by (auto simp: length_Suc_conv)
      moreover have "unat (48 :: u8) = 48" by simp
      ultimately have "unat c \<noteq> 48" using lead by (metis list.sel(1) word_unat_eq_iff)
      then show ?thesis using c snoc.prems(2) by (simp add: digits_value_def digit_range)
    next
      case long: False
      then show ?thesis using snoc.IH snoc.prems(2) lead False by (cases bs) auto
    qed
    have ih: "map of_nat (dec_digits (digits_value bs)) = bs" using snoc.IH snoc.prems(2) lead False by simp
    define d where "d = unat b - 48"
    let ?n = "digits_value bs * 10 + d"
    have "d < 10" using b(1,2) unfolding d_def by linarith
    then have "?n div 10 = digits_value bs" "?n mod 10 = d" "\<not> ?n < 10" using pos by auto
    then have "dec_digits ?n = dec_digits (digits_value bs) @ [48 + d]" by (simp add: dec_digits.simps [of ?n])
    then show ?thesis using ih b(3) pos by (simp add: d_def)
  qed
qed simp

text \<open>\<open>array_index\<close> accepts exactly the canonical decimal numerals below \<open>2^32 - 1\<close> and returns
  their value; the 64-bit accumulator never wraps.\<close>

theorem array_index_canonical:
  "array_index bs = Some i \<longleftrightarrow> i < 4294967295 \<and> bs = map of_nat (dec_digits i)"
proof
  assume "array_index bs = Some i"
  then have h: "bs \<noteq> []" "\<not> (1 < length bs \<and> hd bs = 48)" "list_all is_ascii_digit bs"
      "digits_value bs < 4294967295" "i = digits_value bs"
    using array_index_loop_value [of 0 bs]
    by (auto simp: array_index_def digits_value_def Let_def split: if_splits)
  then show "i < 4294967295 \<and> bs = map of_nat (dec_digits i)"
    using canonical_digits [of bs] by simp
next
  assume h: "i < 4294967295 \<and> bs = map of_nat (dec_digits i)"
  have len: "length (dec_digits i) \<le> 10" using h dec_digits_length [of i 9] by simp
  have ne: "(of_nat x :: u8) \<noteq> 48" if "x \<in> {48..57}" "x \<noteq> 48" for x
  proof -
    have "unat (of_nat x :: u8) = x" using that(1) by (simp only: unat_of_nat) simp
    moreover have "unat (48 :: u8) = 48" by simp
    ultimately show ?thesis using that(2) by metis
  qed
  have lead: "\<not> (1 < length bs \<and> hd bs = 48)"
  proof (cases "i < 10")
    case True
    then show ?thesis using dec_digits_shape [of i] h by simp
  next
    case False
    then have d: "dec_digits i \<noteq> []" "hd (dec_digits i) \<noteq> 48" using dec_digits_shape [of i] by simp_all
    then have d: "dec_digits i \<noteq> []" "hd (dec_digits i) \<noteq> 48" "hd (dec_digits i) \<in> {48..57}"
      using dec_digits_shape [of i] hd_in_set [OF d(1)] by (blast intro: subsetD)+
    then show ?thesis using h ne [OF d(3,2)] by (simp add: hd_map)
  qed
  have "map_option unat (array_index_loop 0 bs) = Some i"
    using h dec_digits_value [of i] array_index_loop_value [of 0 bs] by (simp add: digits_value_def)
  then show "array_index bs = Some i"
    using h len lead dec_digits_shape [of i] by (simp add: array_index_def)
qed

end
