(* ===== verification/Object_Literal.thy ===== *)
theory Object_Literal
  imports Js_String "HOL-Library.AList"
begin

text \<open>
  Construction of object literals and class member lists (\<open>interpreter/eval.rs\<close>): the slot vector
  with its key positions and accessor kinds, and the class method and accessor lists. A \<open>HashMap\<close> is an
  association list with distinct keys; a write outside the slot vector is the panic it is in Rust. The theorems relate the slot vector to the ordered
  dictionary of data and accessor properties that an object literal denotes.
\<close>

section \<open>Object literals\<close>

datatype accessor_kind = Getter | Setter

record 'v literal =
  lit_props :: "(rstring \<times> 'v) option list"
  positions :: "(rstring \<times> nat list) list"
  accessors :: "(nat \<times> accessor_kind) list"

definition empty_literal :: "'v literal" where
  "empty_literal = \<lparr>lit_props = [], positions = [], accessors = []\<rparr>"

definition existing_slots :: "rstring \<Rightarrow> 'v literal \<Rightarrow> nat list" where
  "existing_slots key l = (case map_of (positions l) key of Some is \<Rightarrow> is | None \<Rightarrow> [])"

definition write_slot :: "nat \<Rightarrow> (rstring \<times> 'v) option \<Rightarrow> 'v literal \<Rightarrow> 'v literal outcome" where
  "write_slot i x l =
     (if i < length (lit_props l) then Inr (l\<lparr>lit_props := (lit_props l)[i := x]\<rparr>) else Inl Panicked)"

definition push_prop :: "rstring \<Rightarrow> 'v \<Rightarrow> nat list \<Rightarrow> accessor_kind option \<Rightarrow> 'v literal \<Rightarrow> 'v literal" where
  "push_prop key v before kind l =
     (let index = length (lit_props l)
      in l\<lparr>lit_props := lit_props l @ [Some (key, v)],
           positions := AList.update key (before @ [index]) (positions l),
           accessors := (case kind of Some k \<Rightarrow> AList.update index k (accessors l) | None \<Rightarrow> accessors l)\<rparr>)"

text \<open>The rewrite of a key that is already present: the first slot takes the value, the others become
  holes.\<close>

definition overwrite_prop ::
  "rstring \<Rightarrow> 'v \<Rightarrow> nat \<Rightarrow> nat list \<Rightarrow> accessor_kind option \<Rightarrow> 'v literal \<Rightarrow> 'v literal outcome" where
  "overwrite_prop key v index duplicates kind l =
     bind_outcome (write_slot index (Some (key, v)) l) (\<lambda>l.
       bind_outcome (fold_outcome (\<lambda>d. write_slot d None) duplicates l) (\<lambda>l.
         Inr (l\<lparr>accessors := (case kind of
                   Some k \<Rightarrow> AList.update index k (accessors l)
                 | None \<Rightarrow> fold AList.delete (index # duplicates) (accessors l)),
                positions := AList.update key [index] (positions l)\<rparr>)))"

definition insert_object_property ::
  "rstring \<Rightarrow> 'v \<Rightarrow> accessor_kind option \<Rightarrow> 'v literal \<Rightarrow> 'v literal outcome" where
  "insert_object_property key v kind l =
     (let existing = existing_slots key l;
          place = (case existing of
              [] \<Rightarrow> Inr (push_prop key v [] kind l)
            | index # duplicates \<Rightarrow> overwrite_prop key v index duplicates kind l)
      in case kind of
           None \<Rightarrow> place
         | Some k \<Rightarrow>
             (case find (\<lambda>i. map_of (accessors l) i = Some k) existing of
                Some index \<Rightarrow> write_slot index (Some (key, v)) l
              | None \<Rightarrow>
                  if existing \<noteq> [] \<and> list_all (\<lambda>i. map_of (accessors l) i \<noteq> None) existing
                  then Inr (push_prop key v existing kind l)
                  else place))"

text \<open>The slots handed to the object: \<open>object.into_iter().flatten()\<close>.\<close>

definition flatten_slots :: "'v literal \<Rightarrow> (rstring \<times> 'v) list" where
  "flatten_slots l = List.map_filter (\<lambda>x. x) (lit_props l)"

section \<open>Class members\<close>

definition setter_companion :: "rstring \<Rightarrow> rstring" where
  "setter_companion key = ascii ''__setter:'' @ key @ ascii ''__''"

fun position_of :: "rstring \<Rightarrow> (rstring \<times> 'v) list \<Rightarrow> nat option" where
  "position_of key [] = None"
| "position_of key ((k, v) # ps) = (if k = key then Some 0 else map_option Suc (position_of key ps))"

definition replace_or_push :: "rstring \<Rightarrow> 'v \<Rightarrow> (rstring \<times> 'v) list \<Rightarrow> (rstring \<times> 'v) list" where
  "replace_or_push key v ps =
     (case position_of key ps of Some i \<Rightarrow> ps[i := (fst (ps ! i), v)] | None \<Rightarrow> ps @ [(key, v)])"

definition insert_class_method :: "rstring \<Rightarrow> 'v \<Rightarrow> (rstring \<times> 'v) list \<Rightarrow> (rstring \<times> 'v) list" where
  "insert_class_method key v ps =
     filter (\<lambda>(name, _). name \<noteq> setter_companion key) (replace_or_push key v ps)"

text \<open>\<open>kind_of\<close> reads the \<open>get \<close>/\<open>set \<close> prefix of a function's name. A getter that displaces a setter
  moves it to the companion slot; a function with neither prefix is the \<open>unreachable!\<close> of the source.\<close>

definition insert_class_accessor ::
  "('v \<Rightarrow> accessor_kind option) \<Rightarrow> rstring \<Rightarrow> 'v \<Rightarrow> (rstring \<times> 'v) list \<Rightarrow> (rstring \<times> 'v) list option" where
  "insert_class_accessor kind_of key accessor ps =
     (let companion = setter_companion key;
          primary = (case position_of key ps of Some i \<Rightarrow> Some (snd (ps ! i)) | None \<Rightarrow> None)
      in case kind_of accessor of
           Some Getter \<Rightarrow>
             let ps' = (case primary of
                          Some old \<Rightarrow> if kind_of old = Some Setter then replace_or_push companion old ps else ps
                        | None \<Rightarrow> ps)
             in Some (replace_or_push key accessor ps')
         | Some Setter \<Rightarrow>
             if (case primary of Some old \<Rightarrow> kind_of old = Some Getter | None \<Rightarrow> False)
             then Some (replace_or_push companion accessor ps)
             else Some (replace_or_push key accessor ps)
         | None \<Rightarrow> None)"

section \<open>The dictionary a literal denotes\<close>

datatype 'v property = DataProp 'v | AccessorProp "'v option" "'v option"

fun define_prop :: "'v \<Rightarrow> accessor_kind option \<Rightarrow> 'v property option \<Rightarrow> 'v property" where
  "define_prop v None old = DataProp v"
| "define_prop v (Some Getter) (Some (AccessorProp g s)) = AccessorProp (Some v) s"
| "define_prop v (Some Setter) (Some (AccessorProp g s)) = AccessorProp g (Some v)"
| "define_prop v (Some Getter) old = AccessorProp (Some v) None"
| "define_prop v (Some Setter) old = AccessorProp None (Some v)"

definition slot_of_kind :: "'v literal \<Rightarrow> rstring \<Rightarrow> accessor_kind \<Rightarrow> nat option" where
  "slot_of_kind l key k = find (\<lambda>i. map_of (accessors l) i = Some k) (existing_slots key l)"

definition value_at :: "'v literal \<Rightarrow> nat \<Rightarrow> 'v" where
  "value_at l i = snd (the (lit_props l ! i))"

definition denote :: "'v literal \<Rightarrow> rstring \<Rightarrow> 'v property option" where
  "denote l key =
     (case existing_slots key l of
        [] \<Rightarrow> None
      | i # _ \<Rightarrow> Some (if map_of (accessors l) i = None then DataProp (value_at l i)
                    else AccessorProp (map_option (value_at l) (slot_of_kind l key Getter))
                           (map_option (value_at l) (slot_of_kind l key Setter))))"

text \<open>Every listed slot holds its key, a key has one data slot or at most one slot per accessor kind,
  and every filled slot is listed.\<close>

definition key_ok :: "'v literal \<Rightarrow> rstring \<Rightarrow> bool" where
  "key_ok l key \<longleftrightarrow>
     (\<forall>i\<in>set (existing_slots key l). i < length (lit_props l) \<and> (\<exists>v. lit_props l ! i = Some (key, v))) \<and>
     distinct (existing_slots key l) \<and>
     ((\<exists>i. existing_slots key l = [i] \<and> map_of (accessors l) i = None) \<or>
      (\<forall>i\<in>set (existing_slots key l). map_of (accessors l) i \<noteq> None) \<and>
      inj_on (map_of (accessors l)) (set (existing_slots key l)))"

definition literal_ok :: "'v literal \<Rightarrow> bool" where
  "literal_ok l \<longleftrightarrow>
     distinct (map fst (positions l)) \<and>
     (\<forall>key. key_ok l key) \<and>
     (\<forall>i k v. i < length (lit_props l) \<longrightarrow> lit_props l ! i = Some (k, v) \<longrightarrow> i \<in> set (existing_slots k l)) \<and>
     (\<forall>i. map_of (accessors l) i \<noteq> None \<longrightarrow> i < length (lit_props l))"

lemma existing_update [simp]:
  "existing_slots k (l\<lparr>positions := AList.update key is (positions l)\<rparr>) =
     (if k = key then is else existing_slots k l)"
  by (simp add: existing_slots_def update_conv')

lemma existing_other_fields [simp]:
  "existing_slots k (l\<lparr>lit_props := ps\<rparr>) = existing_slots k l"
  "existing_slots k (l\<lparr>accessors := as\<rparr>) = existing_slots k l"
  "existing_slots k (l\<lparr>lit_props := ps, positions := p\<rparr>) = existing_slots k (l\<lparr>positions := p\<rparr>)"
  "existing_slots k (l\<lparr>positions := p, accessors := as\<rparr>) = existing_slots k (l\<lparr>positions := p\<rparr>)"
  "existing_slots k (l\<lparr>lit_props := ps, positions := p, accessors := as\<rparr>) = existing_slots k (l\<lparr>positions := p\<rparr>)"
  by (simp_all add: existing_slots_def)

lemma empty_literal_ok: "literal_ok empty_literal"
  by (simp add: literal_ok_def key_ok_def empty_literal_def existing_slots_def)

lemma denote_empty: "denote empty_literal = (\<lambda>_. None)"
  by (simp add: denote_def empty_literal_def existing_slots_def fun_eq_iff)

lemma find_cong_set: "(\<And>x. x \<in> set xs \<Longrightarrow> P x = Q x) \<Longrightarrow> find P xs = find Q xs"
  by (induction xs) auto

lemma find_append:
  "find P (xs @ ys) = (case find P xs of None \<Rightarrow> find P ys | Some x \<Rightarrow> Some x)"
  by (induction xs) auto

lemma find_mem: "find P xs = Some x \<Longrightarrow> x \<in> set xs \<and> P x"
  by (induction xs) (auto split: if_splits)

text \<open>A key whose slots are untouched keeps its property.\<close>

lemma key_frame:
  assumes same: "existing_slots k l' = existing_slots k l"
    and slots: "\<And>i. i \<in> set (existing_slots k l) \<Longrightarrow>
      lit_props l' ! i = lit_props l ! i \<and> map_of (accessors l') i = map_of (accessors l) i"
    and grows: "length (lit_props l) \<le> length (lit_props l')" and ok: "key_ok l k"
  shows "key_ok l' k" and "denote l' k = denote l k"
proof -
  have inj: "inj_on (map_of (accessors l')) (set (existing_slots k l)) =
      inj_on (map_of (accessors l)) (set (existing_slots k l))"
    by (rule inj_on_cong) (simp add: slots)
  have a: "i < length (lit_props l') \<and> (\<exists>v. lit_props l' ! i = Some (k, v))" if "i \<in> set (existing_slots k l)" for i
    using that ok grows slots [OF that] unfolding key_ok_def by auto
  have b: "(\<exists>i. existing_slots k l = [i] \<and> map_of (accessors l') i = None) =
      (\<exists>i. existing_slots k l = [i] \<and> map_of (accessors l) i = None)"
    using slots by (metis list.set_intros(1))
  have c: "(\<forall>i\<in>set (existing_slots k l). map_of (accessors l') i \<noteq> None) =
      (\<forall>i\<in>set (existing_slots k l). map_of (accessors l) i \<noteq> None)"
    by (rule ball_cong) (simp_all add: slots)
  show "key_ok l' k"
    unfolding key_ok_def same inj b c
    by (intro conjI ballI a ok [unfolded key_ok_def, THEN conjunct2, THEN conjunct1]
        ok [unfolded key_ok_def, THEN conjunct2, THEN conjunct2])
  have kind: "slot_of_kind l' k d = slot_of_kind l k d" for d
    unfolding slot_of_kind_def same by (rule find_cong_set) (simp add: slots)
  have val: "value_at l' i = value_at l i" if "i \<in> set (existing_slots k l)" for i
    using that slots by (simp add: value_at_def)
  then have "map_option (value_at l') (slot_of_kind l k d) = map_option (value_at l) (slot_of_kind l k d)" for d
    by (cases "slot_of_kind l k d") (auto simp: slot_of_kind_def dest: find_mem)
  moreover note val
  ultimately show "denote l' k = denote l k"
    using slots by (auto simp: denote_def same kind split: list.split)
qed

lemma ok_key: "literal_ok l \<Longrightarrow> key_ok l k"
  unfolding literal_ok_def by (elim conjE) (rule spec)

lemma key_slot:
  "key_ok l k \<Longrightarrow> i \<in> set (existing_slots k l) \<Longrightarrow>
   i < length (lit_props l) \<and> (\<exists>v. lit_props l ! i = Some (k, v))"
  unfolding key_ok_def by (elim conjE) (rule bspec)

lemmas slot_in_range = key_slot [OF ok_key, THEN conjunct1]

lemmas slot_holds_key = key_slot [OF ok_key, THEN conjunct2]

lemma slots_disjoint:
  assumes "literal_ok l" "i \<in> set (existing_slots k l)" "i \<in> set (existing_slots k' l)"
  shows "k = k'"
  using slot_holds_key [OF assms(1,2)] slot_holds_key [OF assms(1,3)] by auto

definition inserts :: "'v literal \<Rightarrow> rstring \<Rightarrow> 'v \<Rightarrow> accessor_kind option \<Rightarrow> 'v literal \<Rightarrow> bool" where
  "inserts l key v kind l' \<longleftrightarrow>
     literal_ok l' \<and> denote l' = (denote l)(key \<mapsto> define_prop v kind (denote l key))"

text \<open>It is enough to look at the inserted key when no slot of another key is touched.\<close>

lemma insertsI:
  assumes ok: "literal_ok l" and pos: "distinct (map fst (positions l'))"
    and same: "\<And>k. k \<noteq> key \<Longrightarrow> existing_slots k l' = existing_slots k l"
    and grows: "length (lit_props l) \<le> length (lit_props l')"
    and slots: "\<And>i. i < length (lit_props l) \<Longrightarrow> i \<notin> set (existing_slots key l) \<Longrightarrow>
      lit_props l' ! i = lit_props l ! i \<and> map_of (accessors l') i = map_of (accessors l) i"
    and fresh: "\<And>i k w. i < length (lit_props l') \<Longrightarrow> lit_props l' ! i = Some (k, w) \<Longrightarrow>
      length (lit_props l) \<le> i \<or> i \<in> set (existing_slots key l) \<Longrightarrow> k = key \<and> i \<in> set (existing_slots key l')"
    and acc: "\<And>i. map_of (accessors l') i \<noteq> None \<Longrightarrow> i < length (lit_props l')"
    and key: "key_ok l' key" "denote l' key = Some (define_prop v kind (denote l key))"
  shows "inserts l key v kind l'"
proof -
  have other: "key_ok l' k \<and> denote l' k = denote l k" if "k \<noteq> key" for k
  proof -
    have touched: "i < length (lit_props l) \<and> i \<notin> set (existing_slots key l)" if "i \<in> set (existing_slots k l)" for i
      using that \<open>k \<noteq> key\<close> ok slots_disjoint slot_in_range by blast
    have "key_ok l k" using ok by (rule ok_key)
    then show ?thesis using key_frame [OF same [OF that] _ grows] slots touched by blast
  qed
  have listed: "i \<in> set (existing_slots k l')" if "i < length (lit_props l')" "lit_props l' ! i = Some (k, w)" for i k w
  proof (cases "length (lit_props l) \<le> i \<or> i \<in> set (existing_slots key l)")
    case True
    then show ?thesis using fresh that by blast
  next
    case False
    then have "i \<in> set (existing_slots k l)" using ok that slots by (auto simp: literal_ok_def)
    then show ?thesis using same False by (cases "k = key") auto
  qed
  have "key_ok l' k" for k using key(1) other by (cases "k = key") auto
  moreover have "denote l' = (denote l)(key \<mapsto> define_prop v kind (denote l key))"
    using key(2) other by (auto simp: fun_eq_iff)
  ultimately show ?thesis unfolding inserts_def literal_ok_def using pos listed acc by blast
qed

lemma distinct_update_positions:
  "distinct (map fst ps) \<Longrightarrow> distinct (map fst (AList.update k is ps))"
  by (rule distinct_update)

text \<open>The four ways an insertion proceeds: a new key, the rewrite of an accessor of the same kind, a
  second accessor beside the first, and the rewrite that collapses the key to one slot.\<close>

lemma key_slots_cases:
  assumes "key_ok l key"
  obtains "existing_slots key l = []"
  | i where "existing_slots key l = [i]" "map_of (accessors l) i = None"
  | i rest where "existing_slots key l = i # rest" "\<And>j. j \<in> set (i # rest) \<Longrightarrow> map_of (accessors l) j \<noteq> None"
      "inj_on (map_of (accessors l)) (set (i # rest))"
  using assms unfolding key_ok_def by (cases "existing_slots key l") auto

lemma accessor_bound: "literal_ok l \<Longrightarrow> length (lit_props l) \<le> i \<Longrightarrow> map_of (accessors l) i = None"
  unfolding literal_ok_def by (meson not_le)

lemma positions_distinct: "literal_ok l \<Longrightarrow> distinct (map fst (positions l))"
  by (simp add: literal_ok_def)

lemma push_new:
  assumes ok: "literal_ok l" and new: "existing_slots key l = []"
  shows "inserts l key v kind (push_prop key v [] kind l)"
proof (rule insertsI [OF ok])
  let ?l = "push_prop key v [] kind l" and ?n = "length (lit_props l)"
  have slots: "existing_slots key ?l = [?n]" by (simp add: push_prop_def Let_def)
  have props: "lit_props ?l = lit_props l @ [Some (key, v)]" by (simp add: push_prop_def Let_def)
  have acc: "map_of (accessors ?l) = (map_of (accessors l))(?n := kind)"
    using accessor_bound [OF ok order_refl]
    by (auto simp: push_prop_def Let_def update_conv' fun_eq_iff split: option.split)
  show "distinct (map fst (positions ?l))"
    using positions_distinct [OF ok] by (simp add: push_prop_def Let_def distinct_update)
  show "existing_slots k ?l = existing_slots k l" if "k \<noteq> key" for k
    using that by (simp add: push_prop_def Let_def)
  show "length (lit_props l) \<le> length (lit_props ?l)" by (simp add: props)
  show "lit_props ?l ! i = lit_props l ! i \<and> map_of (accessors ?l) i = map_of (accessors l) i"
    if "i < ?n" for i
    using that by (simp add: props acc nth_append)
  show "k = key \<and> i \<in> set (existing_slots key ?l)"
    if "i < length (lit_props ?l)" "lit_props ?l ! i = Some (k, w)" "?n \<le> i \<or> i \<in> set (existing_slots key l)" for i k w
  proof -
    have "i = ?n" using that(1,3) new by (simp add: props)
    then show ?thesis using that(2) slots by (simp add: props)
  qed
  show "i < length (lit_props ?l)" if "map_of (accessors ?l) i \<noteq> None" for i
    using that accessor_bound [OF ok, of i]
    by (cases "i < ?n") (auto simp: props acc not_less split: if_splits)
  show "key_ok ?l key" using option.exhaust [of kind] by (auto simp: key_ok_def slots props acc)
  show "denote ?l key = Some (define_prop v kind (denote l key))"
    unfolding denote_def slots new slot_of_kind_def value_at_def props acc
    by (cases kind; cases "the kind") auto
qed

lemma write_same_kind:
  assumes ok: "literal_ok l" and i: "i \<in> set (existing_slots key l)" "map_of (accessors l) i = Some k"
  shows "inserts l key v (Some k) (l\<lparr>lit_props := (lit_props l)[i := Some (key, v)]\<rparr>)"
proof (rule insertsI [OF ok])
  let ?l = "l\<lparr>lit_props := (lit_props l)[i := Some (key, v)]\<rparr>"
  have range: "i < length (lit_props l)" using slot_in_range [OF ok i(1)] .
  have slots: "existing_slots key ?l = existing_slots key l" by simp
  show "distinct (map fst (positions ?l))" using positions_distinct [OF ok] by simp
  show "lit_props ?l ! j = lit_props l ! j \<and> map_of (accessors ?l) j = map_of (accessors l) j"
    if "j \<notin> set (existing_slots key l)" for j
    using that i by (cases "j = i") auto
  show "k' = key \<and> j \<in> set (existing_slots key ?l)"
    if "j < length (lit_props ?l)" "lit_props ?l ! j = Some (k', w)"
      "length (lit_props l) \<le> j \<or> j \<in> set (existing_slots key l)" for j k' w
  proof -
    have j: "j \<in> set (existing_slots key l)" using that by simp
    then show ?thesis using that(2) slot_holds_key [OF ok j] range by (cases "j = i") auto
  qed
  show "j < length (lit_props ?l)" if "map_of (accessors ?l) j \<noteq> None" for j
    using that ok by (simp add: literal_ok_def)
  have others: "map_of (accessors l) j \<noteq> None" if "j \<in> set (existing_slots key l)" for j
    using ok_key [OF ok, of key] i that by (cases rule: key_slots_cases) auto
  have inj: "inj_on (map_of (accessors l)) (set (existing_slots key l))"
    using ok_key [OF ok, of key] i by (cases rule: key_slots_cases) auto
  have filled: "j < length (lit_props ?l) \<and> (\<exists>w. lit_props ?l ! j = Some (key, w))"
    if "j \<in> set (existing_slots key l)" for j
    using slot_in_range [OF ok that] slot_holds_key [OF ok that] by (cases "j = i") auto
  have "distinct (existing_slots key l)" using ok_key [OF ok, of key] by (simp only: key_ok_def)
  then show "key_ok ?l key"
    unfolding key_ok_def slots using filled others inj by simp
  have at: "slot_of_kind l key k = Some i"
  proof -
    obtain j where j: "slot_of_kind l key k = Some j"
      using i by (cases "slot_of_kind l key k") (auto simp: slot_of_kind_def find_None_iff)
    then have "j \<in> set (existing_slots key l) \<and> map_of (accessors l) j = Some k"
      by (auto simp: slot_of_kind_def dest: find_mem)
    then have "j = i" using i inj_onD [OF inj] by metis
    then show ?thesis using j by simp
  qed
  have apart: "j \<noteq> i" if "slot_of_kind l key d = Some j" "d \<noteq> k" for j d
    using that i by (auto simp: slot_of_kind_def dest: find_mem)
  have kinds: "slot_of_kind ?l key d = slot_of_kind l key d" for d by (simp add: slot_of_kind_def)
  have val: "value_at ?l j = (if j = i then v else value_at l j)" for j
    using range by (simp add: value_at_def)
  obtain h t where ht: "existing_slots key l = h # t" using i by (cases "existing_slots key l") auto
  then have head: "map_of (accessors l) h \<noteq> None" using others by simp
  show "denote ?l key = Some (define_prop v (Some k) (denote l key))"
  proof (cases k)
    case Getter
    then show ?thesis using head at apart [of Setter] unfolding denote_def slots ht kinds
      by (cases "slot_of_kind l key Setter") (auto simp: val)
  next
    case Setter
    then show ?thesis using head at apart [of Getter] unfolding denote_def slots ht kinds
      by (cases "slot_of_kind l key Getter") (auto simp: val)
  qed
qed simp_all

lemma push_companion:
  assumes ok: "literal_ok l" and some: "existing_slots key l \<noteq> []"
    and all: "\<And>j. j \<in> set (existing_slots key l) \<Longrightarrow> map_of (accessors l) j \<noteq> None"
    and none: "\<And>j. j \<in> set (existing_slots key l) \<Longrightarrow> map_of (accessors l) j \<noteq> Some k"
  shows "inserts l key v (Some k) (push_prop key v (existing_slots key l) (Some k) l)"
proof (rule insertsI [OF ok])
  let ?is = "existing_slots key l" and ?n = "length (lit_props l)"
  let ?l = "push_prop key v ?is (Some k) l"
  have slots: "existing_slots key ?l = ?is @ [?n]" by (simp add: push_prop_def Let_def)
  have props: "lit_props ?l = lit_props l @ [Some (key, v)]" by (simp add: push_prop_def Let_def)
  have acc: "map_of (accessors ?l) = (map_of (accessors l))(?n \<mapsto> k)"
    by (simp add: push_prop_def Let_def update_conv')
  have old: "j < ?n" if "j \<in> set ?is" for j using slot_in_range [OF ok that] .
  show "distinct (map fst (positions ?l))"
    using positions_distinct [OF ok] by (simp add: push_prop_def Let_def distinct_update)
  show "existing_slots k' ?l = existing_slots k' l" if "k' \<noteq> key" for k'
    using that by (simp add: push_prop_def Let_def)
  show "length (lit_props l) \<le> length (lit_props ?l)" by (simp add: props)
  show "lit_props ?l ! i = lit_props l ! i \<and> map_of (accessors ?l) i = map_of (accessors l) i"
    if "i < ?n" for i
    using that by (simp add: props acc nth_append)
  show "k' = key \<and> i \<in> set (existing_slots key ?l)"
    if "i < length (lit_props ?l)" "lit_props ?l ! i = Some (k', w)" "?n \<le> i \<or> i \<in> set ?is" for i k' w
  proof (cases "i = ?n")
    case True
    then show ?thesis unfolding slots using that(2) by (simp add: props)
  next
    case False
    then have i: "i \<in> set ?is" using that(1,3) by (simp add: props)
    then show ?thesis unfolding slots using that(2) slot_holds_key [OF ok i] old [OF i]
      by (auto simp: props nth_append)
  qed
  show "i < length (lit_props ?l)" if "map_of (accessors ?l) i \<noteq> None" for i
    using that accessor_bound [OF ok, of i]
    by (cases "i < ?n") (auto simp: props acc not_less split: if_splits)
  have filled: "i < length (lit_props ?l) \<and> (\<exists>w. lit_props ?l ! i = Some (key, w))"
    if "i \<in> set (?is @ [?n])" for i
    using that slot_holds_key [OF ok] old by (auto simp: props nth_append less_SucI)
  have inj: "inj_on (map_of (accessors l)) (set ?is)"
    using ok_key [OF ok, of key] all by (cases rule: key_slots_cases) auto
  have "distinct ?is" using ok_key [OF ok, of key] by (simp only: key_ok_def)
  then have "distinct (?is @ [?n])" using old by auto
  moreover have "inj_on (map_of (accessors ?l)) (set (?is @ [?n]))"
  proof -
    have "inj_on (map_of (accessors ?l)) (set ?is)"
      by (rule inj_on_cong [THEN iffD2, OF _ inj]) (use old in \<open>fastforce simp: acc\<close>)
    moreover have "map_of (accessors ?l) ?n \<notin> map_of (accessors ?l) ` (set ?is - {?n})"
    proof
      assume "map_of (accessors ?l) ?n \<in> map_of (accessors ?l) ` (set ?is - {?n})"
      then obtain j where "j \<in> set ?is" "j \<noteq> ?n" "map_of (accessors ?l) ?n = map_of (accessors ?l) j" by blast
      then show False using none [of j] by (simp add: acc)
    qed
    ultimately show ?thesis by simp
  qed
  moreover have "\<forall>i\<in>set (?is @ [?n]). map_of (accessors ?l) i \<noteq> None" using all by (auto simp: acc)
  ultimately show "key_ok ?l key" unfolding key_ok_def slots using filled by blast
  have kinds: "slot_of_kind ?l key d = (if d = k then Some ?n else slot_of_kind l key d)" for d
  proof -
    have "find (\<lambda>i. map_of (accessors ?l) i = Some d) ?is = find (\<lambda>i. map_of (accessors l) i = Some d) ?is"
      by (rule find_cong_set) (auto simp: acc dest: old)
    moreover have "find (\<lambda>i. map_of (accessors l) i = Some k) ?is = None"
      using none by (auto simp: find_None_iff)
    ultimately show ?thesis by (auto simp: slot_of_kind_def slots find_append acc split: option.split)
  qed
  have val: "value_at ?l ?n = v" by (simp add: value_at_def props)
  have vals: "map_option (value_at ?l) (slot_of_kind l key d) = map_option (value_at l) (slot_of_kind l key d)" for d
    using old by (cases "slot_of_kind l key d")
      (auto simp: slot_of_kind_def value_at_def props nth_append dest!: find_mem)
  obtain h t where ht: "?is = h # t" using some by (cases ?is) auto
  have heads: "map_of (accessors l) h \<noteq> None" "map_of (accessors ?l) h \<noteq> None"
    unfolding acc using all [of h] ht by auto
  have parts: "map_option (value_at ?l) (slot_of_kind ?l key d) =
      (if d = k then Some v else map_option (value_at l) (slot_of_kind l key d))" for d
    by (simp add: kinds vals val)
  have "existing_slots key ?l = h # (t @ [?n])" using slots ht by simp
  then have after: "denote ?l key = Some (AccessorProp (map_option (value_at ?l) (slot_of_kind ?l key Getter))
      (map_option (value_at ?l) (slot_of_kind ?l key Setter)))"
    using heads(2) by (simp add: denote_def)
  have before: "denote l key = Some (AccessorProp (map_option (value_at l) (slot_of_kind l key Getter))
      (map_option (value_at l) (slot_of_kind l key Setter)))"
    using heads(1) by (simp add: denote_def ht)
  show "denote ?l key = Some (define_prop v (Some k) (denote l key))"
    unfolding after before parts by (cases k) simp_all
qed

text \<open>The rewrite writes within the vector, so it returns; its slots afterwards.\<close>

lemma clear_slots:
  assumes "\<And>d. d \<in> set ds \<Longrightarrow> d < length (lit_props l)"
  shows "\<exists>l'. fold_outcome (\<lambda>d. write_slot d None) ds l = Inr l' \<and> positions l' = positions l \<and>
    accessors l' = accessors l \<and> length (lit_props l') = length (lit_props l) \<and>
    (\<forall>j. lit_props l' ! j = (if j \<in> set ds \<and> j < length (lit_props l) then None else lit_props l ! j))"
  using assms
proof (induction ds arbitrary: l)
  case Nil
  then show ?case by simp
next
  case (Cons d ds)
  let ?m = "l\<lparr>lit_props := (lit_props l)[d := None]\<rparr>"
  have d: "d < length (lit_props l)" using Cons.prems by simp
  obtain l' where "fold_outcome (\<lambda>d. write_slot d None) ds ?m = Inr l'" "positions l' = positions ?m"
    "accessors l' = accessors ?m" "length (lit_props l') = length (lit_props ?m)"
    and at: "\<forall>j. lit_props l' ! j = (if j \<in> set ds \<and> j < length (lit_props ?m) then None else lit_props ?m ! j)"
    using Cons.IH [of ?m] Cons.prems by auto
  moreover have "lit_props l' ! j =
      (if j \<in> set (d # ds) \<and> j < length (lit_props l) then None else lit_props l ! j)" for j
    using at d by (simp add: nth_list_update)
  moreover have "write_slot d None l = Inr ?m" using d by (simp add: write_slot_def)
  ultimately show ?case by auto
qed

lemma map_of_fold_delete:
  "map_of (fold AList.delete ks al) j = (if j \<in> set ks then None else map_of al j)"
  by (induction ks arbitrary: al) (auto simp: delete_conv')

lemma overwrite:
  assumes ok: "literal_ok l" and iss: "existing_slots key l = i # rest"
    and kind: "kind = None \<or> rest = [] \<and> map_of (accessors l) i = None"
  shows "\<exists>l'. overwrite_prop key v i rest kind l = Inr l' \<and> inserts l key v kind l'"
proof -
  let ?m = "l\<lparr>lit_props := (lit_props l)[i := Some (key, v)]\<rparr>"
  have range: "j < length (lit_props l)" if "j \<in> set (i # rest)" for j
    using that slot_in_range [OF ok, of j key] by (simp add: iss)
  have "distinct (existing_slots key l)" using ok_key [OF ok, of key] by (simp only: key_ok_def)
  then have apart: "i \<notin> set rest" by (simp add: iss)
  obtain m where m: "fold_outcome (\<lambda>d. write_slot d None) rest ?m = Inr m" "positions m = positions l"
    "accessors m = accessors l" "length (lit_props m) = length (lit_props l)"
    "\<And>j. lit_props m ! j = (if j \<in> set rest \<and> j < length (lit_props l) then None else lit_props ?m ! j)"
    using clear_slots [of rest ?m] range by auto
  define l' where "l' = m\<lparr>accessors := (case kind of
       Some k \<Rightarrow> AList.update i k (accessors m) | None \<Rightarrow> fold AList.delete (i # rest) (accessors m)),
     positions := AList.update key [i] (positions m)\<rparr>"
  have run: "overwrite_prop key v i rest kind l = Inr l'"
    using range [of i] m(1) by (simp add: overwrite_prop_def write_slot_def l'_def)
  have slots: "existing_slots k l' = (if k = key then [i] else existing_slots k l)" for k
    by (simp add: l'_def existing_slots_def update_conv' m(2))
  have len: "length (lit_props l') = length (lit_props l)" by (simp add: l'_def m(4))
  have props: "lit_props l' ! j = (if j = i then Some (key, v) else if j \<in> set rest then None else lit_props l ! j)" for j
    using apart range by (auto simp: l'_def m(5) nth_list_update)
  have acc: "map_of (accessors l') j = (if j = i then kind else if j \<in> set rest then None else map_of (accessors l) j)" for j
    using kind by (auto simp: l'_def m(3) update_conv' map_of_fold_delete delete_conv' split: option.split)
  have "inserts l key v kind l'"
  proof (rule insertsI [OF ok])
    show "distinct (map fst (positions l'))"
      using positions_distinct [OF ok] by (simp add: l'_def m(2) distinct_update)
    show "lit_props l' ! j = lit_props l ! j \<and> map_of (accessors l') j = map_of (accessors l) j"
      if "j \<notin> set (existing_slots key l)" for j
      using that by (simp add: iss props acc)
    show "k = key \<and> j \<in> set (existing_slots key l')"
      if "j < length (lit_props l')" "lit_props l' ! j = Some (k, w)"
        "length (lit_props l) \<le> j \<or> j \<in> set (existing_slots key l)" for j k w
      using that by (auto simp: iss len slots props split: if_splits)
    show "j < length (lit_props l')" if "map_of (accessors l') j \<noteq> None" for j
      using that range accessor_bound [OF ok, of j] by (auto simp: acc len not_le [symmetric] split: if_splits)
    have "inj_on (map_of (accessors l')) {i}" by simp
    then show "key_ok l' key"
      using range [of i] option.exhaust [of kind] by (auto simp: key_ok_def slots props acc len)
    show "denote l' key = Some (define_prop v kind (denote l key))"
      using kind unfolding denote_def slots slot_of_kind_def value_at_def iss
      by (cases kind; cases "the kind") (auto simp: acc props)
  qed (simp_all add: slots len)
  then show ?thesis using run by blast
qed

lemma insert_inserts:
  assumes "literal_ok l"
  shows "\<exists>l'. insert_object_property key v kind l = Inr l' \<and> inserts l key v kind l'"
proof -
  have place: "\<exists>l'. (case existing_slots key l of [] \<Rightarrow> Inr (push_prop key v [] kind l)
      | i # rest \<Rightarrow> overwrite_prop key v i rest kind l) = Inr l' \<and> inserts l key v kind l'"
    if "\<And>i rest. existing_slots key l = i # rest \<Longrightarrow> kind = None \<or> rest = [] \<and> map_of (accessors l) i = None"
    using push_new [OF assms] overwrite [OF assms] that by (cases "existing_slots key l") auto
  show ?thesis
  proof (cases kind)
    case None
    show ?thesis using place [unfolded None] by (simp add: None insert_object_property_def Let_def)
  next
    case (Some k)
    show ?thesis
    proof (cases "find (\<lambda>i. map_of (accessors l) i = Some k) (existing_slots key l)")
      case (Some i)
      then have i: "i \<in> set (existing_slots key l)" "map_of (accessors l) i = Some k" by (auto dest: find_mem)
      then show ?thesis
        using Some \<open>kind = Some k\<close> write_same_kind [OF assms i] slot_in_range [OF assms i(1)]
        by (simp add: insert_object_property_def Let_def write_slot_def)
    next
      case None
      then have no: "\<And>j. j \<in> set (existing_slots key l) \<Longrightarrow> map_of (accessors l) j \<noteq> Some k"
        by (auto simp: find_None_iff)
      show ?thesis
      proof (cases "existing_slots key l \<noteq> [] \<and> list_all (\<lambda>i. map_of (accessors l) i \<noteq> None) (existing_slots key l)")
        case True
        then show ?thesis
          using None \<open>kind = Some k\<close> push_companion [OF assms _ _ no]
          by (auto simp: insert_object_property_def Let_def list_all_iff)
      next
        case False
        have "rest = [] \<and> map_of (accessors l) i = None" if "existing_slots key l = i # rest" for i rest
          using ok_key [OF assms, of key] False that
          by (cases rule: key_slots_cases) (auto simp: list_all_iff simp del: not_None_eq)
        then show ?thesis
          using None False place [unfolded \<open>kind = Some k\<close>]
          by (auto simp: \<open>kind = Some k\<close> insert_object_property_def Let_def)
      qed
    qed
  qed
qed

lemma insert_never_panics: "literal_ok l \<Longrightarrow> insert_object_property key v kind l \<noteq> Inl Panicked"
  using insert_inserts [of l key v kind] by auto

lemma insert_keeps_ok: "literal_ok l \<Longrightarrow> insert_object_property key v kind l = Inr l' \<Longrightarrow> literal_ok l'"
  using insert_inserts [of l key v kind] by (auto simp: inserts_def)

text \<open>C10: an object literal under construction always accepts a property (it never writes outside
  its slots) and then denotes the same dictionary with that one property defined: a data property
  replaces what the key held, a getter or setter joins the other accessor of the key.\<close>

theorem literal_refines:
  assumes "literal_ok l"
  shows "\<exists>l'. insert_object_property key v kind l = Inr l' \<and> literal_ok l' \<and>
    denote l' = (denote l)(key \<mapsto> define_prop v kind (denote l key))"
  using insert_inserts [OF assms] by (simp add: inserts_def)

theorem literal_refines_witness:
  "\<exists>l'. insert_object_property (ascii ''x'') (7 :: nat) (Some Getter) empty_literal = Inr l' \<and> literal_ok l' \<and>
    denote l' = (denote empty_literal)(ascii ''x'' \<mapsto> define_prop 7 (Some Getter) (denote empty_literal (ascii ''x'')))"
  by (rule literal_refines [OF empty_literal_ok])

end
