(* ===== verification/Bytecode.thy ===== *)
theory Bytecode
  imports Js_String Big_Int Object_Shape
begin

text \<open>
  The bytecode of a compiled function (\<open>bytecode/opcode.rs\<close>, \<open>constants.rs\<close>, \<open>function.rs\<close>): operands
  at their widths, the instruction set in the groups of the source, constants and class, object and
  spread templates, and the function record with its caches. The instruction enum is split into one
  datatype per group of the source, wrapped by \<open>instr\<close>. \<open>'ast\<close> stands for the parser's syntax trees,
  which the bytecode only carries along. An \<open>f64\<close> is its 64 bits.
\<close>

section \<open>Operators\<close>

datatype (plugins only: size) bin_op =
  BinAdd | BinSub | BinMul | BinDiv | BinMod | BinPow | BinBitAnd | BinBitOr | BinBitXor | BinShl |
  BinShr | BinUShr | BinEq | BinNeq | BinSeq | BinSneq | BinLt | BinGt | BinLe | BinGe | BinAnd |
  BinOr | BinNullish | BinComma | BinInstanceof | BinIn

datatype un_op =
  UnNot | UnNeg | UnPos | UnBitNot | UnTypeof | UnVoid | UnDelete | UnInc | UnDec

datatype (plugins only: size) assign_op =
  AsgAssign | AsgAdd | AsgSub | AsgMul | AsgDiv | AsgMod | AsgPow | AsgBitAnd | AsgBitOr |
  AsgBitXor | AsgShl | AsgShr | AsgUShr

fun assign_bin_op :: "assign_op \<Rightarrow> bin_op option" where
  "assign_bin_op AsgAssign = None"
| "assign_bin_op AsgAdd = Some BinAdd"
| "assign_bin_op AsgSub = Some BinSub"
| "assign_bin_op AsgMul = Some BinMul"
| "assign_bin_op AsgDiv = Some BinDiv"
| "assign_bin_op AsgMod = Some BinMod"
| "assign_bin_op AsgPow = Some BinPow"
| "assign_bin_op AsgBitAnd = Some BinBitAnd"
| "assign_bin_op AsgBitOr = Some BinBitOr"
| "assign_bin_op AsgBitXor = Some BinBitXor"
| "assign_bin_op AsgShl = Some BinShl"
| "assign_bin_op AsgShr = Some BinShr"
| "assign_bin_op AsgUShr = Some BinUShr"

section \<open>Instructions\<close>

type_synonym reg = u16
type_synonym slot = u16
type_synonym target = u32

datatype slot_kind = KindVar | KindCatch | KindLet | KindConst

datatype key_src = KeyConst u16 | KeyReg reg

text \<open>Data movement; operands in the order of the source's fields.\<close>

datatype (plugins only: size) move_instr =
    LoadConst reg u16
  | Mov reg reg
  | LoadLocal reg slot
  | StoreLocal slot reg
  | DeclareLocal slot slot_kind bool
  | InitLocal slot reg
  | InitGlobal u16 reg bool
  | HoistVarGlobal u16
  | AnnexBInit u16
  | AnnexBUpdate u16 reg "slot option"
  | BareVarLocal slot
  | BareVarGlobal u16
  | LoadGlobal reg u16
  | CheckClassStaticKey reg
  | LoadCallBinding reg reg u16
  | ResolveAssignmentBinding reg reg u16
  | ReadAssignmentBinding reg reg reg u16
  | WriteAssignmentBinding reg reg u16 reg
  | WriteAssignmentProperty reg reg reg bool
  | StoreGlobal u16 reg
  | DefineGlobal u16 reg slot_kind bool
  | LoadThis reg
  | LoadGlobalThis reg
  | TypeofGlobal reg u16
  | TypeofLocal reg slot

text \<open>Operators; the increment is the \<open>i8\<close> of the source as 8 bits.\<close>

datatype (plugins only: size) op_instr =
    Binary reg bin_op reg reg
  | Unary reg un_op reg
  | CompoundLocal reg slot assign_op reg
  | CompoundGlobal reg u16 assign_op reg
  | CompoundProp reg reg reg assign_op reg
  | IncLocal reg slot u8 bool
  | IncGlobal reg u16 u8 bool
  | IncProp reg reg reg u8 bool
  | DelProp reg reg reg
  | DelGlobal reg u16

datatype (plugins only: size) flow_instr =
    Jump target
  | JumpIfTrue reg target
  | JumpIfFalse reg target
  | JumpIfNullish reg target
  | JumpIfNotNullish reg target
  | LoopHead
  | Return reg
  | ReturnUndefined
  | Throw reg

text \<open>Properties, calls and allocation.\<close>

datatype (plugins only: size) call_instr =
    GetProp bool u32 reg reg reg
  | LoadTemplate reg u64
  | FreezeTemplate u64 reg reg
  | SetProp u32 reg reg reg
  | DirectEval reg reg "reg option" reg u16
  | DirectEvalSpread reg reg "reg option" u16
  | Call reg reg reg u16
  | CallMethod reg reg reg reg u16
  | Template reg u16 reg u16
  | Construct reg reg reg u16
  | ConstructSpread reg reg u16
  | ExpandSpread reg reg
  | NewObject reg
  | SetOwnProp reg key_src reg
  | NewArray reg reg u16
  | MakeFunction reg u16
  | MakeAstFunction reg u16
  | NormalKey reg reg
  | BuildObject reg u16
  | LoadGlobalSoft reg u16
  | LoadLocalSoft reg slot
  | CallSpread reg reg u16
  | MethodSpread reg reg reg u16
  | BuildArray reg u16
  | ToDestructArray reg reg
  | RestArray reg reg u16
  | CheckDestructObject reg reg
  | RestObject reg reg reg

text \<open>Iteration and exception handlers.\<close>

datatype (plugins only: size) loop_instr =
    EnumKeys reg reg
  | EnumNext reg reg reg
  | EnumEnd reg
  | ForOfInit reg reg reg
  | IterNext reg reg reg reg
  | CloseIterator reg bool
  | PushCatch target reg
  | PushFinally target reg
  | PopHandler
  | PopPending
  | Rethrow

text \<open>Classes, modules and block scopes.\<close>

datatype (plugins only: size) class_instr =
    SuperMember reg reg
  | SuperReference reg reg reg reg
  | GetPropertyWithReceiver reg reg reg reg
  | SetPropertyWithReceiver reg reg reg reg
  | NumericUpdate reg reg reg bool
  | SuperConstructor reg
  | SuperCall reg reg reg u16
  | SuperCallSpread reg reg u16
  | Raise u16
  | BuildClass reg u16
  | PropertyKey reg reg
  | InferName reg reg
  | ClassScope "u16 option"
  | ClassPrivateEnvironment u16
  | ClassHeritage reg reg
  | PrivateIn reg reg u16
  | Import u16
  | ExportDefault reg
  | ExportNamed u16
  | ExportAll u16
  | DynamicImport reg reg
  | Await reg reg
  | NewTarget reg
  | ImportMeta reg
  | PushScope
  | PopScope

datatype (plugins only: size) instr =
  IMove move_instr | IOp op_instr | IFlow flow_instr | ICall call_instr | ILoop loop_instr |
  IClass class_instr

text \<open>The fuel cost of one execution.\<close>

fun cost :: "instr \<Rightarrow> nat" where
  "cost (ICall c) =
     (case c of
        DirectEval _ _ _ _ _ \<Rightarrow> 5 | DirectEvalSpread _ _ _ _ \<Rightarrow> 5 | Call _ _ _ _ \<Rightarrow> 5
      | CallMethod _ _ _ _ _ \<Rightarrow> 5 | CallSpread _ _ _ \<Rightarrow> 5 | MethodSpread _ _ _ _ \<Rightarrow> 5
      | Construct _ _ _ _ \<Rightarrow> 8 | ConstructSpread _ _ _ \<Rightarrow> 8
      | NewObject _ \<Rightarrow> 10 | NewArray _ _ _ \<Rightarrow> 10 | BuildObject _ _ \<Rightarrow> 10 | BuildArray _ _ \<Rightarrow> 10
      | GetProp _ _ _ _ _ \<Rightarrow> 2 | SetProp _ _ _ _ \<Rightarrow> 2 | SetOwnProp _ _ _ \<Rightarrow> 2
      | _ \<Rightarrow> 1)"
| "cost (IMove (Mov _ _)) = 0"
| "cost (IMove _) = 1"
| "cost (IOp _) = 1"
| "cost (IFlow f) =
     (case f of
        Jump _ \<Rightarrow> 0 | JumpIfTrue _ _ \<Rightarrow> 0 | JumpIfFalse _ _ \<Rightarrow> 0 | JumpIfNullish _ _ \<Rightarrow> 0
      | JumpIfNotNullish _ _ \<Rightarrow> 0 | LoopHead \<Rightarrow> 0 | _ \<Rightarrow> 1)"
| "cost (ILoop _) = 1"
| "cost (IClass _) = 1"

section \<open>Constants and templates\<close>

datatype class_name_template = NameStatic rstring | NamePrivate rstring | NameComputed reg

datatype class_member_kind = MemberMethod | MemberGetter | MemberSetter

record class_member_template =
  auto_decorator_field :: "nat option"
  member_decorators :: "(reg \<times> reg option) list"
  auto_accessor_storage :: "rstring option"
  member_kind :: class_member_kind
  member_static :: bool
  member_name :: class_name_template
  member_func :: "u16 option"

datatype 'ast class_static_template = StaticField class_name_template 'ast | StaticBlock u16

record class_field_decorator_template =
  field_name :: class_name_template
  field_static :: bool
  field_index :: nat
  field_decorators_of :: "(reg \<times> reg option) list"

record 'ast class_template =
  field_decorators :: "class_field_decorator_template list"
  has_method_decorators :: bool
  class_decorators :: "(reg \<times> reg option) list"
  private_fields :: "rstring list"
  private_declarations :: "rstring list"
  class_name :: rstring
  expr_name :: "rstring option"
  superclass :: "reg option"
  super_proto :: "reg option"
  ctor_func :: u16
  ctor_length :: nat
  ctor_computed_keys :: "reg list"
  members :: "class_member_template list"
  blocks :: "'ast class_static_template list"

datatype import_phase = PhaseEvaluation | PhaseSource | PhaseDeferred

record import_template =
  import_module :: js_string
  import_phase_of :: import_phase
  import_default :: "rstring option"
  import_named :: "(rstring \<times> rstring) list"
  import_namespace :: "rstring option"

record export_named_template =
  specifiers :: "(rstring \<times> rstring) list"
  named_source :: "js_string option"

record export_all_template =
  all_source :: js_string
  all_alias :: "rstring option"

record spread_entry =
  elision :: bool
  spread :: bool
  prepared :: bool
  spread_reg :: reg

datatype prop_kind =
  PropData | PropPrototype | PropMethod | PropGetter | PropSetter | PropSpread

record prop_entry =
  entry_key :: "key_src option"
  entry_val :: reg
  entry_kind :: prop_kind

record 'ast ast_function =
  ast_named_expression :: bool
  ast_name :: "rstring option"
  ast_params :: "rstring list"
  ast_body :: 'ast
  ast_is_arrow :: bool
  ast_is_constructor :: bool
  ast_is_async :: bool
  ast_is_generator :: bool
  ast_uses_arguments :: bool

section \<open>Functions\<close>

record slot_info =
  slot_name :: rstring
  slot_kind_of :: slot_kind
  slot_captured :: bool

datatype (plugins only: size) 'ast const_value =
    CNumber u64
  | CString js_string
  | CName rstring
  | CBool bool
  | CNull
  | CUndefined
  | CStringList "js_string list"
  | CBigInt big_int
  | CRegex js_string rstring
  | CFunction "'ast bytecode_function"
  | CAstFunction "'ast ast_function"
  | CObjectTemplate "prop_entry list"
  | CSpreadTemplate "spread_entry list"
  | CClassTemplate "'ast class_template"
  | CImportTemplate import_template
  | CExportNamedTemplate export_named_template
  | CExportAllTemplate export_all_template
and 'ast bytecode_function =
  BytecodeFunction
    (named_expression: bool)
    (strict_function: bool)
    (function_name: "rstring option")
    (code: "instr list")
    (constants: "'ast const_value list")
    (register_count: u16)
    (local_count: u16)
    (parameter_count: u16)
    (upvalue_count: u16)
    (function_slots: "slot_info list")
    (is_arrow: bool)
    (is_constructor: bool)
    (captures_arguments: bool)
    (needs_frame_environment: bool)
    (caches: "prop_cache list")
    (global_read_slots: "nat option list")

text \<open>\<open>fork_for_owner\<close>: the code with fresh caches, nested functions included.\<close>

lemma nested_function_size [termination_simp]:
  "CFunction g \<in> set (constants f) \<Longrightarrow> size g < size f"
proof (cases f)
  case (BytecodeFunction a1 a2 a3 a4 cs a6 a7 a8 a9 a10 a11 a12 a13 a14 a15 a16)
  assume "CFunction g \<in> set (constants f)"
  then have "size (CFunction g) \<le> size_list size cs"
    using BytecodeFunction by (auto intro: size_list_estimation')
  then show ?thesis using BytecodeFunction by simp
qed

fun fork_for_owner :: "'ast bytecode_function \<Rightarrow> 'ast bytecode_function" where
  "fork_for_owner (BytecodeFunction ne st nm cd cs rc lc pc uc sl ia ic ca nf pcs grs) =
     BytecodeFunction ne st nm cd
       (map (\<lambda>c. case c of CFunction g \<Rightarrow> CFunction (fork_for_owner g) | _ \<Rightarrow> c) cs)
       rc lc pc uc sl ia ic ca nf (map (\<lambda>_. empty_cache) pcs) grs"

end
