(* ===== verification/Verifier.thy ===== *)
theory Verifier
  imports Bytecode
begin

text \<open>
  The bytecode verifier (\<open>bytecode/verify.rs\<close>). Each check returns the first defect it finds; the
  dispatch over instructions is one definition per group of the instruction set, in the order in
  which the source performs the checks of an arm.
\<close>

section \<open>Defects\<close>

datatype (plugins only: size) verify_error =
    BadCache nat u32
  | CacheTableMismatch
  | SlotTableMismatch nat u16
  | ParametersExceedLocals u16 u16
  | UpvaluesUnsupported u16
  | BadRegister nat u16
  | BadSlot nat u16
  | BadConstant nat u16
  | ConstantTypeMismatch nat string
  | BadJumpTarget nat u32
  | BadOperandRange nat u16 u16
  | ShortCircuitInBinary nat bin_op
  | TargetedUnary nat un_op
  | PlainAssignInCompound nat
  | BadIncDelta nat u8
  | TemplateArityMismatch nat nat u16
  | NestedFunction u16 verify_error

type_synonym verdict = "verify_error + unit"

section \<open>Operand checks\<close>

definition check_reg :: "'ast bytecode_function \<Rightarrow> nat \<Rightarrow> reg \<Rightarrow> verdict" where
  "check_reg f address r = (if r < register_count f then Inr () else Inl (BadRegister address r))"

definition check_slot :: "'ast bytecode_function \<Rightarrow> nat \<Rightarrow> slot \<Rightarrow> verdict" where
  "check_slot f address s = (if s < local_count f then Inr () else Inl (BadSlot address s))"

definition check_const :: "'ast bytecode_function \<Rightarrow> nat \<Rightarrow> u16 \<Rightarrow> verdict" where
  "check_const f address index =
     (if unat index < length (constants f) then Inr () else Inl (BadConstant address index))"

fun const_is :: "'ast const_value \<Rightarrow> string \<Rightarrow> bool" where
  "const_is (CNumber _) expected = (expected = ''scalar'')"
| "const_is (CBool _) expected = (expected = ''scalar'')"
| "const_is CNull expected = (expected = ''scalar'')"
| "const_is CUndefined expected = (expected = ''scalar'')"
| "const_is (CBigInt _) expected = (expected = ''scalar'')"
| "const_is (CRegex _ _) expected = (expected = ''scalar'')"
| "const_is (CString _) expected = (expected = ''string'' \<or> expected = ''scalar'')"
| "const_is (CName _) expected = (expected = ''string'' \<or> expected = ''scalar'')"
| "const_is (CStringList _) expected = (expected = ''string-list'')"
| "const_is (CFunction _) expected = (expected = ''function'')"
| "const_is (CAstFunction _) expected = (expected = ''ast-function'')"
| "const_is (CObjectTemplate _) expected = (expected = ''object-template'')"
| "const_is (CSpreadTemplate _) expected = (expected = ''spread-template'')"
| "const_is (CClassTemplate _) expected = (expected = ''class-template'')"
| "const_is (CImportTemplate _) expected = (expected = ''import-template'')"
| "const_is (CExportNamedTemplate _) expected = (expected = ''export-named-template'')"
| "const_is (CExportAllTemplate _) expected = (expected = ''export-all-template'')"

definition check_const_is :: "'ast bytecode_function \<Rightarrow> nat \<Rightarrow> u16 \<Rightarrow> string \<Rightarrow> verdict" where
  "check_const_is f address index expected =
     bind_outcome (check_const f address index) (\<lambda>_.
       if const_is (constants f ! unat index) expected then Inr ()
       else Inl (ConstantTypeMismatch address expected))"

definition check_target :: "'ast bytecode_function \<Rightarrow> nat \<Rightarrow> target \<Rightarrow> verdict" where
  "check_target f address t =
     (if unat t \<le> length (code f) then Inr () else Inl (BadJumpTarget address t))"

definition check_range :: "'ast bytecode_function \<Rightarrow> nat \<Rightarrow> reg \<Rightarrow> u16 \<Rightarrow> verdict" where
  "check_range f address start count =
     (let finish = (ucast start :: u32) + ucast count
      in if finish \<le> ucast (register_count f) then Inr () else Inl (BadOperandRange address start count))"

definition check_key :: "'ast bytecode_function \<Rightarrow> nat \<Rightarrow> key_src \<Rightarrow> verdict" where
  "check_key f address key =
     (case key of
        KeyConst index \<Rightarrow> check_const_is f address index ''string''
      | KeyReg r \<Rightarrow> check_reg f address r)"

definition check_compound_op :: "nat \<Rightarrow> assign_op \<Rightarrow> verdict" where
  "check_compound_op address op =
     (if op = AsgAssign then Inl (PlainAssignInCompound address) else Inr ())"

definition check_delta :: "nat \<Rightarrow> u8 \<Rightarrow> verdict" where
  "check_delta address delta =
     (if delta = 1 \<or> delta = - 1 then Inr () else Inl (BadIncDelta address delta))"

definition check_cache :: "'ast bytecode_function \<Rightarrow> nat \<Rightarrow> u32 \<Rightarrow> verdict" where
  "check_cache f address cache =
     (if unat cache \<ge> length (caches f) then Inl (BadCache address cache) else Inr ())"

definition check_opt :: "('a \<Rightarrow> verdict) \<Rightarrow> 'a option \<Rightarrow> verdict" where
  "check_opt check x = (case x of Some y \<Rightarrow> check y | None \<Rightarrow> Inr ())"

section \<open>Templates\<close>

definition check_spread_entry ::
  "'ast bytecode_function \<Rightarrow> nat \<Rightarrow> bool \<Rightarrow> spread_entry \<Rightarrow> verdict" where
  "check_spread_entry f address allow_elision entry =
     (if elision entry \<and> (\<not> allow_elision \<or> spread entry \<or> prepared entry)
      then Inl (ConstantTypeMismatch address ''array elision without spread flags'')
      else check_reg f address (spread_reg entry))"

definition check_spread_template ::
  "'ast bytecode_function \<Rightarrow> nat \<Rightarrow> u16 \<Rightarrow> bool \<Rightarrow> verdict" where
  "check_spread_template f address tmpl allow_elision =
     bind_outcome (check_const_is f address tmpl ''spread-template'') (\<lambda>_.
       case constants f ! unat tmpl of
         CSpreadTemplate entries \<Rightarrow> all_checks (map (check_spread_entry f address allow_elision) entries)
       | _ \<Rightarrow> Inr ())"

definition check_func_const :: "'ast bytecode_function \<Rightarrow> nat \<Rightarrow> u16 \<Rightarrow> verdict" where
  "check_func_const f address index =
     bind_outcome (check_const f address index) (\<lambda>_.
       case constants f ! unat index of
         CFunction _ \<Rightarrow> Inr ()
       | CAstFunction _ \<Rightarrow> Inr ()
       | _ \<Rightarrow> Inl (ConstantTypeMismatch address ''function''))"

definition check_decorator :: "'ast bytecode_function \<Rightarrow> nat \<Rightarrow> reg \<times> reg option \<Rightarrow> verdict" where
  "check_decorator f address =
     (\<lambda>(v, receiver). all_checks [check_reg f address v, check_opt (check_reg f address) receiver])"

definition check_computed_name :: "'ast bytecode_function \<Rightarrow> nat \<Rightarrow> class_name_template \<Rightarrow> verdict" where
  "check_computed_name f address name =
     (case name of NameComputed r \<Rightarrow> check_reg f address r | _ \<Rightarrow> Inr ())"

definition check_field_decorator ::
  "'ast bytecode_function \<Rightarrow> nat \<Rightarrow> class_field_decorator_template \<Rightarrow> verdict" where
  "check_field_decorator f address field =
     all_checks [check_computed_name f address (field_name field),
       all_checks (map (check_decorator f address) (field_decorators_of field))]"

definition auto_accessor_pair :: "'ast class_template \<Rightarrow> nat \<Rightarrow> class_member_template \<Rightarrow> nat \<Rightarrow> bool" where
  "auto_accessor_pair template index member field_idx =
     (let field = get_at (field_decorators template) field_idx;
          setter = get_at (members template) (Suc index)
      in has_method_decorators template \<and> member_kind member = MemberGetter \<and>
         auto_accessor_storage member \<noteq> None \<and>
         (case field of Some fd \<Rightarrow> field_static fd = member_static member | None \<Rightarrow> False) \<and>
         (case setter of
            Some st \<Rightarrow> member_kind st = MemberSetter \<and> member_static st = member_static member \<and>
              auto_decorator_field st = None
          | None \<Rightarrow> False))"

definition check_member ::
  "'ast bytecode_function \<Rightarrow> nat \<Rightarrow> 'ast class_template \<Rightarrow> nat \<times> class_member_template \<Rightarrow> verdict" where
  "check_member f address template = (\<lambda>(index, member).
     all_checks
       [case auto_decorator_field member of
          Some field_idx \<Rightarrow>
            if auto_accessor_pair template index member field_idx then Inr ()
            else Inl (ConstantTypeMismatch address ''valid auto-accessor decorator pair'')
        | None \<Rightarrow> Inr (),
        all_checks (map (check_decorator f address) (member_decorators member)),
        check_computed_name f address (member_name member),
        check_opt (check_func_const f address) (member_func member)])"

definition check_static_element ::
  "'ast bytecode_function \<Rightarrow> nat \<Rightarrow> 'ast class_static_template \<Rightarrow> verdict" where
  "check_static_element f address block =
     (case block of
        StaticBlock index \<Rightarrow> check_const_is f address index ''ast-function''
      | StaticField name _ \<Rightarrow> check_computed_name f address name)"

definition check_class_template :: "'ast bytecode_function \<Rightarrow> nat \<Rightarrow> u16 \<Rightarrow> verdict" where
  "check_class_template f address tmpl =
     bind_outcome (check_const_is f address tmpl ''class-template'') (\<lambda>_.
       case constants f ! unat tmpl of
         CClassTemplate template \<Rightarrow>
           all_checks
             [all_checks (map (check_decorator f address) (class_decorators template)),
              check_opt (check_reg f address) (superclass template),
              check_opt (check_reg f address) (super_proto template),
              all_checks (map (check_reg f address) (ctor_computed_keys template)),
              check_func_const f address (ctor_func template),
              all_checks (map (check_field_decorator f address) (field_decorators template)),
              all_checks (map (check_member f address template) (enumerate 0 (members template))),
              all_checks (map (check_static_element f address) (blocks template))]
       | _ \<Rightarrow> Inr ())"

definition check_prop_entry :: "'ast bytecode_function \<Rightarrow> nat \<Rightarrow> prop_entry \<Rightarrow> verdict" where
  "check_prop_entry f address entry =
     all_checks [check_opt (check_key f address) (entry_key entry), check_reg f address (entry_val entry)]"

section \<open>Instructions\<close>

fun check_move :: "'ast bytecode_function \<Rightarrow> nat \<Rightarrow> move_instr \<Rightarrow> verdict" where
  "check_move f a (LoadConst dst cst) =
     all_checks [check_reg f a dst, check_const_is f a cst ''scalar'']"
| "check_move f a (Mov dst src) = all_checks [check_reg f a dst, check_reg f a src]"
| "check_move f a (LoadLocal dst s) = all_checks [check_reg f a dst, check_slot f a s]"
| "check_move f a (TypeofLocal dst s) = all_checks [check_reg f a dst, check_slot f a s]"
| "check_move f a (StoreLocal s src) = all_checks [check_slot f a s, check_reg f a src]"
| "check_move f a (DeclareLocal s _ _) = check_slot f a s"
| "check_move f a (BareVarLocal s) = check_slot f a s"
| "check_move f a (InitLocal s src) = all_checks [check_slot f a s, check_reg f a src]"
| "check_move f a (AnnexBUpdate name src s) =
     all_checks [check_const_is f a name ''string'', check_reg f a src, check_opt (check_slot f a) s]"
| "check_move f a (InitGlobal name src _) =
     all_checks [check_const_is f a name ''string'', check_reg f a src]"
| "check_move f a (AnnexBInit name) = check_const_is f a name ''string''"
| "check_move f a (HoistVarGlobal name) = check_const_is f a name ''string''"
| "check_move f a (BareVarGlobal name) = check_const_is f a name ''string''"
| "check_move f a (LoadGlobal dst name) =
     all_checks [check_reg f a dst, check_const_is f a name ''string'']"
| "check_move f a (TypeofGlobal dst name) =
     all_checks [check_reg f a dst, check_const_is f a name ''string'']"
| "check_move f a (CheckClassStaticKey key) = check_reg f a key"
| "check_move f a (LoadCallBinding dst receiver name) =
     all_checks [check_reg f a dst, check_reg f a receiver, check_const_is f a name ''string'']"
| "check_move f a (ResolveAssignmentBinding base property name) =
     all_checks [check_reg f a base, check_reg f a property, check_const_is f a name ''string'']"
| "check_move f a (ReadAssignmentBinding dst base property name) =
     all_checks [check_reg f a dst, check_reg f a base, check_reg f a property,
       check_const_is f a name ''string'']"
| "check_move f a (WriteAssignmentBinding base property name src) =
     all_checks [check_reg f a base, check_reg f a property, check_reg f a src,
       check_const_is f a name ''string'']"
| "check_move f a (WriteAssignmentProperty obj key src _) =
     all_checks [check_reg f a obj, check_reg f a key, check_reg f a src]"
| "check_move f a (StoreGlobal name src) =
     all_checks [check_const_is f a name ''string'', check_reg f a src]"
| "check_move f a (DefineGlobal name src _ _) =
     all_checks [check_const_is f a name ''string'', check_reg f a src]"
| "check_move f a (LoadThis dst) = check_reg f a dst"
| "check_move f a (LoadGlobalThis dst) = check_reg f a dst"

fun check_op :: "'ast bytecode_function \<Rightarrow> nat \<Rightarrow> op_instr \<Rightarrow> verdict" where
  "check_op f a (Binary dst op lhs rhs) =
     all_checks [check_reg f a dst, check_reg f a lhs, check_reg f a rhs,
       if op = BinAnd \<or> op = BinOr \<or> op = BinNullish \<or> op = BinComma
       then Inl (ShortCircuitInBinary a op) else Inr ()]"
| "check_op f a (Unary dst op src) =
     all_checks [check_reg f a dst, check_reg f a src,
       if op = UnDelete then Inl (TargetedUnary a op) else Inr ()]"
| "check_op f a (CompoundLocal dst s op rhs) =
     all_checks [check_reg f a dst, check_slot f a s, check_reg f a rhs, check_compound_op a op]"
| "check_op f a (CompoundGlobal dst name op rhs) =
     all_checks [check_reg f a dst, check_const_is f a name ''string'', check_reg f a rhs,
       check_compound_op a op]"
| "check_op f a (CompoundProp dst obj key op rhs) =
     all_checks [check_reg f a dst, check_reg f a obj, check_reg f a key, check_reg f a rhs,
       check_compound_op a op]"
| "check_op f a (IncLocal dst s delta _) =
     all_checks [check_reg f a dst, check_slot f a s, check_delta a delta]"
| "check_op f a (IncGlobal dst name delta _) =
     all_checks [check_reg f a dst, check_const_is f a name ''string'', check_delta a delta]"
| "check_op f a (IncProp dst obj key delta _) =
     all_checks [check_reg f a dst, check_reg f a obj, check_reg f a key, check_delta a delta]"
| "check_op f a (DelProp dst obj key) =
     all_checks [check_reg f a dst, check_reg f a obj, check_reg f a key]"
| "check_op f a (DelGlobal dst name) =
     all_checks [check_reg f a dst, check_const_is f a name ''string'']"

fun check_flow :: "'ast bytecode_function \<Rightarrow> nat \<Rightarrow> flow_instr \<Rightarrow> verdict" where
  "check_flow f a (Jump t) = check_target f a t"
| "check_flow f a (JumpIfTrue src t) = all_checks [check_reg f a src, check_target f a t]"
| "check_flow f a (JumpIfFalse src t) = all_checks [check_reg f a src, check_target f a t]"
| "check_flow f a (JumpIfNullish src t) = all_checks [check_reg f a src, check_target f a t]"
| "check_flow f a (JumpIfNotNullish src t) = all_checks [check_reg f a src, check_target f a t]"
| "check_flow f a LoopHead = Inr ()"
| "check_flow f a ReturnUndefined = Inr ()"
| "check_flow f a (Return src) = check_reg f a src"
| "check_flow f a (Throw src) = check_reg f a src"

fun check_call :: "'ast bytecode_function \<Rightarrow> nat \<Rightarrow> call_instr \<Rightarrow> verdict" where
  "check_call f a (GetProp _ cache dst obj key) =
     all_checks [check_cache f a cache, check_reg f a dst, check_reg f a obj, check_reg f a key]"
| "check_call f a (LoadTemplate dst _) = check_reg f a dst"
| "check_call f a (FreezeTemplate _ cooked raw) = all_checks [check_reg f a cooked, check_reg f a raw]"
| "check_call f a (SetProp cache obj key val) =
     all_checks [check_cache f a cache, check_reg f a obj, check_reg f a key, check_reg f a val]"
| "check_call f a (DirectEval dst callee this args argc) =
     all_checks [check_reg f a dst, check_reg f a callee, check_opt (check_reg f a) this,
       check_range f a args argc]"
| "check_call f a (Call dst callee args argc) =
     all_checks [check_reg f a dst, check_reg f a callee, check_range f a args argc]"
| "check_call f a (Construct dst callee args argc) =
     all_checks [check_reg f a dst, check_reg f a callee, check_range f a args argc]"
| "check_call f a (CallMethod dst callee this args argc) =
     all_checks [check_reg f a dst, check_reg f a callee, check_reg f a this, check_range f a args argc]"
| "check_call f a (Template dst quasis args argc) =
     all_checks [check_reg f a dst, check_const_is f a quasis ''string-list'', check_range f a args argc,
       case constants f ! unat quasis of
         CStringList chunks \<Rightarrow>
           if length chunks \<noteq> unat argc + 1 then Inl (TemplateArityMismatch a (length chunks) argc) else Inr ()
       | _ \<Rightarrow> Inr ()]"
| "check_call f a (NewObject dst) = check_reg f a dst"
| "check_call f a (SetOwnProp obj key val) =
     all_checks [check_reg f a obj, check_key f a key, check_reg f a val]"
| "check_call f a (NewArray dst args argc) = all_checks [check_reg f a dst, check_range f a args argc]"
| "check_call f a (MakeFunction dst func) =
     all_checks [check_reg f a dst, check_const_is f a func ''function'']"
| "check_call f a (MakeAstFunction dst ast) =
     all_checks [check_reg f a dst, check_const_is f a ast ''ast-function'']"
| "check_call f a (ExpandSpread dst src) = all_checks [check_reg f a dst, check_reg f a src]"
| "check_call f a (NormalKey dst src) = all_checks [check_reg f a dst, check_reg f a src]"
| "check_call f a (BuildObject dst tmpl) =
     all_checks [check_reg f a dst, check_const_is f a tmpl ''object-template'',
       case constants f ! unat tmpl of
         CObjectTemplate entries \<Rightarrow> all_checks (map (check_prop_entry f a) entries)
       | _ \<Rightarrow> Inr ()]"
| "check_call f a (LoadGlobalSoft dst name) =
     all_checks [check_reg f a dst, check_const_is f a name ''string'']"
| "check_call f a (LoadLocalSoft dst s) = all_checks [check_reg f a dst, check_slot f a s]"
| "check_call f a (DirectEvalSpread dst callee this tmpl) =
     all_checks [check_reg f a dst, check_reg f a callee, check_opt (check_reg f a) this,
       check_spread_template f a tmpl False]"
| "check_call f a (ConstructSpread dst callee tmpl) =
     all_checks [check_reg f a dst, check_reg f a callee, check_spread_template f a tmpl False]"
| "check_call f a (CallSpread dst callee tmpl) =
     all_checks [check_reg f a dst, check_reg f a callee, check_spread_template f a tmpl False]"
| "check_call f a (MethodSpread dst callee this tmpl) =
     all_checks [check_reg f a dst, check_reg f a callee, check_reg f a this,
       check_spread_template f a tmpl False]"
| "check_call f a (BuildArray dst tmpl) =
     all_checks [check_reg f a dst, check_spread_template f a tmpl True]"
| "check_call f a (ToDestructArray dst src) = all_checks [check_reg f a dst, check_reg f a src]"
| "check_call f a (CheckDestructObject dst src) = all_checks [check_reg f a dst, check_reg f a src]"
| "check_call f a (RestArray dst src _) = all_checks [check_reg f a dst, check_reg f a src]"
| "check_call f a (RestObject dst src taken) =
     all_checks [check_reg f a dst, check_reg f a src, check_reg f a taken]"

fun check_loop :: "'ast bytecode_function \<Rightarrow> nat \<Rightarrow> loop_instr \<Rightarrow> verdict" where
  "check_loop f a (EnumKeys dst src) = all_checks [check_reg f a dst, check_reg f a src]"
| "check_loop f a (EnumNext state dst done) =
     all_checks [check_reg f a state, check_reg f a dst, check_reg f a done]"
| "check_loop f a (EnumEnd state) = check_reg f a state"
| "check_loop f a (ForOfInit iter nxt src) =
     all_checks [check_reg f a iter, check_reg f a nxt, check_reg f a src]"
| "check_loop f a (IterNext done val iter nxt) =
     all_checks [check_reg f a done, check_reg f a val, check_reg f a iter, check_reg f a nxt]"
| "check_loop f a (CloseIterator src _) = check_reg f a src"
| "check_loop f a (PushCatch t dst) = all_checks [check_target f a t, check_reg f a dst]"
| "check_loop f a (PushFinally t dst) = all_checks [check_target f a t, check_reg f a dst]"
| "check_loop f a PopHandler = Inr ()"
| "check_loop f a PopPending = Inr ()"
| "check_loop f a Rethrow = Inr ()"

fun check_class :: "'ast bytecode_function \<Rightarrow> nat \<Rightarrow> class_instr \<Rightarrow> verdict" where
  "check_class f a (SuperMember dst key) = all_checks [check_reg f a dst, check_reg f a key]"
| "check_class f a (SuperReference base receiver key src) =
     all_checks (map (check_reg f a) [base, receiver, key, src])"
| "check_class f a (GetPropertyWithReceiver dst base receiver key) =
     all_checks (map (check_reg f a) [dst, base, receiver, key])"
| "check_class f a (SetPropertyWithReceiver base receiver key val) =
     all_checks (map (check_reg f a) [base, receiver, key, val])"
| "check_class f a (NumericUpdate previous updated src _) =
     all_checks (map (check_reg f a) [previous, updated, src])"
| "check_class f a (SuperConstructor dst) = check_reg f a dst"
| "check_class f a (SuperCall dst callee args argc) =
     all_checks [check_reg f a callee, check_reg f a dst, check_range f a args argc]"
| "check_class f a (SuperCallSpread dst callee tmpl) =
     all_checks [check_reg f a callee, check_reg f a dst, check_spread_template f a tmpl False]"
| "check_class f a (Raise msg) = check_const_is f a msg ''string''"
| "check_class f a (BuildClass dst tmpl) = all_checks [check_reg f a dst, check_class_template f a tmpl]"
| "check_class f a (PropertyKey dst src) = all_checks [check_reg f a dst, check_reg f a src]"
| "check_class f a (InferName dst key) = all_checks [check_reg f a dst, check_reg f a key]"
| "check_class f a (ClassScope name) = check_opt (\<lambda>n. check_const_is f a n ''string'') name"
| "check_class f a (ClassPrivateEnvironment names) = check_const_is f a names ''string-list''"
| "check_class f a (ClassHeritage dst parent) = all_checks [check_reg f a dst, check_reg f a parent]"
| "check_class f a (PrivateIn dst obj name) =
     all_checks [check_reg f a dst, check_reg f a obj, check_const_is f a name ''string'']"
| "check_class f a (Import tmpl) = check_const_is f a tmpl ''import-template''"
| "check_class f a (ExportDefault src) = check_reg f a src"
| "check_class f a (ExportNamed tmpl) = check_const_is f a tmpl ''export-named-template''"
| "check_class f a (ExportAll tmpl) = check_const_is f a tmpl ''export-all-template''"
| "check_class f a (DynamicImport dst src) = all_checks [check_reg f a dst, check_reg f a src]"
| "check_class f a (Await dst src) = all_checks [check_reg f a dst, check_reg f a src]"
| "check_class f a (NewTarget dst) = check_reg f a dst"
| "check_class f a (ImportMeta dst) = check_reg f a dst"
| "check_class f a PushScope = Inr ()"
| "check_class f a PopScope = Inr ()"

fun check_instr :: "'ast bytecode_function \<Rightarrow> nat \<Rightarrow> instr \<Rightarrow> verdict" where
  "check_instr f a (IMove i) = check_move f a i"
| "check_instr f a (IOp i) = check_op f a i"
| "check_instr f a (IFlow i) = check_flow f a i"
| "check_instr f a (ICall i) = check_call f a i"
| "check_instr f a (ILoop i) = check_loop f a i"
| "check_instr f a (IClass i) = check_class f a i"

section \<open>Functions\<close>

fun is_cache_site :: "instr \<Rightarrow> bool" where
  "is_cache_site (ICall (GetProp _ _ _ _ _)) = True"
| "is_cache_site (ICall (SetProp _ _ _ _)) = True"
| "is_cache_site _ = False"

definition check_tables :: "'ast bytecode_function \<Rightarrow> verdict" where
  "check_tables f =
     all_checks
       [if length (filter is_cache_site (code f)) \<noteq> length (caches f) then Inl CacheTableMismatch else Inr (),
        if length (function_slots f) \<noteq> unat (local_count f)
        then Inl (SlotTableMismatch (length (function_slots f)) (local_count f)) else Inr (),
        if parameter_count f > local_count f
        then Inl (ParametersExceedLocals (parameter_count f) (local_count f)) else Inr (),
        if upvalue_count f \<noteq> 0 then Inl (UpvaluesUnsupported (upvalue_count f)) else Inr ()]"

lemma constants_size: "size_list size (constants f) < size f"
  by (cases f) simp

function verify_function :: "'ast bytecode_function \<Rightarrow> verdict"
  and verify_constants :: "nat \<Rightarrow> 'ast const_value list \<Rightarrow> verdict" where
  "verify_function f =
     bind_outcome (check_tables f) (\<lambda>_.
       bind_outcome (all_checks (map (\<lambda>(address, i). check_instr f address i) (enumerate 0 (code f)))) (\<lambda>_.
         verify_constants 0 (constants f)))"
| "verify_constants index [] = Inr ()"
| "verify_constants index (c # cs) =
     (case c of
        CFunction nested \<Rightarrow>
          (case verify_function nested of
             Inl e \<Rightarrow> Inl (NestedFunction (of_nat index) e)
           | Inr _ \<Rightarrow> verify_constants (Suc index) cs)
      | _ \<Rightarrow> verify_constants (Suc index) cs)"
  by pat_completeness auto

termination
  by (relation "measure (case_sum size (\<lambda>(_, cs). size_list size cs))") (auto simp: constants_size)

declare verify_function.simps [simp del]

definition verify_module :: "'ast bytecode_function \<Rightarrow> verdict" where
  "verify_module main = verify_function main"

section \<open>What an accepted check means\<close>

named_theorems verify_ok \<open>an accepted check as the condition it stands for\<close>

lemma check_reg_ok [verify_ok]: "check_reg f a r = Inr u \<longleftrightarrow> r < register_count f"
  by (simp add: check_reg_def)

lemma check_slot_ok [verify_ok]: "check_slot f a s = Inr u \<longleftrightarrow> s < local_count f"
  by (simp add: check_slot_def)

lemma check_const_ok [verify_ok]: "check_const f a c = Inr u \<longleftrightarrow> unat c < length (constants f)"
  by (simp add: check_const_def)

lemma check_const_is_ok [verify_ok]:
  "check_const_is f a c expected = Inr u \<longleftrightarrow>
   unat c < length (constants f) \<and> const_is (constants f ! unat c) expected"
  by (simp add: check_const_is_def bind_outcome_Inr_iff check_const_ok)

lemma check_target_ok [verify_ok]: "check_target f a t = Inr u \<longleftrightarrow> unat t \<le> length (code f)"
  by (simp add: check_target_def)

lemma check_cache_ok [verify_ok]: "check_cache f a c = Inr u \<longleftrightarrow> unat c < length (caches f)"
  by (auto simp: check_cache_def)

lemma check_opt_ok [verify_ok]: "check_opt check x = Inr () \<longleftrightarrow> (\<forall>y. x = Some y \<longrightarrow> check y = Inr ())"
  by (cases x) (auto simp: check_opt_def)

lemma check_list_ok [verify_ok]:
  "list_all (\<lambda>c. c = Inr ()) (map check xs) \<longleftrightarrow> (\<forall>x\<in>set xs. check x = Inr ())"
  by (simp add: list_all_iff)

lemma check_key_ok [verify_ok]:
  "check_key f a (KeyReg r) = Inr u \<longleftrightarrow> r < register_count f"
  by (simp add: check_key_def check_reg_ok)

lemma check_decorator_ok [verify_ok]:
  "check_decorator f a (v, receiver) = Inr () \<longleftrightarrow>
   v < register_count f \<and> (\<forall>r. receiver = Some r \<longrightarrow> r < register_count f)"
  by (auto simp: check_decorator_def verify_ok)

lemma check_computed_name_ok [verify_ok]:
  "check_computed_name f a name = Inr () \<longleftrightarrow> (\<forall>r. name = NameComputed r \<longrightarrow> r < register_count f)"
  by (cases name) (auto simp: check_computed_name_def check_reg_ok)

text \<open>The range sum is taken at 32 bits, where two 16-bit operands cannot overflow.\<close>

lemma check_range_ok [verify_ok]:
  "check_range f a start count = Inr u \<longleftrightarrow> unat start + unat count \<le> unat (register_count f)"
proof -
  have wide: "unat (ucast (x :: u16) :: u32) = unat x" for x
    by (simp add: unsigned_ucast_eq take_bit_nat_eq_self less_trans [OF unsigned_less])
  have "unat start + unat count < 2 ^ 32"
    using unsigned_less [of start, where ?'a = nat] unsigned_less [of count, where ?'a = nat] by simp
  then have "unat ((ucast start :: u32) + ucast count) = unat start + unat count"
    by (simp add: unat_word_ariths wide)
  then show ?thesis by (simp add: check_range_def Let_def word_le_nat_alt wide)
qed

lemma verify_constants_ok:
  "verify_constants i cs = Inr () \<longleftrightarrow> (\<forall>g. CFunction g \<in> set cs \<longrightarrow> verify_function g = Inr ())"
  by (induction cs arbitrary: i) (auto split: const_value.splits sum.splits)

lemma verify_function_ok:
  "verify_function f = Inr () \<longleftrightarrow> check_tables f = Inr () \<and>
   (\<forall>a < length (code f). check_instr f a (code f ! a) = Inr ()) \<and>
   (\<forall>g. CFunction g \<in> set (constants f) \<longrightarrow> verify_function g = Inr ())"
proof -
  have "list_all (\<lambda>c. c = Inr ()) (map (\<lambda>(a, i). check_instr f a i) (enumerate 0 (code f))) \<longleftrightarrow>
      (\<forall>a < length (code f). check_instr f a (code f ! a) = Inr ())"
    by (simp add: list_all_length nth_enumerate_eq)
  then show ?thesis
    by (subst verify_function.simps) (auto simp: bind_outcome_Inr_iff verify_constants_ok)
qed

end
