(* ===== verification/Vm_Machine.thy ===== *)
theory Vm_Machine
  imports Verifier Object_Cell Object_Literal
begin

text \<open>
  The register machine (\<open>bytecode/vm.rs\<close>): call frames, the dispatch over instructions, handler
  landing and the run loop. The machine owns registers, local slots, the instruction pointer and the
  handler, pending-completion, enumerator and scope stacks; everything with JavaScript semantics is a
  call into the interpreter, which is a parameter: a request names the helper and its arguments, and
  the interpreter answers it and changes its own state. Vectors grow at the end as in the source;
  indexing outside a vector is the panic it is in Rust.
\<close>

section \<open>Values, errors and frames\<close>

text \<open>Values the machine looks into; every other value is an \<open>'o\<close>.\<close>

datatype 'o val =
  Undefined | Null | VBool bool | Number u64 | VString js_string | VBigInt big_int | VObject 'o

datatype 'o vm_err =
    Ret "'o val"
  | TailCall "'o val" "'o val" "'o val list"
  | Thrown "'o val"
  | Msg rstring
  | RuntimeError rstring
  | Break "rstring option" "'o val option"
  | Continue "rstring option" "'o val option"
  | Abandon

datatype 'o fault = Raised "'o vm_err" | IndexPanic | UnreachablePanic

record 'o run_slot =
  run_value :: "'o val"
  run_initialized :: bool
  run_kind :: slot_kind

record handler_entry =
  h_target :: u32
  h_dst :: reg
  catch_returns :: bool
  scope_depth :: nat
  pending_depth :: nat
  enumerator_depth :: nat

record ('o, 's, 'e, 'ast) call_frame =
  fn :: "'ast bytecode_function"
  ip :: nat
  registers :: "'o val list"
  frame_slots :: "'o run_slot list"
  this_value :: "'o val"
  handlers :: "handler_entry list"
  pending :: "'o vm_err list"
  enumerators :: "(reg \<times> 'e) list"
  scopes :: "'s list"

definition internal :: "string \<Rightarrow> 'o vm_err" where
  "internal what = Msg (ascii (''internal error: '' @ what))"

definition limit_err :: "string \<Rightarrow> 'o vm_err" where
  "limit_err what = Msg (ascii (''RangeError: '' @ what))"

definition dead_zone :: "rstring \<Rightarrow> 'o vm_err" where
  "dead_zone name = Msg (ascii ''ReferenceError: Cannot access '' @ [39] @ name @ [39] @ ascii '' before initialization'')"

definition const_assignment :: "rstring \<Rightarrow> 'o vm_err" where
  "const_assignment name = Msg (ascii ''TypeError: Assignment to constant variable '' @ [39] @ name @ [39])"

definition not_defined :: "rstring \<Rightarrow> 'o vm_err" where
  "not_defined name = Msg (ascii ''ReferenceError: '' @ name @ ascii '' is not defined'')"

definition MAX_ARRAY_LEN :: nat where
  "MAX_ARRAY_LEN = 262144"

text \<open>The evaluated parts of a class handed to the interpreter (\<open>ClassAssembly\<close>).\<close>

record 'o method_definition =
  def_auto_field :: "nat option"
  def_kind :: class_member_kind
  def_key :: "'o val"
  def_private :: bool
  def_static :: bool
  def_value :: "'o val"
  def_decorators :: "('o val \<times> 'o val) list"

record 'o field_definition =
  fd_key :: "'o val"
  fd_private :: bool
  fd_static :: bool
  fd_index :: nat
  fd_decorators :: "('o val \<times> 'o val) list"

datatype ('o, 'ast) static_element = ElementField "'o val" bool 'ast | ElementBlock 'ast

record 'o class_members =
  private_statics :: "(u64 \<times> 'o val private_element) list"
  proto_props :: "(rstring \<times> 'o val) list"
  proto_keys :: "'o val list"
  static_keys :: "'o val list"
  statics :: "(rstring \<times> 'o val) list"
  static_attrs :: "(rstring \<times> prop_attrs) list"
  static_has_accessors :: bool
  method_definitions :: "'o method_definition list"

record ('o, 's, 'ast) class_assembly =
  asm_members :: "'o class_members"
  asm_field_definitions :: "'o field_definition list"
  asm_decorators :: "('o val \<times> 'o val) list"
  asm_name :: rstring
  asm_super_cls :: "'o val option"
  asm_super_proto :: "'o val option"
  asm_constructor :: "'o val"
  asm_constructor_length :: nat
  asm_static_elements :: "('o, 'ast) static_element list"
  asm_private_scope :: 's
  asm_instance_home :: 's
  asm_static_home :: 's
  asm_constructor_home :: 's

section \<open>The interpreter interface\<close>

datatype 'o lookup = Found "'o val" | Uninitialized | Missing

text \<open>A request is the name of the helper and its arguments in order.\<close>

datatype (plugins only: size) ('o, 's, 'ast) arg =
    AVal "'o val"
  | AVals "'o val list"
  | AProps "(rstring \<times> 'o val) list"
  | AName rstring
  | ANameOpt "rstring option"
  | ANames "rstring list"
  | AString js_string
  | AStrings "js_string list"
  | AFlag bool
  | AFlags "bool list"
  | ANat nat
  | ASite u64
  | AScope 's
  | ABinOp bin_op
  | AUnOp un_op
  | AAssignOp assign_op
  | AKind slot_kind
  | AErr "'o vm_err"
  | APrivate "'o val private_element"
  | AFunction "'ast bytecode_function"
  | AAst "'ast ast_function"
  | AImport import_template
  | AExport export_named_template
  | AExportAll export_all_template

type_synonym ('o, 's, 'ast) request = "string \<times> ('o, 's, 'ast) arg list"

text \<open>\<open>'w\<close> is the interpreter's state. A helper answers with a result of the type it has in the source
  or raises an error, and leaves the frame alone: the source passes it the interpreter only. The
  first fields are the parts of a value or of the interpreter that the machine reads itself: the
  elements of an array value, the slot key of a symbol, the two renderings of a number, strict
  equality, callability, the accessor prefix of a function's name, the identity of a private name,
  and whether proper tail calls apply.\<close>

record ('w, 'o, 's, 'e, 'ast) interp =
  global_scope :: "'w \<Rightarrow> 's"
  tail_call_context :: "'w \<Rightarrow> bool"
  array_items :: "'o val \<Rightarrow> 'w \<Rightarrow> 'o val list option"
  symbol_key :: "'o \<Rightarrow> rstring option"
  number_display :: "u64 \<Rightarrow> rstring"
  number_string :: "u64 \<Rightarrow> rstring"
  f64_step :: "bool \<Rightarrow> u64 \<Rightarrow> u64"
  strict_equals :: "'o val \<Rightarrow> 'o val \<Rightarrow> bool"
  is_callable :: "'o val \<Rightarrow> bool"
  class_accessor_kind :: "'o val \<Rightarrow> accessor_kind option"
  private_name :: "'s \<Rightarrow> rstring \<Rightarrow> 'w \<Rightarrow> u64 option"
  ask_unit :: "('o, 's, 'ast) request \<Rightarrow> 'w \<Rightarrow> ('o vm_err + unit) \<times> 'w"
  ask_bool :: "('o, 's, 'ast) request \<Rightarrow> 'w \<Rightarrow> ('o vm_err + bool) \<times> 'w"
  ask_name :: "('o, 's, 'ast) request \<Rightarrow> 'w \<Rightarrow> ('o vm_err + rstring) \<times> 'w"
  ask_val :: "('o, 's, 'ast) request \<Rightarrow> 'w \<Rightarrow> ('o vm_err + 'o val) \<times> 'w"
  ask_opt :: "('o, 's, 'ast) request \<Rightarrow> 'w \<Rightarrow> ('o vm_err + 'o val option) \<times> 'w"
  ask_pair :: "('o, 's, 'ast) request \<Rightarrow> 'w \<Rightarrow> ('o vm_err + 'o val \<times> 'o val) \<times> 'w"
  ask_triple :: "('o, 's, 'ast) request \<Rightarrow> 'w \<Rightarrow> ('o vm_err + 'o val \<times> 'o val \<times> 'o val) \<times> 'w"
  ask_vals :: "('o, 's, 'ast) request \<Rightarrow> 'w \<Rightarrow> ('o vm_err + 'o val list) \<times> 'w"
  ask_lookup :: "('o, 's, 'ast) request \<Rightarrow> 'w \<Rightarrow> ('o vm_err + 'o lookup) \<times> 'w"
  ask_scope :: "('o, 's, 'ast) request \<Rightarrow> 'w \<Rightarrow> ('o vm_err + 's) \<times> 'w"
  assemble_class :: "('o, 's, 'ast) class_assembly \<Rightarrow> 'w \<Rightarrow> ('o vm_err + 'o val) \<times> 'w"
  enum_new :: "'o val \<Rightarrow> 'w \<Rightarrow> ('o vm_err + 'e) \<times> 'w"
  enum_next :: "'e \<Rightarrow> 'w \<Rightarrow> (('o vm_err + rstring option) \<times> 'e) \<times> 'w"

section \<open>Machine operations\<close>

type_synonym ('w, 'o, 's, 'e, 'ast) machine = "'w \<times> ('o, 's, 'e, 'ast) call_frame"

type_synonym ('w, 'o, 's, 'e, 'ast, 'a) vm =
  "('w, 'o, 's, 'e, 'ast) machine \<Rightarrow> ('o fault + 'a) \<times> ('w, 'o, 's, 'e, 'ast) machine"

definition ret :: "'a \<Rightarrow> ('w, 'o, 's, 'e, 'ast, 'a) vm" where
  "ret x s = (Inr x, s)"

definition raise :: "'o vm_err \<Rightarrow> ('w, 'o, 's, 'e, 'ast, 'a) vm" where
  "raise e s = (Inl (Raised e), s)"

definition bindM ::
  "('w, 'o, 's, 'e, 'ast, 'a) vm \<Rightarrow> ('a \<Rightarrow> ('w, 'o, 's, 'e, 'ast, 'b) vm) \<Rightarrow> ('w, 'o, 's, 'e, 'ast, 'b) vm" where
  "bindM m k s = (case m s of (Inl e, s') \<Rightarrow> (Inl e, s') | (Inr x, s') \<Rightarrow> k x s')"

definition seqM ::
  "('w, 'o, 's, 'e, 'ast, 'a) vm \<Rightarrow> ('w, 'o, 's, 'e, 'ast, 'b) vm \<Rightarrow> ('w, 'o, 's, 'e, 'ast, 'b) vm" where
  "seqM m k = bindM m (\<lambda>_. k)"

fun mapM :: "('x \<Rightarrow> ('w, 'o, 's, 'e, 'ast, 'a) vm) \<Rightarrow> 'x list \<Rightarrow> ('w, 'o, 's, 'e, 'ast, 'a list) vm" where
  "mapM f [] = ret []"
| "mapM f (x # xs) = bindM (f x) (\<lambda>y. bindM (mapM f xs) (\<lambda>ys. ret (y # ys)))"

fun foldM :: "('x \<Rightarrow> 'a \<Rightarrow> ('w, 'o, 's, 'e, 'ast, 'a) vm) \<Rightarrow> 'x list \<Rightarrow> 'a \<Rightarrow> ('w, 'o, 's, 'e, 'ast, 'a) vm" where
  "foldM f [] a = ret a"
| "foldM f (x # xs) a = bindM (f x a) (foldM f xs)"

definition with_frame ::
  "(('o, 's, 'e, 'ast) call_frame \<Rightarrow> ('w, 'o, 's, 'e, 'ast, 'a) vm) \<Rightarrow> ('w, 'o, 's, 'e, 'ast, 'a) vm" where
  "with_frame k = (\<lambda>(w, fr). k fr (w, fr))"

definition modify_frame ::
  "(('o, 's, 'e, 'ast) call_frame \<Rightarrow> ('o, 's, 'e, 'ast) call_frame) \<Rightarrow> ('w, 'o, 's, 'e, 'ast, unit) vm" where
  "modify_frame f = (\<lambda>(w, fr). (Inr (), (w, f fr)))"

definition panic :: "('w, 'o, 's, 'e, 'ast, 'a) vm" where
  "panic s = (Inl IndexPanic, s)"

definition unreachable :: "('w, 'o, 's, 'e, 'ast, 'a) vm" where
  "unreachable s = (Inl UnreachablePanic, s)"

definition with_world :: "('w \<Rightarrow> ('w, 'o, 's, 'e, 'ast, 'a) vm) \<Rightarrow> ('w, 'o, 's, 'e, 'ast, 'a) vm" where
  "with_world k = (\<lambda>(w, fr). k w (w, fr))"

text \<open>The fallible helpers on plain data, with their panics and messages.\<close>

definition with_outcome ::
  "'a outcome \<Rightarrow> ('a \<Rightarrow> ('w, 'o, 's, 'e, 'ast, 'b) vm) \<Rightarrow> ('w, 'o, 's, 'e, 'ast, 'b) vm" where
  "with_outcome x k = (case x of
     Inr v \<Rightarrow> k v | Inl Panicked \<Rightarrow> panic | Inl (ErrMsg m) \<Rightarrow> raise (Msg (ascii m)))"

text \<open>A helper of the interpreter runs with the frame untouched.\<close>

definition ask :: "('q \<Rightarrow> 'w \<Rightarrow> ('o vm_err + 'a) \<times> 'w) \<Rightarrow> 'q \<Rightarrow> ('w, 'o, 's, 'e, 'ast, 'a) vm" where
  "ask h q = (\<lambda>(w, fr). case h q w of
     (Inl e, w') \<Rightarrow> (Inl (Raised e), (w', fr))
   | (Inr x, w') \<Rightarrow> (Inr x, (w', fr)))"

text \<open>\<open>frame.registers[r as usize]\<close> and the assignment to it, \<open>frame.slots[s as usize]\<close>,
  \<open>frame.function.constants[c as usize]\<close>.\<close>

definition read_reg :: "reg \<Rightarrow> ('w, 'o, 's, 'e, 'ast, 'o val) vm" where
  "read_reg r = with_frame (\<lambda>fr.
     if unat r < length (registers fr) then ret (registers fr ! unat r) else panic)"

definition set_reg :: "reg \<Rightarrow> 'o val \<Rightarrow> ('w, 'o, 's, 'e, 'ast, unit) vm" where
  "set_reg r v = with_frame (\<lambda>fr.
     if unat r < length (registers fr) then modify_frame (\<lambda>fr. fr\<lparr>registers := (registers fr)[unat r := v]\<rparr>)
     else panic)"

definition read_slot :: "slot \<Rightarrow> ('w, 'o, 's, 'e, 'ast, 'o run_slot) vm" where
  "read_slot s = with_frame (\<lambda>fr.
     if unat s < length (frame_slots fr) then ret (frame_slots fr ! unat s) else panic)"

definition set_slot :: "slot \<Rightarrow> 'o run_slot \<Rightarrow> ('w, 'o, 's, 'e, 'ast, unit) vm" where
  "set_slot s v = with_frame (\<lambda>fr.
     if unat s < length (frame_slots fr)
     then modify_frame (\<lambda>fr. fr\<lparr>frame_slots := (frame_slots fr)[unat s := v]\<rparr>) else panic)"

definition slot_name_of :: "slot \<Rightarrow> ('w, 'o, 's, 'e, 'ast, rstring) vm" where
  "slot_name_of s = with_frame (\<lambda>fr.
     if unat s < length (function_slots (fn fr)) then ret (slot_name (function_slots (fn fr) ! unat s)) else panic)"

definition with_const ::
  "u16 \<Rightarrow> ('ast const_value \<Rightarrow> ('w, 'o, 's, 'e, 'ast, 'a) vm) \<Rightarrow> ('w, 'o, 's, 'e, 'ast, 'a) vm" where
  "with_const c k = with_frame (\<lambda>fr.
     if unat c < length (constants (fn fr)) then k (constants (fn fr) ! unat c) else panic)"

definition cache_at :: "u32 \<Rightarrow> ('w, 'o, 's, 'e, 'ast, nat) vm" where
  "cache_at c = with_frame (\<lambda>fr. if unat c < length (caches (fn fr)) then ret (unat c) else panic)"

definition const_string :: "u16 \<Rightarrow> ('w, 'o, 's, 'e, 'ast, rstring) vm" where
  "const_string c = with_frame (\<lambda>fr.
     case get_at (constants (fn fr)) (unat c) of
       Some (CName name) \<Rightarrow> ret name
     | _ \<Rightarrow> raise (internal ''bad string constant''))"

definition current_scope :: "('w, 'o, 's, 'e, 'ast) interp \<Rightarrow> ('w, 'o, 's, 'e, 'ast, 's) vm" where
  "current_scope io = (\<lambda>(w, fr).
     (Inr (if scopes fr = [] then global_scope io w else last (scopes fr)), (w, fr)))"

definition set_ip :: "target \<Rightarrow> ('w, 'o, 's, 'e, 'ast, unit) vm" where
  "set_ip t = modify_frame (\<lambda>fr. fr\<lparr>ip := unat t\<rparr>)"

text \<open>\<open>registers.get(start..end)\<close>\<close>

definition take_range :: "string \<Rightarrow> reg \<Rightarrow> u16 \<Rightarrow> ('w, 'o, 's, 'e, 'ast, 'o val list) vm" where
  "take_range what start count = with_frame (\<lambda>fr.
     if unat start + unat count \<le> length (registers fr)
     then ret (take (unat count) (drop (unat start) (registers fr)))
     else raise (internal what))"

definition check_slot_writable :: "slot \<Rightarrow> ('w, 'o, 's, 'e, 'ast, unit) vm" where
  "check_slot_writable s = bindM (read_slot s) (\<lambda>info. bindM (slot_name_of s) (\<lambda>name.
     if run_kind info = KindConst \<and> run_initialized info then raise (const_assignment name)
     else if \<not> run_initialized info then raise (dead_zone name)
     else ret ()))"

definition read_live_slot :: "slot \<Rightarrow> ('w, 'o, 's, 'e, 'ast, 'o val) vm" where
  "read_live_slot s = bindM (read_slot s) (\<lambda>v.
     if \<not> run_initialized v then bindM (slot_name_of s) (\<lambda>name. raise (dead_zone name))
     else ret (run_value v))"

definition init_slot :: "slot \<Rightarrow> 'o val \<Rightarrow> ('w, 'o, 's, 'e, 'ast, unit) vm" where
  "init_slot s v = bindM (read_slot s) (\<lambda>old. set_slot s (old\<lparr>run_value := v, run_initialized := True\<rparr>))"

section \<open>A logic of safe operations\<close>

text \<open>The frame invariant of a function: registers and slots as many as it declares, handlers that
  land inside it, and an instruction pointer inside or just past its code. \<open>safe f m Q\<close>: from such a
  frame, \<open>m\<close> ends in such a frame, never by an index panic, and a result satisfies \<open>Q\<close>.\<close>

definition handler_ok :: "'ast bytecode_function \<Rightarrow> handler_entry \<Rightarrow> bool" where
  "handler_ok f h \<longleftrightarrow> unat (h_target h) \<le> length (code f) \<and> h_dst h < register_count f"

definition frame_ok :: "'ast bytecode_function \<Rightarrow> ('o, 's, 'e, 'ast) call_frame \<Rightarrow> bool" where
  "frame_ok f fr \<longleftrightarrow> fn fr = f \<and> length (registers fr) = unat (register_count f) \<and>
     length (frame_slots fr) = unat (local_count f) \<and> ip fr \<le> length (code f) \<and>
     list_all (handler_ok f) (handlers fr)"

definition safe :: "'ast bytecode_function \<Rightarrow> ('w, 'o, 's, 'e, 'ast, 'a) vm \<Rightarrow> ('a \<Rightarrow> bool) \<Rightarrow> bool" where
  "safe f m Q \<longleftrightarrow> (\<forall>w fr. frame_ok f fr \<longrightarrow>
     (case m (w, fr) of (r, (w', fr')) \<Rightarrow>
        frame_ok f fr' \<and> (case r of Inl e \<Rightarrow> e \<noteq> IndexPanic | Inr x \<Rightarrow> Q x)))"

definition slots_named :: "'ast bytecode_function \<Rightarrow> bool" where
  "slots_named f \<longleftrightarrow> length (function_slots f) = unat (local_count f)"

named_theorems vm_safe \<open>introduction rules for safety, one per operation and construct\<close>

lemma safeI:
  assumes "\<And>w fr r w' fr'. frame_ok f fr \<Longrightarrow> m (w, fr) = (r, (w', fr')) \<Longrightarrow>
    frame_ok f fr' \<and> (case r of Inl e \<Rightarrow> e \<noteq> IndexPanic | Inr x \<Rightarrow> Q x)"
  shows "safe f m Q"
  unfolding safe_def using assms by (auto split: prod.split)

lemma safeD:
  assumes "safe f m Q" "frame_ok f fr" "m (w, fr) = (r, (w', fr'))"
  shows "frame_ok f fr'" and "r \<noteq> Inl IndexPanic" and "r = Inr x \<Longrightarrow> Q x"
  using assms unfolding safe_def by (auto split: sum.splits dest!: spec [of _ w] spec [of _ fr])

lemma safe_ret [vm_safe]: "Q x \<Longrightarrow> safe f (ret x) Q"
  by (rule safeI) (auto simp: ret_def)

lemma safe_raise [vm_safe]: "safe f (raise e) Q"
  by (rule safeI) (auto simp: raise_def)

lemma safe_unreachable [vm_safe]: "safe f unreachable Q"
  by (rule safeI) (auto simp: unreachable_def)

lemma safe_bind:
  assumes "safe f m Q" "\<And>x. Q x \<Longrightarrow> safe f (k x) R"
  shows "safe f (bindM m k) R"
proof (rule safeI)
  fix w fr r w' fr'
  assume ok: "frame_ok f fr" and run: "bindM m k (w, fr) = (r, w', fr')"
  obtain r1 w1 fr1 where m: "m (w, fr) = (r1, w1, fr1)" by (metis prod_cases3)
  show "frame_ok f fr' \<and> (case r of Inl e \<Rightarrow> e \<noteq> IndexPanic | Inr x \<Rightarrow> R x)"
  proof (cases r1)
    case (Inl e)
    then show ?thesis using safeD [OF assms(1) ok m] run m by (auto simp: bindM_def)
  next
    case (Inr x)
    have k: "k x (w1, fr1) = (r, w', fr')" using run m Inr by (simp add: bindM_def)
    have "Q x" "frame_ok f fr1" using safeD [OF assms(1) ok m] Inr by auto
    then show ?thesis using safeD [OF assms(2) _ k] by (cases r) auto
  qed
qed

lemmas safe_bind_True [vm_safe] = safe_bind [where Q = "\<lambda>_. True"]

lemma safe_seq [vm_safe]: "safe f m (\<lambda>_. True) \<Longrightarrow> safe f k Q \<Longrightarrow> safe f (seqM m k) Q"
  unfolding seqM_def by (rule safe_bind)

lemma safe_weaken: "safe f m Q \<Longrightarrow> (\<And>x. Q x \<Longrightarrow> R x) \<Longrightarrow> safe f m R"
proof (rule safeI)
  fix w fr r w' fr'
  assume "safe f m Q" and post: "\<And>x. Q x \<Longrightarrow> R x" and "frame_ok f fr" "m (w, fr) = (r, w', fr')"
  note safeD [OF this(1,3,4)]
  then show "frame_ok f fr' \<and> (case r of Inl e \<Rightarrow> e \<noteq> IndexPanic | Inr x \<Rightarrow> R x)"
    using post by (cases r) auto
qed

lemma safe_with_frame [vm_safe]:
  "(\<And>fr. frame_ok f fr \<Longrightarrow> safe f (k fr) Q) \<Longrightarrow> safe f (with_frame k) Q"
  unfolding safe_def with_frame_def by auto

lemma safe_with_world [vm_safe]: "(\<And>w. safe f (k w) Q) \<Longrightarrow> safe f (with_world k) Q"
  unfolding safe_def with_world_def by auto

lemma safe_with_outcome [vm_safe]:
  "x \<noteq> Inl Panicked \<Longrightarrow> (\<And>v. x = Inr v \<Longrightarrow> safe f (k v) Q) \<Longrightarrow> safe f (with_outcome x k) Q"
  by (auto simp: with_outcome_def intro!: safe_raise split: sum.split rust_err.split)

lemma safe_ask [vm_safe]: "safe f (ask h q) (\<lambda>_. True)"
  by (rule safeI) (auto simp: ask_def split: sum.splits prod.splits)

lemma safe_modify_frame [vm_safe]:
  "(\<And>fr. frame_ok f fr \<Longrightarrow> frame_ok f (g fr)) \<Longrightarrow> safe f (modify_frame g) (\<lambda>_. True)"
  by (rule safeI) (auto simp: modify_frame_def)

lemma safe_if [vm_safe]:
  "(c \<Longrightarrow> safe f a Q) \<Longrightarrow> (\<not> c \<Longrightarrow> safe f b Q) \<Longrightarrow> safe f (if c then a else b) Q"
  by simp

lemma safe_Let [vm_safe]: "(\<And>y. y = x \<Longrightarrow> safe f (g y) Q) \<Longrightarrow> safe f (let y = x in g y) Q"
  by simp

lemma safe_case_prod [vm_safe]:
  "(\<And>a b. p = (a, b) \<Longrightarrow> safe f (g a b) Q) \<Longrightarrow> safe f (case p of (a, b) \<Rightarrow> g a b) Q"
  by (cases p) simp

lemma safe_case_option [vm_safe]:
  "(x = None \<Longrightarrow> safe f a Q) \<Longrightarrow> (\<And>y. x = Some y \<Longrightarrow> safe f (g y) Q) \<Longrightarrow>
   safe f (case x of None \<Rightarrow> a | Some y \<Rightarrow> g y) Q"
  by (cases x) auto

lemma safe_case_lookup [vm_safe]:
  "(\<And>v. x = Found v \<Longrightarrow> safe f (g v) Q) \<Longrightarrow> safe f a Q \<Longrightarrow> safe f b Q \<Longrightarrow>
   safe f (case x of Found v \<Rightarrow> g v | Uninitialized \<Rightarrow> a | Missing \<Rightarrow> b) Q"
  by (cases x) auto

lemma safe_case_val [vm_safe]:
  "safe f u Q \<Longrightarrow> safe f n Q \<Longrightarrow> (\<And>b. x = VBool b \<Longrightarrow> safe f (vb b) Q) \<Longrightarrow>
   (\<And>d. x = Number d \<Longrightarrow> safe f (vn d) Q) \<Longrightarrow> (\<And>t. x = VString t \<Longrightarrow> safe f (vs t) Q) \<Longrightarrow>
   (\<And>i. x = VBigInt i \<Longrightarrow> safe f (vi i) Q) \<Longrightarrow> (\<And>j. x = VObject j \<Longrightarrow> safe f (vo j) Q) \<Longrightarrow>
   safe f (case x of Undefined \<Rightarrow> u | Null \<Rightarrow> n | VBool b \<Rightarrow> vb b | Number d \<Rightarrow> vn d
     | VString t \<Rightarrow> vs t | VBigInt i \<Rightarrow> vi i | VObject j \<Rightarrow> vo j) Q"
  by (cases x) auto

lemma safe_mapM [vm_safe]:
  "(\<And>x. x \<in> set xs \<Longrightarrow> safe f (g x) (\<lambda>_. True)) \<Longrightarrow> safe f (mapM g xs) (\<lambda>_. True)"
proof (induction xs)
  case Nil
  then show ?case by (simp add: safe_ret)
next
  case (Cons x xs)
  have "safe f (g x) (\<lambda>_. True)" "safe f (mapM g xs) (\<lambda>_. True)" using Cons by auto
  then show ?case by (auto intro!: safe_bind safe_ret)
qed

lemma safe_foldM:
  "P a \<Longrightarrow> (\<And>x a. x \<in> set xs \<Longrightarrow> P a \<Longrightarrow> safe f (g x a) P) \<Longrightarrow> safe f (foldM g xs a) P"
proof (induction xs arbitrary: a)
  case Nil
  then show ?case by (simp add: safe_ret)
next
  case (Cons x xs)
  have "safe f (g x a) P" using Cons.prems by simp
  then show ?case using Cons.IH Cons.prems(2) by (auto intro!: safe_bind)
qed

lemmas safe_foldM_True [vm_safe] = safe_foldM [where P = "\<lambda>_. True", OF TrueI]

section \<open>Safety of the machine operations\<close>

lemma frame_okD:
  assumes "frame_ok f fr"
  shows "fn fr = f" and "length (registers fr) = unat (register_count f)"
    and "length (frame_slots fr) = unat (local_count f)" and "ip fr \<le> length (code f)"
  using assms by (simp_all add: frame_ok_def)

lemma frame_ok_updates [simp]:
  "frame_ok f fr \<Longrightarrow> frame_ok f (fr\<lparr>registers := (registers fr)[i := v]\<rparr>)"
  "frame_ok f fr \<Longrightarrow> frame_ok f (fr\<lparr>frame_slots := (frame_slots fr)[i := v']\<rparr>)"
  "frame_ok f fr \<Longrightarrow> frame_ok f (fr\<lparr>pending := ps\<rparr>)"
  "frame_ok f fr \<Longrightarrow> frame_ok f (fr\<lparr>enumerators := es\<rparr>)"
  "frame_ok f fr \<Longrightarrow> frame_ok f (fr\<lparr>scopes := ss\<rparr>)"
  by (simp_all add: frame_ok_def)

lemma safe_read_reg [vm_safe]: "r < register_count f \<Longrightarrow> safe f (read_reg r) (\<lambda>_. True)"
  unfolding read_reg_def by (intro vm_safe) (auto simp: frame_okD word_less_nat_alt)

lemma safe_set_reg [vm_safe]: "r < register_count f \<Longrightarrow> safe f (set_reg r v) (\<lambda>_. True)"
  unfolding set_reg_def by (intro vm_safe) (auto simp: frame_okD word_less_nat_alt)

lemma safe_read_slot [vm_safe]: "s < local_count f \<Longrightarrow> safe f (read_slot s) (\<lambda>_. True)"
  unfolding read_slot_def by (intro vm_safe) (auto simp: frame_okD word_less_nat_alt)

lemma safe_set_slot [vm_safe]: "s < local_count f \<Longrightarrow> safe f (set_slot s v) (\<lambda>_. True)"
  unfolding set_slot_def by (intro vm_safe) (auto simp: frame_okD word_less_nat_alt)

lemma safe_slot_name_of [vm_safe]:
  "s < local_count f \<Longrightarrow> slots_named f \<Longrightarrow> safe f (slot_name_of s) (\<lambda>_. True)"
  unfolding slot_name_of_def by (intro vm_safe) (auto simp: frame_okD word_less_nat_alt slots_named_def)

lemma safe_with_const [vm_safe]:
  "unat c < length (constants f) \<Longrightarrow> safe f (k (constants f ! unat c)) Q \<Longrightarrow> safe f (with_const c k) Q"
  unfolding with_const_def by (intro vm_safe) (auto simp: frame_okD)

lemma safe_cache_at [vm_safe]: "unat c < length (caches f) \<Longrightarrow> safe f (cache_at c) (\<lambda>_. True)"
  unfolding cache_at_def by (intro vm_safe) (auto simp: frame_okD)

lemma safe_const_string [vm_safe]: "safe f (const_string c) (\<lambda>_. True)"
  unfolding const_string_def
  by (rule safe_with_frame) (auto intro!: safe_raise safe_ret split: option.split const_value.split)

lemma safe_current_scope [vm_safe]: "safe f (current_scope io) (\<lambda>_. True)"
  by (rule safeI) (auto simp: current_scope_def)

lemma safe_set_ip [vm_safe]: "unat t \<le> length (code f) \<Longrightarrow> safe f (set_ip t) (\<lambda>_. True)"
  unfolding set_ip_def by (intro vm_safe) (simp add: frame_ok_def)

lemma safe_take_range [vm_safe]: "safe f (take_range what start count) (\<lambda>_. True)"
  unfolding take_range_def by (intro vm_safe) auto

lemma safe_check_slot_writable [vm_safe]:
  "s < local_count f \<Longrightarrow> slots_named f \<Longrightarrow> safe f (check_slot_writable s) (\<lambda>_. True)"
  unfolding check_slot_writable_def by (intro vm_safe) auto

lemma safe_read_live_slot [vm_safe]:
  "s < local_count f \<Longrightarrow> slots_named f \<Longrightarrow> safe f (read_live_slot s) (\<lambda>_. True)"
  unfolding read_live_slot_def by (intro vm_safe) auto

lemma safe_init_slot [vm_safe]: "s < local_count f \<Longrightarrow> safe f (init_slot s v) (\<lambda>_. True)"
  unfolding init_slot_def by (intro vm_safe) auto

end
