(* ===== verification/Vm_Moves.thy ===== *)
theory Vm_Moves
  imports Vm_Machine
begin

text \<open>
  The instructions that move data, apply operators and transfer control (\<open>bytecode/vm.rs\<close>,
  \<open>execute_instruction\<close>), each followed by the proof that an instruction the verifier accepts is safe.
\<close>

section \<open>Data movement\<close>

fun load_const :: "('w, 'o, 's, 'e, 'ast) interp \<Rightarrow> 'ast const_value \<Rightarrow> ('w, 'o, 's, 'e, 'ast, 'o val) vm" where
  "load_const io (CNumber n) = ret (Number n)"
| "load_const io (CString t) = ret (VString t)"
| "load_const io (CName k) = ret (VString (from_key k))"
| "load_const io (CBool b) = ret (VBool b)"
| "load_const io CNull = ret Null"
| "load_const io CUndefined = ret Undefined"
| "load_const io (CBigInt n) = ret (VBigInt n)"
| "load_const io (CRegex pattern flags) = ask (ask_val io) (''compile_regex'', [AString pattern, AName flags])"
| "load_const io _ = raise (internal ''invalid load_const'')"

text \<open>A named binding looked up in the current scope; the flag says whether the function has a slot
  hint for the name's constant.\<close>

definition lookup_global ::
  "('w, 'o, 's, 'e, 'ast) interp \<Rightarrow> u16 \<Rightarrow> rstring \<Rightarrow> ('w, 'o, 's, 'e, 'ast, 'o lookup) vm" where
  "lookup_global io index name = bindM (current_scope io) (\<lambda>sc. with_frame (\<lambda>fr.
     if unat index < length (global_read_slots (fn fr))
     then ask (ask_lookup io) (''lookup_binding_cached'', [AScope sc, AName name, ANat (unat index)])
     else ask (ask_lookup io) (''lookup_binding_in'', [AScope sc, AName name])))"

definition exec_load_global ::
  "('w, 'o, 's, 'e, 'ast) interp \<Rightarrow> reg \<Rightarrow> u16 \<Rightarrow> ('w, 'o, 's, 'e, 'ast, unit) vm" where
  "exec_load_global io dst index = bindM (const_string index) (\<lambda>name.
     bindM (lookup_global io index name) (\<lambda>found.
       case found of
         Found v \<Rightarrow> set_reg dst v
       | Uninitialized \<Rightarrow> raise (dead_zone name)
       | Missing \<Rightarrow> if name = ascii ''undefined'' then set_reg dst Undefined else raise (not_defined name)))"

definition exec_store_global ::
  "('w, 'o, 's, 'e, 'ast) interp \<Rightarrow> u16 \<Rightarrow> reg \<Rightarrow> ('w, 'o, 's, 'e, 'ast, unit) vm" where
  "exec_store_global io index src = bindM (const_string index) (\<lambda>name. bindM (read_reg src) (\<lambda>v.
     bindM (current_scope io) (\<lambda>sc. with_frame (\<lambda>fr.
       if unat index < length (global_read_slots (fn fr))
       then ask (ask_unit io) (''assign_or_set_binding_cached'', [AScope sc, AName name, AVal v, ANat (unat index)])
       else ask (ask_unit io) (''assign_or_set_binding_in'', [AScope sc, AName name, AVal v])))))"

definition exec_annex_update ::
  "('w, 'o, 's, 'e, 'ast) interp \<Rightarrow> u16 \<Rightarrow> reg \<Rightarrow> slot option \<Rightarrow> ('w, 'o, 's, 'e, 'ast, unit) vm" where
  "exec_annex_update io index src s = bindM (const_string index) (\<lambda>name.
     bindM (current_scope io) (\<lambda>sc. bindM (read_reg src) (\<lambda>v.
       bindM (ask (ask_bool io) (''update_compiled_annex'', [AScope sc, AName name, AVal v])) (\<lambda>updated.
         case s of Some s \<Rightarrow> if updated then init_slot s v else ret () | None \<Rightarrow> ret ()))))"

definition exec_typeof_global ::
  "('w, 'o, 's, 'e, 'ast) interp \<Rightarrow> reg \<Rightarrow> u16 \<Rightarrow> ('w, 'o, 's, 'e, 'ast, unit) vm" where
  "exec_typeof_global io dst index = bindM (const_string index) (\<lambda>name. bindM (current_scope io) (\<lambda>sc.
     bindM (ask (ask_lookup io) (''lookup_binding_in'', [AScope sc, AName name])) (\<lambda>found.
       case found of
         Uninitialized \<Rightarrow> raise (dead_zone name)
       | _ \<Rightarrow>
           let v = (case found of Found v \<Rightarrow> v | _ \<Rightarrow> Undefined)
           in bindM (ask (ask_val io) (''un_op'', [AUnOp UnTypeof, AVal v])) (set_reg dst))))"

definition exec_write_property ::
  "('w, 'o, 's, 'e, 'ast) interp \<Rightarrow> reg \<Rightarrow> reg \<Rightarrow> reg \<Rightarrow> bool \<Rightarrow> ('w, 'o, 's, 'e, 'ast, unit) vm" where
  "exec_write_property io obj key src is_private =
     (if is_private then
        bindM (read_reg key) (\<lambda>k. bindM (ask (ask_name io) (''property_key'', [AVal k])) (\<lambda>name.
          bindM (current_scope io) (\<lambda>sc. bindM (read_reg obj) (\<lambda>o'. bindM (read_reg src) (\<lambda>v.
            ask (ask_unit io) (''set_private_member_in'', [AScope sc, AVal o', AName name, AVal v]))))))
      else
        bindM (current_scope io) (\<lambda>sc. bindM (ask (ask_bool io) (''strict'', [AScope sc])) (\<lambda>strict.
          bindM (read_reg obj) (\<lambda>o'. bindM (read_reg key) (\<lambda>k. bindM (read_reg src) (\<lambda>v.
            ask (ask_unit io) (''assign_property_with_receiver'', [AVal o', AVal k, AVal v, AVal o', AFlag strict])))))))"

fun exec_move :: "('w, 'o, 's, 'e, 'ast) interp \<Rightarrow> move_instr \<Rightarrow> ('w, 'o, 's, 'e, 'ast, unit) vm" where
  "exec_move io (LoadConst dst cst) = with_const cst (\<lambda>c. bindM (load_const io c) (set_reg dst))"
| "exec_move io (Mov dst src) = bindM (read_reg src) (set_reg dst)"
| "exec_move io (LoadLocal dst s) = bindM (read_live_slot s) (set_reg dst)"
| "exec_move io (StoreLocal s src) =
     seqM (check_slot_writable s) (bindM (read_reg src) (init_slot s))"
| "exec_move io (DeclareLocal s kind initialized) =
     set_slot s \<lparr>run_value = Undefined, run_initialized = initialized, run_kind = kind\<rparr>"
| "exec_move io (InitLocal s src) = bindM (read_reg src) (init_slot s)"
| "exec_move io (CheckClassStaticKey key) =
     bindM (read_reg key) (\<lambda>k. ask (ask_unit io) (''check_static_method_key'', [AVal k]))"
| "exec_move io (LoadCallBinding dst receiver name) = bindM (const_string name) (\<lambda>n. bindM (current_scope io) (\<lambda>sc.
     bindM (ask (ask_pair io) (''read_call_binding'', [AScope sc, AName n])) (\<lambda>(v, this).
       seqM (set_reg dst v) (set_reg receiver this))))"
| "exec_move io (ResolveAssignmentBinding base property name) = bindM (const_string name) (\<lambda>n. bindM (current_scope io) (\<lambda>sc.
     bindM (ask (ask_pair io) (''resolve_assignment_binding'', [AScope sc, AName n])) (\<lambda>(t, is_property).
       seqM (set_reg base t) (set_reg property is_property))))"
| "exec_move io (ReadAssignmentBinding dst base property name) = bindM (const_string name) (\<lambda>n. bindM (current_scope io) (\<lambda>sc.
     bindM (ask (ask_triple io) (''read_assignment_binding'', [AScope sc, AName n])) (\<lambda>(t, is_property, v).
       seqM (set_reg base t) (seqM (set_reg property is_property) (set_reg dst v)))))"
| "exec_move io (WriteAssignmentBinding base property name src) =
     bindM (read_reg base) (\<lambda>b. bindM (read_reg property) (\<lambda>p. bindM (const_string name) (\<lambda>n.
       bindM (read_reg src) (\<lambda>v.
         ask (ask_unit io) (''write_assignment_binding'', [AVal b, AVal p, AName n, AVal v])))))"
| "exec_move io (WriteAssignmentProperty obj key src is_private) = exec_write_property io obj key src is_private"
| "exec_move io (LoadGlobal dst name) = exec_load_global io dst name"
| "exec_move io (StoreGlobal name src) = exec_store_global io name src"
| "exec_move io (DefineGlobal name src kind initialized) =
     bindM (const_string name) (\<lambda>n. bindM (read_reg src) (\<lambda>v. bindM (current_scope io) (\<lambda>sc.
       ask (ask_unit io) (''declare_binding_in'', [AScope sc, AName n, AVal v, AKind kind, AFlag initialized]))))"
| "exec_move io (InitGlobal name src is_function) =
     bindM (const_string name) (\<lambda>n. bindM (read_reg src) (\<lambda>v. bindM (current_scope io) (\<lambda>sc.
       if is_function then ask (ask_unit io) (''declare_function_binding_in'', [AScope sc, AName n, AVal v])
       else ask (ask_unit io) (''set_binding_in'', [AScope sc, AName n, AVal v]))))"
| "exec_move io (AnnexBInit name) = bindM (const_string name) (\<lambda>n. bindM (current_scope io) (\<lambda>sc.
     ask (ask_unit io) (''init_compiled_annex'', [AScope sc, AName n])))"
| "exec_move io (AnnexBUpdate name src s) = exec_annex_update io name src s"
| "exec_move io (HoistVarGlobal name) = bindM (const_string name) (\<lambda>n. bindM (current_scope io) (\<lambda>sc.
     ask (ask_unit io) (''hoist_var_binding_in'', [AScope sc, AName n])))"
| "exec_move io (BareVarLocal s) = seqM (read_live_slot s) (ret ())"
| "exec_move io (BareVarGlobal name) = bindM (const_string name) (\<lambda>n.
     bindM (ask (ask_bool io) (''global_get_is_none'', [AName n])) (\<lambda>missing.
       if missing then ask (ask_unit io) (''assign_or_set_binding'', [AName n, AVal Undefined]) else ret ()))"
| "exec_move io (LoadThis dst) = with_frame (\<lambda>fr. set_reg dst (this_value fr))"
| "exec_move io (LoadGlobalThis dst) = bindM (current_scope io) (\<lambda>sc.
     bindM (ask (ask_val io) (''resolve_this'', [AScope sc])) (set_reg dst))"
| "exec_move io (TypeofGlobal dst name) = exec_typeof_global io dst name"
| "exec_move io (TypeofLocal dst s) = bindM (read_live_slot s) (\<lambda>v.
     bindM (ask (ask_val io) (''un_op'', [AUnOp UnTypeof, AVal v])) (set_reg dst))"

section \<open>Operators and control flow\<close>

text \<open>Two strings concatenate and two numbers use the fast path when it has an answer.\<close>

definition exec_binary ::
  "('w, 'o, 's, 'e, 'ast) interp \<Rightarrow> reg \<Rightarrow> bin_op \<Rightarrow> reg \<Rightarrow> reg \<Rightarrow> ('w, 'o, 's, 'e, 'ast, unit) vm" where
  "exec_binary io dst op lhs rhs = bindM (read_reg lhs) (\<lambda>l. bindM (read_reg rhs) (\<lambda>r.
     let general = bindM (ask (ask_val io) (''apply_binary'', [ABinOp op, AVal l, AVal r])) (set_reg dst)
     in case (l, r) of
          (VString a, VString b) \<Rightarrow>
            if op = BinAdd then bindM (ask (ask_val io) (''concat_strings'', [AStrings [a, b]])) (set_reg dst)
            else general
        | (Number a, Number b) \<Rightarrow>
            bindM (ask (ask_opt io) (''number_binary'', [ABinOp op, AVal l, AVal r])) (\<lambda>fast.
              case fast of Some v \<Rightarrow> set_reg dst v | None \<Rightarrow> general)
        | _ \<Rightarrow> general))"

definition compound_slot ::
  "('w, 'o, 's, 'e, 'ast) interp \<Rightarrow> slot \<Rightarrow> assign_op \<Rightarrow> reg \<Rightarrow> ('w, 'o, 's, 'e, 'ast, 'o val) vm" where
  "compound_slot io s op rhs =
     (case assign_bin_op op of
        None \<Rightarrow> raise (internal ''plain `=` in compound slot'')
      | Some bin \<Rightarrow>
          bindM (read_slot s) (\<lambda>sl. seqM (if \<not> run_initialized sl then check_slot_writable s else ret ())
            (bindM (read_slot s) (\<lambda>sl. bindM (read_reg rhs) (\<lambda>r.
              bindM (ask (ask_val io) (''apply_binary'', [ABinOp bin, AVal (run_value sl), AVal r])) (\<lambda>combined.
                seqM (check_slot_writable s) (seqM (init_slot s combined) (ret combined))))))))"

definition exec_inc_local ::
  "('w, 'o, 's, 'e, 'ast) interp \<Rightarrow> reg \<Rightarrow> slot \<Rightarrow> u8 \<Rightarrow> bool \<Rightarrow> ('w, 'o, 's, 'e, 'ast, unit) vm" where
  "exec_inc_local io dst s delta prefix = seqM (check_slot_writable s) (bindM (read_slot s) (\<lambda>sl.
     bindM (case run_value sl of
              Number n \<Rightarrow> ret (Number n, Number (f64_step io (sint delta > 0) n))
            | v \<Rightarrow> ask (ask_pair io) (''numeric_update'', [AVal v, AFlag (sint delta > 0)])) (\<lambda>(current, updated).
       seqM (init_slot s updated) (set_reg dst (if prefix then updated else current)))))"

definition exec_inc_prop ::
  "('w, 'o, 's, 'e, 'ast) interp \<Rightarrow> reg \<Rightarrow> reg \<Rightarrow> reg \<Rightarrow> u8 \<Rightarrow> bool \<Rightarrow> ('w, 'o, 's, 'e, 'ast, unit) vm" where
  "exec_inc_prop io dst obj key delta prefix =
     bindM (current_scope io) (\<lambda>sc. bindM (ask (ask_bool io) (''strict'', [AScope sc])) (\<lambda>strict.
       bindM (read_reg obj) (\<lambda>o'. bindM (read_reg key) (\<lambda>k.
         bindM (ask (ask_val io)
             (''inc_prop_value'', [AVal o', AVal k, AFlag (sint delta > 0), AFlag prefix, AFlag strict]))
           (set_reg dst)))))"

fun exec_op :: "('w, 'o, 's, 'e, 'ast) interp \<Rightarrow> op_instr \<Rightarrow> ('w, 'o, 's, 'e, 'ast, unit) vm" where
  "exec_op io (Binary dst op lhs rhs) = exec_binary io dst op lhs rhs"
| "exec_op io (Unary dst op src) = bindM (read_reg src) (\<lambda>v.
     bindM (ask (ask_val io) (''un_op'', [AUnOp op, AVal v])) (set_reg dst))"
| "exec_op io (CompoundLocal dst s op rhs) = bindM (compound_slot io s op rhs) (set_reg dst)"
| "exec_op io (CompoundGlobal dst name op rhs) = bindM (const_string name) (\<lambda>n. bindM (read_reg rhs) (\<lambda>r.
     bindM (current_scope io) (\<lambda>sc.
       bindM (ask (ask_val io) (''compound_assign_global_in'', [AScope sc, AName n, AAssignOp op, AVal r])) (set_reg dst))))"
| "exec_op io (CompoundProp dst obj key op rhs) =
     (case assign_bin_op op of
        None \<Rightarrow> raise (internal ''plain `=` in compound prop'')
      | Some bin \<Rightarrow> bindM (read_reg obj) (\<lambda>o'. bindM (read_reg key) (\<lambda>k. bindM (read_reg rhs) (\<lambda>r.
          bindM (ask (ask_val io) (''compound_assign_prop'', [AVal o', AVal k, ABinOp bin, AVal r])) (set_reg dst)))))"
| "exec_op io (IncLocal dst s delta prefix) = exec_inc_local io dst s delta prefix"
| "exec_op io (IncGlobal dst name delta prefix) = bindM (const_string name) (\<lambda>n. bindM (current_scope io) (\<lambda>sc.
     bindM (ask (ask_val io) (''inc_global_binding_in'', [AScope sc, AName n, AFlag (sint delta > 0), AFlag prefix]))
       (set_reg dst)))"
| "exec_op io (IncProp dst obj key delta prefix) = exec_inc_prop io dst obj key delta prefix"
| "exec_op io (DelProp dst obj key) = bindM (read_reg obj) (\<lambda>o'. bindM (read_reg key) (\<lambda>k.
     bindM (current_scope io) (\<lambda>sc. bindM (ask (ask_bool io) (''strict'', [AScope sc])) (\<lambda>strict.
       bindM (ask (ask_val io) (''delete_member_or_throw'', [AVal o', AVal k, AFlag strict])) (set_reg dst)))))"
| "exec_op io (DelGlobal dst name) = bindM (const_string name) (\<lambda>n. bindM (current_scope io) (\<lambda>sc.
     bindM (ask (ask_val io) (''delete_binding_in'', [AScope sc, AName n])) (set_reg dst)))"

definition is_nullish :: "'o val \<Rightarrow> bool" where
  "is_nullish v = (case v of Null \<Rightarrow> True | Undefined \<Rightarrow> True | _ \<Rightarrow> False)"

definition exec_branch ::
  "('w, 'o, 's, 'e, 'ast) interp \<Rightarrow> bool \<Rightarrow> reg \<Rightarrow> target \<Rightarrow> ('w, 'o, 's, 'e, 'ast, unit) vm" where
  "exec_branch io expected src t = bindM (read_reg src) (\<lambda>v.
     bindM (ask (ask_bool io) (''truthy'', [AVal v])) (\<lambda>b. if b = expected then set_ip t else ret ()))"

fun exec_flow :: "('w, 'o, 's, 'e, 'ast) interp \<Rightarrow> flow_instr \<Rightarrow> ('w, 'o, 's, 'e, 'ast, unit) vm" where
  "exec_flow io (Jump t) = set_ip t"
| "exec_flow io (JumpIfTrue src t) = exec_branch io True src t"
| "exec_flow io (JumpIfFalse src t) = exec_branch io False src t"
| "exec_flow io (JumpIfNullish src t) = bindM (read_reg src) (\<lambda>v. if is_nullish v then set_ip t else ret ())"
| "exec_flow io (JumpIfNotNullish src t) = bindM (read_reg src) (\<lambda>v. if \<not> is_nullish v then set_ip t else ret ())"
| "exec_flow io LoopHead = seqM (ask (ask_unit io) (''consume_loop'', [])) (ask (ask_unit io) (''note_loop_iter'', []))"
| "exec_flow io (Return src) = bindM (read_reg src) (\<lambda>v.
     bindM (ask (ask_val io) (''prepare_return_value'', [AVal v])) (\<lambda>v. raise (Ret v)))"
| "exec_flow io ReturnUndefined = raise (Ret Undefined)"
| "exec_flow io (Throw src) = bindM (read_reg src) (\<lambda>v. raise (Thrown v))"

section \<open>Safety\<close>

lemma safe_load_const [vm_safe]: "safe f (load_const io c) (\<lambda>_. True)"
  by (cases c) (simp_all add: vm_safe)

lemma safe_lookup_global [vm_safe]: "safe f (lookup_global io i name) (\<lambda>_. True)"
  unfolding lookup_global_def by (intro vm_safe)

lemma safe_exec_load_global [vm_safe]:
  "dst < register_count f \<Longrightarrow> safe f (exec_load_global io dst i) (\<lambda>_. True)"
  unfolding exec_load_global_def by (intro vm_safe)

lemma safe_exec_store_global [vm_safe]:
  "src < register_count f \<Longrightarrow> safe f (exec_store_global io i src) (\<lambda>_. True)"
  unfolding exec_store_global_def by (intro vm_safe)

lemma safe_exec_annex_update [vm_safe]:
  "src < register_count f \<Longrightarrow> (\<And>t. s = Some t \<Longrightarrow> t < local_count f) \<Longrightarrow>
   safe f (exec_annex_update io i src s) (\<lambda>_. True)"
  unfolding exec_annex_update_def by (intro vm_safe TrueI)

lemma safe_exec_typeof_global [vm_safe]:
  "dst < register_count f \<Longrightarrow> safe f (exec_typeof_global io dst i) (\<lambda>_. True)"
  unfolding exec_typeof_global_def by (intro vm_safe)

lemma safe_exec_write_property [vm_safe]:
  "obj < register_count f \<Longrightarrow> key < register_count f \<Longrightarrow> src < register_count f \<Longrightarrow>
   safe f (exec_write_property io obj key src p) (\<lambda>_. True)"
  unfolding exec_write_property_def by (intro vm_safe)

lemma safe_exec_move:
  assumes "check_move f a i = Inr ()" "slots_named f"
  shows "safe f (exec_move io i) (\<lambda>_. True)"
  using assms by (cases i) (auto simp: verify_ok intro!: vm_safe)

lemma safe_exec_binary [vm_safe]:
  "dst < register_count f \<Longrightarrow> lhs < register_count f \<Longrightarrow> rhs < register_count f \<Longrightarrow>
   safe f (exec_binary io dst op lhs rhs) (\<lambda>_. True)"
  unfolding exec_binary_def prod.case by (intro vm_safe) (simp_all add: vm_safe)

lemma safe_compound_slot [vm_safe]:
  "s < local_count f \<Longrightarrow> rhs < register_count f \<Longrightarrow> slots_named f \<Longrightarrow>
   safe f (compound_slot io s op rhs) (\<lambda>_. True)"
  unfolding compound_slot_def by (intro vm_safe TrueI)

lemma safe_exec_inc_local [vm_safe]:
  "dst < register_count f \<Longrightarrow> s < local_count f \<Longrightarrow> slots_named f \<Longrightarrow>
   safe f (exec_inc_local io dst s delta prefix) (\<lambda>_. True)"
  unfolding exec_inc_local_def by (intro vm_safe TrueI)

lemma safe_exec_inc_prop [vm_safe]:
  "dst < register_count f \<Longrightarrow> obj < register_count f \<Longrightarrow> key < register_count f \<Longrightarrow>
   safe f (exec_inc_prop io dst obj key delta prefix) (\<lambda>_. True)"
  unfolding exec_inc_prop_def by (intro vm_safe)

lemma safe_exec_op:
  assumes "check_op f a i = Inr ()" "slots_named f"
  shows "safe f (exec_op io i) (\<lambda>_. True)"
  using assms by (cases i) (auto simp: verify_ok intro!: vm_safe)

lemma safe_exec_branch [vm_safe]:
  "src < register_count f \<Longrightarrow> unat t \<le> length (code f) \<Longrightarrow> safe f (exec_branch io e src t) (\<lambda>_. True)"
  unfolding exec_branch_def by (intro vm_safe TrueI)

lemma safe_exec_flow:
  assumes "check_flow f a i = Inr ()"
  shows "safe f (exec_flow io i) (\<lambda>_. True)"
  using assms by (cases i) (auto simp: verify_ok intro!: vm_safe)

end
