(* ===== verification/Vm_Calls.thy ===== *)
theory Vm_Calls
  imports Vm_Moves
begin

text \<open>
  Properties, calls and allocation (\<open>bytecode/vm.rs\<close>): argument ranges and spread templates, the test
  for tail position, object and array literals, destructuring and function instantiation, and the
  proof that an instruction of this group which the verifier accepts is safe.
\<close>

section \<open>Arguments\<close>

definition push_call_arg :: "'o val \<Rightarrow> 'o val list \<Rightarrow> ('w, 'o, 's, 'e, 'ast, 'o val list) vm" where
  "push_call_arg v argv =
     (if length argv \<ge> MAX_ARRAY_LEN then raise (limit_err ''Maximum argument count exceeded'')
      else ret (argv @ [v]))"

definition append_iterable ::
  "('w, 'o, 's, 'e, 'ast) interp \<Rightarrow> string \<Rightarrow> 'o val \<Rightarrow> 'o val list \<Rightarrow> ('w, 'o, 's, 'e, 'ast, 'o val list) vm" where
  "append_iterable io limit_message source output =
     bindM (ask (ask_vals io) (''drain_iterable'', [AVal source])) (\<lambda>items.
       if length output + length items > MAX_ARRAY_LEN then raise (limit_err limit_message)
       else ret (output @ items))"

definition spread_template ::
  "u16 \<Rightarrow> (spread_entry list \<Rightarrow> ('w, 'o, 's, 'e, 'ast, 'a) vm) \<Rightarrow> ('w, 'o, 's, 'e, 'ast, 'a) vm" where
  "spread_template tmpl k = with_frame (\<lambda>fr.
     case get_at (constants (fn fr)) (unat tmpl) of
       Some (CSpreadTemplate entries) \<Rightarrow> k entries
     | _ \<Rightarrow> raise (internal ''bad spread template''))"

definition spread_snapshot ::
  "('w, 'o, 's, 'e, 'ast) interp \<Rightarrow> 'o val \<Rightarrow> ('o val list \<Rightarrow> ('w, 'o, 's, 'e, 'ast, 'a) vm) \<Rightarrow>
   ('w, 'o, 's, 'e, 'ast, 'a) vm" where
  "spread_snapshot io v k = with_world (\<lambda>w.
     case array_items io v w of
       None \<Rightarrow> raise (internal ''spread snapshot is not an array'')
     | Some items \<Rightarrow> k items)"

definition spread_argv ::
  "('w, 'o, 's, 'e, 'ast) interp \<Rightarrow> spread_entry list \<Rightarrow> ('w, 'o, 's, 'e, 'ast, 'o val list) vm" where
  "spread_argv io template = foldM (\<lambda>entry argv.
     bindM (read_reg (spread_reg entry)) (\<lambda>v.
       if prepared entry then spread_snapshot io v (\<lambda>items. foldM push_call_arg items argv)
       else if spread entry then append_iterable io ''Maximum argument count exceeded'' v argv
       else push_call_arg v argv)) template []"

definition resize_present :: "nat \<Rightarrow> bool list \<Rightarrow> bool list" where
  "resize_present n present = take n present @ replicate (n - length present) True"

definition spread_array_entry ::
  "('w, 'o, 's, 'e, 'ast) interp \<Rightarrow> spread_entry \<Rightarrow> 'o val list \<times> bool list \<Rightarrow>
   ('w, 'o, 's, 'e, 'ast, 'o val list \<times> bool list) vm" where
  "spread_array_entry io entry = (\<lambda>(items, present).
     bindM (read_reg (spread_reg entry)) (\<lambda>v.
       bindM
         (if elision entry then ret (items @ [Undefined], present @ [False])
          else if prepared entry then
            spread_snapshot io v (\<lambda>vs.
              if length items + length vs > MAX_ARRAY_LEN then raise (limit_err ''Maximum array length exceeded'')
              else ret (items @ vs, present))
          else if spread entry then
            bindM (append_iterable io ''Maximum array length exceeded'' v items) (\<lambda>items. ret (items, present))
          else ret (items @ [v], present))
         (\<lambda>(items, present).
           if length items > MAX_ARRAY_LEN then raise (limit_err ''Maximum array length exceeded'')
           else ret (items, resize_present (length items) present))))"

definition checked_array ::
  "('w, 'o, 's, 'e, 'ast) interp \<Rightarrow> 'o val list \<Rightarrow> ('w, 'o, 's, 'e, 'ast, 'o val) vm" where
  "checked_array io items =
     (if length items > MAX_ARRAY_LEN then raise (limit_err ''Maximum array length exceeded'')
      else ask (ask_val io) (''array'', [AVals items]))"

definition spread_array ::
  "('w, 'o, 's, 'e, 'ast) interp \<Rightarrow> spread_entry list \<Rightarrow> ('w, 'o, 's, 'e, 'ast, 'o val) vm" where
  "spread_array io template =
     bindM (foldM (spread_array_entry io) template ([], [])) (\<lambda>(items, present).
       if length items > MAX_ARRAY_LEN then raise (limit_err ''Maximum array length exceeded'')
       else ask (ask_val io) (''array_with_presence'', [AVals items, AFlags present]))"

section \<open>Calls\<close>

text \<open>A call is in tail position when its result reaches a return through moves and jumps only; the
  search takes as many steps as the function has instructions.\<close>

fun tail_search :: "instr list \<Rightarrow> nat \<Rightarrow> nat \<Rightarrow> reg \<Rightarrow> bool" where
  "tail_search cs 0 i result = False"
| "tail_search cs (Suc n) i result =
     (case get_at cs i of
        Some (IFlow (Return src)) \<Rightarrow> src = result
      | Some (IMove (Mov dst src)) \<Rightarrow>
          if src = result then tail_search cs n (i + 1) dst
          else if dst = result then False
          else tail_search cs n (i + 1) result
      | Some (IFlow (Jump t)) \<Rightarrow> tail_search cs n (unat t) result
      | _ \<Rightarrow> False)"

definition returns_call_result :: "('o, 's, 'e, 'ast) call_frame \<Rightarrow> reg \<Rightarrow> bool" where
  "returns_call_result fr result =
     (handlers fr = [] \<and> tail_search (code (fn fr)) (length (code (fn fr))) (ip fr) result)"

definition request_tail_call ::
  "('w, 'o, 's, 'e, 'ast) interp \<Rightarrow> 'o val \<Rightarrow> 'o val \<Rightarrow> 'o val list \<Rightarrow> ('w, 'o, 's, 'e, 'ast, 'a) vm" where
  "request_tail_call io callee receiver argv =
     raise (if \<not> is_callable io callee then Msg (ascii ''TypeError: value is not callable'')
            else TailCall callee receiver argv)"

definition dispatch_call ::
  "('w, 'o, 's, 'e, 'ast) interp \<Rightarrow> reg \<Rightarrow> 'o val \<Rightarrow> 'o val \<Rightarrow> 'o val list \<Rightarrow> ('w, 'o, 's, 'e, 'ast, unit) vm" where
  "dispatch_call io dst callee this argv = with_world (\<lambda>w. with_frame (\<lambda>fr.
     if tail_call_context io w \<and> returns_call_result fr dst then request_tail_call io callee this argv
     else bindM (ask (ask_val io) (''call_this'', [AVal callee, AVal this, AVals argv])) (set_reg dst)))"

definition read_receiver :: "reg option \<Rightarrow> ('w, 'o, 's, 'e, 'ast, 'o val) vm" where
  "read_receiver this = (case this of None \<Rightarrow> ret Undefined | Some r \<Rightarrow> read_reg r)"

definition direct_eval ::
  "('w, 'o, 's, 'e, 'ast) interp \<Rightarrow> reg \<Rightarrow> reg \<Rightarrow> reg option \<Rightarrow> 'o val list \<Rightarrow> ('w, 'o, 's, 'e, 'ast, unit) vm" where
  "direct_eval io dst callee this argv =
     bindM (read_reg callee) (\<lambda>c. bindM (read_receiver this) (\<lambda>t.
       bindM (ask (ask_bool io) (''is_intrinsic_eval'', [AVal c])) (\<lambda>intrinsic.
         if intrinsic then bindM (ask (ask_val io) (''eval_direct'', [AVals argv])) (set_reg dst)
         else dispatch_call io dst c t argv)))"

section \<open>Object literals and destructuring\<close>

text \<open>A literal under construction: its slots, the symbols behind symbol keys, and the prototype.\<close>

type_synonym 'o building = "'o val literal \<times> (rstring \<times> 'o val) list \<times> 'o val option"

definition key_name ::
  "('w, 'o, 's, 'e, 'ast) interp \<Rightarrow> string \<Rightarrow> 'o val \<Rightarrow> (rstring \<times> (rstring \<times> 'o val) list \<Rightarrow> ('w, 'o, 's, 'e, 'ast, 'a) vm) \<Rightarrow>
   ('w, 'o, 's, 'e, 'ast, 'a) vm" where
  "key_name io bad v k =
     (case v of
        VString t \<Rightarrow> k (to_key t, [])
      | VObject j \<Rightarrow>
          (case symbol_key io j of
             None \<Rightarrow> raise (internal bad)
           | Some name \<Rightarrow> k (name, [(name, v)]))
      | _ \<Rightarrow> raise (internal bad))"

definition check_prop_limit :: "'o building \<Rightarrow> ('w, 'o, 's, 'e, 'ast, 'o building) vm" where
  "check_prop_limit b =
     (if length (positions (fst b)) > MAX_OBJECT_PROPS
      then raise (limit_err ''Maximum object property count exceeded'') else ret b)"

text \<open>\<open>for_each_spread_entry\<close>: the own enumerable properties of a source, each read and handed on
  before the next key is looked at.\<close>

definition for_each_spread_entry ::
  "('w, 'o, 's, 'e, 'ast) interp \<Rightarrow> 'o val \<Rightarrow> 'o val list \<Rightarrow>
   ('o val \<Rightarrow> 'o val \<Rightarrow> 'a \<Rightarrow> ('w, 'o, 's, 'e, 'ast, 'a) vm) \<Rightarrow> 'a \<Rightarrow> ('w, 'o, 's, 'e, 'ast, 'a) vm" where
  "for_each_spread_entry io source excluded insert_one a =
     (if is_nullish source then ret a
      else bindM (ask (ask_val io) (''to_object_receiver'', [AVal source])) (\<lambda>src.
        bindM (ask (ask_vals io) (''own_property_keys'', [AVal src])) (\<lambda>keys.
          foldM (\<lambda>key a.
            seqM (ask (ask_unit io) (''check_execution'', []))
              (if list_ex (\<lambda>x. strict_equals io x key) excluded then ret a
               else bindM (ask (ask_val io) (''descriptor_for_key_in'', [AVal src, AVal key])) (\<lambda>descriptor.
                 bindM (ask (ask_bool io) (''descriptor_enumerable'', [AVal descriptor])) (\<lambda>shown.
                   if \<not> shown then ret a
                   else bindM (ask (ask_val io) (''get_prop_value'', [AVal src, AVal key])) (\<lambda>v.
                     insert_one key v a))))) keys a)))"

definition spread_into :: "('w, 'o, 's, 'e, 'ast) interp \<Rightarrow> 'o val \<Rightarrow> 'o val \<Rightarrow> 'o building \<Rightarrow>
   ('w, 'o, 's, 'e, 'ast, 'o building) vm" where
  "spread_into io key v = (\<lambda>(l, symbols, prototype).
     key_name io ''invalid own property key in spread'' key (\<lambda>(name, symbol).
       with_outcome (insert_object_property name v None l) (\<lambda>l.
         check_prop_limit (l, symbols @ symbol, prototype))))"

definition entry_key_name ::
  "('w, 'o, 's, 'e, 'ast) interp \<Rightarrow> key_src \<Rightarrow> (rstring \<times> (rstring \<times> 'o val) list \<Rightarrow> ('w, 'o, 's, 'e, 'ast, 'a) vm) \<Rightarrow>
   ('w, 'o, 's, 'e, 'ast, 'a) vm" where
  "entry_key_name io key k =
     (case key of
        KeyConst index \<Rightarrow> bindM (const_string index) (\<lambda>name. k (name, []))
      | KeyReg r \<Rightarrow> bindM (read_reg r) (\<lambda>v.
          case v of
            Number n \<Rightarrow> k (number_string io n, [])
          | _ \<Rightarrow> key_name io ''object template key was not normalized'' v k))"

definition accessor_of :: "prop_kind \<Rightarrow> accessor_kind option" where
  "accessor_of kind = (case kind of PropGetter \<Rightarrow> Some Getter | PropSetter \<Rightarrow> Some Setter | _ \<Rightarrow> None)"

definition build_property ::
  "('w, 'o, 's, 'e, 'ast) interp \<Rightarrow> 's \<Rightarrow> prop_entry \<Rightarrow> 'o building \<Rightarrow> ('w, 'o, 's, 'e, 'ast, 'o building) vm" where
  "build_property io home entry = (\<lambda>(l, symbols, prototype).
     case entry_key entry of
       None \<Rightarrow> raise (internal ''spread-shaped data entry'')
     | Some key \<Rightarrow> entry_key_name io key (\<lambda>(name, symbol).
         bindM (read_reg (entry_val entry)) (\<lambda>v.
           bindM (if entry_kind entry \<in> {PropMethod, PropGetter, PropSetter}
                  then ask (ask_val io) (''object_method_with_home'', [AVal v, AScope home]) else ret v) (\<lambda>v.
             with_outcome (insert_object_property name v (accessor_of (entry_kind entry)) l) (\<lambda>l.
               ret (l, symbols @ symbol, prototype))))))"

definition build_entry ::
  "('w, 'o, 's, 'e, 'ast) interp \<Rightarrow> 's \<Rightarrow> prop_entry \<Rightarrow> 'o building \<Rightarrow> ('w, 'o, 's, 'e, 'ast, 'o building) vm" where
  "build_entry io home entry b =
     bindM
       (case entry_kind entry of
          PropPrototype \<Rightarrow> bindM (read_reg (entry_val entry)) (\<lambda>v. ret (fst b, fst (snd b), Some v))
        | PropSpread \<Rightarrow> bindM (read_reg (entry_val entry)) (\<lambda>src. for_each_spread_entry io src [] (spread_into io) b)
        | _ \<Rightarrow> build_property io home entry b)
       check_prop_limit"

definition checked_object ::
  "('w, 'o, 's, 'e, 'ast) interp \<Rightarrow> (rstring \<times> 'o val) list \<Rightarrow> ('w, 'o, 's, 'e, 'ast, 'o val) vm" where
  "checked_object io props =
     (if length props > MAX_OBJECT_PROPS then raise (limit_err ''Maximum object property count exceeded'')
      else ask (ask_val io) (''object'', [AProps props]))"

definition build_object ::
  "('w, 'o, 's, 'e, 'ast) interp \<Rightarrow> prop_entry list \<Rightarrow> ('w, 'o, 's, 'e, 'ast, 'o val) vm" where
  "build_object io template = bindM (current_scope io) (\<lambda>sc.
     bindM (ask (ask_scope io) (''member_closure_env'', [AScope sc])) (\<lambda>home.
       bindM (foldM (build_entry io home) template (empty_literal, [], None)) (\<lambda>(l, symbols, prototype).
         bindM (checked_object io (flatten_slots l)) (\<lambda>result.
           seqM (ask (ask_unit io) (''literal_metadata'', [AVal result, AFlag (accessors l \<noteq> []), AProps symbols]))
             (seqM (case prototype of
                      None \<Rightarrow> ret ()
                    | Some p \<Rightarrow> ask (ask_unit io) (''initialize_literal_prototype'', [AVal result, AVal p]))
               (seqM (ask (ask_unit io) (''initialize_object_home'', [AScope home, AVal result])) (ret result)))))))"

definition to_destruct_array ::
  "('w, 'o, 's, 'e, 'ast) interp \<Rightarrow> 'o val \<Rightarrow> ('w, 'o, 's, 'e, 'ast, 'o val) vm" where
  "to_destruct_array io v = with_world (\<lambda>w.
     case array_items io v w of
       Some items \<Rightarrow> ask (ask_val io) (''array'', [AVals items])
     | None \<Rightarrow>
         (case v of
            VString t \<Rightarrow>
              if length (code_points t) > MAX_ARRAY_LEN then raise (limit_err ''Maximum array length exceeded'')
              else with_outcome (fold_outcome (\<lambda>c acc. bind_outcome c (\<lambda>c. Inr (acc @ [VString c]))) (code_points t) [])
                     (\<lambda>items. ask (ask_val io) (''array'', [AVals items]))
          | _ \<Rightarrow> ask (ask_val io) (''array'', [AVals []])))"

definition check_destruct_object :: "'o val \<Rightarrow> ('w, 'o, 's, 'e, 'ast, 'o val) vm" where
  "check_destruct_object v =
     (case v of
        Null \<Rightarrow> raise (Msg (ascii ''TypeError: Cannot destructure properties of null''))
      | Undefined \<Rightarrow> raise (Msg (ascii ''TypeError: Cannot destructure properties of undefined''))
      | _ \<Rightarrow> ret v)"

definition copy_data_properties ::
  "('w, 'o, 's, 'e, 'ast) interp \<Rightarrow> 'o val \<Rightarrow> 'o val list \<Rightarrow> ('w, 'o, 's, 'e, 'ast, 'o val) vm" where
  "copy_data_properties io source excluded =
     bindM (for_each_spread_entry io source excluded (\<lambda>key v (props, symbols).
       case (case key of VString t \<Rightarrow> Some (to_key t, []) | VObject j \<Rightarrow> map_option (\<lambda>n. (n, [(n, key)])) (symbol_key io j)
             | _ \<Rightarrow> None) of
         None \<Rightarrow> unreachable
       | Some (name, symbol) \<Rightarrow>
           if length props \<ge> MAX_OBJECT_PROPS then raise (limit_err ''Maximum object property count exceeded'')
           else ret (props @ [(name, v)], symbols @ symbol)) ([], []))
       (\<lambda>(props, symbols). bindM (checked_object io props) (\<lambda>result.
         seqM (ask (ask_unit io) (''literal_symbols'', [AVal result, AProps symbols])) (ret result)))"

definition rest_object ::
  "('w, 'o, 's, 'e, 'ast) interp \<Rightarrow> 'o val \<Rightarrow> 'o val \<Rightarrow> ('w, 'o, 's, 'e, 'ast, 'o val) vm" where
  "rest_object io source taken = with_world (\<lambda>w.
     case array_items io taken w of
       None \<Rightarrow> raise (internal ''rest key list of non-array'')
     | Some excluded \<Rightarrow> copy_data_properties io source excluded)"

definition normal_key :: "('w, 'o, 's, 'e, 'ast) interp \<Rightarrow> 'o val \<Rightarrow> 'o val" where
  "normal_key io v =
     (case v of
        VString t \<Rightarrow> VString t
      | Number n \<Rightarrow> VString (from_str (number_display io n))
      | VObject j \<Rightarrow> (case symbol_key io j of Some name \<Rightarrow> VString (from_str name) | None \<Rightarrow> Undefined)
      | _ \<Rightarrow> Undefined)"

section \<open>Functions\<close>

text \<open>The parameter names are the prefix \<open>code.slots[..parameter_count]\<close>, a slice that panics when the
  table is too short.\<close>

definition make_function ::
  "('w, 'o, 's, 'e, 'ast) interp \<Rightarrow> 'ast bytecode_function \<Rightarrow> 's \<Rightarrow> rstring option \<Rightarrow> ('w, 'o, 's, 'e, 'ast, 'o val) vm" where
  "make_function io g closure name_override =
     (if unat (parameter_count g) \<le> length (function_slots g)
      then ask (ask_val io) (''make_function'', [AFunction g, AScope closure, ANameOpt name_override,
             ANames (map slot_name (take (unat (parameter_count g)) (function_slots g)))])
      else panic)"

definition make_ast_function ::
  "('w, 'o, 's, 'e, 'ast) interp \<Rightarrow> 'ast ast_function \<Rightarrow> 's \<Rightarrow> rstring option \<Rightarrow> ('w, 'o, 's, 'e, 'ast, 'o val) vm" where
  "make_ast_function io ast closure name_override =
     ask (ask_val io) (''make_ast_function'', [AAst ast, AScope closure, ANameOpt name_override])"

section \<open>Dispatch\<close>

definition exec_get_prop ::
  "('w, 'o, 's, 'e, 'ast) interp \<Rightarrow> bool \<Rightarrow> u32 \<Rightarrow> reg \<Rightarrow> reg \<Rightarrow> reg \<Rightarrow> ('w, 'o, 's, 'e, 'ast, unit) vm" where
  "exec_get_prop io is_private cache dst obj key =
     (if is_private then
        bindM (read_reg key) (\<lambda>k. bindM (ask (ask_name io) (''property_key'', [AVal k])) (\<lambda>name.
          bindM (current_scope io) (\<lambda>sc. bindM (read_reg obj) (\<lambda>v.
            bindM (ask (ask_val io) (''get_private_member_in'', [AScope sc, AVal v, AName name])) (set_reg dst)))))
      else
        bindM (cache_at cache) (\<lambda>site. bindM (read_reg obj) (\<lambda>v. bindM (read_reg key) (\<lambda>k.
          bindM (ask (ask_val io) (''get_prop_cached'', [ANat site, AVal v, AVal k])) (set_reg dst)))))"

definition exec_set_prop ::
  "('w, 'o, 's, 'e, 'ast) interp \<Rightarrow> u32 \<Rightarrow> reg \<Rightarrow> reg \<Rightarrow> reg \<Rightarrow> ('w, 'o, 's, 'e, 'ast, unit) vm" where
  "exec_set_prop io cache obj key val =
     bindM (read_reg val) (\<lambda>v. bindM (current_scope io) (\<lambda>sc.
       bindM (ask (ask_bool io) (''strict'', [AScope sc])) (\<lambda>strict.
         bindM (cache_at cache) (\<lambda>site. bindM (read_reg obj) (\<lambda>b. bindM (read_reg key) (\<lambda>k.
           ask (ask_unit io) (''set_prop_cached'', [ANat site, AVal b, AVal k, AVal v, AFlag strict])))))))"

definition exec_rest_array ::
  "('w, 'o, 's, 'e, 'ast) interp \<Rightarrow> reg \<Rightarrow> reg \<Rightarrow> u16 \<Rightarrow> ('w, 'o, 's, 'e, 'ast, unit) vm" where
  "exec_rest_array io dst src start = bindM (read_reg src) (\<lambda>v. with_world (\<lambda>w.
     case array_items io v w of
       None \<Rightarrow> raise (internal ''rest of non-array'')
     | Some items \<Rightarrow> bindM (ask (ask_val io) (''array'', [AVals (drop (unat start) items)])) (set_reg dst)))"

definition exec_freeze_template ::
  "('w, 'o, 's, 'e, 'ast) interp \<Rightarrow> u64 \<Rightarrow> reg \<Rightarrow> reg \<Rightarrow> ('w, 'o, 's, 'e, 'ast, unit) vm" where
  "exec_freeze_template io site cooked raw = bindM (read_reg raw) (\<lambda>r. bindM (read_reg cooked) (\<lambda>v. with_world (\<lambda>w.
     case array_items io v w of
       None \<Rightarrow> raise (internal ''template object is not an array'')
     | Some _ \<Rightarrow> bindM (ask (ask_val io) (''cache_template_object'', [ASite site, AVal v, AVal r])) (set_reg cooked))))"

fun exec_call :: "('w, 'o, 's, 'e, 'ast) interp \<Rightarrow> call_instr \<Rightarrow> ('w, 'o, 's, 'e, 'ast, unit) vm" where
  "exec_call io (GetProp p cache dst obj key) = exec_get_prop io p cache dst obj key"
| "exec_call io (SetProp cache obj key val) = exec_set_prop io cache obj key val"
| "exec_call io (DirectEval dst callee this args argc) =
     bindM (take_range ''operand range out of bounds'' args argc) (direct_eval io dst callee this)"
| "exec_call io (DirectEvalSpread dst callee this tmpl) =
     spread_template tmpl (\<lambda>t. bindM (spread_argv io t) (direct_eval io dst callee this))"
| "exec_call io (Call dst callee args argc) =
     bindM (take_range ''bad argument range'' args argc) (\<lambda>argv. bindM (read_reg callee) (\<lambda>c.
       dispatch_call io dst c Undefined argv))"
| "exec_call io (CallMethod dst callee this args argc) =
     bindM (take_range ''bad argument range'' args argc) (\<lambda>argv. bindM (read_reg this) (\<lambda>t.
       bindM (read_reg callee) (\<lambda>c. dispatch_call io dst c t argv)))"
| "exec_call io (Construct dst callee args argc) =
     bindM (take_range ''operand range out of bounds'' args argc) (\<lambda>argv. bindM (read_reg callee) (\<lambda>c.
       bindM (ask (ask_val io) (''ctor'', [AVal c, AVals argv])) (set_reg dst)))"
| "exec_call io (ExpandSpread dst src) = bindM (read_reg src) (\<lambda>v.
     bindM (ask (ask_vals io) (''drain_iterable'', [AVal v])) (\<lambda>items.
       bindM (checked_array io items) (set_reg dst)))"
| "exec_call io (ConstructSpread dst callee tmpl) =
     spread_template tmpl (\<lambda>t. bindM (spread_argv io t) (\<lambda>argv. bindM (read_reg callee) (\<lambda>c.
       bindM (ask (ask_val io) (''ctor'', [AVal c, AVals argv])) (set_reg dst))))"
| "exec_call io (CallSpread dst callee tmpl) =
     spread_template tmpl (\<lambda>t. bindM (spread_argv io t) (\<lambda>argv. bindM (read_reg callee) (\<lambda>c.
       dispatch_call io dst c Undefined argv)))"
| "exec_call io (MethodSpread dst callee this tmpl) =
     spread_template tmpl (\<lambda>t. bindM (spread_argv io t) (\<lambda>argv. bindM (read_reg callee) (\<lambda>c.
       bindM (read_reg this) (\<lambda>r. dispatch_call io dst c r argv))))"
| "exec_call io (BuildArray dst tmpl) = spread_template tmpl (\<lambda>t. bindM (spread_array io t) (set_reg dst))"
| "exec_call io (ToDestructArray dst src) = bindM (read_reg src) (\<lambda>v. bindM (to_destruct_array io v) (set_reg dst))"
| "exec_call io (RestArray dst src start) = exec_rest_array io dst src start"
| "exec_call io (CheckDestructObject dst src) = bindM (read_reg src) (\<lambda>v. bindM (check_destruct_object v) (set_reg dst))"
| "exec_call io (RestObject dst src taken) = bindM (read_reg src) (\<lambda>v. bindM (read_reg taken) (\<lambda>t.
     bindM (rest_object io v t) (set_reg dst)))"
| "exec_call io (NewObject _) = raise (internal ''incremental object construction is retired'')"
| "exec_call io (SetOwnProp _ _ _) = raise (internal ''incremental object construction is retired'')"
| "exec_call io (NormalKey dst src) = bindM (read_reg src) (\<lambda>v. set_reg dst (normal_key io v))"
| "exec_call io (LoadGlobalSoft dst name) = bindM (const_string name) (\<lambda>n. bindM (current_scope io) (\<lambda>sc.
     bindM (ask (ask_opt io) (''scope_get'', [AScope sc, AName n])) (\<lambda>v.
       set_reg dst (case v of Some v \<Rightarrow> v | None \<Rightarrow> Undefined))))"
| "exec_call io (LoadLocalSoft dst s) = bindM (read_slot s) (\<lambda>v.
     set_reg dst (if run_initialized v then run_value v else Undefined))"
| "exec_call io (BuildObject dst tmpl) = with_const tmpl (\<lambda>c.
     case c of
       CObjectTemplate entries \<Rightarrow> bindM (build_object io entries) (set_reg dst)
     | _ \<Rightarrow> raise (internal ''bad object template''))"
| "exec_call io (LoadTemplate dst site) = bindM (ask (ask_opt io) (''cached_template_object'', [ASite site])) (\<lambda>v.
     set_reg dst (case v of Some v \<Rightarrow> v | None \<Rightarrow> Undefined))"
| "exec_call io (FreezeTemplate site cooked raw) = exec_freeze_template io site cooked raw"
| "exec_call io (NewArray dst args argc) =
     bindM (take_range ''operand range out of bounds'' args argc) (\<lambda>items. bindM (checked_array io items) (set_reg dst))"
| "exec_call io (MakeFunction dst func) = with_const func (\<lambda>c.
     case c of
       CFunction g \<Rightarrow> bindM (current_scope io) (\<lambda>sc. bindM (make_function io g sc None) (set_reg dst))
     | _ \<Rightarrow> raise (internal ''bad function constant''))"
| "exec_call io (MakeAstFunction dst ast) = with_const ast (\<lambda>c.
     case c of
       CAstFunction g \<Rightarrow> bindM (current_scope io) (\<lambda>sc. bindM (make_ast_function io g sc None) (set_reg dst))
     | _ \<Rightarrow> raise (internal ''bad ast-function constant''))"
| "exec_call io (Template dst quasis args argc) = with_const quasis (\<lambda>c.
     case c of
       CStringList chunks \<Rightarrow> bindM (take_range ''operand range out of bounds'' args argc) (\<lambda>vs.
         bindM (ask (ask_val io) (''render_template'', [AStrings chunks, AVals vs])) (set_reg dst))
     | _ \<Rightarrow> raise (internal ''bad template constant''))"

section \<open>Safety\<close>

definition params_fit :: "'ast bytecode_function \<Rightarrow> bool" where
  "params_fit g \<longleftrightarrow> unat (parameter_count g) \<le> length (function_slots g)"

definition nested_fit :: "'ast bytecode_function \<Rightarrow> bool" where
  "nested_fit f \<longleftrightarrow> (\<forall>g. CFunction g \<in> set (constants f) \<longrightarrow> params_fit g)"

lemma safe_push_call_arg [vm_safe]: "safe f (push_call_arg v argv) (\<lambda>_. True)"
  unfolding push_call_arg_def by (intro vm_safe TrueI)

lemma safe_append_iterable [vm_safe]: "safe f (append_iterable io m v out) (\<lambda>_. True)"
  unfolding append_iterable_def by (intro vm_safe TrueI)

lemma safe_spread_snapshot [vm_safe]:
  "(\<And>items. safe f (k items) Q) \<Longrightarrow> safe f (spread_snapshot io v k) Q"
  unfolding spread_snapshot_def by (intro vm_safe)

lemma safe_spread_template [vm_safe]:
  assumes "\<And>es. unat t < length (constants f) \<Longrightarrow> constants f ! unat t = CSpreadTemplate es \<Longrightarrow> safe f (k es) Q"
  shows "safe f (spread_template t k) Q"
  unfolding spread_template_def
  by (rule safe_with_frame)
     (use assms in \<open>auto simp: frame_okD intro!: safe_raise split: option.split const_value.split dest!: get_at_SomeD\<close>)

lemma safe_spread_argv [vm_safe]:
  "(\<And>e. e \<in> set es \<Longrightarrow> spread_reg e < register_count f) \<Longrightarrow> safe f (spread_argv io es) (\<lambda>_. True)"
  unfolding spread_argv_def by (intro vm_safe)

lemma safe_checked_array [vm_safe]: "safe f (checked_array io items) (\<lambda>_. True)"
  unfolding checked_array_def by (intro vm_safe)

lemma safe_spread_array [vm_safe]:
  "(\<And>e. e \<in> set es \<Longrightarrow> spread_reg e < register_count f) \<Longrightarrow> safe f (spread_array io es) (\<lambda>_. True)"
  unfolding spread_array_def spread_array_entry_def by (intro vm_safe TrueI)

lemma safe_dispatch_call [vm_safe]:
  "dst < register_count f \<Longrightarrow> safe f (dispatch_call io dst c t argv) (\<lambda>_. True)"
  unfolding dispatch_call_def request_tail_call_def by (intro vm_safe)

lemma safe_read_receiver [vm_safe]:
  "(\<And>r. this = Some r \<Longrightarrow> r < register_count f) \<Longrightarrow> safe f (read_receiver this) (\<lambda>_. True)"
  unfolding read_receiver_def by (intro vm_safe TrueI)

lemma safe_direct_eval [vm_safe]:
  "dst < register_count f \<Longrightarrow> callee < register_count f \<Longrightarrow> (\<And>r. this = Some r \<Longrightarrow> r < register_count f) \<Longrightarrow>
   safe f (direct_eval io dst callee this argv) (\<lambda>_. True)"
  unfolding direct_eval_def by (intro vm_safe)

text \<open>A literal under construction stays well formed, so its insertions stay inside its slots.\<close>

lemma safe_key_name [vm_safe]: "(\<And>n. safe f (k n) Q) \<Longrightarrow> safe f (key_name io bad v k) Q"
  unfolding key_name_def by (intro vm_safe)

lemma safe_check_prop_limit [vm_safe]: "Q b \<Longrightarrow> safe f (check_prop_limit b) Q"
  unfolding check_prop_limit_def by (intro vm_safe)

lemma safe_for_each_spread_entry [vm_safe]:
  assumes "P a" "\<And>key v a. P a \<Longrightarrow> safe f (ins key v a) P"
  shows "safe f (for_each_spread_entry io source excluded ins a) P"
  unfolding for_each_spread_entry_def by (intro vm_safe safe_foldM assms)

lemma safe_insert [vm_safe]:
  "literal_ok l \<Longrightarrow> (\<And>l'. literal_ok l' \<Longrightarrow> safe f (k l') Q) \<Longrightarrow>
   safe f (with_outcome (insert_object_property name v kind l) k) Q"
  by (intro safe_with_outcome insert_never_panics) (auto dest: insert_keeps_ok)

lemma safe_spread_into:
  "literal_ok (fst b) \<Longrightarrow> safe f (spread_into io key v b) (\<lambda>b. literal_ok (fst b))"
  unfolding spread_into_def by (cases b) (auto intro!: safe_key_name safe_case_prod safe_insert safe_check_prop_limit)

lemma safe_entry_key_name [vm_safe]:
  "(\<And>r. key = KeyReg r \<Longrightarrow> r < register_count f) \<Longrightarrow> (\<And>n. safe f (k n) Q) \<Longrightarrow>
   safe f (entry_key_name io key k) Q"
  unfolding entry_key_name_def by (cases key) (auto intro!: vm_safe)

lemma safe_build_property:
  "literal_ok (fst b) \<Longrightarrow> entry_val e < register_count f \<Longrightarrow>
   (\<And>r. entry_key e = Some (KeyReg r) \<Longrightarrow> r < register_count f) \<Longrightarrow>
   safe f (build_property io home e b) (\<lambda>b. literal_ok (fst b))"
  unfolding build_property_def by (cases b) (auto intro!: vm_safe simp del: insert_iff)

lemma safe_build_entry:
  assumes "literal_ok (fst b)" "entry_val e < register_count f"
    "\<And>r. entry_key e = Some (KeyReg r) \<Longrightarrow> r < register_count f"
  shows "safe f (build_entry io home e b) (\<lambda>b. literal_ok (fst b))"
proof -
  have "safe f (build_property io home e b) (\<lambda>b. literal_ok (fst b))"
    by (rule safe_build_property) (use assms in auto)
  moreover have "safe f (for_each_spread_entry io src [] (spread_into io) b) (\<lambda>b. literal_ok (fst b))" for src
    by (rule safe_for_each_spread_entry) (use assms in \<open>auto intro: safe_spread_into\<close>)
  ultimately show ?thesis
    unfolding build_entry_def using assms(1,2)
    by (intro safe_bind [where Q = "\<lambda>b. literal_ok (fst b)"] safe_check_prop_limit)
       (auto intro!: safe_bind_True safe_read_reg safe_ret split: prop_kind.split)
qed

lemma safe_checked_object [vm_safe]: "safe f (checked_object io props) (\<lambda>_. True)"
  unfolding checked_object_def by (intro vm_safe)

lemma safe_build_object [vm_safe]:
  assumes "\<And>e. e \<in> set es \<Longrightarrow> entry_val e < register_count f"
    "\<And>e r. e \<in> set es \<Longrightarrow> entry_key e = Some (KeyReg r) \<Longrightarrow> r < register_count f"
  shows "safe f (build_object io es) (\<lambda>_. True)"
proof -
  have "safe f (foldM (build_entry io home) es (empty_literal, [], None)) (\<lambda>_. True)" for home
    by (rule safe_weaken, rule safe_foldM [where P = "\<lambda>b. literal_ok (fst b)"])
       (auto intro!: safe_build_entry simp: empty_literal_ok assms)
  then show ?thesis
    unfolding build_object_def
    by (intro safe_bind_True safe_current_scope safe_ask safe_case_prod safe_seq safe_case_option
        safe_ret safe_checked_object TrueI)
qed

lemma fold_pieces:
  "fold_outcome (\<lambda>c acc. bind_outcome c (\<lambda>c. Inr (acc @ [g c]))) (map (\<lambda>x. Inr (h x)) ps) acc =
   Inr (acc @ map (\<lambda>x. g (h x)) ps)"
  by (induction ps arbitrary: acc) auto

lemma safe_to_destruct_array [vm_safe]: "safe f (to_destruct_array io v) (\<lambda>_. True)"
proof -
  have "fold_outcome (\<lambda>c acc. bind_outcome c (\<lambda>c. Inr (acc @ [VString c]))) (code_points t) [] \<noteq> Inl Panicked" for t
    by (simp add: code_points_def pieces_from fold_pieces)
  then show ?thesis unfolding to_destruct_array_def by (intro vm_safe)
qed

lemma safe_check_destruct_object [vm_safe]: "safe f (check_destruct_object v) (\<lambda>_. True)"
  unfolding check_destruct_object_def by (intro vm_safe TrueI)

lemma safe_rest_object [vm_safe]: "safe f (rest_object io source taken) (\<lambda>_. True)"
  unfolding rest_object_def copy_data_properties_def by (intro vm_safe TrueI)

lemma safe_make_function [vm_safe]: "params_fit g \<Longrightarrow> safe f (make_function io g sc name) (\<lambda>_. True)"
  unfolding make_function_def by (rule safe_if) (simp_all add: vm_safe params_fit_def)

lemma safe_make_ast_function [vm_safe]: "safe f (make_ast_function io g sc name) (\<lambda>_. True)"
  unfolding make_ast_function_def by (intro vm_safe)

lemma safe_exec_get_prop [vm_safe]:
  "unat cache < length (caches f) \<Longrightarrow> dst < register_count f \<Longrightarrow> obj < register_count f \<Longrightarrow>
   key < register_count f \<Longrightarrow> safe f (exec_get_prop io p cache dst obj key) (\<lambda>_. True)"
  unfolding exec_get_prop_def by (intro vm_safe)

lemma safe_exec_set_prop [vm_safe]:
  "unat cache < length (caches f) \<Longrightarrow> obj < register_count f \<Longrightarrow> key < register_count f \<Longrightarrow>
   val < register_count f \<Longrightarrow> safe f (exec_set_prop io cache obj key val) (\<lambda>_. True)"
  unfolding exec_set_prop_def by (intro vm_safe)

lemma safe_exec_rest_array [vm_safe]:
  "dst < register_count f \<Longrightarrow> src < register_count f \<Longrightarrow> safe f (exec_rest_array io dst src n) (\<lambda>_. True)"
  unfolding exec_rest_array_def by (intro vm_safe)

lemma safe_exec_freeze_template [vm_safe]:
  "cooked < register_count f \<Longrightarrow> raw < register_count f \<Longrightarrow>
   safe f (exec_freeze_template io site cooked raw) (\<lambda>_. True)"
  unfolding exec_freeze_template_def by (intro vm_safe)

text \<open>What the verifier establishes of templates and nested functions.\<close>

lemma check_spread_template_ok:
  "check_spread_template f a t allow = Inr () \<Longrightarrow> unat t < length (constants f) \<Longrightarrow>
   constants f ! unat t = CSpreadTemplate es \<Longrightarrow> e \<in> set es \<Longrightarrow> spread_reg e < register_count f"
  by (auto simp: check_spread_template_def check_spread_entry_def bind_outcome_Inr_iff verify_ok split: if_splits)

lemma check_object_template_ok:
  assumes "\<forall>e\<in>set es. check_prop_entry f a e = Inr ()" "e \<in> set es"
  shows "entry_val e < register_count f" and "entry_key e = Some (KeyReg r) \<Longrightarrow> r < register_count f"
  using assms by (auto simp: check_prop_entry_def verify_ok)

lemma nested_fitD: "nested_fit f \<Longrightarrow> n < length (constants f) \<Longrightarrow> constants f ! n = CFunction g \<Longrightarrow> params_fit g"
  unfolding nested_fit_def by (metis nth_mem)

lemma safe_exec_call:
  assumes "check_call f a i = Inr ()" "nested_fit f"
  shows "safe f (exec_call io i) (\<lambda>_. True)"
proof (cases i)
  case (BuildObject dst tmpl)
  then show ?thesis using assms
    by (auto simp: verify_ok intro!: safe_with_const safe_raise safe_bind_True safe_build_object safe_set_reg
        split: const_value.split) (blast intro: check_object_template_ok)+
next
  case (MakeFunction dst func)
  then show ?thesis using assms
    by (auto simp: verify_ok intro!: safe_with_const safe_raise safe_bind_True safe_current_scope
        safe_make_function safe_set_reg nested_fitD split: const_value.split)
next
  case (MakeAstFunction dst ast)
  then show ?thesis using assms
    by (auto simp: verify_ok intro!: safe_with_const safe_raise safe_bind_True safe_current_scope
        safe_make_ast_function safe_set_reg split: const_value.split)
next
  case (Template dst quasis args argc)
  then show ?thesis using assms
    by (auto simp: verify_ok intro!: safe_with_const safe_raise safe_bind_True safe_take_range safe_ask
        safe_set_reg split: const_value.split)
qed (use assms in \<open>auto simp: verify_ok intro!: vm_safe dest: check_spread_template_ok\<close>)

end
