(* ===== verification/Vm_Classes.thy ===== *)
theory Vm_Classes
  imports Vm_Calls
begin

text \<open>
  Class construction from templates, \<open>super\<close>, modules and block scopes, enumeration, iteration and the
  handler stack (\<open>bytecode/vm.rs\<close>), and the proof that an instruction of these groups which the
  verifier accepts is safe.
\<close>

section \<open>Class templates\<close>

function nat_decimal :: "nat \<Rightarrow> rstring" where
  "nat_decimal n = (if n < 10 then [48 + n] else nat_decimal (n div 10) @ [48 + n mod 10])"
  by pat_completeness auto
termination
  by (relation "measure (\<lambda>n. n)") auto

declare nat_decimal.simps [simp del]

definition class_key_name :: "nat \<Rightarrow> rstring" where
  "class_key_name index = ascii ''__class key '' @ nat_decimal index @ ascii ''__''"

definition class_function ::
  "('w, 'o, 's, 'e, 'ast) interp \<Rightarrow> u16 \<Rightarrow> 's \<Rightarrow> rstring option \<Rightarrow> ('w, 'o, 's, 'e, 'ast, 'o val) vm" where
  "class_function io index closure name_override =
     bindM (ask (ask_scope io) (''child'', [AScope closure])) (\<lambda>c.
       seqM (ask (ask_unit io) (''replace_strict'', [AScope c, AFlag True]))
         (with_frame (\<lambda>fr.
           case get_at (constants (fn fr)) (unat index) of
             Some (CFunction g) \<Rightarrow> make_function io g c name_override
           | Some (CAstFunction g) \<Rightarrow> make_ast_function io g c name_override
           | _ \<Rightarrow> raise (internal ''bad class function constant''))))"

definition name_value :: "class_name_template \<Rightarrow> ('w, 'o, 's, 'e, 'ast, 'o val) vm" where
  "name_value name =
     (case name of
        NameStatic n \<Rightarrow> ret (VString (from_key n))
      | NamePrivate n \<Rightarrow> ret (VString (from_key n))
      | NameComputed r \<Rightarrow> read_reg r)"

definition is_private_name :: "class_name_template \<Rightarrow> bool" where
  "is_private_name name = (case name of NamePrivate _ \<Rightarrow> True | _ \<Rightarrow> False)"

definition read_decorators :: "(reg \<times> reg option) list \<Rightarrow> ('w, 'o, 's, 'e, 'ast, ('o val \<times> 'o val) list) vm" where
  "read_decorators ds = mapM (\<lambda>(v, receiver).
     bindM (read_reg v) (\<lambda>x. bindM (read_receiver receiver) (\<lambda>y. ret (x, y)))) ds"

definition define_class_private_element ::
  "('w, 'o, 's, 'e, 'ast) interp \<Rightarrow> 's \<Rightarrow> rstring \<Rightarrow> bool \<Rightarrow> 'o val private_element \<Rightarrow> 'o class_members \<Rightarrow>
   ('w, 'o, 's, 'e, 'ast, 'o class_members) vm" where
  "define_class_private_element io scope name is_static element m = with_world (\<lambda>w.
     case private_name io scope name w of
       None \<Rightarrow> raise (Msg (ascii ''SyntaxError: private name is not declared''))
     | Some pid \<Rightarrow>
         if is_static then
           with_outcome (define_element pid element (private_statics m)) (\<lambda>ps. ret (m\<lparr>private_statics := ps\<rparr>))
         else seqM (ask (ask_unit io) (''define_private_instance_element'', [AScope scope, ASite pid, APrivate element]))
                (ret m))"

definition record_definition ::
  "'ast class_template \<Rightarrow> class_member_template \<Rightarrow> 'o val \<Rightarrow> 'o val \<Rightarrow> 'o class_members \<Rightarrow>
   ('w, 'o, 's, 'e, 'ast, 'o class_members) vm" where
  "record_definition template member property v m =
     (if has_method_decorators template then
        bindM (read_decorators (member_decorators member)) (\<lambda>ds.
          ret (m\<lparr>method_definitions := method_definitions m @
            [\<lparr>def_auto_field = auto_decorator_field member, def_kind = member_kind member, def_key = property,
              def_private = is_private_name (member_name member), def_static = member_static member,
              def_value = v, def_decorators = ds\<rparr>]\<rparr>))
      else ret m)"

definition install_method ::
  "('w, 'o, 's, 'e, 'ast) interp \<Rightarrow> 's \<Rightarrow> class_member_template \<Rightarrow> rstring \<Rightarrow> 'o val \<Rightarrow> 'o class_members \<Rightarrow>
   ('w, 'o, 's, 'e, 'ast, 'o class_members) vm" where
  "install_method io scope member key v m =
     (if is_private_name (member_name member)
      then define_class_private_element io scope key (member_static member) (Method v) m
      else if member_static member then
        ret (m\<lparr>statics := insert_class_method key v (statics m),
               static_attrs := static_attrs m @ [(key, \<lparr>writable = True, enumerable = False, configurable = True\<rparr>)]\<rparr>)
      else ret (m\<lparr>proto_props := insert_class_method key v (proto_props m)\<rparr>))"

definition with_accessor ::
  "('w, 'o, 's, 'e, 'ast) interp \<Rightarrow> rstring \<Rightarrow> 'o val \<Rightarrow> (rstring \<times> 'o val) list \<Rightarrow>
   ((rstring \<times> 'o val) list \<Rightarrow> ('w, 'o, 's, 'e, 'ast, 'a) vm) \<Rightarrow> ('w, 'o, 's, 'e, 'ast, 'a) vm" where
  "with_accessor io key v ps k =
     (case insert_class_accessor (class_accessor_kind io) key v ps of None \<Rightarrow> unreachable | Some ps \<Rightarrow> k ps)"

definition install_accessor ::
  "('w, 'o, 's, 'e, 'ast) interp \<Rightarrow> 's \<Rightarrow> class_member_template \<Rightarrow> rstring \<Rightarrow> 'o val \<Rightarrow> 'o class_members \<Rightarrow>
   ('w, 'o, 's, 'e, 'ast, 'o class_members) vm" where
  "install_accessor io scope member key v m =
     (if is_private_name (member_name member)
      then define_class_private_element io scope key (member_static member)
             (if member_kind member = MemberGetter then Accessor (Some v) None else Accessor None (Some v)) m
      else if member_static member then
        with_accessor io key v (statics m) (\<lambda>ps.
          ret (m\<lparr>statics := ps,
                 static_attrs := static_attrs m @ [(key, \<lparr>writable = False, enumerable = False, configurable = True\<rparr>)],
                 static_has_accessors := True\<rparr>))
      else with_accessor io key v (proto_props m) (\<lambda>ps. ret (m\<lparr>proto_props := ps\<rparr>)))"

definition note_key :: "class_member_template \<Rightarrow> 'o val \<Rightarrow> 'o class_members \<Rightarrow> 'o class_members" where
  "note_key member property m =
     (if is_private_name (member_name member) then m
      else if member_static member then m\<lparr>static_keys := static_keys m @ [property]\<rparr>
      else m\<lparr>proto_keys := proto_keys m @ [property]\<rparr>)"

definition display_override :: "class_name_template \<Rightarrow> string \<Rightarrow> rstring \<Rightarrow> rstring option" where
  "display_override name prefix display_name =
     (case name of NameComputed _ \<Rightarrow> Some (ascii prefix @ display_name) | _ \<Rightarrow> None)"

definition member_prefix :: "class_member_kind \<Rightarrow> string" where
  "member_prefix kind = (case kind of MemberMethod \<Rightarrow> '''' | MemberGetter \<Rightarrow> ''get '' | MemberSetter \<Rightarrow> ''set '')"

definition add_class_member ::
  "('w, 'o, 's, 'e, 'ast) interp \<Rightarrow> 'ast class_template \<Rightarrow> 's \<Rightarrow> 's \<Rightarrow> 's \<Rightarrow> class_member_template \<Rightarrow> 'o class_members \<Rightarrow>
   ('w, 'o, 's, 'e, 'ast, 'o class_members) vm" where
  "add_class_member io template scope member_closure static_closure member m =
     bindM (name_value (member_name member)) (\<lambda>property.
       seqM (case auto_accessor_storage member of
               None \<Rightarrow> ret ()
             | Some storage \<Rightarrow>
                 ask (ask_unit io) (''declare'', [AScope scope, AName storage, AVal property, AKind KindConst, AFlag True]))
       (seqM (if member_static member \<and> \<not> is_private_name (member_name member)
              then ask (ask_unit io) (''check_static_method_key'', [AVal property]) else ret ())
       (bindM (ask (ask_name io) (''property_key'', [AVal property])) (\<lambda>key.
        bindM (ask (ask_name io) (''property_function_name'', [AVal property])) (\<lambda>display_name.
          case member_func member of
            None \<Rightarrow> raise (internal (if member_kind member = MemberMethod then ''method without function''
                                    else ''accessor without function''))
          | Some func \<Rightarrow>
              bindM (class_function io func (if member_static member then static_closure else member_closure)
                       (display_override (member_name member) (member_prefix (member_kind member)) display_name)) (\<lambda>v.
              bindM (record_definition template member property v (note_key member property m)) (\<lambda>m.
                if member_kind member = MemberMethod then install_method io scope member key v m
                else install_accessor io scope member key v m)))))))"

definition strict_member_env :: "('w, 'o, 's, 'e, 'ast) interp \<Rightarrow> 's \<Rightarrow> ('w, 'o, 's, 'e, 'ast, 's) vm" where
  "strict_member_env io scope =
     bindM (ask (ask_scope io) (''member_closure_env'', [AScope scope])) (\<lambda>c.
       seqM (ask (ask_unit io) (''replace_strict'', [AScope c, AFlag True])) (ret c))"

definition empty_members :: "'ast class_template \<Rightarrow> 'o class_members" where
  "empty_members template =
     \<lparr>private_statics = [], proto_props = [], proto_keys = [], static_keys = [],
      statics = [(ascii ''name'', VString (from_str (class_name template)))],
      static_attrs = [(ascii ''name'', \<lparr>writable = False, enumerable = False, configurable = True\<rparr>)],
      static_has_accessors = False, method_definitions = []\<rparr>"

definition class_static_element ::
  "'ast class_static_template \<Rightarrow> ('w, 'o, 's, 'e, 'ast, ('o, 'ast) static_element) vm" where
  "class_static_element block =
     (case block of
        StaticBlock index \<Rightarrow> with_frame (\<lambda>fr.
          case get_at (constants (fn fr)) (unat index) of
            Some (CAstFunction g) \<Rightarrow> ret (ElementBlock (ast_body g))
          | _ \<Rightarrow> raise (internal ''bad class static block''))
      | StaticField name init \<Rightarrow>
          bindM (name_value name) (\<lambda>key. ret (ElementField key (is_private_name name) init)))"

definition class_field_definition ::
  "class_field_decorator_template \<Rightarrow> ('w, 'o, 's, 'e, 'ast, 'o field_definition) vm" where
  "class_field_definition field =
     bindM (name_value (field_name field)) (\<lambda>key. bindM (read_decorators (field_decorators_of field)) (\<lambda>ds.
       ret \<lparr>fd_key = key, fd_private = is_private_name (field_name field), fd_static = field_static field,
            fd_index = field_index field, fd_decorators = ds\<rparr>))"

definition read_option :: "reg option \<Rightarrow> ('w, 'o, 's, 'e, 'ast, 'o val option) vm" where
  "read_option x = (case x of None \<Rightarrow> ret None | Some r \<Rightarrow> bindM (read_reg r) (\<lambda>v. ret (Some v)))"

definition build_class_from_template ::
  "('w, 'o, 's, 'e, 'ast) interp \<Rightarrow> 'ast class_template \<Rightarrow> ('w, 'o, 's, 'e, 'ast, 'o val) vm" where
  "build_class_from_template io template =
     bindM (current_scope io) (\<lambda>scope.
     bindM (read_option (superclass template)) (\<lambda>parent.
     bindM (read_option (super_proto template)) (\<lambda>proto.
     bindM (strict_member_env io scope) (\<lambda>member_closure.
     bindM (strict_member_env io scope) (\<lambda>static_closure.
     bindM (foldM (add_class_member io template scope member_closure static_closure) (members template)
              (empty_members template)) (\<lambda>m.
     bindM (ask (ask_scope io) (''child'', [AScope member_closure])) (\<lambda>ctor_closure.
     seqM (mapM (\<lambda>(index, r). bindM (read_reg r) (\<lambda>key.
             ask (ask_unit io) (''scope_set'', [AScope ctor_closure, AName (class_key_name index), AVal key])))
            (enumerate 0 (ctor_computed_keys template)))
     (bindM (class_function io (ctor_func template) ctor_closure None) (\<lambda>constructor.
      bindM (mapM class_static_element (blocks template)) (\<lambda>elements.
      bindM (mapM class_field_definition (field_decorators template)) (\<lambda>fields.
      bindM (read_decorators (class_decorators template)) (\<lambda>decorators.
        ask (assemble_class io)
          \<lparr>asm_members = m, asm_field_definitions = fields, asm_decorators = decorators,
           asm_name = class_name template, asm_super_cls = parent,
           asm_super_proto = (if proto = Some Undefined then None else proto),
           asm_constructor = constructor, asm_constructor_length = ctor_length template,
           asm_static_elements = elements, asm_private_scope = scope, asm_instance_home = member_closure,
           asm_static_home = static_closure, asm_constructor_home = ctor_closure\<rparr>))))))))))))"

section \<open>Iteration and handlers\<close>

definition top_enumerator ::
  "reg \<Rightarrow> ('e \<Rightarrow> ('w, 'o, 's, 'e, 'ast, 'a) vm) \<Rightarrow> ('w, 'o, 's, 'e, 'ast, 'a) vm" where
  "top_enumerator state k = with_frame (\<lambda>fr.
     if enumerators fr = [] then raise (internal ''missing for-in enumerator'')
     else case last (enumerators fr) of (r, e) \<Rightarrow>
       if r \<noteq> state then raise (internal ''for-in enumerator mismatch'') else k e)"

text \<open>Advancing an enumerator changes it in place, whether or not the step succeeds.\<close>

definition advance ::
  "('w, 'o, 's, 'e, 'ast) interp \<Rightarrow> reg \<Rightarrow> 'e \<Rightarrow> ('w, 'o, 's, 'e, 'ast, rstring option) vm" where
  "advance io state e = (\<lambda>(w, fr). case enum_next io e w of ((r, e'), w') \<Rightarrow>
     let fr' = fr\<lparr>enumerators := butlast (enumerators fr) @ [(state, e')]\<rparr>
     in (case r of Inl err \<Rightarrow> Inl (Raised err) | Inr key \<Rightarrow> Inr key, (w', fr')))"

definition exec_enum_next ::
  "('w, 'o, 's, 'e, 'ast) interp \<Rightarrow> reg \<Rightarrow> reg \<Rightarrow> reg \<Rightarrow> ('w, 'o, 's, 'e, 'ast, unit) vm" where
  "exec_enum_next io state dst finished = top_enumerator state (\<lambda>e.
     bindM (advance io state e) (\<lambda>key.
       seqM (set_reg finished (VBool (key = None)))
         (set_reg dst (case key of None \<Rightarrow> Undefined | Some k \<Rightarrow> VString (from_key k)))))"

text \<open>The entry is popped before it is compared.\<close>

definition exec_enum_end :: "reg \<Rightarrow> ('w, 'o, 's, 'e, 'ast, unit) vm" where
  "exec_enum_end state = with_frame (\<lambda>fr.
     if enumerators fr = [] then raise (internal ''missing for-in enumerator'')
     else seqM (modify_frame (\<lambda>fr. fr\<lparr>enumerators := butlast (enumerators fr)\<rparr>))
       (if fst (last (enumerators fr)) \<noteq> state then raise (internal ''for-in enumerator mismatch'') else ret ()))"

definition exec_for_of_init ::
  "('w, 'o, 's, 'e, 'ast) interp \<Rightarrow> reg \<Rightarrow> reg \<Rightarrow> reg \<Rightarrow> ('w, 'o, 's, 'e, 'ast, unit) vm" where
  "exec_for_of_init io iter nxt src = bindM (read_reg src) (\<lambda>v.
     bindM (ask (ask_val io) (''iterator_for'', [AVal v])) (\<lambda>iterator.
       bindM (ask (ask_val io) (''member'', [AVal iterator, AName (ascii ''next'')])) (\<lambda>next_fn.
         if next_fn = Undefined then raise (Msg (ascii ''TypeError: iterator has no next() method''))
         else seqM (set_reg iter iterator) (set_reg nxt next_fn))))"

definition exec_iter_next ::
  "('w, 'o, 's, 'e, 'ast) interp \<Rightarrow> reg \<Rightarrow> reg \<Rightarrow> reg \<Rightarrow> reg \<Rightarrow> ('w, 'o, 's, 'e, 'ast, unit) vm" where
  "exec_iter_next io finished val iter nxt = bindM (read_reg iter) (\<lambda>iterator. bindM (read_reg nxt) (\<lambda>next_fn.
     bindM (ask (ask_val io) (''call_this'', [AVal next_fn, AVal iterator, AVals []])) (\<lambda>result.
       bindM (ask (ask_pair io) (''iterator_result_fields'', [AVal result])) (\<lambda>(stop, produced).
         seqM (set_reg finished stop) (set_reg val produced)))))"

definition exec_close_iterator ::
  "('w, 'o, 's, 'e, 'ast) interp \<Rightarrow> reg \<Rightarrow> bool \<Rightarrow> ('w, 'o, 's, 'e, 'ast, unit) vm" where
  "exec_close_iterator io src unwind = bindM (read_reg src) (\<lambda>iterator.
     if unwind then with_frame (\<lambda>fr.
       if pending fr = [] then raise (internal ''iterator unwind without a pending completion'')
       else ask (ask_unit io) (''close_guest_iterator_for_abrupt'', [AVal iterator, AFlag False, AErr (last (pending fr))]))
     else ask (ask_unit io) (''close_guest_iterator'', [AVal iterator, AFlag False]))"

definition push_handler :: "target \<Rightarrow> reg \<Rightarrow> bool \<Rightarrow> ('w, 'o, 's, 'e, 'ast, unit) vm" where
  "push_handler t dst returns = modify_frame (\<lambda>fr. fr\<lparr>handlers := handlers fr @
     [\<lparr>h_target = t, h_dst = dst, catch_returns = returns, scope_depth = length (scopes fr),
       pending_depth = length (pending fr), enumerator_depth = length (enumerators fr)\<rparr>]\<rparr>)"

fun exec_loop :: "('w, 'o, 's, 'e, 'ast) interp \<Rightarrow> loop_instr \<Rightarrow> ('w, 'o, 's, 'e, 'ast, unit) vm" where
  "exec_loop io (EnumKeys dst src) = bindM (read_reg src) (\<lambda>v. bindM (ask (enum_new io) v) (\<lambda>e.
     modify_frame (\<lambda>fr. fr\<lparr>enumerators := enumerators fr @ [(dst, e)]\<rparr>)))"
| "exec_loop io (EnumNext state dst finished) = exec_enum_next io state dst finished"
| "exec_loop io (EnumEnd state) = exec_enum_end state"
| "exec_loop io (ForOfInit iter nxt src) = exec_for_of_init io iter nxt src"
| "exec_loop io (IterNext finished val iter nxt) = exec_iter_next io finished val iter nxt"
| "exec_loop io (CloseIterator src unwind) = exec_close_iterator io src unwind"
| "exec_loop io (PushCatch t dst) = push_handler t dst False"
| "exec_loop io (PushFinally t dst) = push_handler t dst True"
| "exec_loop io PopHandler = with_frame (\<lambda>fr.
     if handlers fr = [] then raise (internal ''handler stack underflow'')
     else modify_frame (\<lambda>fr. fr\<lparr>handlers := butlast (handlers fr)\<rparr>))"
| "exec_loop io PopPending = with_frame (\<lambda>fr.
     if pending fr = [] then raise (internal ''pending completion stack underflow'')
     else modify_frame (\<lambda>fr. fr\<lparr>pending := butlast (pending fr)\<rparr>))"
| "exec_loop io Rethrow = with_frame (\<lambda>fr.
     if pending fr = [] then raise (internal ''rethrow without a pending error'')
     else seqM (modify_frame (\<lambda>fr. fr\<lparr>pending := butlast (pending fr)\<rparr>)) (raise (last (pending fr))))"

section \<open>Classes, modules and scopes\<close>

definition push_scope :: "'s \<Rightarrow> ('w, 'o, 's, 'e, 'ast, unit) vm" where
  "push_scope sc = modify_frame (\<lambda>fr. fr\<lparr>scopes := scopes fr @ [sc]\<rparr>)"

definition super_reference ::
  "('w, 'o, 's, 'e, 'ast) interp \<Rightarrow> reg \<Rightarrow> ('w, 'o, 's, 'e, 'ast, 'o val \<times> 'o val \<times> 'o val) vm" where
  "super_reference io src = bindM (read_reg src) (\<lambda>key. bindM (current_scope io) (\<lambda>sc.
     ask (ask_triple io) (''super_reference'', [AScope sc, AVal key])))"

definition exec_class_scope ::
  "('w, 'o, 's, 'e, 'ast) interp \<Rightarrow> u16 option \<Rightarrow> ('w, 'o, 's, 'e, 'ast, unit) vm" where
  "exec_class_scope io name =
     bindM (case name of None \<Rightarrow> ret [] | Some n \<Rightarrow> const_string n) (\<lambda>n. bindM (current_scope io) (\<lambda>sc.
       bindM (ask (ask_scope io) (''class_environment'', [AScope sc, AName n])) push_scope))"

fun exec_class :: "('w, 'o, 's, 'e, 'ast) interp \<Rightarrow> class_instr \<Rightarrow> ('w, 'o, 's, 'e, 'ast, unit) vm" where
  "exec_class io (SuperMember dst key) = bindM (super_reference io key) (\<lambda>(base, receiver, k).
     bindM (ask (ask_val io) (''get_prop_value_with_receiver'', [AVal base, AVal k, AVal receiver])) (set_reg dst))"
| "exec_class io (SuperReference base receiver key src) = bindM (super_reference io src) (\<lambda>(b, r, k).
     seqM (set_reg base b) (seqM (set_reg receiver r) (set_reg key k)))"
| "exec_class io (GetPropertyWithReceiver dst base receiver key) =
     bindM (read_reg base) (\<lambda>b. bindM (read_reg key) (\<lambda>k. bindM (read_reg receiver) (\<lambda>r.
       bindM (ask (ask_val io) (''get_prop_value_with_receiver'', [AVal b, AVal k, AVal r])) (set_reg dst))))"
| "exec_class io (SetPropertyWithReceiver base receiver key val) =
     bindM (read_reg base) (\<lambda>b. bindM (read_reg key) (\<lambda>k. bindM (read_reg val) (\<lambda>v. bindM (read_reg receiver) (\<lambda>r.
       bindM (current_scope io) (\<lambda>sc. bindM (ask (ask_bool io) (''strict'', [AScope sc])) (\<lambda>strict.
         ask (ask_unit io) (''assign_property_with_receiver'', [AVal b, AVal k, AVal v, AVal r, AFlag strict])))))))"
| "exec_class io (NumericUpdate previous updated src increment) = bindM (read_reg src) (\<lambda>v.
     bindM (ask (ask_pair io) (''numeric_update'', [AVal v, AFlag increment])) (\<lambda>(p, u).
       seqM (set_reg previous p) (set_reg updated u)))"
| "exec_class io (SuperConstructor dst) = bindM (current_scope io) (\<lambda>sc.
     bindM (ask (ask_val io) (''super_constructor'', [AScope sc])) (set_reg dst))"
| "exec_class io (SuperCall dst callee args argc) = bindM (read_reg callee) (\<lambda>t.
     bindM (take_range ''operand range out of bounds'' args argc) (\<lambda>argv.
       bindM (ask (ask_val io) (''invoke_ctor'', [AVal t, AVal Undefined, AVals argv])) (set_reg dst)))"
| "exec_class io (SuperCallSpread dst callee tmpl) = bindM (read_reg callee) (\<lambda>t.
     spread_template tmpl (\<lambda>es. bindM (spread_argv io es) (\<lambda>argv.
       bindM (ask (ask_val io) (''invoke_ctor'', [AVal t, AVal Undefined, AVals argv])) (set_reg dst))))"
| "exec_class io (Raise msg) = bindM (const_string msg) (\<lambda>m. raise (Msg m))"
| "exec_class io (BuildClass dst tmpl) = with_const tmpl (\<lambda>c.
     case c of
       CClassTemplate template \<Rightarrow> bindM (build_class_from_template io template) (set_reg dst)
     | _ \<Rightarrow> raise (internal ''bad class template''))"
| "exec_class io (PropertyKey dst src) = bindM (read_reg src) (\<lambda>v.
     bindM (ask (ask_val io) (''ecmascript_to_property_key'', [AVal v])) (set_reg dst))"
| "exec_class io (InferName dst key) = bindM (read_reg key) (\<lambda>k. bindM (read_reg dst) (\<lambda>v.
     bindM (ask (ask_val io) (''apply_inferred_name'', [AVal v, AVal k])) (set_reg dst)))"
| "exec_class io (ClassScope name) = exec_class_scope io name"
| "exec_class io (ClassPrivateEnvironment names) = with_const names (\<lambda>c.
     case c of
       CStringList ns \<Rightarrow> bindM (current_scope io) (\<lambda>sc.
         ask (ask_unit io) (''declare_private_declarations'', [AScope sc, AStrings ns]))
     | _ \<Rightarrow> raise (internal ''bad private declaration list''))"
| "exec_class io (ClassHeritage dst parent) = bindM (read_reg parent) (\<lambda>v.
     bindM (ask (ask_opt io) (''super_proto_for'', [AVal v])) (\<lambda>p.
       set_reg dst (case p of Some p \<Rightarrow> p | None \<Rightarrow> Undefined)))"
| "exec_class io (PrivateIn dst obj name) = bindM (const_string name) (\<lambda>n. bindM (current_scope io) (\<lambda>sc.
     bindM (read_reg obj) (\<lambda>v.
       bindM (ask (ask_val io) (''has_private_member_in'', [AScope sc, AVal v, AName n])) (set_reg dst))))"
| "exec_class io (Import tmpl) = with_const tmpl (\<lambda>c.
     case c of
       CImportTemplate t \<Rightarrow> ask (ask_unit io) (''stmt_import'', [AImport t])
     | _ \<Rightarrow> raise (internal ''bad import template''))"
| "exec_class io (ExportDefault src) = bindM (read_reg src) (\<lambda>v. ask (ask_unit io) (''stmt_export_default'', [AVal v]))"
| "exec_class io (ExportNamed tmpl) = with_const tmpl (\<lambda>c.
     case c of
       CExportNamedTemplate t \<Rightarrow> ask (ask_unit io) (''stmt_export_named'', [AExport t])
     | _ \<Rightarrow> raise (internal ''bad export template''))"
| "exec_class io (ExportAll tmpl) = with_const tmpl (\<lambda>c.
     case c of
       CExportAllTemplate t \<Rightarrow> ask (ask_unit io) (''stmt_export_all'', [AExportAll t])
     | _ \<Rightarrow> raise (internal ''bad export template''))"
| "exec_class io (DynamicImport dst src) = bindM (read_reg src) (\<lambda>v.
     bindM (ask (ask_val io) (''eval_dynamic_import'', [AVal v])) (set_reg dst))"
| "exec_class io (Await dst src) = bindM (read_reg src) (\<lambda>v.
     bindM (ask (ask_val io) (''perform_await'', [AVal v])) (set_reg dst))"
| "exec_class io (NewTarget dst) = bindM (ask (ask_opt io) (''new_target'', [])) (\<lambda>v.
     case v of
       None \<Rightarrow> raise (Msg (ascii ''SyntaxError: new.target outside a function''))
     | Some v \<Rightarrow> set_reg dst v)"
| "exec_class io (ImportMeta dst) = bindM (ask (ask_val io) (''eval_import_meta'', [])) (set_reg dst)"
| "exec_class io PushScope = bindM (current_scope io) (\<lambda>sc.
     bindM (ask (ask_scope io) (''child'', [AScope sc])) push_scope)"
| "exec_class io PopScope = with_frame (\<lambda>fr.
     if scopes fr = [] then raise (internal ''scope stack underflow'')
     else modify_frame (\<lambda>fr. fr\<lparr>scopes := butlast (scopes fr)\<rparr>))"

section \<open>Safety\<close>

lemma safe_name_value [vm_safe]:
  "(\<And>r. name = NameComputed r \<Longrightarrow> r < register_count f) \<Longrightarrow> safe f (name_value name) (\<lambda>_. True)"
  unfolding name_value_def by (cases name) (auto intro!: vm_safe)

lemma safe_read_option [vm_safe]:
  "(\<And>r. x = Some r \<Longrightarrow> r < register_count f) \<Longrightarrow> safe f (read_option x) (\<lambda>_. True)"
  unfolding read_option_def by (intro vm_safe TrueI)

lemma safe_read_decorators [vm_safe]:
  "(\<And>d. d \<in> set ds \<Longrightarrow> check_decorator f a d = Inr ()) \<Longrightarrow> safe f (read_decorators ds) (\<lambda>_. True)"
  unfolding read_decorators_def by (intro vm_safe TrueI) (auto simp: verify_ok)

lemma define_element_total: "define_element name element ds \<noteq> Inl Panicked"
proof (cases "map_of ds name")
  case (Some old)
  then show ?thesis
    by (cases "(old, element)" rule: merge_element.cases) (simp_all add: define_element_def duplicate_private_def)
qed (simp add: define_element_def)

lemma safe_class_private [vm_safe]: "safe f (define_class_private_element io sc name st el m) (\<lambda>_. True)"
  unfolding define_class_private_element_def by (intro vm_safe TrueI define_element_total)

lemma safe_record_definition [vm_safe]:
  "(\<And>d. d \<in> set (member_decorators member) \<Longrightarrow> check_decorator f a d = Inr ()) \<Longrightarrow>
   safe f (record_definition template member property v m) (\<lambda>_. True)"
  unfolding record_definition_def by (intro vm_safe TrueI)

lemma safe_install_method [vm_safe]: "safe f (install_method io sc member key v m) (\<lambda>_. True)"
  unfolding install_method_def by (intro vm_safe TrueI)

lemma safe_install_accessor [vm_safe]: "safe f (install_accessor io sc member key v m) (\<lambda>_. True)"
  unfolding install_accessor_def with_accessor_def by (intro vm_safe TrueI)

lemma safe_class_function [vm_safe]:
  assumes "nested_fit f"
  shows "safe f (class_function io index closure name) (\<lambda>_. True)"
proof -
  have "safe f (with_frame (\<lambda>fr. case get_at (constants (fn fr)) (unat index) of
      Some (CFunction g) \<Rightarrow> make_function io g c name
    | Some (CAstFunction g) \<Rightarrow> make_ast_function io g c name
    | _ \<Rightarrow> raise (internal ''bad class function constant''))) (\<lambda>_. True)" for c
    by (rule safe_with_frame)
       (auto simp: frame_okD intro!: safe_raise safe_make_function safe_make_ast_function nested_fitD [OF assms]
         split: option.split const_value.split dest!: get_at_SomeD)
  then show ?thesis unfolding class_function_def by (intro safe_bind_True safe_seq safe_ask)
qed

lemma safe_add_class_member [vm_safe]:
  assumes "nested_fit f" "check_member f a template (n, member) = Inr ()"
  shows "safe f (add_class_member io t sc mc st member m) (\<lambda>_. True)"
proof -
  have name: "member_name member = NameComputed r \<Longrightarrow> r < register_count f" for r
    using assms(2) by (simp add: check_member_def verify_ok)
  have decorators: "d \<in> set (member_decorators member) \<Longrightarrow> check_decorator f a d = Inr ()" for d
    using assms(2) by (simp add: check_member_def verify_ok)
  show ?thesis unfolding add_class_member_def
    by (intro vm_safe assms(1) TrueI) (rule name decorators, assumption)+
qed

lemma safe_class_static_element [vm_safe]:
  "check_static_element f a block = Inr () \<Longrightarrow> safe f (class_static_element block) (\<lambda>_. True)"
  by (cases block)
     (auto simp: class_static_element_def check_static_element_def verify_ok
       intro!: safe_bind_True safe_name_value safe_ret safe_with_frame safe_raise
       split: option.split const_value.split)

lemma safe_class_field_definition [vm_safe]:
  assumes "check_field_decorator f a field = Inr ()"
  shows "safe f (class_field_definition field) (\<lambda>_. True)"
  using assms unfolding class_field_definition_def check_field_decorator_def
  by (intro vm_safe TrueI) (auto simp: verify_ok)

lemma safe_strict_member_env [vm_safe]: "safe f (strict_member_env io sc) (\<lambda>_. True)"
  unfolding strict_member_env_def by (intro vm_safe TrueI)

lemma safe_build_class:
  assumes fit: "nested_fit f" and checked: "check_class_template f a tmpl = Inr ()"
    and at: "constants f ! unat tmpl = CClassTemplate template"
  shows "safe f (build_class_from_template io template) (\<lambda>_. True)"
proof -
  note parts = checked [unfolded check_class_template_def bind_outcome_Inr_iff at const_value.case, simplified verify_ok]
  have members: "safe f (add_class_member io template sc mc st member m) (\<lambda>_. True)"
    if "member \<in> set (members template)" for sc mc st member m
  proof -
    obtain n where "n < length (members template)" "members template ! n = member"
      using \<open>member \<in> set (members template)\<close> by (auto simp: in_set_conv_nth)
    then have "(n, member) \<in> set (enumerate 0 (members template))" by (force simp: in_set_enumerate_eq)
    then have "check_member f a template (n, member) = Inr ()" using parts by (auto simp: verify_ok)
    then show ?thesis by (rule safe_add_class_member [OF fit])
  qed
  have keys: "r < register_count f" if "(i, r) \<in> set (enumerate 0 (ctor_computed_keys template))" for i r
  proof -
    have "r \<in> set (ctor_computed_keys template)" using that by (auto simp: in_set_enumerate_eq)
    then show ?thesis using parts by (auto simp: verify_ok)
  qed
  have statics: "safe f (mapM class_static_element (blocks template)) (\<lambda>_. True)"
    by (rule safe_mapM, rule safe_class_static_element) (use parts in \<open>auto simp: verify_ok\<close>)
  have fields: "safe f (mapM class_field_definition (field_decorators template)) (\<lambda>_. True)"
    by (rule safe_mapM, rule safe_class_field_definition) (use parts in \<open>auto simp: verify_ok\<close>)
  have decorators: "safe f (read_decorators (class_decorators template)) (\<lambda>_. True)"
    by (rule safe_read_decorators) (use parts in \<open>auto simp: verify_ok\<close>)
  have parents: "safe f (read_option (superclass template)) (\<lambda>_. True)"
    "safe f (read_option (super_proto template)) (\<lambda>_. True)"
    by (rule safe_read_option; use parts in \<open>auto simp: verify_ok\<close>)+
  have "safe f (mapM (\<lambda>(index, r). bindM (read_reg r) (\<lambda>key.
      ask (ask_unit io) (''scope_set'', [AScope c, AName (class_key_name index), AVal key])))
      (enumerate 0 (ctor_computed_keys template))) (\<lambda>_. True)" for c
    by (rule safe_mapM) (auto intro!: safe_bind_True safe_read_reg safe_ask dest: keys)
  then show ?thesis unfolding build_class_from_template_def
    by (intro safe_bind_True safe_seq safe_ask safe_current_scope parents safe_strict_member_env
        safe_foldM_True members safe_class_function fit statics fields decorators)
qed

lemma safe_top_enumerator [vm_safe]: "(\<And>e. safe f (k e) Q) \<Longrightarrow> safe f (top_enumerator state k) Q"
  unfolding top_enumerator_def by (intro vm_safe)

lemma safe_advance [vm_safe]: "safe f (advance io state e) (\<lambda>_. True)"
  by (rule safeI) (auto simp: advance_def Let_def split: prod.splits sum.splits)

lemma safe_exec_enum_next [vm_safe]:
  "dst < register_count f \<Longrightarrow> done < register_count f \<Longrightarrow> safe f (exec_enum_next io state dst done) (\<lambda>_. True)"
  unfolding exec_enum_next_def by (intro vm_safe)

lemma safe_exec_enum_end [vm_safe]: "safe f (exec_enum_end state) (\<lambda>_. True)"
  unfolding exec_enum_end_def by (intro vm_safe TrueI) simp_all

lemma safe_exec_for_of_init [vm_safe]:
  "iter < register_count f \<Longrightarrow> nxt < register_count f \<Longrightarrow> src < register_count f \<Longrightarrow>
   safe f (exec_for_of_init io iter nxt src) (\<lambda>_. True)"
  unfolding exec_for_of_init_def by (intro vm_safe)

lemma safe_exec_iter_next [vm_safe]:
  "fin < register_count f \<Longrightarrow> val < register_count f \<Longrightarrow> iter < register_count f \<Longrightarrow> nxt < register_count f \<Longrightarrow>
   safe f (exec_iter_next io fin val iter nxt) (\<lambda>_. True)"
  unfolding exec_iter_next_def by (intro vm_safe)

lemma safe_exec_close_iterator [vm_safe]:
  "src < register_count f \<Longrightarrow> safe f (exec_close_iterator io src unwind) (\<lambda>_. True)"
  unfolding exec_close_iterator_def by (intro vm_safe)

lemma safe_push_handler [vm_safe]:
  "unat t \<le> length (code f) \<Longrightarrow> dst < register_count f \<Longrightarrow> safe f (push_handler t dst returns) (\<lambda>_. True)"
  unfolding push_handler_def by (intro vm_safe) (simp add: frame_ok_def handler_ok_def)

lemma frame_ok_pop_handler: "frame_ok f fr \<Longrightarrow> frame_ok f (fr\<lparr>handlers := butlast (handlers fr)\<rparr>)"
  by (auto simp: frame_ok_def list_all_iff dest: in_set_butlastD)

lemma safe_exec_loop:
  assumes "check_loop f a i = Inr ()"
  shows "safe f (exec_loop io i) (\<lambda>_. True)"
  using assms by (cases i) (auto simp: verify_ok frame_ok_pop_handler intro!: vm_safe)

lemma safe_push_scope [vm_safe]: "safe f (push_scope sc) (\<lambda>_. True)"
  unfolding push_scope_def by (intro vm_safe) simp

lemma safe_super_reference [vm_safe]: "r < register_count f \<Longrightarrow> safe f (super_reference io r) (\<lambda>_. True)"
  unfolding super_reference_def by (intro vm_safe)

lemma safe_exec_class_scope [vm_safe]: "safe f (exec_class_scope io name) (\<lambda>_. True)"
  unfolding exec_class_scope_def by (intro vm_safe TrueI)

lemma safe_exec_class:
  assumes "check_class f a i = Inr ()" "nested_fit f"
  shows "safe f (exec_class io i) (\<lambda>_. True)"
proof (cases i)
  case (BuildClass dst tmpl)
  have "safe f (build_class_from_template io template) (\<lambda>_. True)" if "constants f ! unat tmpl = CClassTemplate template" for template
    using assms BuildClass that by (auto simp: verify_ok intro: safe_build_class)
  moreover have "unat tmpl < length (constants f)" "dst < register_count f"
    using assms BuildClass by (auto simp: check_class_template_def bind_outcome_Inr_iff verify_ok)
  ultimately show ?thesis using BuildClass
    by (auto intro!: safe_with_const safe_raise safe_bind_True safe_set_reg split: const_value.split)
next
  case (ClassPrivateEnvironment names)
  then show ?thesis using assms
    by (auto simp: verify_ok intro!: safe_with_const safe_raise safe_bind_True safe_current_scope safe_ask
        split: const_value.split)
next
  case (Import tmpl)
  then show ?thesis using assms
    by (auto simp: verify_ok intro!: safe_with_const safe_raise safe_ask split: const_value.split)
next
  case (ExportNamed tmpl)
  then show ?thesis using assms
    by (auto simp: verify_ok intro!: safe_with_const safe_raise safe_ask split: const_value.split)
next
  case (ExportAll tmpl)
  then show ?thesis using assms
    by (auto simp: verify_ok intro!: safe_with_const safe_raise safe_ask split: const_value.split)
qed (use assms in \<open>auto simp: verify_ok intro!: vm_safe dest: check_spread_template_ok\<close>)

end
