(* ===== verification/Vm_Run.thy ===== *)
theory Vm_Run
  imports Vm_Classes
begin

text \<open>
  The run loop of the register machine (\<open>bytecode/vm.rs\<close>): one instruction, handler landing, the
  loop with a step bound, and the set-up and recycling of call frames. The theorems show that a
  verified function never leaves its tables, how errors reach handlers, that tail-call detection is
  sound, and that a recycled frame is as good as a new one.
\<close>

section \<open>Execution\<close>

fun exec_instr :: "('w, 'o, 's, 'e, 'ast) interp \<Rightarrow> instr \<Rightarrow> ('w, 'o, 's, 'e, 'ast, unit) vm" where
  "exec_instr io (IMove i) = exec_move io i"
| "exec_instr io (IOp i) = exec_op io i"
| "exec_instr io (IFlow i) = exec_flow io i"
| "exec_instr io (ICall i) = exec_call io i"
| "exec_instr io (ILoop i) = exec_loop io i"
| "exec_instr io (IClass i) = exec_class io i"

definition execute_instruction ::
  "('w, 'o, 's, 'e, 'ast) interp \<Rightarrow> instr \<Rightarrow> ('w, 'o, 's, 'e, 'ast, unit) vm" where
  "execute_instruction io i =
     seqM (ask (ask_unit io) (''consume_fuel'', [ANat (cost i)]))
       (seqM (modify_frame (\<lambda>fr. fr\<lparr>ip := ip fr + 1\<rparr>)) (exec_instr io i))"

fun is_abandon :: "'o vm_err \<Rightarrow> bool" where
  "is_abandon Abandon = True"
| "is_abandon _ = False"

fun catchable :: "'o vm_err \<Rightarrow> bool" where
  "catchable (Thrown _) = True"
| "catchable (Msg _) = True"
| "catchable (RuntimeError _) = True"
| "catchable (Ret _) = True"
| "catchable _ = False"

fun is_return :: "'o vm_err \<Rightarrow> bool" where
  "is_return (Ret _) = True"
| "is_return _ = False"

text \<open>The handler that takes the error, with the handlers left below it; the stack is read from its
  top.\<close>

fun take_handler :: "bool \<Rightarrow> handler_entry list \<Rightarrow> (handler_entry \<times> handler_entry list) option" where
  "take_handler returning [] = None"
| "take_handler returning (h # hs) =
     (if returning \<and> \<not> catch_returns h then take_handler returning hs else Some (h, hs))"

fun handler_value :: "('w, 'o, 's, 'e, 'ast) interp \<Rightarrow> 'o vm_err \<Rightarrow> ('w, 'o, 's, 'e, 'ast, 'o val) vm" where
  "handler_value io (Thrown v) = ret v"
| "handler_value io (Msg m) = ask (ask_val io) (''error_value_with_stack'', [AName m])"
| "handler_value io (RuntimeError m) = ask (ask_val io) (''guest_value'', [AErr (RuntimeError m)])"
| "handler_value io (Ret _) = ret Undefined"
| "handler_value io _ = unreachable"

definition enter_handler :: "handler_entry \<Rightarrow> 'o vm_err \<Rightarrow> ('o, 's, 'e, 'ast) call_frame \<Rightarrow> ('o, 's, 'e, 'ast) call_frame" where
  "enter_handler h error fr =
     fr\<lparr>pending := take (pending_depth h) (pending fr) @ (if catch_returns h then [error] else []),
        enumerators := take (enumerator_depth h) (enumerators fr),
        scopes := take (scope_depth h) (scopes fr),
        ip := unat (h_target h)\<rparr>"

definition land_handler ::
  "('w, 'o, 's, 'e, 'ast) interp \<Rightarrow> 'o vm_err \<Rightarrow> ('w, 'o, 's, 'e, 'ast, unit) vm" where
  "land_handler io error =
     (if is_abandon error then raise error
      else if \<not> catchable error then raise error
      else with_frame (\<lambda>fr.
        case take_handler (is_return error) (rev (handlers fr)) of
          None \<Rightarrow> seqM (modify_frame (\<lambda>fr. fr\<lparr>handlers := []\<rparr>)) (raise error)
        | Some (h, below) \<Rightarrow>
            seqM (modify_frame (\<lambda>fr. fr\<lparr>handlers := rev below\<rparr>))
              (bindM (handler_value io error) (\<lambda>v.
                seqM (set_reg (h_dst h) v) (modify_frame (enter_handler h error))))))"

text \<open>One turn of the loop; \<open>Some\<close> when the loop is left.\<close>

definition vm_step ::
  "('w, 'o, 's, 'e, 'ast) interp \<Rightarrow> bool \<Rightarrow> ('w, 'o, 's, 'e, 'ast) machine \<Rightarrow>
   ('o fault + 'o val) option \<times> ('w, 'o, 's, 'e, 'ast) machine" where
  "vm_step io top_level = (\<lambda>(w, fr).
     case get_at (code (fn fr)) (ip fr) of
       None \<Rightarrow>
         if ip fr = length (code (fn fr)) then
           (Some (Inr (if top_level then (case registers fr of [] \<Rightarrow> Undefined | r # _ \<Rightarrow> r) else Undefined)), (w, fr))
         else (Some (Inl (Raised (internal ''instruction pointer out of bounds''))), (w, fr))
     | Some i \<Rightarrow>
         (case execute_instruction io i (w, fr) of
            (Inr _, s) \<Rightarrow> (None, s)
          | (Inl (Raised e), s) \<Rightarrow>
              (case land_handler io e s of
                 (Inr _, s') \<Rightarrow> (None, s')
               | (Inl e', s') \<Rightarrow> (Some (Inl e'), s'))
          | (Inl p, s) \<Rightarrow> (Some (Inl p), s)))"

fun run_loop ::
  "('w, 'o, 's, 'e, 'ast) interp \<Rightarrow> bool \<Rightarrow> nat \<Rightarrow> ('w, 'o, 's, 'e, 'ast) machine \<Rightarrow>
   ('o fault + 'o val) option \<times> ('w, 'o, 's, 'e, 'ast) machine" where
  "run_loop io top_level 0 s = (None, s)"
| "run_loop io top_level (Suc n) s =
     (case vm_step io top_level s of
        (Some r, s') \<Rightarrow> (Some r, s')
      | (None, s') \<Rightarrow> run_loop io top_level n s')"

section \<open>Call frames\<close>

record ('o, 's, 'e) activation_buffers =
  buf_registers :: "'o val list"
  buf_slots :: "'o run_slot list"
  buf_handlers :: "handler_entry list"
  buf_pending :: "'o vm_err list"
  buf_enumerators :: "(reg \<times> 'e) list"
  buf_scopes :: "'s list"

definition default_buffers :: "('o, 's, 'e) activation_buffers" where
  "default_buffers = \<lparr>buf_registers = [], buf_slots = [], buf_handlers = [], buf_pending = [],
     buf_enumerators = [], buf_scopes = []\<rparr>"

definition resize_registers :: "nat \<Rightarrow> 'o val list \<Rightarrow> 'o val list" where
  "resize_registers n rs = take n rs @ replicate (n - length rs) Undefined"

definition initial_slot :: "'ast bytecode_function \<Rightarrow> 'o val list \<Rightarrow> nat \<times> slot_info \<Rightarrow> 'o run_slot" where
  "initial_slot f args = (\<lambda>(index, info).
     if slot_captured info then \<lparr>run_value = Undefined, run_initialized = False, run_kind = slot_kind_of info\<rparr>
     else if index < unat (parameter_count f) \<and> slot_kind_of info = KindVar then
       \<lparr>run_value = (case get_at args index of Some v \<Rightarrow> v | None \<Rightarrow> Undefined), run_initialized = True,
        run_kind = slot_kind_of info\<rparr>
     else if slot_kind_of info = KindVar then
       \<lparr>run_value = Undefined, run_initialized = True, run_kind = slot_kind_of info\<rparr>
     else \<lparr>run_value = Undefined, run_initialized = False, run_kind = slot_kind_of info\<rparr>)"

text \<open>\<open>pool.pop().unwrap_or_default()\<close> and the frame over those buffers; the second component is the
  pool left.\<close>

definition setup_frame ::
  "('o, 's, 'e) activation_buffers list \<Rightarrow> 'ast bytecode_function \<Rightarrow> 'o val \<Rightarrow> 'o val list \<Rightarrow>
   ('o, 's, 'e, 'ast) call_frame \<times> ('o, 's, 'e) activation_buffers list" where
  "setup_frame pool f this args =
     (let b = (if pool = [] then default_buffers else last pool)
      in (\<lparr>fn = f, ip = 0,
           registers = resize_registers (unat (register_count f)) (buf_registers b),
           frame_slots = buf_slots b @ map (initial_slot f args) (enumerate 0 (function_slots f)),
           this_value = this, handlers = buf_handlers b, pending = buf_pending b,
           enumerators = buf_enumerators b, scopes = buf_scopes b\<rparr>, butlast pool))"

text \<open>\<open>small\<close> stands for the capacity tests, which depend on the allocator.\<close>

definition recycle_activation ::
  "bool \<Rightarrow> ('o, 's, 'e, 'ast) call_frame \<Rightarrow> ('o, 's, 'e) activation_buffers list \<Rightarrow>
   ('o, 's, 'e) activation_buffers list" where
  "recycle_activation small fr pool =
     (if length pool < 16 \<and> small then
        pool @ [\<lparr>buf_registers = map (\<lambda>_. Undefined) (registers fr), buf_slots = [], buf_handlers = [],
                 buf_pending = [], buf_enumerators = [], buf_scopes = []\<rparr>]
      else pool)"

text \<open>The life of a pool while functions of a program run: frames are set up from it and recycled
  into it in any order, whatever they hold at the end.\<close>

inductive pool_reachable :: "'ast bytecode_function set \<Rightarrow> ('o, 's, 'e) activation_buffers list \<Rightarrow> bool"
  for fs :: "'ast bytecode_function set" where
  pool_empty: "pool_reachable fs []"
| pool_setup: "pool_reachable fs pool \<Longrightarrow> f \<in> fs \<Longrightarrow> setup_frame pool f this args = (fr, pool') \<Longrightarrow>
    pool_reachable fs pool'"
| pool_recycle: "pool_reachable fs pool \<Longrightarrow> fn fr \<in> fs \<Longrightarrow> pool_reachable fs (recycle_activation small fr pool)"

section \<open>Verified functions are safe\<close>

text \<open>Every instruction of a verified function, run from a frame of it, leaves such a frame and never
  panics on an index.\<close>

lemma verified_tables:
  assumes "verify_function f = Inr ()"
  shows "slots_named f" and "params_fit f"
  using assms [THEN verify_function_ok [THEN iffD1], THEN conjunct1]
  by (auto simp: check_tables_def slots_named_def params_fit_def word_le_nat_alt not_less split: if_splits)

lemma verified_nested: "verify_function f = Inr () \<Longrightarrow> nested_fit f"
  unfolding nested_fit_def using verified_tables(2) verify_function_ok by blast

lemma safe_exec_instr:
  assumes "verify_function f = Inr ()" "a < length (code f)"
  shows "safe f (exec_instr io (code f ! a)) (\<lambda>_. True)"
proof -
  have check: "check_instr f a (code f ! a) = Inr ()" using assms verify_function_ok by blast
  show ?thesis
    using check verified_tables [OF assms(1)] verified_nested [OF assms(1)]
    by (cases "code f ! a")
       (auto intro: safe_exec_move safe_exec_op safe_exec_flow safe_exec_call safe_exec_loop safe_exec_class)
qed

lemma seqM_run:
  "seqM m k s = (case m s of (Inl e, s') \<Rightarrow> (Inl e, s') | (Inr _, s') \<Rightarrow> k s')"
  by (simp add: seqM_def bindM_def)

lemma ask_keeps_frame: "\<exists>r w'. ask h q (w, fr) = (r, (w', fr)) \<and> r \<noteq> Inl IndexPanic"
  by (auto simp: ask_def split: prod.split sum.split)

lemma execute_safe:
  assumes verified: "verify_function f = Inr ()" and ok: "frame_ok f fr" and at: "ip fr < length (code f)"
    and run: "execute_instruction io (code f ! ip fr) (w, fr) = (r, (w', fr'))"
  shows "frame_ok f fr' \<and> r \<noteq> Inl IndexPanic"
proof -
  let ?i = "code f ! ip fr"
  obtain r1 w1 where fuel: "ask (ask_unit io) (''consume_fuel'', [ANat (cost ?i)]) (w, fr) = (r1, (w1, fr))"
    and real: "r1 \<noteq> Inl IndexPanic"
    using ask_keeps_frame [of "ask_unit io" "(''consume_fuel'', [ANat (cost ?i)])" w fr] by blast
  show ?thesis
  proof (cases r1)
    case (Inl e)
    then show ?thesis using run fuel real ok by (simp add: execute_instruction_def seqM_run)
  next
    case (Inr u)
    have moved: "frame_ok f (fr\<lparr>ip := ip fr + 1\<rparr>)" using ok at by (simp add: frame_ok_def)
    have inner: "exec_instr io ?i (w1, fr\<lparr>ip := ip fr + 1\<rparr>) = (r, (w', fr'))"
      using run fuel Inr by (simp add: execute_instruction_def seqM_run modify_frame_def)
    show ?thesis using safeD [OF safe_exec_instr [OF verified at] moved inner] by simp
  qed
qed

lemma safe_handler_value: "catchable e \<Longrightarrow> safe f (handler_value io e) (\<lambda>_. True)"
  by (cases e) (auto intro!: vm_safe)

lemma take_handler_mem:
  "take_handler rt hs = Some (h, below) \<Longrightarrow> h \<in> set hs \<and> set below \<subseteq> set hs"
  by (induction hs) (auto split: if_splits)

lemma safe_land_handler: "safe f (land_handler io e) (\<lambda>_. True)"
proof -
  have keep: "frame_ok f (fr\<lparr>handlers := hs\<rparr>)" if "frame_ok f fr" "list_all (handler_ok f) hs" for fr hs
    using that by (simp add: frame_ok_def)
  have enter: "frame_ok f (enter_handler h e fr)" if "frame_ok f fr" "handler_ok f h" for fr h
    using that by (simp add: frame_ok_def enter_handler_def handler_ok_def)
  have land: "safe f (seqM (modify_frame (\<lambda>fr. fr\<lparr>handlers := rev below\<rparr>))
      (bindM (handler_value io e) (\<lambda>v. seqM (set_reg (h_dst h) v) (modify_frame (enter_handler h e))))) (\<lambda>_. True)"
    if "frame_ok f fr" "take_handler rt (rev (handlers fr)) = Some (h, below)" "catchable e" for fr rt h below
  proof -
    have "handler_ok f h" "list_all (handler_ok f) (rev below)"
      using that take_handler_mem [OF that(2)] by (auto simp: frame_ok_def list_all_iff)
    then show ?thesis
      by (intro vm_safe safe_handler_value that(3) keep enter) (simp_all add: handler_ok_def)
  qed
  have none: "safe f (seqM (modify_frame (\<lambda>fr. fr\<lparr>handlers := []\<rparr>)) (raise e)) (\<lambda>_. True)"
    by (intro safe_seq safe_raise safe_modify_frame keep) simp_all
  show ?thesis unfolding land_handler_def
    by (intro safe_if safe_raise safe_with_frame safe_case_option safe_case_prod none) (rule land, simp_all)
qed

lemma step_safe:
  assumes verified: "verify_function f = Inr ()" and ok: "frame_ok f fr"
    and run: "vm_step io top_level (w, fr) = (r, (w', fr'))"
  shows "frame_ok f fr' \<and> r \<noteq> Some (Inl IndexPanic)"
proof (cases "ip fr < length (code f)")
  case False
  then show ?thesis using ok run by (auto simp: vm_step_def frame_okD get_at_def split: if_splits)
next
  case True
  obtain r1 w1 fr1 where exec: "execute_instruction io (code f ! ip fr) (w, fr) = (r1, (w1, fr1))"
    by (metis prod_cases3)
  have safe1: "frame_ok f fr1" "r1 \<noteq> Inl IndexPanic" using execute_safe [OF verified ok True exec] by auto
  show ?thesis
  proof (cases "\<exists>e. r1 = Inl (Raised e)")
    case False
    then show ?thesis using run exec safe1 True
      by (auto simp: vm_step_def frame_okD [OF ok] split: sum.splits fault.splits)
  next
    case True
    then obtain e where e: "r1 = Inl (Raised e)" by blast
    obtain r2 w2 fr2 where landed: "land_handler io e (w1, fr1) = (r2, (w2, fr2))" by (metis prod_cases3)
    have "frame_ok f fr2" "r2 \<noteq> Inl IndexPanic"
      using safeD [OF safe_land_handler safe1(1) landed] by auto
    then show ?thesis using run exec e landed \<open>ip fr < length (code f)\<close>
      by (auto simp: vm_step_def frame_okD [OF ok] split: sum.splits)
  qed
qed

text \<open>The machine run from any frame of a verified function stays inside the tables of the function.\<close>

lemma run_safe:
  assumes "verify_function f = Inr ()"
  shows "frame_ok f fr \<Longrightarrow> run_loop io top_level n (w, fr) = (r, (w', fr')) \<Longrightarrow>
    frame_ok f fr' \<and> r \<noteq> Some (Inl IndexPanic)"
proof (induction n arbitrary: w fr)
  case 0
  then show ?case by simp
next
  case (Suc n)
  obtain r1 w1 fr1 where step: "vm_step io top_level (w, fr) = (r1, (w1, fr1))" by (metis prod_cases3)
  then show ?case
    using Suc step_safe [OF assms Suc.prems(1) step] by (cases r1) auto
qed

section \<open>Frames from the pool\<close>

definition clean :: "('o, 's, 'e) activation_buffers \<Rightarrow> bool" where
  "clean b \<longleftrightarrow> set (buf_registers b) \<subseteq> {Undefined} \<and> buf_slots b = [] \<and> buf_handlers b = [] \<and>
     buf_pending b = [] \<and> buf_enumerators b = [] \<and> buf_scopes b = []"

lemma pool_clean: "pool_reachable fs pool \<Longrightarrow> list_all clean pool"
proof (induction rule: pool_reachable.induct)
  case (pool_setup pool f this args fr pool')
  then show ?case by (auto simp: setup_frame_def Let_def list_all_iff dest: in_set_butlastD)
qed (auto simp: recycle_activation_def clean_def)

lemma pool_bound: "pool_reachable fs pool \<Longrightarrow> length pool \<le> 16"
  by (induction rule: pool_reachable.induct) (auto simp: setup_frame_def Let_def recycle_activation_def)

lemma resize_clean:
  assumes "set rs \<subseteq> {Undefined}"
  shows "resize_registers n rs = replicate n Undefined"
proof (rule replicate_eqI)
  show "length (resize_registers n rs) = n" by (simp add: resize_registers_def)
  show "x = Undefined" if "x \<in> set (resize_registers n rs)" for x
    using that assms by (auto simp: resize_registers_def dest: in_set_takeD)
qed

lemma setup_clean:
  assumes "list_all clean pool"
  shows "fst (setup_frame pool f this args) =
    \<lparr>fn = f, ip = 0, registers = replicate (unat (register_count f)) Undefined,
     frame_slots = map (initial_slot f args) (enumerate 0 (function_slots f)),
     this_value = this, handlers = [], pending = [], enumerators = [], scopes = []\<rparr>"
proof -
  have "clean (if pool = [] then default_buffers else last pool)"
    using assms by (auto simp: clean_def default_buffers_def list_all_iff)
  then show ?thesis by (simp add: setup_frame_def Let_def clean_def resize_clean)
qed

lemma fresh_frame_ok:
  assumes "verify_function f = Inr ()" "pool_reachable fs pool"
  shows "frame_ok f (fst (setup_frame pool f this args))"
  using verified_tables(1) [OF assms(1)]
  by (simp add: setup_clean [OF pool_clean [OF assms(2)]] frame_ok_def slots_named_def)

section \<open>Samples\<close>

text \<open>A small function that loads a constant and returns it, and an interpreter that answers every
  request with a default.\<close>

definition sample_function :: "unit bytecode_function" where
  "sample_function = BytecodeFunction False False None
     [IMove (LoadConst 0 0), ICall (Call 1 0 0 2), IMove (Mov 0 1), IFlow (Return 0)]
     [CNumber 7] 2 0 0 0 [] False False False False [] []"

definition idle_interp :: "(unit, unit, unit, unit, unit) interp" where
  "idle_interp =
     \<lparr>global_scope = (\<lambda>_. ()), tail_call_context = (\<lambda>_. True), array_items = (\<lambda>_ _. None),
      symbol_key = (\<lambda>_. None), number_display = (\<lambda>_. []), number_string = (\<lambda>_. []), f64_step = (\<lambda>_ n. n),
      strict_equals = (\<lambda>_ _. False), is_callable = (\<lambda>_. True), class_accessor_kind = (\<lambda>_. None),
      private_name = (\<lambda>_ _ _. None),
      ask_unit = (\<lambda>_ w. (Inr (), w)), ask_bool = (\<lambda>_ w. (Inr False, w)), ask_name = (\<lambda>_ w. (Inr [], w)),
      ask_val = (\<lambda>_ w. (Inr Undefined, w)), ask_opt = (\<lambda>_ w. (Inr None, w)),
      ask_pair = (\<lambda>_ w. (Inr (Undefined, Undefined), w)),
      ask_triple = (\<lambda>_ w. (Inr (Undefined, Undefined, Undefined), w)), ask_vals = (\<lambda>_ w. (Inr [], w)),
      ask_lookup = (\<lambda>_ w. (Inr Missing, w)), ask_scope = (\<lambda>_ w. (Inr (), w)),
      assemble_class = (\<lambda>_ w. (Inr Undefined, w)), enum_new = (\<lambda>_ w. (Inr (), w)),
      enum_next = (\<lambda>e w. ((Inr None, e), w))\<rparr>"

lemma sample_simps:
  "code sample_function = [IMove (LoadConst 0 0), ICall (Call 1 0 0 2), IMove (Mov 0 1), IFlow (Return 0)]"
  "constants sample_function = [CNumber 7]" "register_count sample_function = 2"
  by (simp_all add: sample_function_def)

definition sample_pool :: "(unit, unit, unit) activation_buffers list" where
  "sample_pool = recycle_activation True (fst (setup_frame [] sample_function Null [Null])) []"

lemma sample_verified: "verify_function sample_function = Inr ()"
proof (rule verify_function_ok [THEN iffD2], intro conjI allI impI)
  show "check_tables sample_function = Inr ()" by (simp add: check_tables_def sample_function_def)
  show "check_instr sample_function a (code sample_function ! a) = Inr ()" if "a < length (code sample_function)" for a
  proof -
    have "a = 0 \<or> a = 1 \<or> a = 2 \<or> a = 3" using that by (auto simp: sample_simps)
    then show ?thesis by (auto simp: sample_simps verify_ok)
  qed
  show "verify_function g = Inr ()" if "CFunction g \<in> set (constants sample_function)" for g
    using that by (simp add: sample_function_def)
qed

section \<open>Properties\<close>

text \<open>C1: a verified function, started in a frame set up from any reachable pool and run for any
  number of steps over any interpreter, never panics on an index of the machine, and keeps its
  registers, slots, handlers and instruction pointer inside its tables.\<close>

theorem verified_run_safe:
  assumes "verify_function f = Inr ()" and "pool_reachable fs pool"
    and "setup_frame pool f this args = (fr, pool')"
    and "run_loop io top_level n (w, fr) = (r, (w', fr'))"
  shows "r \<noteq> Some (Inl IndexPanic) \<and> ip fr' \<le> length (code f) \<and>
    length (registers fr') = unat (register_count f) \<and> length (frame_slots fr') = unat (local_count f) \<and>
    list_all (handler_ok f) (handlers fr')"
proof -
  have "frame_ok f fr" using fresh_frame_ok [OF assms(1,2), of this args] assms(3) by simp
  then show ?thesis using run_safe [OF assms(1) _ assms(4)] by (simp add: frame_ok_def)
qed

theorem verified_run_safe_witness:
  "\<exists>r w' fr'. run_loop idle_interp True 5 ((), fst (setup_frame [] sample_function Undefined [])) = (r, (w', fr')) \<and>
     r \<noteq> Some (Inl IndexPanic) \<and> ip fr' \<le> 4"
proof -
  obtain fr :: "(unit, unit, unit, unit) call_frame" and pool' where s: "setup_frame [] sample_function Undefined [] = (fr, pool')" by fastforce
  obtain r w' fr' where run: "run_loop idle_interp True 5 ((), fr) = (r, (w', fr'))" by (metis prod_cases3)
  show ?thesis
    using verified_run_safe [OF sample_verified pool_empty [of "{}"] s run] s run by (simp add: sample_function_def)
qed

text \<open>C8: a frame set up from recycled storage equals one set up with no pool at all, so nothing of
  an earlier activation is visible in it, and the pool never holds more than sixteen entries.\<close>

theorem recycled_frame_fresh:
  assumes "pool_reachable fs pool"
  shows "fst (setup_frame pool f this args) = fst (setup_frame [] f this args) \<and> length pool \<le> 16"
  using setup_clean [OF pool_clean [OF assms]] pool_bound [OF assms] by (simp add: setup_clean)

theorem recycled_frame_fresh_witness:
  "fst (setup_frame sample_pool sample_function Undefined []) = fst (setup_frame [] sample_function Undefined []) \<and>
   length sample_pool \<le> 16"
proof (rule recycled_frame_fresh [of "{sample_function}"])
  show "pool_reachable {sample_function} sample_pool"
    unfolding sample_pool_def by (rule pool_recycle [OF pool_empty]) (simp add: setup_frame_def Let_def)
qed

lemma take_handler_top: "\<not> returning \<or> catch_returns h \<Longrightarrow> take_handler returning (h # hs) = Some (h, hs)"
  by auto

lemma take_handler_skips:
  "list_all (\<lambda>c. \<not> catch_returns c) cs \<Longrightarrow> take_handler True (cs @ hs) = take_handler True hs"
  by (induction cs) auto

text \<open>C5: a thrown value lands on the innermost handler: its register receives the value, the
  pending, enumerator and scope stacks shrink to the depths the handler recorded, a finally handler
  keeps the error pending, and execution continues at the handler's target.\<close>

theorem throw_lands_on_top:
  assumes "handlers fr = hs @ [h]" and "unat (h_dst h) < length (registers fr)"
  shows "land_handler io (Thrown v) (w, fr) =
    (Inr (), (w, fr\<lparr>registers := (registers fr)[unat (h_dst h) := v], handlers := hs,
       pending := take (pending_depth h) (pending fr) @ (if catch_returns h then [Thrown v] else []),
       enumerators := take (enumerator_depth h) (enumerators fr),
       scopes := take (scope_depth h) (scopes fr), ip := unat (h_target h)\<rparr>))"
  using assms
  by (simp add: land_handler_def with_frame_def seqM_run bindM_def modify_frame_def ret_def set_reg_def
      enter_handler_def)

text \<open>C6: a return passes every catch handler above the nearest finally handler, drops them, and
  lands on that one with the return pending; with no finally handler it leaves the function with
  the handler stack empty.\<close>

theorem return_lands_on_finally:
  assumes "list_all (\<lambda>c. \<not> catch_returns c) cs"
  shows "(handlers fr = hs @ h # cs \<longrightarrow> catch_returns h \<longrightarrow> unat (h_dst h) < length (registers fr) \<longrightarrow>
      land_handler io (Ret v) (w, fr) =
        (Inr (), (w, fr\<lparr>registers := (registers fr)[unat (h_dst h) := Undefined], handlers := hs,
           pending := take (pending_depth h) (pending fr) @ [Ret v],
           enumerators := take (enumerator_depth h) (enumerators fr),
           scopes := take (scope_depth h) (scopes fr), ip := unat (h_target h)\<rparr>))) \<and>
    (handlers fr = cs \<longrightarrow>
      land_handler io (Ret v) (w, fr) = (Inl (Raised (Ret v)), (w, fr\<lparr>handlers := []\<rparr>)))"
proof -
  have skip: "take_handler True (rev cs @ rest) = take_handler True rest" for rest
    using take_handler_skips [of "rev cs"] assms by (simp add: list_all_iff)
  then have none: "take_handler True (rev cs) = None" by (metis append_Nil2 take_handler.simps(1))
  show ?thesis
    by (auto simp: land_handler_def with_frame_def seqM_run bindM_def modify_frame_def ret_def set_reg_def
        enter_handler_def raise_def skip none)
qed

definition sample_handler :: "bool \<Rightarrow> handler_entry" where
  "sample_handler returns = \<lparr>h_target = 3, h_dst = 1, catch_returns = returns, scope_depth = 0,
     pending_depth = 0, enumerator_depth = 0\<rparr>"

definition sample_frame :: "(unit, unit, unit, unit) call_frame" where
  "sample_frame = (fst (setup_frame [] sample_function Undefined []))\<lparr>handlers := [sample_handler True, sample_handler False]\<rparr>"

lemma sample_frame_simps:
  "handlers sample_frame = [sample_handler True, sample_handler False]" "registers sample_frame = replicate 2 Undefined"
  "unat (h_dst (sample_handler b)) = 1" "catch_returns (sample_handler b) = b"
  by (simp_all add: sample_frame_def sample_handler_def setup_clean sample_simps)

theorem throw_lands_on_top_witness:
  "fst (land_handler idle_interp (Thrown Null) ((), sample_frame)) = Inr ()"
  using throw_lands_on_top [of sample_frame "[sample_handler True]" "sample_handler False" idle_interp Null "()"]
  by (simp add: sample_frame_simps)

theorem return_lands_on_finally_witness:
  "fst (land_handler idle_interp (Ret Null) ((), sample_frame)) = Inr ()"
  using return_lands_on_finally [of "[sample_handler False]" sample_frame "[]" "sample_handler True" idle_interp Null "()"]
  by (simp add: sample_frame_simps)

section \<open>Tail calls\<close>

text \<open>The moves and jumps between a call and its return touch only registers and the instruction
  pointer.\<close>

definition fuel_granted :: "('w, 'o, 's, 'e, 'ast) interp \<Rightarrow> bool" where
  "fuel_granted io \<longleftrightarrow> (\<forall>c w. \<exists>w'. ask_unit io (''consume_fuel'', [ANat c]) w = (Inr (), w'))"

lemma step_mov:
  assumes "fuel_granted io" "get_at (code (fn fr)) (ip fr) = Some (IMove (Mov dst src))"
    and "unat dst < length (registers fr)" "unat src < length (registers fr)"
  shows "\<exists>w'. vm_step io top_level (w, fr) =
    (None, (w', fr\<lparr>ip := ip fr + 1, registers := (registers fr)[unat dst := registers fr ! unat src]\<rparr>))"
proof -
  obtain w' where "ask_unit io (''consume_fuel'', [ANat 0]) w = (Inr (), w')"
    using assms(1) unfolding fuel_granted_def by blast
  then have "execute_instruction io (IMove (Mov dst src)) (w, fr) =
      (Inr (), (w', fr\<lparr>ip := ip fr + 1, registers := (registers fr)[unat dst := registers fr ! unat src]\<rparr>))"
    using assms(3,4)
    by (simp add: execute_instruction_def seqM_run ask_def modify_frame_def bindM_def read_reg_def set_reg_def
        with_frame_def ret_def)
  then show ?thesis using assms(2) by (simp add: vm_step_def)
qed

lemma step_jump:
  assumes "fuel_granted io" "get_at (code (fn fr)) (ip fr) = Some (IFlow (Jump t))"
  shows "\<exists>w'. vm_step io top_level (w, fr) = (None, (w', fr\<lparr>ip := unat t\<rparr>))"
proof -
  obtain w' where "ask_unit io (''consume_fuel'', [ANat 0]) w = (Inr (), w')"
    using assms(1) unfolding fuel_granted_def by blast
  then have "execute_instruction io (IFlow (Jump t)) (w, fr) = (Inr (), (w', fr\<lparr>ip := unat t\<rparr>))"
    by (simp add: execute_instruction_def seqM_run ask_def modify_frame_def set_ip_def)
  then show ?thesis using assms(2) by (simp add: vm_step_def)
qed

text \<open>The frame at the return: only \<open>ip\<close> and the registers moved.\<close>

definition at_return_of :: "'o val \<Rightarrow> ('o, 's, 'e, 'ast) call_frame \<Rightarrow> ('o, 's, 'e, 'ast) call_frame \<Rightarrow> bool" where
  "at_return_of v fr fr' \<longleftrightarrow>
     (\<exists>src. get_at (code (fn fr')) (ip fr') = Some (IFlow (Return src)) \<and> registers fr' ! unat src = v \<and>
        fr' = fr\<lparr>ip := ip fr', registers := registers fr'\<rparr>)"

definition movs_ok :: "'ast bytecode_function \<Rightarrow> bool" where
  "movs_ok f \<longleftrightarrow> (\<forall>dst src. IMove (Mov dst src) \<in> set (code f) \<longrightarrow> dst < register_count f \<and> src < register_count f)"

lemma verified_movs: "verify_function f = Inr () \<Longrightarrow> movs_ok f"
proof -
  assume "verify_function f = Inr ()"
  then have "\<forall>a < length (code f). check_instr f a (code f ! a) = Inr ()" using verify_function_ok by blast
  then show ?thesis by (fastforce simp: movs_ok_def in_set_conv_nth verify_ok)
qed

lemma at_return_trans:
  "at_return_of v (fr\<lparr>ip := i, registers := rs\<rparr>) fr' \<Longrightarrow> at_return_of v fr fr'"
  "at_return_of v (fr\<lparr>ip := i\<rparr>) fr' \<Longrightarrow> at_return_of v fr fr'"
  by (auto simp: at_return_of_def)

lemma run_Suc: "vm_step io top_level s = (None, s') \<Longrightarrow> run_loop io top_level (Suc n) s = run_loop io top_level n s'"
  by simp

lemma tail_search_cases:
  assumes "tail_search cs (Suc n) i r"
  obtains (ret) "get_at cs i = Some (IFlow (Return r))"
  | (follow) dst where "get_at cs i = Some (IMove (Mov dst r))" "tail_search cs n (i + 1) dst"
  | (keep) dst src where "get_at cs i = Some (IMove (Mov dst src))" "dst \<noteq> r" "tail_search cs n (i + 1) r"
  | (jump) t where "get_at cs i = Some (IFlow (Jump t))" "tail_search cs n (unat t) r"
  using assms by (auto split: option.splits instr.splits move_instr.splits flow_instr.splits if_splits)

lemma mov_bounds:
  assumes "movs_ok f" "get_at (code f) i = Some (IMove (Mov dst src))"
  shows "dst < register_count f" "src < register_count f"
    "unat dst < unat (register_count f)" "unat src < unat (register_count f)"
proof -
  have "IMove (Mov dst src) \<in> set (code f)" using get_at_SomeD [OF assms(2)] by (metis nth_mem)
  then show "dst < register_count f" "src < register_count f"
    "unat dst < unat (register_count f)" "unat src < unat (register_count f)"
    using assms(1) by (auto simp: movs_ok_def word_less_nat_alt)
qed

text \<open>A frame whose result register holds \<open>v\<close>, as the search assumes it.\<close>

definition holds_result :: "'ast bytecode_function \<Rightarrow> nat \<Rightarrow> reg \<Rightarrow> 'o val \<Rightarrow> ('o, 's, 'e, 'ast) call_frame \<Rightarrow> bool" where
  "holds_result f i r v fr \<longleftrightarrow> fn fr = f \<and> ip fr = i \<and> length (registers fr) = unat (register_count f) \<and>
     r < register_count f \<and> registers fr ! unat r = v"

lemma holds_follow:
  assumes "holds_result f i r v fr" "movs_ok f" "get_at (code f) i = Some (IMove (Mov dst src))"
  shows "src = r \<Longrightarrow> holds_result f (i + 1) dst v
      (fr\<lparr>ip := ip fr + 1, registers := (registers fr)[unat dst := registers fr ! unat src]\<rparr>)"
    and "dst \<noteq> r \<Longrightarrow> holds_result f (i + 1) r v
      (fr\<lparr>ip := ip fr + 1, registers := (registers fr)[unat dst := registers fr ! unat src]\<rparr>)"
proof -
  have "unat dst \<noteq> unat r" if "dst \<noteq> r" using that by (metis unsigned_word_eqI)
  then show "src = r \<Longrightarrow> holds_result f (i + 1) dst v
      (fr\<lparr>ip := ip fr + 1, registers := (registers fr)[unat dst := registers fr ! unat src]\<rparr>)"
    "dst \<noteq> r \<Longrightarrow> holds_result f (i + 1) r v
      (fr\<lparr>ip := ip fr + 1, registers := (registers fr)[unat dst := registers fr ! unat src]\<rparr>)"
    using assms mov_bounds [OF assms(2,3)] by (auto simp: holds_result_def)
qed

lemma step_mov_holds:
  assumes "fuel_granted io" "movs_ok f" "holds_result f i r v fr" "get_at (code f) i = Some (IMove (Mov dst src))"
  shows "\<exists>w'. vm_step io top_level (w, fr) =
    (None, (w', fr\<lparr>ip := ip fr + 1, registers := (registers fr)[unat dst := registers fr ! unat src]\<rparr>))"
  using assms mov_bounds [OF assms(2,4)] by (intro step_mov) (auto simp: holds_result_def)

lemma tail_search_run:
  assumes fuel: "fuel_granted io" and movs: "movs_ok f"
  shows "tail_search (code f) n i r \<Longrightarrow> holds_result f i r v fr \<Longrightarrow>
    \<exists>k w' fr'. run_loop io top_level k (w, fr) = (None, (w', fr')) \<and> at_return_of v fr fr'"
proof (induction n arbitrary: i r fr w)
  case 0
  then show ?case by simp
next
  case (Suc n)
  from Suc.prems(1) show ?case
  proof (cases rule: tail_search_cases)
    case ret
    then have "at_return_of v fr fr" using Suc.prems(2) by (auto simp: at_return_of_def holds_result_def)
    then show ?thesis using run_loop.simps(1) by blast
  next
    case (follow dst)
    then show ?thesis
      using step_mov_holds [OF fuel movs Suc.prems(2)] holds_follow(1) [OF Suc.prems(2) movs] Suc.IH
      by (metis run_Suc at_return_trans(1))
  next
    case (keep dst src)
    then show ?thesis
      using step_mov_holds [OF fuel movs Suc.prems(2)] holds_follow(2) [OF Suc.prems(2) movs] Suc.IH
      by (metis run_Suc at_return_trans(1))
  next
    case (jump t)
    then have "holds_result f (unat t) r v (fr\<lparr>ip := unat t\<rparr>)" using Suc.prems(2) by (simp add: holds_result_def)
    moreover have "\<exists>w'. vm_step io top_level (w, fr) = (None, (w', fr\<lparr>ip := unat t\<rparr>))"
      using step_jump [OF fuel] jump(1) Suc.prems(2) by (metis holds_result_def)
    ultimately show ?thesis using Suc.IH [OF jump(2)] by (metis run_Suc at_return_trans(2))
  qed
qed

text \<open>C4: when the machine takes a call for a tail call, the frame that would have received the
  result \<open>v\<close> in the call's register, run on with fuel granted, reaches a return of exactly \<open>v\<close> through
  register moves and jumps, with its handlers, scopes, slots and stacks as they were: leaving the
  frame early loses nothing.\<close>

theorem tail_call_sound:
  assumes "fuel_granted io" and "verify_function f = Inr ()" and "frame_ok f fr" and "dst < register_count f"
    and "returns_call_result fr dst"
  shows "\<exists>k w' fr'.
    run_loop io top_level k (w, fr\<lparr>registers := (registers fr)[unat dst := v]\<rparr>) = (None, (w', fr')) \<and>
    at_return_of v (fr\<lparr>registers := (registers fr)[unat dst := v]\<rparr>) fr'"
proof (rule tail_search_run [OF assms(1) verified_movs [OF assms(2)]])
  show "tail_search (code f) (length (code f)) (ip fr) dst"
    using assms(3,5) by (simp add: returns_call_result_def frame_okD)
  show "holds_result f (ip fr) dst v (fr\<lparr>registers := (registers fr)[unat dst := v]\<rparr>)"
    using assms(3,4) by (simp add: holds_result_def frame_okD word_less_nat_alt)
qed

definition after_call :: "(unit, unit, unit, unit) call_frame" where
  "after_call = (fst (setup_frame [] sample_function Undefined []))\<lparr>ip := 2\<rparr>"

theorem tail_call_sound_witness:
  "\<exists>k w' fr'. run_loop idle_interp False k ((), after_call\<lparr>registers := (registers after_call)[unat (1 :: reg) := Null]\<rparr>) =
     (None, (w', fr')) \<and> at_return_of Null (after_call\<lparr>registers := (registers after_call)[unat (1 :: reg) := Null]\<rparr>) fr'"
proof (rule tail_call_sound [OF _ sample_verified])
  show "fuel_granted idle_interp" by (simp add: fuel_granted_def idle_interp_def)
  show "frame_ok sample_function after_call"
    by (simp add: after_call_def frame_ok_def setup_clean sample_simps) (simp add: sample_function_def)
  show "(1 :: reg) < register_count sample_function" by (simp add: sample_simps)
  have "length (code sample_function) = Suc (Suc (Suc (Suc 0)))" by (simp add: sample_simps)
  then show "returns_call_result after_call 1"
    by (simp add: returns_call_result_def after_call_def setup_clean sample_simps get_at_def)
qed

section \<open>Accepted operands\<close>

text \<open>An accepted call gets exactly the arguments it names: the range lies inside the registers
  (the verifier's sum does not wrap), so fetching it succeeds and changes nothing.\<close>

theorem accepted_range_exact:
  assumes "verify_function f = Inr ()" and "a < length (code f)" and "code f ! a = ICall (Call dst callee args argc)"
    and "frame_ok f fr"
  shows "take_range what args argc (w, fr) =
    (Inr (map (\<lambda>i. registers fr ! i) [unat args..<unat args + unat argc]), (w, fr))"
proof -
  have "check_instr f a (code f ! a) = Inr ()" using assms(1,2) verify_function_ok by blast
  then have range: "unat args + unat argc \<le> length (registers fr)"
    using assms(3,4) by (simp add: verify_ok frame_okD)
  then have "take (unat argc) (drop (unat args) (registers fr)) =
      map (\<lambda>i. registers fr ! i) [unat args..<unat args + unat argc]"
    by (intro nth_equalityI) auto
  then show ?thesis using range by (simp add: take_range_def with_frame_def ret_def)
qed

theorem accepted_range_exact_witness:
  "take_range ''bad argument range'' 0 2 ((), after_call) =
   (Inr (map (\<lambda>i. registers after_call ! i) [unat (0 :: reg)..<unat (0 :: reg) + unat (2 :: u16)]), ((), after_call))"
proof (rule accepted_range_exact [OF sample_verified, of 1])
  show "1 < length (code sample_function)" "code sample_function ! 1 = ICall (Call 1 0 0 2)"
    by (simp_all add: sample_simps)
  show "frame_ok sample_function after_call"
    by (simp add: after_call_def frame_ok_def setup_clean sample_simps) (simp add: sample_function_def)
qed



end
