(* ===== verification/Execution_Budget.thy ===== *)
theory Execution_Budget
  imports VM_Prelude
begin

text \<open>
  Execution limits (\<open>interpreter/scheduler.rs\<close>, \<open>interpreter/mod.rs\<close>): the fuel, loop and job budgets of
  one execution, the interrupt check for cancellation and deadline, and its batched polling. The
  clock is a parameter: \<open>reached d\<close> says that \<open>now_ms() >= d\<close>; a deadline is the bits of its \<open>f64\<close>.
\<close>

section \<open>State\<close>

record execution_state =
  fuel :: u64
  poll_remaining :: u64
  loops :: u64
  jobs :: nat
  cancelled :: bool
  deadline :: "u64 option"
  drain_depth :: nat
  active :: bool
  continuations :: nat

record execution_limits =
  loop_budget :: u64
  fuel_budget :: u64
  max_jobs_per_drain :: nat
  max_call_depth :: nat

record execution_budget =
  budget_fuel :: u64
  budget_call_depth :: nat
  budget_jobs :: nat

definition DEFAULT_LOOP_BUDGET :: u64 where
  "DEFAULT_LOOP_BUDGET = 100000000"

definition DEFAULT_FUEL_BUDGET :: u64 where
  "DEFAULT_FUEL_BUDGET = 1000000000"

definition MAX_JOBS_PER_DRAIN :: nat where
  "MAX_JOBS_PER_DRAIN = 1000000"

definition new_execution :: execution_state where
  "new_execution = \<lparr>fuel = DEFAULT_FUEL_BUDGET, poll_remaining = 0, loops = DEFAULT_LOOP_BUDGET,
     jobs = MAX_JOBS_PER_DRAIN, cancelled = False, deadline = None, drain_depth = 0, active = False,
     continuations = 0\<rparr>"

section \<open>Operations\<close>

definition check_execution :: "(u64 \<Rightarrow> bool) \<Rightarrow> execution_state \<Rightarrow> string + unit" where
  "check_execution reached ex =
     (if cancelled ex then Inl ''Error: Guest execution cancelled''
      else if (case deadline ex of None \<Rightarrow> False | Some d \<Rightarrow> reached d)
      then Inl ''RangeError: Guest execution deadline exceeded''
      else Inr ())"

text \<open>Zero-cost instructions still count towards the next poll.\<close>

definition poll :: "(u64 \<Rightarrow> bool) \<Rightarrow> u64 \<Rightarrow> execution_state \<Rightarrow> string + execution_state" where
  "poll reached cost ex =
     (let remaining = poll_remaining ex; charged = max cost 1
      in if charged \<ge> remaining
         then bind_outcome (check_execution reached ex) (\<lambda>_. Inr (ex\<lparr>poll_remaining := 64\<rparr>))
         else Inr (ex\<lparr>poll_remaining := remaining - charged\<rparr>))"

definition consume_fuel :: "(u64 \<Rightarrow> bool) \<Rightarrow> u64 \<Rightarrow> execution_state \<Rightarrow> (string + unit) \<times> execution_state" where
  "consume_fuel reached cost ex =
     (case poll reached cost ex of
        Inl e \<Rightarrow> (Inl e, ex)
      | Inr ex \<Rightarrow>
          if cost \<le> fuel ex then (Inr (), ex\<lparr>fuel := fuel ex - cost\<rparr>)
          else (Inl ''RangeError: Maximum instruction fuel exceeded'', ex))"

definition consume_loop :: "(u64 \<Rightarrow> bool) \<Rightarrow> execution_state \<Rightarrow> (string + unit) \<times> execution_state" where
  "consume_loop reached ex =
     (case check_execution reached ex of
        Inl e \<Rightarrow> (Inl e, ex)
      | Inr _ \<Rightarrow>
          if loops ex = 0 then (Inl ''RangeError: Maximum loop iterations exceeded'', ex)
          else (Inr (), ex\<lparr>loops := loops ex - 1\<rparr>))"

text \<open>The outstanding work of the job queue, its pending checkpoint and dispatch depth, and the depth
  of guest execution belong to other components and are arguments.\<close>

definition begin_execution ::
  "execution_limits \<Rightarrow> bool \<Rightarrow> bool \<Rightarrow> nat \<Rightarrow> execution_state \<Rightarrow> execution_state" where
  "begin_execution limits outstanding checkpoint depth ex =
     (if active ex \<and> (outstanding \<or> continuations ex > 0) \<or> drain_depth ex \<noteq> 0 \<or> checkpoint \<or> depth \<noteq> 0 then ex
      else ex\<lparr>active := True, loops := loop_budget limits, fuel := fuel_budget limits, poll_remaining := 0,
              jobs := max_jobs_per_drain limits\<rparr>)"

definition retire_completed_execution :: "bool \<Rightarrow> nat \<Rightarrow> nat \<Rightarrow> execution_state \<Rightarrow> execution_state" where
  "retire_completed_execution outstanding depth dispatch_depth ex =
     (if active ex \<and> \<not> outstanding \<and> continuations ex = 0 \<and> depth = 0 \<and> dispatch_depth = 0
      then ex\<lparr>active := False, deadline := None, cancelled := False\<rparr> else ex)"

definition execution_budget_of :: "execution_limits \<Rightarrow> execution_state \<Rightarrow> execution_budget" where
  "execution_budget_of limits ex =
     \<lparr>budget_fuel = fuel ex, budget_call_depth = max_call_depth limits, budget_jobs = max_jobs_per_drain limits\<rparr>"

definition set_execution_budget ::
  "execution_budget \<Rightarrow> execution_limits \<times> execution_state \<Rightarrow> execution_limits \<times> execution_state" where
  "set_execution_budget b = (\<lambda>(limits, ex).
     (limits\<lparr>fuel_budget := budget_fuel b, max_call_depth := budget_call_depth b, max_jobs_per_drain := budget_jobs b\<rparr>,
      ex\<lparr>fuel := budget_fuel b, jobs := budget_jobs b\<rparr>))"

definition set_fuel_budget :: "u64 \<Rightarrow> execution_limits \<times> execution_state \<Rightarrow> execution_limits \<times> execution_state" where
  "set_fuel_budget n = (\<lambda>(limits, ex). (limits\<lparr>fuel_budget := n\<rparr>, ex\<lparr>fuel := n\<rparr>))"

definition set_loop_budget :: "u64 \<Rightarrow> execution_limits \<times> execution_state \<Rightarrow> execution_limits \<times> execution_state" where
  "set_loop_budget n = (\<lambda>(limits, ex). (limits\<lparr>loop_budget := n\<rparr>, ex\<lparr>loops := n\<rparr>))"

definition set_execution_timeout :: "u64 option \<Rightarrow> execution_state \<Rightarrow> execution_state" where
  "set_execution_timeout d ex = ex\<lparr>deadline := d\<rparr>"

definition cancel :: "execution_state \<Rightarrow> execution_state" where
  "cancel ex = ex\<lparr>cancelled := True\<rparr>"

text \<open>A run of instructions charges their costs one after the other, up to the first error.\<close>

fun consume_all :: "(u64 \<Rightarrow> bool) \<Rightarrow> u64 list \<Rightarrow> execution_state \<Rightarrow> (string + unit) \<times> execution_state" where
  "consume_all reached [] ex = (Inr (), ex)"
| "consume_all reached (c # cs) ex =
     (case consume_fuel reached c ex of
        (Inl e, ex') \<Rightarrow> (Inl e, ex')
      | (Inr _, ex') \<Rightarrow> consume_all reached cs ex')"

section \<open>Reachable states\<close>

inductive execution_step :: "execution_limits \<times> execution_state \<Rightarrow> execution_limits \<times> execution_state \<Rightarrow> bool" where
  step_fuel: "execution_step (l, ex) (l, snd (consume_fuel reached c ex))"
| step_loop: "execution_step (l, ex) (l, snd (consume_loop reached ex))"
| step_begin: "execution_step (l, ex) (l, begin_execution l outstanding checkpoint depth ex)"
| step_retire: "execution_step (l, ex) (l, retire_completed_execution outstanding depth dispatch ex)"
| step_budget: "execution_step s (set_execution_budget b s)"
| step_set_fuel: "execution_step s (set_fuel_budget n s)"
| step_set_loops: "execution_step s (set_loop_budget n s)"
| step_timeout: "execution_step (l, ex) (l, set_execution_timeout d ex)"
| step_cancel: "execution_step (l, ex) (l, cancel ex)"

inductive execution_reachable :: "execution_limits \<times> execution_state \<Rightarrow> bool" where
  reach_new: "execution_reachable (l, new_execution)"
| reach_step: "execution_reachable s \<Longrightarrow> execution_step s s' \<Longrightarrow> execution_reachable s'"

lemma poll_keeps:
  "poll reached c ex = Inr ex' \<Longrightarrow> poll_remaining ex \<le> 64 \<Longrightarrow> poll_remaining ex' \<le> 64 \<and> fuel ex' = fuel ex"
proof (cases "poll_remaining ex \<le> max c 1")
  case False
  assume "poll reached c ex = Inr ex'" and bound: "poll_remaining ex \<le> 64"
  then have ex': "ex' = ex\<lparr>poll_remaining := poll_remaining ex - max c 1\<rparr>" using False by (simp add: poll_def Let_def)
  have "poll_remaining ex - max c 1 \<le> poll_remaining ex" using False by (intro word_sub_le) (rule less_imp_le, simp only: not_le)
  then have "poll_remaining ex - max c 1 \<le> 64" using bound by (rule order_trans)
  then show ?thesis by (simp add: ex')
qed (auto simp: poll_def Let_def bind_outcome_Inr_iff)

lemma consume_fuel_poll: "poll_remaining ex \<le> 64 \<Longrightarrow> poll_remaining (snd (consume_fuel reached c ex)) \<le> 64"
proof (cases "poll reached c ex")
  case (Inr ex')
  assume "poll_remaining ex \<le> 64"
  from poll_keeps [OF Inr this] show ?thesis by (simp add: consume_fuel_def Inr)
qed (simp add: consume_fuel_def)

lemma other_operations_poll:
  "poll_remaining (snd (consume_loop reached ex)) = poll_remaining ex"
  "poll_remaining (begin_execution l outstanding checkpoint depth ex) \<in> {poll_remaining ex, 0}"
  "poll_remaining (retire_completed_execution outstanding depth dispatch ex) = poll_remaining ex"
  "poll_remaining (snd (set_execution_budget b s)) = poll_remaining (snd s)"
  "poll_remaining (snd (set_fuel_budget n s)) = poll_remaining (snd s)"
  "poll_remaining (snd (set_loop_budget n s)) = poll_remaining (snd s)"
  "poll_remaining (set_execution_timeout d ex) = poll_remaining ex"
  "poll_remaining (cancel ex) = poll_remaining ex"
  by (simp_all add: consume_loop_def begin_execution_def retire_completed_execution_def set_execution_budget_def
      set_fuel_budget_def set_loop_budget_def set_execution_timeout_def cancel_def
      split: prod.split sum.split)

lemma step_poll: "execution_step s s' \<Longrightarrow> poll_remaining (snd s) \<le> 64 \<Longrightarrow> poll_remaining (snd s') \<le> 64"
proof (induction rule: execution_step.induct)
  case (step_fuel l ex reached c)
  then show ?case using consume_fuel_poll by simp
next
  case (step_begin l ex outstanding checkpoint depth)
  have "poll_remaining (begin_execution l outstanding checkpoint depth ex) = poll_remaining ex \<or>
      poll_remaining (begin_execution l outstanding checkpoint depth ex) = 0"
    using other_operations_poll(2) [of l outstanding checkpoint depth ex] by blast
  then show ?case using step_begin by (elim disjE) simp_all
qed (simp_all only: other_operations_poll snd_conv)

lemma poll_bound: "execution_reachable s \<Longrightarrow> poll_remaining (snd s) \<le> 64"
proof (induction rule: execution_reachable.induct)
  case (reach_new l)
  then show ?case by (simp add: new_execution_def)
next
  case (reach_step s s')
  then show ?case by (blast intro: step_poll)
qed

section \<open>Properties\<close>

lemma check_same: "check_execution reached (ex\<lparr>fuel := n, poll_remaining := p\<rparr>) = check_execution reached ex"
  "check_execution reached (ex\<lparr>poll_remaining := p\<rparr>) = check_execution reached ex"
  "check_execution reached (ex\<lparr>poll_remaining := p, fuel := n\<rparr>) = check_execution reached ex"
  by (simp_all add: check_execution_def)

text \<open>While the check passes, a charge only counts fuel and the distance to the next poll.\<close>

lemma consume_fuel_granted:
  assumes "check_execution reached ex = Inr ()"
  shows "\<exists>p. consume_fuel reached c ex =
    (if c \<le> fuel ex then (Inr (), ex\<lparr>poll_remaining := p, fuel := fuel ex - c\<rparr>)
     else (Inl ''RangeError: Maximum instruction fuel exceeded'', ex\<lparr>poll_remaining := p\<rparr>))"
  using assms by (auto simp: consume_fuel_def poll_def Let_def)

lemma consume_all_granted:
  assumes "check_execution reached ex = Inr ()"
  shows "(fst (consume_all reached cs ex) = Inr () \<longleftrightarrow> (\<Sum>c\<leftarrow>cs. unat c) \<le> unat (fuel ex)) \<and>
    (fst (consume_all reached cs ex) = Inr () \<longrightarrow>
      unat (fuel (snd (consume_all reached cs ex))) = unat (fuel ex) - (\<Sum>c\<leftarrow>cs. unat c))"
  using assms
proof (induction cs arbitrary: ex)
  case Nil
  then show ?case by simp
next
  case (Cons c cs)
  obtain p where run: "consume_fuel reached c ex =
      (if c \<le> fuel ex then (Inr (), ex\<lparr>poll_remaining := p, fuel := fuel ex - c\<rparr>)
       else (Inl ''RangeError: Maximum instruction fuel exceeded'', ex\<lparr>poll_remaining := p\<rparr>))"
    using consume_fuel_granted [OF Cons.prems] by blast
  show ?case
  proof (cases "c \<le> fuel ex")
    case True
    then have left: "unat (fuel ex - c) = unat (fuel ex) - unat c" "unat c \<le> unat (fuel ex)"
      by (simp_all add: unat_sub word_le_nat_alt)
    show ?thesis
      using Cons.IH [of "ex\<lparr>poll_remaining := p, fuel := fuel ex - c\<rparr>"] Cons.prems run True left
      by (auto simp: check_same)
  next
    case False
    then show ?thesis using run by (simp add: word_le_nat_alt)
  qed
qed

text \<open>C3: with no interrupt due, a sequence of instructions runs exactly when its total cost is within
  the fuel, and then leaves exactly the difference: batching the polls loses no fuel and grants none.\<close>

theorem fuel_exact:
  assumes "check_execution reached ex = Inr ()"
  shows "(fst (consume_all reached cs ex) = Inr () \<longleftrightarrow> (\<Sum>c\<leftarrow>cs. unat c) \<le> unat (fuel ex)) \<and>
    (fst (consume_all reached cs ex) = Inr () \<longrightarrow>
      unat (fuel (snd (consume_all reached cs ex))) = unat (fuel ex) - (\<Sum>c\<leftarrow>cs. unat c))"
  by (rule consume_all_granted [OF assms])

theorem fuel_exact_witness:
  "(fst (consume_all (\<lambda>_. False) [3, 4] (new_execution\<lparr>fuel := 7\<rparr>)) = Inr () \<longleftrightarrow> (\<Sum>c\<leftarrow>[3, 4 :: u64]. unat c) \<le> 7) \<and>
   unat (fuel (snd (consume_all (\<lambda>_. False) [3, 4] (new_execution\<lparr>fuel := 7\<rparr>)))) = 0"
proof -
  have "check_execution (\<lambda>_. False) (new_execution\<lparr>fuel := 7\<rparr>) = Inr ()"
    by (simp add: check_execution_def new_execution_def)
  from fuel_exact [OF this, of "[3, 4]"] show ?thesis by (simp del: consume_all.simps)
qed

lemma interrupted_step:
  assumes "check_execution reached ex = Inl m" "consume_fuel reached c ex = (Inr (), ex')"
  shows "check_execution reached ex' = Inl m" and "unat (poll_remaining ex') + 1 \<le> unat (poll_remaining ex)"
    and "0 < unat (poll_remaining ex')"
proof -
  have late: "\<not> poll_remaining ex \<le> max c 1"
    and ex': "ex' = ex\<lparr>poll_remaining := poll_remaining ex - max c 1, fuel := fuel ex - c\<rparr>"
    using assms by (auto simp: consume_fuel_def poll_def Let_def split: if_splits)
  then have charged: "max c 1 < poll_remaining ex" by (simp only: not_le)
  show "check_execution reached ex' = Inl m" using assms(1) by (simp add: ex' check_same)
  have one: "1 \<le> unat (max c 1)" by (simp add: max_def word_le_nat_alt unat_gt_0 split: if_splits)
  have "unat (poll_remaining ex - max c 1) = unat (poll_remaining ex) - unat (max c 1)"
    using charged by (intro unat_sub) (simp add: word_le_nat_alt word_less_nat_alt)
  then show "unat (poll_remaining ex') + 1 \<le> unat (poll_remaining ex)" "0 < unat (poll_remaining ex')"
    using one charged by (simp_all add: ex' word_less_nat_alt)
qed

lemma interrupted_run:
  "check_execution reached ex = Inl m \<Longrightarrow> fst (consume_all reached cs ex) = Inr () \<Longrightarrow>
   cs = [] \<or> length cs < unat (poll_remaining ex)"
proof (induction cs arbitrary: ex)
  case Nil
  then show ?case by simp
next
  case (Cons c cs)
  obtain ex' where step: "consume_fuel reached c ex = (Inr (), ex')" "fst (consume_all reached cs ex') = Inr ()"
    using Cons.prems(2) by (auto split: prod.splits sum.splits)
  note inter = interrupted_step [OF Cons.prems(1) step(1)]
  show ?case using Cons.IH [OF inter(1) step(2)] inter(2,3) by auto
qed

text \<open>C2: once a cancellation or a passed deadline makes the check fail, at most 64 further
  instructions are charged before the run stops with an error, whatever they cost and however the
  state was reached, zero-cost instructions included.\<close>

theorem interrupt_observed:
  assumes "execution_reachable (limits, ex)" and "check_execution reached ex = Inl m" and "64 \<le> length cs"
  shows "\<exists>e. fst (consume_all reached cs ex) = Inl e"
proof -
  have "unat (poll_remaining ex) \<le> 64" using poll_bound [OF assms(1)] by (simp add: word_le_nat_alt)
  then have "fst (consume_all reached cs ex) \<noteq> Inr ()"
    using interrupted_run [OF assms(2), of cs] assms(3) by auto
  then show ?thesis by (cases "fst (consume_all reached cs ex)") auto
qed

theorem interrupt_observed_witness:
  "\<exists>e. fst (consume_all (\<lambda>_. False) (replicate 64 0) (cancel new_execution)) = Inl e"
proof (rule interrupt_observed)
  define l where "l = \<lparr>loop_budget = 1, fuel_budget = 1, max_jobs_per_drain = 1, max_call_depth = 1\<rparr>"
  show "execution_reachable (l, cancel new_execution)"
    by (rule reach_step [OF reach_new step_cancel])
  show "check_execution (\<lambda>_. False) (cancel new_execution) = Inl ''Error: Guest execution cancelled''"
    by (simp add: check_execution_def cancel_def)
qed simp

end
