(* ===== verification/Metered_Run.thy ===== *)
theory Metered_Run
  imports Vm_Run Execution_Budget
begin

text \<open>
  Budgets and the run loop together: \<open>run_loop\<close> charges \<open>Instr::cost\<close> before every instruction
  (\<open>bytecode/vm.rs\<close>, \<open>execute_instruction\<close>) and \<open>LoopHead\<close> charges one loop iteration
  (\<open>interpreter/mod.rs\<close>, \<open>consume_fuel\<close> and \<open>consume_loop\<close>). Moves and jumps are free, and an
  exhausted budget raises an error that the guest can catch; the theorem is that a run ends all the
  same, because a free backward jump meets a loop head and a handler costs fuel to push.
\<close>

section \<open>The interpreter as a keeper of budgets\<close>

definition spare :: "execution_state \<Rightarrow> nat" where
  "spare ex = unat (fuel ex) + unat (loops ex)"

text \<open>A helper that charges as the budget operation does, whatever the clock says at that moment, and
  a helper that may only spend: what it runs in turn charges the same budgets.\<close>

definition charges ::
  "('w \<Rightarrow> ('x + unit) \<times> 'w) \<Rightarrow> ('w \<Rightarrow> execution_state) \<Rightarrow>
   ((u64 \<Rightarrow> bool) \<Rightarrow> execution_state \<Rightarrow> (string + unit) \<times> execution_state) \<Rightarrow> bool" where
  "charges h ex spend \<longleftrightarrow> (\<forall>w. \<exists>reached.
     (fst (h w) = Inr () \<longleftrightarrow> fst (spend reached (ex w)) = Inr ()) \<and> ex (snd (h w)) = snd (spend reached (ex w)))"

definition only_spends :: "('q \<Rightarrow> 'w \<Rightarrow> 'x \<times> 'w) \<Rightarrow> ('w \<Rightarrow> execution_state) \<Rightarrow> bool" where
  "only_spends h ex \<longleftrightarrow> (\<forall>q w. spare (ex (snd (h q w))) \<le> spare (ex w))"

definition metered :: "('w, 'o, 's, 'e, 'ast) interp \<Rightarrow> ('w \<Rightarrow> execution_state) \<Rightarrow> bool" where
  "metered io ex \<longleftrightarrow>
     (\<forall>c. charges (ask_unit io (''consume_fuel'', [ANat c])) ex (\<lambda>reached. consume_fuel reached (of_nat c))) \<and>
     charges (ask_unit io (''consume_loop'', [])) ex consume_loop \<and>
     only_spends (ask_unit io) ex \<and> only_spends (ask_bool io) ex \<and> only_spends (ask_name io) ex \<and>
     only_spends (ask_val io) ex \<and> only_spends (ask_opt io) ex \<and> only_spends (ask_pair io) ex \<and>
     only_spends (ask_triple io) ex \<and> only_spends (ask_vals io) ex \<and> only_spends (ask_lookup io) ex \<and>
     only_spends (ask_scope io) ex \<and> only_spends (assemble_class io) ex \<and> only_spends (enum_new io) ex \<and>
     only_spends (enum_next io) ex"

text \<open>Where a free jump goes: the loops of compiled code start with \<open>LoopHead\<close>, and only jumps to a loop
  head go backwards.\<close>

fun free_target :: "instr \<Rightarrow> target option" where
  "free_target (IFlow (Jump t)) = Some t"
| "free_target (IFlow (JumpIfTrue _ t)) = Some t"
| "free_target (IFlow (JumpIfFalse _ t)) = Some t"
| "free_target (IFlow (JumpIfNullish _ t)) = Some t"
| "free_target (IFlow (JumpIfNotNullish _ t)) = Some t"
| "free_target _ = None"

definition loops_guarded :: "'ast bytecode_function \<Rightarrow> bool" where
  "loops_guarded f \<longleftrightarrow> list_all (\<lambda>(a, i). case free_target i of
     None \<Rightarrow> True
   | Some t \<Rightarrow> a < unat t \<or> get_at (code f) (unat t) = Some (IFlow LoopHead)) (enumerate 0 (code f))"

section \<open>Operations that spend and stay in their function\<close>

definition frugal :: "('w \<Rightarrow> execution_state) \<Rightarrow> ('w, 'o, 's, 'e, 'ast, 'a) vm \<Rightarrow> bool" where
  "frugal ex m \<longleftrightarrow> (\<forall>w fr. fn (snd (snd (m (w, fr)))) = fn fr \<and> spare (ex (fst (snd (m (w, fr))))) \<le> spare (ex w))"

named_theorems frugal \<open>operations that only spend, one rule per operation and construct\<close>

lemma frugalI:
  "(\<And>w fr r w' fr'. m (w, fr) = (r, w', fr') \<Longrightarrow> fn fr' = fn fr \<and> spare (ex w') \<le> spare (ex w)) \<Longrightarrow> frugal ex m"
  unfolding frugal_def by (metis prod.collapse)

lemma frugalD:
  assumes "frugal ex m" "m (w, fr) = (r, w', fr')"
  shows "fn fr' = fn fr" and "spare (ex w') \<le> spare (ex w)"
  using assms unfolding frugal_def by (metis fst_conv snd_conv)+

lemma frugal_plain [frugal]:
  "frugal ex (ret x)" "frugal ex (raise e)" "frugal ex panic" "frugal ex unreachable" "frugal ex (current_scope io)"
  by (auto simp: frugal_def ret_def raise_def panic_def unreachable_def current_scope_def)

lemma frugal_bind [frugal]:
  assumes "frugal ex m" "\<And>x. frugal ex (k x)"
  shows "frugal ex (bindM m k)"
proof (rule frugalI)
  fix w fr r w' fr'
  assume run: "bindM m k (w, fr) = (r, w', fr')"
  obtain r1 w1 fr1 where m: "m (w, fr) = (r1, w1, fr1)" by (metis prod_cases3)
  note first = frugalD [OF assms(1) m]
  show "fn fr' = fn fr \<and> spare (ex w') \<le> spare (ex w)"
  proof (cases r1)
    case (Inl e)
    then show ?thesis using first run m by (simp add: bindM_def)
  next
    case (Inr x)
    then have "k x (w1, fr1) = (r, w', fr')" using run m by (simp add: bindM_def)
    from frugalD [OF assms(2) this] show ?thesis using first by simp
  qed
qed

lemma frugal_seq [frugal]: "frugal ex m \<Longrightarrow> frugal ex k \<Longrightarrow> frugal ex (seqM m k)"
  unfolding seqM_def by (rule frugal_bind)

lemma frugal_with_frame [frugal]: "(\<And>fr. frugal ex (k fr)) \<Longrightarrow> frugal ex (with_frame k)"
  unfolding frugal_def with_frame_def by simp

lemma frugal_with_world [frugal]: "(\<And>w. frugal ex (k w)) \<Longrightarrow> frugal ex (with_world k)"
  unfolding frugal_def with_world_def by simp

lemma frugal_with_outcome [frugal]: "(\<And>v. frugal ex (k v)) \<Longrightarrow> frugal ex (with_outcome x k)"
  by (auto simp: with_outcome_def intro: frugal_plain split: sum.split rust_err.split)

lemma frugal_modify_frame [frugal]: "(\<And>fr. fn (g fr) = fn fr) \<Longrightarrow> frugal ex (modify_frame g)"
  unfolding frugal_def modify_frame_def by simp

lemma frugal_ask [frugal]: "only_spends h ex \<Longrightarrow> frugal ex (ask h q)"
proof (rule frugalI)
  fix w fr r w' fr'
  assume "only_spends h ex" and run: "ask h q (w, fr) = (r, w', fr')"
  then have "spare (ex (snd (h q w))) \<le> spare (ex w)" by (simp add: only_spends_def)
  then show "fn fr' = fn fr \<and> spare (ex w') \<le> spare (ex w)"
    using run by (auto simp: ask_def split: prod.splits sum.splits)
qed

lemma frugal_cases [frugal]:
  "(c \<Longrightarrow> frugal ex a) \<Longrightarrow> (\<not> c \<Longrightarrow> frugal ex b) \<Longrightarrow> frugal ex (if c then a else b)"
  "(\<And>y. frugal ex (g y)) \<Longrightarrow> frugal ex (let y = x in g y)"
  "(\<And>a b. frugal ex (p a b)) \<Longrightarrow> frugal ex (case ab of (a, b) \<Rightarrow> p a b)"
  "frugal ex n \<Longrightarrow> (\<And>y. frugal ex (s y)) \<Longrightarrow> frugal ex (case z of None \<Rightarrow> n | Some y \<Rightarrow> s y)"
  by (auto split: prod.split option.split)

lemma frugal_case_lookup [frugal]:
  "(\<And>v. frugal ex (g v)) \<Longrightarrow> frugal ex a \<Longrightarrow> frugal ex b \<Longrightarrow>
   frugal ex (case x of Found v \<Rightarrow> g v | Uninitialized \<Rightarrow> a | Missing \<Rightarrow> b)"
  by (cases x) auto

lemma frugal_case_val [frugal]:
  "frugal ex u \<Longrightarrow> frugal ex n \<Longrightarrow> (\<And>b. frugal ex (vb b)) \<Longrightarrow> (\<And>d. frugal ex (vn d)) \<Longrightarrow> (\<And>t. frugal ex (vs t)) \<Longrightarrow>
   (\<And>i. frugal ex (vi i)) \<Longrightarrow> (\<And>j. frugal ex (vo j)) \<Longrightarrow>
   frugal ex (case x of Undefined \<Rightarrow> u | Null \<Rightarrow> n | VBool b \<Rightarrow> vb b | Number d \<Rightarrow> vn d
     | VString t \<Rightarrow> vs t | VBigInt i \<Rightarrow> vi i | VObject j \<Rightarrow> vo j)"
  by (cases x) auto

lemma frugal_mapM [frugal]: "(\<And>x. frugal ex (g x)) \<Longrightarrow> frugal ex (mapM g xs)"
  by (induction xs) (auto intro!: frugal_plain frugal_bind)

lemma frugal_foldM [frugal]: "(\<And>x a. frugal ex (g x a)) \<Longrightarrow> frugal ex (foldM g xs a)"
  by (induction xs arbitrary: a) (auto intro!: frugal_plain frugal_bind)

lemma frugal_registers [frugal]:
  "frugal ex (read_reg r)" "frugal ex (set_reg r v)" "frugal ex (read_slot s)" "frugal ex (set_slot s y)"
  "frugal ex (slot_name_of s)" "frugal ex (cache_at c)" "frugal ex (set_ip t)" "frugal ex (take_range what start count)"
  unfolding read_reg_def set_reg_def read_slot_def set_slot_def slot_name_of_def cache_at_def set_ip_def take_range_def
  by (intro frugal; simp)+

lemma frugal_slots [frugal]:
  "frugal ex (check_slot_writable s)" "frugal ex (read_live_slot s)" "frugal ex (init_slot s v)"
  unfolding check_slot_writable_def read_live_slot_def init_slot_def by (intro frugal)+

lemma frugal_with_const [frugal]: "(\<And>c. frugal ex (k c)) \<Longrightarrow> frugal ex (with_const n k)"
  unfolding with_const_def by (intro frugal)

lemma frugal_constants [frugal]:
  "frugal ex (const_string c)"
  "(\<And>es. frugal ex (j es)) \<Longrightarrow> frugal ex (spread_template t j)"
  unfolding const_string_def spread_template_def
  by (auto intro!: frugal_with_frame frugal_plain split: option.split const_value.split)

text \<open>A loop head weighs nothing, any other address the more the earlier it is: free instructions make the
  weight of the instruction pointer fall.\<close>

definition weight :: "'ast bytecode_function \<Rightarrow> nat \<Rightarrow> nat" where
  "weight f a = (if get_at (code f) a = Some (IFlow LoopHead) then 0 else 1 + (length (code f) - a))"

definition rank :: "('w \<Rightarrow> execution_state) \<Rightarrow> ('w, 'o, 's, 'e, 'ast) machine \<Rightarrow> nat \<times> nat \<times> nat" where
  "rank ex s = (spare (ex (fst s)), length (handlers (snd s)), weight (fn (snd s)) (ip (snd s)))"

lemma weight_forward: "a < length (code f) \<Longrightarrow> code f ! a \<noteq> IFlow LoopHead \<Longrightarrow> a < b \<Longrightarrow> weight f b < weight f a"
  by (auto simp: weight_def)

lemma weight_head:
  "a < length (code f) \<Longrightarrow> code f ! a \<noteq> IFlow LoopHead \<Longrightarrow> get_at (code f) b = Some (IFlow LoopHead) \<Longrightarrow>
   weight f b < weight f a"
  by (simp add: weight_def)

lemma loops_guardedD:
  assumes "loops_guarded f" "a < length (code f)" "free_target (code f ! a) = Some t"
  shows "a < unat t \<or> get_at (code f) (unat t) = Some (IFlow LoopHead)"
proof -
  have "(a, code f ! a) \<in> set (enumerate 0 (code f))" using assms(2) by (force simp: in_set_enumerate_eq)
  then show ?thesis using assms(1,3) by (auto simp: loops_guarded_def list_all_iff)
qed

lemma take_handler_shorter: "take_handler returning hs = Some (h, below) \<Longrightarrow> length below < length hs"
  by (induction hs) (auto split: if_splits)

text \<open>The free instructions leave the handlers alone and go to the next address or to their target.\<close>

lemma ask_frame: "ask h q (w, fr) = (r, w', fr') \<Longrightarrow> fr' = fr"
  by (auto simp: ask_def split: prod.splits sum.splits)

lemma free_instr_cases:
  fixes io :: "('w, 'o, 's, 'e, 'ast) interp"
  assumes "cost i = 0"
  obtains (mov) dst src where "i = IMove (Mov dst src)"
  | (head) "i = IFlow LoopHead"
  | (jump) t where "i = IFlow (Jump t)"
  | (branch) src t e where "free_target i = Some t" "exec_instr io i = exec_branch io e src t"
  | (nullish) src t b where "free_target i = Some t"
      "exec_instr io i = bindM (read_reg src) (\<lambda>v. if is_nullish v = b then set_ip t else ret ())"
proof (cases i)
  case (IMove m)
  then show ?thesis using assms that(1) by (cases m) auto
next
  case (ICall c)
  then show ?thesis using assms by (cases c) auto
next
  case (IFlow g)
  then show ?thesis using assms that(2-4) that(5) [where b = True] that(5) [where b = False] by (cases g) auto
qed (use assms in auto)

lemma bindM_split:
  assumes "bindM m k (w, fr) = (r, w', fr')"
  obtains e where "m (w, fr) = (Inl e, w', fr')" "r = Inl e"
  | x w1 fr1 where "m (w, fr) = (Inr x, w1, fr1)" "k x (w1, fr1) = (r, w', fr')"
  using assms by (auto simp: bindM_def split: prod.splits sum.splits)

lemma read_reg_frame: "read_reg a (w, fr) = (r, w', fr') \<Longrightarrow> fr' = fr \<and> w' = w"
  by (auto simp: read_reg_def with_frame_def ret_def panic_def split: if_splits)

lemma set_reg_frame: "set_reg a v (w, fr) = (r, w', fr') \<Longrightarrow> handlers fr' = handlers fr \<and> ip fr' = ip fr"
  by (auto simp: set_reg_def with_frame_def modify_frame_def panic_def split: if_splits)

lemma free_instr_frame:
  assumes "cost i = 0" "exec_instr io i (w, fr) = (r, w', fr')"
  shows "handlers fr' = handlers fr \<and> (ip fr' = ip fr \<or> (\<exists>t. free_target i = Some t \<and> ip fr' = unat t))"
  using assms(1)
proof (cases rule: free_instr_cases [where io = io])
  case (mov dst src)
  with assms(2) show ?thesis by (auto elim!: bindM_split dest!: read_reg_frame set_reg_frame)
next
  case head
  with assms(2) show ?thesis by (auto simp: seqM_def elim!: bindM_split dest!: ask_frame)
next
  case (jump t)
  with assms(2) show ?thesis by (auto simp: set_ip_def modify_frame_def)
next
  case (branch src t e)
  with assms(2) show ?thesis
    by (auto simp: exec_branch_def set_ip_def modify_frame_def ret_def
        elim!: bindM_split dest!: ask_frame read_reg_frame split: if_splits)
next
  case (nullish src t b)
  with assms(2) show ?thesis
    by (auto simp: set_ip_def modify_frame_def ret_def elim!: bindM_split dest!: read_reg_frame split: if_splits)
qed

lemma cost_small: "cost i < 2 ^ 64"
  by (cases i rule: cost.cases) (auto split: call_instr.split flow_instr.split)

definition descends :: "((nat \<times> nat \<times> nat) \<times> (nat \<times> nat \<times> nat)) set" where
  "descends = less_than <*lex*> less_than <*lex*> less_than"

lemma descendsI:
  "a' < a \<Longrightarrow> ((a', x'), (a, x)) \<in> descends"
  "a' \<le> a \<Longrightarrow> b' < b \<Longrightarrow> ((a', b', c'), (a, b, c)) \<in> descends"
  "a' \<le> a \<Longrightarrow> b' \<le> b \<Longrightarrow> c' < c \<Longrightarrow> ((a', b', c'), (a, b, c)) \<in> descends"
  by (auto simp: descends_def)

lemma wf_descends: "wf descends"
  unfolding descends_def by (intro wf_lex_prod wf_less_than)

section \<open>Every instruction only spends\<close>

locale metered_interp =
  fixes io :: "('w, 'o, 's, 'e, 'ast) interp" and ex :: "'w \<Rightarrow> execution_state"
  assumes metered: "metered io ex"
begin

lemma helpers [frugal]:
  "only_spends (ask_unit io) ex" "only_spends (ask_bool io) ex" "only_spends (ask_name io) ex"
  "only_spends (ask_val io) ex" "only_spends (ask_opt io) ex" "only_spends (ask_pair io) ex"
  "only_spends (ask_triple io) ex" "only_spends (ask_vals io) ex" "only_spends (ask_lookup io) ex"
  "only_spends (ask_scope io) ex" "only_spends (assemble_class io) ex" "only_spends (enum_new io) ex"
  "only_spends (enum_next io) ex"
  using metered by (simp_all add: metered_def)

lemma frugal_load_const [frugal]: "frugal ex (load_const io c)"
  by (cases c) (simp_all add: frugal)

lemma frugal_moves [frugal]:
  "frugal ex (exec_load_global io dst i)" "frugal ex (exec_store_global io i src)"
  "frugal ex (exec_annex_update io i src t)" "frugal ex (exec_typeof_global io dst i)"
  "frugal ex (exec_write_property io obj key src p)"
  unfolding exec_load_global_def lookup_global_def exec_store_global_def exec_annex_update_def
    exec_typeof_global_def exec_write_property_def
  by (intro frugal)+

lemma frugal_exec_move [frugal]: "frugal ex (exec_move io i)"
  by (cases i) (simp_all, (intro frugal)+)

lemma frugal_operators [frugal]:
  "frugal ex (exec_binary io dst op lhs rhs)" "frugal ex (compound_slot io t aop rhs)"
  "frugal ex (exec_inc_local io dst t delta prefix)" "frugal ex (exec_inc_prop io dst obj key delta prefix)"
  unfolding exec_binary_def Let_def compound_slot_def exec_inc_local_def exec_inc_prop_def by (intro frugal)+

lemma frugal_exec_op [frugal]: "frugal ex (exec_op io i)"
  by (cases i) (simp_all, (intro frugal)+)

lemma frugal_exec_branch [frugal]: "frugal ex (exec_branch io e src t)"
  unfolding exec_branch_def by (intro frugal)

lemma frugal_exec_flow [frugal]: "frugal ex (exec_flow io i)"
  by (cases i) (simp_all, (intro frugal)+)

lemma frugal_arguments [frugal]:
  "frugal ex (push_call_arg v argv)" "frugal ex (append_iterable io m v out)"
  "frugal ex (checked_array io items)" "frugal ex (dispatch_call io dst c this argv)" "frugal ex (read_receiver rcv)"
  unfolding push_call_arg_def append_iterable_def checked_array_def dispatch_call_def request_tail_call_def
    read_receiver_def
  by (intro frugal)+

lemma frugal_spread_snapshot [frugal]: "(\<And>items. frugal ex (k items)) \<Longrightarrow> frugal ex (spread_snapshot io v k)"
  unfolding spread_snapshot_def by (intro frugal)

lemma frugal_spreads [frugal]:
  "frugal ex (spread_argv io es)" "frugal ex (spread_array io es)" "frugal ex (direct_eval io dst callee this argv)"
  unfolding spread_argv_def spread_array_def spread_array_entry_def direct_eval_def by (intro frugal)+

lemma frugal_names [frugal]:
  "(\<And>n. frugal ex (k n)) \<Longrightarrow> frugal ex (key_name io bad v k)"
  "(\<And>n. frugal ex (k n)) \<Longrightarrow> frugal ex (entry_key_name io key k)"
proof -
  show name: "frugal ex (key_name io bad v k)" if "\<And>n. frugal ex (k n)" for k bad v
    unfolding key_name_def by (intro frugal that)
  show "frugal ex (entry_key_name io key k)" if "\<And>n. frugal ex (k n)" for k
    unfolding entry_key_name_def by (cases key) (simp_all, (intro frugal that name)+)
qed

lemma frugal_check_prop_limit [frugal]: "frugal ex (check_prop_limit b)"
  unfolding check_prop_limit_def by (intro frugal)

lemma frugal_for_each_spread_entry [frugal]:
  "(\<And>key v a. frugal ex (ins key v a)) \<Longrightarrow> frugal ex (for_each_spread_entry io source excluded ins a)"
  unfolding for_each_spread_entry_def by (intro frugal)

lemma frugal_properties [frugal]:
  "frugal ex (spread_into io key v b)" "frugal ex (build_property io home e b)" "frugal ex (checked_object io props)"
  unfolding spread_into_def build_property_def checked_object_def by (intro frugal)+

lemma frugal_build_entry [frugal]: "frugal ex (build_entry io home e b)"
  unfolding build_entry_def by (cases "entry_kind e") (simp_all, (intro frugal)+)

lemma frugal_objects [frugal]:
  "frugal ex (build_object io es)" "frugal ex (to_destruct_array io v)" "frugal ex (check_destruct_object v)"
  "frugal ex (rest_object io source taken)"
  unfolding build_object_def to_destruct_array_def check_destruct_object_def rest_object_def copy_data_properties_def
  by (intro frugal)+

lemma frugal_calls [frugal]:
  "frugal ex (make_function io g sc name)" "frugal ex (make_ast_function io h sc name)"
  "frugal ex (exec_get_prop io p cache dst obj key)" "frugal ex (exec_set_prop io cache obj key val)"
  "frugal ex (exec_rest_array io dst src n)" "frugal ex (exec_freeze_template io site cooked raw)"
  unfolding make_function_def make_ast_function_def exec_get_prop_def exec_set_prop_def exec_rest_array_def
    exec_freeze_template_def
  by (intro frugal)+

lemma frugal_exec_call [frugal]: "frugal ex (exec_call io i)"
  by (cases i) (simp_all, (intro frugal | simp add: frugal split: const_value.split)+)

lemma frugal_class_function [frugal]: "frugal ex (class_function io index closure name)"
  unfolding class_function_def
  by (intro frugal) (auto intro: frugal split: const_value.split)

lemma frugal_name_value [frugal]: "frugal ex (name_value name)"
  unfolding name_value_def by (cases name) (simp_all, (intro frugal)+)

lemma frugal_members [frugal]:
  "frugal ex (read_decorators ds)" "frugal ex (define_class_private_element io sc n st el m)"
  "frugal ex (record_definition template member property v m)" "frugal ex (install_method io sc member key v m)"
  "frugal ex (install_accessor io sc member key v m)" "frugal ex (read_option x)" "frugal ex (strict_member_env io sc)"
  "frugal ex (class_field_definition field)"
proof -
  show ds: "frugal ex (read_decorators ds)" for ds
    unfolding read_decorators_def by (intro frugal)
  show pm: "frugal ex (define_class_private_element io sc n st el m)" for el
    unfolding define_class_private_element_def by (intro frugal)
  show "frugal ex (record_definition template member property v m)" "frugal ex (install_method io sc member key v m)"
    "frugal ex (install_accessor io sc member key v m)" "frugal ex (read_option x)"
    "frugal ex (strict_member_env io sc)" "frugal ex (class_field_definition field)"
    unfolding record_definition_def install_method_def install_accessor_def with_accessor_def read_option_def
      strict_member_env_def class_field_definition_def define_class_private_element_def
    by (intro frugal ds)+
qed

lemma frugal_class_static_element [frugal]: "frugal ex (class_static_element block)"
  unfolding class_static_element_def
  by (cases block) (auto intro!: frugal split: option.split const_value.split)

lemma frugal_add_class_member [frugal]: "frugal ex (add_class_member io template sc mc st member m)"
  unfolding add_class_member_def by (intro frugal)

lemma frugal_build_class [frugal]: "frugal ex (build_class_from_template io template)"
  unfolding build_class_from_template_def by (intro frugal)

lemma frugal_advance [frugal]: "frugal ex (advance io state e)"
proof (rule frugalI)
  fix w fr r w' fr'
  assume run: "advance io state e (w, fr) = (r, w', fr')"
  have "spare (ex (snd (enum_next io e w))) \<le> spare (ex w)" using helpers(13) by (simp add: only_spends_def)
  then show "fn fr' = fn fr \<and> spare (ex w') \<le> spare (ex w)"
    using run by (auto simp: advance_def Let_def split: prod.splits)
qed

lemma frugal_iteration [frugal]:
  "frugal ex (exec_enum_next io state dst fin)" "frugal ex (exec_enum_end state)"
  "frugal ex (exec_for_of_init io iter nxt src)" "frugal ex (exec_iter_next io fin val iter nxt)"
  "frugal ex (exec_close_iterator io src unwind)" "frugal ex (push_handler t dst returns)"
  unfolding exec_enum_next_def top_enumerator_def exec_enum_end_def exec_for_of_init_def exec_iter_next_def
    exec_close_iterator_def push_handler_def
  by (intro frugal; simp)+

lemma frugal_exec_loop [frugal]: "frugal ex (exec_loop io i)"
  by (cases i) (simp_all, (intro frugal | simp)+)

lemma frugal_scopes [frugal]:
  "frugal ex (push_scope sc)" "frugal ex (super_reference io r)" "frugal ex (exec_class_scope io name)"
  unfolding push_scope_def super_reference_def exec_class_scope_def by (intro frugal | simp)+

lemma frugal_exec_class [frugal]: "frugal ex (exec_class io i)"
  by (cases i) (simp_all, (intro frugal | simp add: frugal split: const_value.split)+)

lemma frugal_exec_instr [frugal]: "frugal ex (exec_instr io i)"
  by (cases i) (simp_all, (intro frugal)+)

lemma frugal_handler_value [frugal]: "frugal ex (handler_value io e)"
  by (cases e) (simp_all, (intro frugal)+)

lemma frugal_land_handler [frugal]: "frugal ex (land_handler io e)"
  unfolding land_handler_def by (intro frugal) (simp_all add: enter_handler_def)

text \<open>A charge that succeeds leaves less to spend.\<close>

lemma fuel_charged:
  assumes "ask_unit io (''consume_fuel'', [ANat c]) w = (Inr (), w')" "c < 2 ^ 64"
  shows "spare (ex w') + c \<le> spare (ex w)"
proof -
  have "charges (ask_unit io (''consume_fuel'', [ANat c])) ex (\<lambda>reached. consume_fuel reached (of_nat c))"
    using metered by (simp add: metered_def)
  then obtain reached where "fst (consume_fuel reached (of_nat c) (ex w)) = Inr ()"
    and after: "ex w' = snd (consume_fuel reached (of_nat c) (ex w))"
    using assms(1) unfolding charges_def by (metis fst_conv snd_conv)
  then obtain p where p: "poll reached (of_nat c) (ex w) = Inr p" and enough: "of_nat c \<le> fuel p"
    and w': "ex w' = p\<lparr>fuel := fuel p - of_nat c\<rparr>"
    by (auto simp: consume_fuel_def split: sum.splits if_splits)
  have same: "fuel p = fuel (ex w)" "loops p = loops (ex w)"
    using p by (auto simp: poll_def Let_def bind_outcome_Inr_iff split: if_splits)
  have "unat (of_nat c :: u64) = c" using assms(2) by (simp add: unsigned_of_nat take_bit_nat_eq_self)
  then show ?thesis using enough by (simp add: spare_def w' same unat_sub word_le_nat_alt)
qed

lemma loop_charged:
  assumes "ask_unit io (''consume_loop'', []) w = (Inr (), w')"
  shows "spare (ex w') < spare (ex w)"
proof -
  have "charges (ask_unit io (''consume_loop'', [])) ex consume_loop" using metered by (simp add: metered_def)
  then obtain reached where "fst (consume_loop reached (ex w)) = Inr ()"
    and after: "ex w' = snd (consume_loop reached (ex w))"
    using assms unfolding charges_def by (metis fst_conv snd_conv)
  then have "loops (ex w) \<noteq> 0" "ex w' = (ex w)\<lparr>loops := loops (ex w) - 1\<rparr>"
    by (auto simp: consume_loop_def split: sum.splits if_splits)
  then show ?thesis by (simp add: spare_def unat_minus_one unat_gt_0)
qed

lemma head_charged:
  assumes "exec_instr io (IFlow LoopHead) (w, fr) = (Inr (), w', fr')"
  shows "spare (ex w') < spare (ex w)"
proof -
  obtain w1 fr1 where charge: "ask (ask_unit io) (''consume_loop'', []) (w, fr) = (Inr (), w1, fr1)"
    and note': "ask (ask_unit io) (''note_loop_iter'', []) (w1, fr1) = (Inr (), w', fr')"
    using assms by (auto simp: seqM_def elim!: bindM_split)
  have "ask_unit io (''consume_loop'', []) w = (Inr (), w1)"
    using charge by (auto simp: ask_def split: prod.splits sum.splits)
  then show ?thesis using frugalD(2) [OF frugal_ask [OF helpers(1)] note'] loop_charged by fastforce
qed

lemma landing_pops:
  assumes "land_handler io e (w, fr) = (Inr u, w', fr')"
  shows "length (handlers fr') < length (handlers fr)"
proof -
  obtain h below where taken: "take_handler (is_return e) (rev (handlers fr)) = Some (h, below)"
    and run: "seqM (modify_frame (\<lambda>fr. fr\<lparr>handlers := rev below\<rparr>)) (bindM (handler_value io e) (\<lambda>v.
      seqM (set_reg (h_dst h) v) (modify_frame (enter_handler h e)))) (w, fr) = (Inr u, w', fr')"
    using assms
    by (auto simp: land_handler_def raise_def with_frame_def modify_frame_def seqM_def bindM_def
        split: if_splits option.splits)
  have kept: "handler_value io e (w, f1) = (r, w2, f2) \<Longrightarrow> f2 = f1" for f1 r w2 f2
    by (cases e) (auto simp: ret_def unreachable_def dest!: ask_frame)
  have "handlers fr' = rev below"
    using run
    by (auto simp: seqM_def modify_frame_def enter_handler_def elim!: bindM_split dest!: kept set_reg_frame)
  then show ?thesis using take_handler_shorter [OF taken] by simp
qed

text \<open>A charged instruction that goes on has spent, or is free and has come closer to a loop head or to the
  end of the code.\<close>

lemma instr_descends:
  assumes at: "ip fr < length (code (fn fr))" and guarded: "loops_guarded (fn fr)"
    and charged: "spare (ex w1) + cost (code (fn fr) ! ip fr) \<le> spare (ex w)"
    and run: "exec_instr io (code (fn fr) ! ip fr) (w1, fr\<lparr>ip := ip fr + 1\<rparr>) = (Inr (), w', fr')"
  shows "(rank ex (w', fr'), rank ex (w, fr)) \<in> descends"
proof (cases "spare (ex w') < spare (ex w)")
  case True
  then show ?thesis by (simp add: rank_def descendsI)
next
  case False
  define i where "i = code (fn fr) ! ip fr"
  note spent = frugalD [OF frugal_exec_instr run]
  have free: "cost i = 0" using False spent charged by (simp add: i_def)
  have not_head: "i \<noteq> IFlow LoopHead"
    using head_charged [of w1 "fr\<lparr>ip := ip fr + 1\<rparr>" w' fr'] run False charged unfolding i_def by fastforce
  have moved: "handlers fr' = handlers fr" "ip fr' = ip fr + 1 \<or> (\<exists>t. free_target i = Some t \<and> ip fr' = unat t)"
    using free_instr_frame [OF free run [folded i_def]] by simp_all
  have "weight (fn fr) (ip fr') < weight (fn fr) (ip fr)"
    using moved(2) loops_guardedD [OF guarded at, folded i_def] not_head at
    by (auto simp: i_def intro: weight_forward weight_head)
  then show ?thesis using spent charged moved(1) by (auto simp: rank_def intro!: descendsI(3))
qed

lemma step_descends:
  assumes run: "vm_step io outer (w, fr) = (None, w', fr')" and guarded: "loops_guarded (fn fr)"
  shows "fn fr' = fn fr \<and> (rank ex (w', fr'), rank ex (w, fr)) \<in> descends"
proof -
  obtain i where "get_at (code (fn fr)) (ip fr) = Some i"
    using run by (auto simp: vm_step_def split: option.splits if_splits)
  then have at: "ip fr < length (code (fn fr))" and i: "code (fn fr) ! ip fr = i" by (auto dest: get_at_SomeD)
  obtain r1 w1 where charge: "ask_unit io (''consume_fuel'', [ANat (cost i)]) w = (r1, w1)" by fastforce
  have less: "spare (ex w1) \<le> spare (ex w)"
    using helpers(1) charge unfolding only_spends_def by (metis snd_conv)
  obtain r2 w2 fr2 where exec: "exec_instr io i (w1, fr\<lparr>ip := ip fr + 1\<rparr>) = (r2, w2, fr2)" by (metis prod_cases3)
  note spent = frugalD [OF frugal_exec_instr exec]
  consider (unpaid) e where "r1 = Inl e" | (on) "r1 = Inr ()" "r2 = Inr ()" | (raised) f where "r1 = Inr ()" "r2 = Inl f"
    by (cases r1; cases r2) auto
  then show ?thesis
  proof cases
    case unpaid
    then have land: "land_handler io e (w1, fr) = (Inr (), w', fr')"
      using run at i charge
      by (auto simp: vm_step_def execute_instruction_def seqM_def bindM_def ask_def split: prod.splits sum.splits)
    show ?thesis using frugalD [OF frugal_land_handler land] landing_pops [OF land] less
      by (auto simp: rank_def intro!: descendsI(2))
  next
    case on
    have "w' = w2" "fr' = fr2"
      using run at i charge exec on
      by (auto simp: vm_step_def execute_instruction_def seqM_def bindM_def ask_def modify_frame_def)
    moreover have "spare (ex w1) + cost i \<le> spare (ex w)" using fuel_charged charge on cost_small by simp
    ultimately show ?thesis using instr_descends [OF at guarded, unfolded i] exec on spent by simp
  next
    case raised
    then obtain e where land: "land_handler io e (w2, fr2) = (Inr (), w', fr')"
      using run at i charge exec
      by (auto simp: vm_step_def execute_instruction_def seqM_def bindM_def ask_def modify_frame_def
          split: prod.splits sum.splits fault.splits)
    note landed = frugalD [OF frugal_land_handler land] landing_pops [OF land]
    have paid: "spare (ex w1) + cost i \<le> spare (ex w)" using fuel_charged charge raised cost_small by simp
    show ?thesis
    proof (cases "cost i = 0")
      case True
      then show ?thesis using free_instr_frame [OF True exec] landed spent paid
        by (auto simp: rank_def intro!: descendsI(2))
    next
      case False
      then show ?thesis using landed spent paid by (auto simp: rank_def intro!: descendsI(1))
    qed
  qed
qed

lemma run_halts: "loops_guarded (fn (snd s)) \<Longrightarrow> \<exists>n r t. run_loop io outer n s = (Some r, t)"
proof (induction s rule: wf_induct_rule [OF wf_inv_image [OF wf_descends, of "rank ex"]])
  case (1 s)
  obtain w fr where s: "s = (w, fr)" by fastforce
  obtain r w' fr' where step: "vm_step io outer s = (r, w', fr')" by (metis prod_cases3)
  show ?case
  proof (cases r)
    case None
    then have "fn fr' = fn fr" "((w', fr'), s) \<in> inv_image descends (rank ex)"
      using step_descends step 1(2) by (auto simp: s)
    then obtain n q t where "run_loop io outer n (w', fr') = (Some q, t)" using 1 by (fastforce simp: s)
    then have "run_loop io outer (Suc n) s = (Some q, t)" using step None by simp
    then show ?thesis by blast
  next
    case (Some q)
    then have "run_loop io outer (Suc 0) s = (Some q, w', fr')" using step by simp
    then show ?thesis by blast
  qed
qed

end

section \<open>An interpreter with budgets\<close>

text \<open>Any interpreter beside an execution state: the two charging helpers are the operations of
  \<open>interpreter/mod.rs\<close>, every other request is answered as before and leaves the budgets alone.\<close>

definition aside :: "('q \<Rightarrow> 'w \<Rightarrow> 'x \<times> 'w) \<Rightarrow> 'q \<Rightarrow> 'w \<times> execution_state \<Rightarrow> 'x \<times> 'w \<times> execution_state" where
  "aside h q = (\<lambda>(w, b). case h q w of (r, w') \<Rightarrow> (r, w', b))"

definition charge_budget ::
  "(execution_state \<Rightarrow> (string + unit) \<times> execution_state) \<Rightarrow> 'w \<times> execution_state \<Rightarrow>
   ('o vm_err + unit) \<times> 'w \<times> execution_state" where
  "charge_budget spend = (\<lambda>(w, b). case spend b of
     (Inl m, b') \<Rightarrow> (Inl (Msg (ascii m)), w, b')
   | (Inr _, b') \<Rightarrow> (Inr (), w, b'))"

fun budgeted_unit ::
  "(u64 \<Rightarrow> bool) \<Rightarrow> (('o, 's, 'ast) request \<Rightarrow> 'w \<Rightarrow> ('o vm_err + unit) \<times> 'w) \<Rightarrow> ('o, 's, 'ast) request \<Rightarrow>
   'w \<times> execution_state \<Rightarrow> ('o vm_err + unit) \<times> 'w \<times> execution_state" where
  "budgeted_unit reached h (name, [ANat c]) =
     (if name = ''consume_fuel'' then charge_budget (consume_fuel reached (of_nat c)) else aside h (name, [ANat c]))"
| "budgeted_unit reached h (name, []) =
     (if name = ''consume_loop'' then charge_budget (consume_loop reached) else aside h (name, []))"
| "budgeted_unit reached h q = aside h q"

definition with_budget ::
  "(u64 \<Rightarrow> bool) \<Rightarrow> ('w, 'o, 's, 'e, 'ast) interp \<Rightarrow> ('w \<times> execution_state, 'o, 's, 'e, 'ast) interp" where
  "with_budget reached io =
     \<lparr>global_scope = (\<lambda>w. global_scope io (fst w)), tail_call_context = (\<lambda>w. tail_call_context io (fst w)),
      array_items = (\<lambda>v w. array_items io v (fst w)), symbol_key = symbol_key io,
      number_display = number_display io, number_string = number_string io, f64_step = f64_step io,
      strict_equals = strict_equals io, is_callable = is_callable io, class_accessor_kind = class_accessor_kind io,
      private_name = (\<lambda>sc n w. private_name io sc n (fst w)),
      ask_unit = budgeted_unit reached (ask_unit io), ask_bool = aside (ask_bool io), ask_name = aside (ask_name io),
      ask_val = aside (ask_val io), ask_opt = aside (ask_opt io), ask_pair = aside (ask_pair io),
      ask_triple = aside (ask_triple io), ask_vals = aside (ask_vals io), ask_lookup = aside (ask_lookup io),
      ask_scope = aside (ask_scope io), assemble_class = aside (assemble_class io), enum_new = aside (enum_new io),
      enum_next = aside (enum_next io)\<rparr>"

lemma aside_spends: "only_spends (aside h) snd"
  by (auto simp: only_spends_def aside_def split: prod.split)

lemma consume_fuel_spends: "spare (snd (consume_fuel reached c b)) \<le> spare b"
  by (auto simp: consume_fuel_def poll_def spare_def Let_def bind_outcome_def word_le_nat_alt unat_sub
      split: sum.splits if_splits)

lemma consume_loop_spends: "spare (snd (consume_loop reached b)) \<le> spare b"
  by (auto simp: consume_loop_def spare_def unat_minus_one split: sum.split)

lemma charge_budget_run: "snd (snd (charge_budget spend (w, b))) = snd (spend b)"
  "fst (charge_budget spend (w, b)) = Inr () \<longleftrightarrow> fst (spend b) = Inr ()"
  by (auto simp: charge_budget_def split: prod.split sum.split)

lemma budgeted_spends: "only_spends (budgeted_unit reached h) snd"
proof -
  have "spare (snd (snd (budgeted_unit reached h q (w, b)))) \<le> spare b" for q w b
    using aside_spends [of h]
    by (cases "(reached, h, q)" rule: budgeted_unit.cases)
       (auto simp: charge_budget_run consume_fuel_spends consume_loop_spends only_spends_def)
  then show ?thesis by (simp add: only_spends_def)
qed

interpretation budgeted: metered_interp "with_budget reached io" snd for reached io
proof
  show "metered (with_budget reached io) snd"
    by (auto simp: metered_def with_budget_def aside_spends budgeted_spends charges_def charge_budget_run)
qed

section \<open>Runs end\<close>

text \<open>C7: every run ends: over an interpreter that charges fuel and loop iterations as the budgets say,
  and whose helpers only spend, a function whose free backward jumps go to loop heads runs for
  finitely many turns, from any frame and with any handlers, although guest code may catch the errors
  of an exhausted budget.\<close>

theorem metered_run_ends:
  assumes "metered io ex" and "loops_guarded (fn fr)"
  shows "\<exists>n r s. run_loop io top_level n (w, fr) = (Some r, s)"
  using metered_interp.run_halts [OF metered_interp.intro [OF assms(1)], of "(w, fr)"] assms(2) by auto

text \<open>An endless loop, run with the default budgets.\<close>

definition endless_function :: "unit bytecode_function" where
  "endless_function = BytecodeFunction False False None [IFlow LoopHead, IFlow (Jump 0)] [] 1 0 0 0 []
     False False False False [] []"

theorem metered_run_ends_witness:
  "\<exists>n r s. run_loop (with_budget (\<lambda>_. False) idle_interp) True n
     (((), new_execution), fst (setup_frame [] endless_function Undefined [])) = (Some r, s)"
  by (rule metered_run_ends [OF budgeted.metered])
     (simp add: setup_frame_def Let_def endless_function_def loops_guarded_def)

end
