(* ===== verification/Bytecode_Fork.thy ===== *)
theory Bytecode_Fork
  imports Verifier
begin

text \<open>
  Forking compiled code for another owner (\<open>bytecode/function.rs\<close>, \<open>fork_for_owner\<close>): the fork has fresh
  inline caches at every level and the verifier gives it the verdict of the original, so a fork
  needs no verification of its own.
\<close>

definition fork_const :: "'ast const_value \<Rightarrow> 'ast const_value" where
  "fork_const c = (case c of CFunction g \<Rightarrow> CFunction (fork_for_owner g) | _ \<Rightarrow> c)"

lemma fork_fields [simp]:
  "code (fork_for_owner f) = code f"
  "constants (fork_for_owner f) = map fork_const (constants f)"
  "register_count (fork_for_owner f) = register_count f"
  "local_count (fork_for_owner f) = local_count f"
  "parameter_count (fork_for_owner f) = parameter_count f"
  "upvalue_count (fork_for_owner f) = upvalue_count f"
  "function_slots (fork_for_owner f) = function_slots f"
  "caches (fork_for_owner f) = map (\<lambda>_. empty_cache) (caches f)"
  by (cases f; simp add: fork_const_def)+

lemma fork_const_is [simp]: "const_is (fork_const c) expected = const_is c expected"
  by (cases c) (simp_all add: fork_const_def)

lemma fork_checks:
  "check_reg (fork_for_owner f) = check_reg f"
  "check_slot (fork_for_owner f) = check_slot f"
  "check_const (fork_for_owner f) = check_const f"
  "check_const_is (fork_for_owner f) = check_const_is f"
  "check_target (fork_for_owner f) = check_target f"
  "check_range (fork_for_owner f) = check_range f"
  "check_key (fork_for_owner f) = check_key f"
  "check_cache (fork_for_owner f) = check_cache f"
proof -
  show const: "check_const (fork_for_owner f) = check_const f"
    by (intro ext) (simp add: check_const_def)
  show "check_const_is (fork_for_owner f) = check_const_is f"
    by (intro ext) (auto simp: check_const_is_def const bind_outcome_def check_const_def)
  then show "check_key (fork_for_owner f) = check_key f"
    by (intro ext) (simp add: check_key_def check_reg_def split: key_src.split)
qed (intro ext, simp add: check_reg_def check_slot_def check_target_def check_range_def check_cache_def)+

lemma fork_names:
  "check_decorator (fork_for_owner f) = check_decorator f"
  "check_computed_name (fork_for_owner f) = check_computed_name f"
  "check_spread_entry (fork_for_owner f) = check_spread_entry f"
  "check_prop_entry (fork_for_owner f) = check_prop_entry f"
  by (intro ext; auto simp: check_decorator_def check_computed_name_def check_spread_entry_def
      check_prop_entry_def fork_checks split: class_name_template.split)+

lemma fork_elements:
  "check_field_decorator (fork_for_owner f) = check_field_decorator f"
  "check_static_element (fork_for_owner f) = check_static_element f"
  by (intro ext; simp add: check_field_decorator_def check_static_element_def fork_names fork_checks
      split: class_static_template.split)+

lemma at_fork:
  "check_const f a i = Inr () \<Longrightarrow> map fork_const (constants f) ! unat i = fork_const (constants f ! unat i)"
  by (simp add: check_const_ok)

lemma fork_func_const: "check_func_const (fork_for_owner f) = check_func_const f"
  by (intro ext)
     (auto simp: check_func_const_def fork_checks bind_outcome_def at_fork fork_const_def
       split: sum.split const_value.splits)


lemma fork_member: "check_member (fork_for_owner f) = check_member f"
  by (intro ext) (simp add: check_member_def fork_names fork_checks fork_func_const)

lemma check_const_is_at:
  "check_const_is f a i e = Inr () \<Longrightarrow> map fork_const (constants f) ! unat i = fork_const (constants f ! unat i)"
  by (simp add: check_const_is_ok)

lemma fork_spread_template: "check_spread_template (fork_for_owner f) = check_spread_template f"
  by (intro ext)
     (auto simp: check_spread_template_def fork_checks fork_names bind_outcome_def check_const_is_at fork_const_def
       split: sum.split const_value.splits)

lemma fork_class_template: "check_class_template (fork_for_owner f) = check_class_template f"
  by (intro ext)
     (auto simp: check_class_template_def fork_checks fork_names fork_elements fork_member fork_func_const
       bind_outcome_def check_const_is_at fork_const_def split: sum.split const_value.splits)

lemma all_checks_bind: "all_checks (c # cs) = bind_outcome c (\<lambda>_. all_checks cs)"
  by (simp add: all_checks.simps bind_outcome_def)

lemma fork_template_arity:
  "check_call (fork_for_owner f) a (Template dst quasis args argc) = check_call f a (Template dst quasis args argc)"
  by (auto simp: fork_checks all_checks_bind bind_outcome_def check_const_is_at fork_const_def
      simp del: all_checks_Inr_iff split: sum.split const_value.splits)

lemma fork_object_template:
  "check_call (fork_for_owner f) a (BuildObject dst tmpl) = check_call f a (BuildObject dst tmpl)"
  by (auto simp: fork_checks fork_names all_checks_bind bind_outcome_def check_const_is_at fork_const_def
      simp del: all_checks_Inr_iff split: sum.split const_value.splits)

lemma fork_instr: "check_instr (fork_for_owner f) a i = check_instr f a i"
proof (cases i)
  case (ICall c)
  then show ?thesis
  proof (cases c)
    case (Template dst quasis args argc)
    then show ?thesis using ICall by (simp only: check_instr.simps fork_template_arity)
  next
    case (BuildObject dst tmpl)
    then show ?thesis using ICall by (simp only: check_instr.simps fork_object_template)
  qed (simp_all add: fork_checks fork_spread_template)
next
  case (IMove m)
  then show ?thesis by (cases m) (simp_all add: fork_checks)
next
  case (IOp m)
  then show ?thesis by (cases m) (simp_all add: fork_checks)
next
  case (IFlow m)
  then show ?thesis by (cases m) (simp_all add: fork_checks)
next
  case (ILoop m)
  then show ?thesis by (cases m) (simp_all add: fork_checks)
next
  case (IClass m)
  then show ?thesis by (cases m) (simp_all add: fork_checks fork_spread_template fork_class_template)
qed

lemma fork_tables: "check_tables (fork_for_owner f) = check_tables f"
  by (simp add: check_tables_def)

lemma fork_verdict: "verify_function (fork_for_owner (f :: 'ast bytecode_function)) = verify_function f"
  and fork_constants_verdict: "verify_constants n (map fork_const (cs :: 'ast const_value list)) = verify_constants n cs"
proof (induction f and n cs rule: verify_function_verify_constants.induct)
  case (1 f)
  have "check_instr (fork_for_owner f) = check_instr f" by (intro ext) (rule fork_instr)
  moreover have "verify_constants 0 (map fork_const (constants f)) = verify_constants 0 (constants f)"
    if "check_tables f = Inr ()" "all_checks (map (\<lambda>(a, i). check_instr f a i) (enumerate 0 (code f))) = Inr ()"
    using 1 that by blast
  ultimately show ?case
    by (subst (1 2) verify_function.simps) (auto simp: fork_tables bind_outcome_def simp del: all_checks_Inr_iff split: sum.split)
next
  case (3 n c cs)
  then show ?case by (cases c) (auto simp: fork_const_def split: sum.split)
qed simp

text \<open>A fork is accepted or rejected exactly as the original, with the same first defect, and all
  its inline caches are empty.\<close>

theorem fork_keeps_verdict:
  "verify_module (fork_for_owner f) = verify_module f \<and>
   list_all (\<lambda>c. c = empty_cache) (caches (fork_for_owner f)) \<and>
   length (caches (fork_for_owner f)) = length (caches f)"
  by (simp add: verify_module_def fork_verdict list_all_iff)

end
