(* ===== verification/Timer_Queue.thy ===== *)
theory Timer_Queue
  imports VM_Prelude "HOL-Library.Product_Lexorder" "HOL-Library.AList" "HOL-Library.Multiset"
begin

text \<open>
  The timer queue of the event loop (\<open>interpreter/jobs.rs\<close>, \<open>TimerQueue\<close>): a sorted vector while it is
  small, a search tree with an index of ids once it has grown, and the vector again when it runs
  empty. A key is the deadline, as the bits of a nonnegative \<open>f64\<close>, and a sequence number. The search
  tree is the sorted list of its bindings and the id index an association list. The queue is shown to
  be one sorted list of timers in either mode.
\<close>

type_synonym u128 = "128 word"
type_synonym timer_key = "u64 \<times> u128"

record 'j timer_entry =
  e_key :: timer_key
  e_id :: u64
  e_job :: 'j

type_synonym 'j timer_tree = "(timer_key \<times> u64 \<times> 'j) list"
type_synonym timer_ids = "(u64 \<times> timer_key) list"

section \<open>The ordered map\<close>

text \<open>\<open>BTreeMap::insert\<close>; removal of a key is \<open>AList.delete\<close>, and the first binding is the head.\<close>

fun tree_insert :: "timer_key \<Rightarrow> u64 \<times> 'j \<Rightarrow> 'j timer_tree \<Rightarrow> 'j timer_tree" where
  "tree_insert k v [] = [(k, v)]"
| "tree_insert k v ((k', v') # t) =
     (if k < k' then (k, v) # (k', v') # t
      else if k = k' then (k, v) # t
      else (k', v') # tree_insert k v t)"

section \<open>The queue\<close>

datatype 'j timer_queue =
    Small "'j timer_entry list" "('j timer_tree \<times> timer_ids) option"
  | Tree "'j timer_tree" timer_ids "'j timer_entry list"

definition SMALL_LIMIT :: nat where
  "SMALL_LIMIT = 128"

definition empty_timers :: "'j timer_queue" where
  "empty_timers = Small [] None"

fun timers_len :: "'j timer_queue \<Rightarrow> nat" where
  "timers_len (Small v _) = length v"
| "timers_len (Tree t _ _) = length t"

definition timers_is_empty :: "'j timer_queue \<Rightarrow> bool" where
  "timers_is_empty q = (timers_len q = 0)"

fun contains_id :: "'j timer_queue \<Rightarrow> u64 \<Rightarrow> bool" where
  "contains_id (Small v _) i = list_ex (\<lambda>e. e_id e = i) v"
| "contains_id (Tree _ ids _) i = (map_of ids i \<noteq> None)"

text \<open>\<open>partition_point\<close> and \<open>Vec::insert\<close> on the sorted vector.\<close>

definition vec_insert :: "'j timer_entry \<Rightarrow> 'j timer_entry list \<Rightarrow> 'j timer_entry list" where
  "vec_insert e v = (let index = length (takeWhile (\<lambda>x. e_key x < e_key e) v) in take index v @ e # drop index v)"

definition promote :: "'j timer_entry list \<Rightarrow> 'j timer_tree \<times> timer_ids \<Rightarrow> 'j timer_tree \<times> timer_ids" where
  "promote v tree = fold (\<lambda>e (t, ids). (tree_insert (e_key e) (e_id e, e_job e) t, AList.update (e_id e) (e_key e) ids)) v tree"

fun insert_timer :: "timer_key \<Rightarrow> u64 \<Rightarrow> 'j \<Rightarrow> 'j timer_queue \<Rightarrow> 'j timer_queue" where
  "insert_timer key i job (Small v spare) =
     (let v = vec_insert \<lparr>e_key = key, e_id = i, e_job = job\<rparr> v
      in if length v \<le> SMALL_LIMIT then Small v spare
         else let (t, ids) = promote v (case spare of None \<Rightarrow> ([], []) | Some tree \<Rightarrow> tree) in Tree t ids [])"
| "insert_timer key i job (Tree t ids small) = Tree (tree_insert key (i, job) t) (AList.update i key ids) small"

text \<open>\<open>keep\<close> is the test on the capacity of the id index, which depends on the allocator.\<close>

fun demote_empty :: "bool \<Rightarrow> 'j timer_queue \<Rightarrow> 'j timer_queue" where
  "demote_empty keep (Small v spare) = Small v spare"
| "demote_empty keep (Tree t ids small) =
     (if t \<noteq> [] then Tree t ids small else Small small (if keep then Some (t, ids) else None))"

fun remove_first_id :: "u64 \<Rightarrow> 'j timer_entry list \<Rightarrow> 'j timer_entry list" where
  "remove_first_id i [] = []"
| "remove_first_id i (e # v) = (if e_id e = i then v else e # remove_first_id i v)"

fun cancel_id :: "bool \<Rightarrow> u64 \<Rightarrow> 'j timer_queue \<Rightarrow> 'j timer_queue" where
  "cancel_id keep i (Small v spare) = demote_empty keep (Small (remove_first_id i v) spare)"
| "cancel_id keep i (Tree t ids small) =
     demote_empty keep (case map_of ids i of
       None \<Rightarrow> Tree t ids small
     | Some key \<Rightarrow> Tree (AList.delete key t) (AList.delete i ids) small)"

fun first_key :: "'j timer_queue \<Rightarrow> timer_key option" where
  "first_key (Small v _) = (case v of [] \<Rightarrow> None | e # _ \<Rightarrow> Some (e_key e))"
| "first_key (Tree t _ _) = (case t of [] \<Rightarrow> None | (k, _) # _ \<Rightarrow> Some k)"

fun pop_timer :: "bool \<Rightarrow> 'j timer_queue \<Rightarrow> 'j option \<times> 'j timer_queue" where
  "pop_timer keep (Small v spare) =
     (case v of
        [] \<Rightarrow> (None, Small v spare)
      | e # v' \<Rightarrow> (Some (e_job e), demote_empty keep (Small v' spare)))"
| "pop_timer keep (Tree t ids small) =
     (case t of
        [] \<Rightarrow> (None, Tree t ids small)
      | (_, i, job) # t' \<Rightarrow> (Some job, demote_empty keep (Tree t' (AList.delete i ids) small)))"

section \<open>One sorted list of timers\<close>

fun timers_of :: "'j timer_queue \<Rightarrow> 'j timer_entry list" where
  "timers_of (Small v _) = v"
| "timers_of (Tree t _ _) = map (\<lambda>(k, i, j). \<lparr>e_key = k, e_id = i, e_job = j\<rparr>) t"

definition entries_ok :: "'j timer_entry list \<Rightarrow> bool" where
  "entries_ok v \<longleftrightarrow> sorted_wrt (<) (map e_key v) \<and> distinct (map e_id v)"

definition indexed :: "'j timer_tree \<Rightarrow> timer_ids \<Rightarrow> bool" where
  "indexed t ids \<longleftrightarrow> (\<forall>i k. map_of ids i = Some k \<longleftrightarrow> (\<exists>j. (k, i, j) \<in> set t)) \<and> distinct (map fst ids)"

fun timers_ok :: "'j timer_queue \<Rightarrow> bool" where
  "timers_ok (Small v spare) \<longleftrightarrow> entries_ok v \<and> length v \<le> SMALL_LIMIT \<and> spare \<in> {None, Some ([], [])}"
| "timers_ok (Tree t ids small) \<longleftrightarrow> entries_ok (timers_of (Tree t ids small)) \<and> indexed t ids \<and> t \<noteq> [] \<and> small = []"

definition place :: "'j timer_entry \<Rightarrow> 'j timer_entry list \<Rightarrow> 'j timer_entry list" where
  "place e v = takeWhile (\<lambda>x. e_key x < e_key e) v @ e # dropWhile (\<lambda>x. e_key x < e_key e) v"

abbreviation entry_of :: "timer_key \<times> u64 \<times> 'j \<Rightarrow> 'j timer_entry" where
  "entry_of \<equiv> \<lambda>(k, i, j). \<lparr>e_key = k, e_id = i, e_job = j\<rparr>"

lemma entry_eta [simp]: "\<lparr>e_key = e_key e, e_id = e_id e, e_job = e_job e\<rparr> = e"
  by simp

lemma vec_insert_place: "vec_insert e v = place e v"
  by (simp add: vec_insert_def place_def Let_def takeWhile_eq_take [symmetric] dropWhile_eq_drop [symmetric])

lemma place_simps [simp]:
  "place e [] = [e]"
  "place e (x # v) = (if e_key x < e_key e then x # place e v else e # x # v)"
  by (simp_all add: place_def)

lemma set_place [simp]: "set (place e v) = insert e (set v)"
  by (induction v) auto

lemma place_distinct: "e_id e \<notin> e_id ` set v \<Longrightarrow> distinct (map e_id v) \<Longrightarrow> distinct (map e_id (place e v))"
  by (induction v) auto

lemma place_sorted:
  "e_key e \<notin> e_key ` set v \<Longrightarrow> sorted_wrt (<) (map e_key v) \<Longrightarrow> sorted_wrt (<) (map e_key (place e v))"
proof (induction v)
  case (Cons x v)
  then show ?case by (auto simp: not_less order.order_iff_strict intro: less_trans)
qed simp

lemma place_ok:
  "entries_ok v \<Longrightarrow> e_key e \<notin> e_key ` set v \<Longrightarrow> e_id e \<notin> e_id ` set v \<Longrightarrow> entries_ok (place e v)"
  by (simp add: entries_ok_def place_sorted place_distinct)

lemma length_place [simp]: "length (place e v) = Suc (length v)"
  by (induction v) auto

text \<open>A new key goes to its place in the tree, and to the end when it is the greatest.\<close>

lemma tree_insert_place:
  "k \<notin> fst ` set t \<Longrightarrow> sorted_wrt (<) (map fst t) \<Longrightarrow>
   map entry_of (tree_insert k (i, j) t) = place \<lparr>e_key = k, e_id = i, e_job = j\<rparr> (map entry_of t)"
  by (induction t) (auto simp: not_less order.order_iff_strict)

lemma tree_insert_last: "\<forall>b\<in>set t. fst b < k \<Longrightarrow> tree_insert k v t = t @ [(k, v)]"
  by (induction t) auto

lemma set_tree_insert: "k \<notin> fst ` set t \<Longrightarrow> set (tree_insert k v t) = insert (k, v) (set t)"
  by (induction k v t rule: tree_insert.induct) (simp_all add: insert_commute)

lemma indexed_insert:
  assumes "indexed t ids" "k \<notin> fst ` set t" "i \<notin> (\<lambda>b. fst (snd b)) ` set t"
  shows "indexed (tree_insert k (i, j) t) (AList.update i k ids)"
proof -
  have none: "\<not> (\<exists>j. (k', i, j) \<in> set t)" for k' using assms(3) by force
  then show ?thesis using assms(1,2)
    by (auto simp: indexed_def set_tree_insert update_conv' distinct_update)
qed

lemma promote_appends:
  assumes "sorted_wrt (<) (map fst t @ map e_key v)" "distinct (map (\<lambda>b. fst (snd b)) t @ map e_id v)" "indexed t ids"
  shows "\<exists>ids'. promote v (t, ids) = (t @ map (\<lambda>e. (e_key e, e_id e, e_job e)) v, ids') \<and>
    indexed (t @ map (\<lambda>e. (e_key e, e_id e, e_job e)) v) ids'"
  using assms
proof (induction v arbitrary: t ids)
  case Nil
  then show ?case by (simp add: promote_def)
next
  case (Cons e v)
  have greatest: "\<forall>b\<in>set t. fst b < e_key e" using Cons.prems(1) by (auto simp: sorted_wrt_append)
  then have "e_key e \<notin> fst ` set t" by force
  moreover have "e_id e \<notin> (\<lambda>b. fst (snd b)) ` set t" using Cons.prems(2) by auto
  ultimately have "indexed (t @ [(e_key e, e_id e, e_job e)]) (AList.update (e_id e) (e_key e) ids)"
    using indexed_insert [OF Cons.prems(3)] greatest by (metis tree_insert_last)
  from Cons.IH [OF _ _ this] show ?case
    using Cons.prems(1,2) by (auto simp: promote_def tree_insert_last [OF greatest])
qed

lemma entry_of_image: "e_key ` entry_of ` B = fst ` B" "e_id ` entry_of ` B = (\<lambda>b. fst (snd b)) ` B"
  by (auto simp: image_image split: prod.split intro!: image_cong)

lemma entry_of_parts [simp]: "e_key (entry_of b) = fst b" "e_id (entry_of b) = fst (snd b)" "e_job (entry_of b) = snd (snd b)"
  by (simp_all split: prod.split)

lemma tree_ok:
  "entries_ok (map entry_of t) \<longleftrightarrow> sorted_wrt (<) (map fst t) \<and> distinct (map (\<lambda>b. fst (snd b)) t)"
  by (simp add: entries_ok_def o_def)

lemma id_in_tree: "(\<exists>k j. (k, i, j) \<in> set t) \<longleftrightarrow> i \<in> (\<lambda>b. fst (snd b)) ` set t"
  by force

lemma insert_refines:
  assumes ok: "timers_ok q" and new: "key \<notin> e_key ` set (timers_of q)" "i \<notin> e_id ` set (timers_of q)"
  shows "timers_ok (insert_timer key i j q) \<and>
    timers_of (insert_timer key i j q) = place \<lparr>e_key = key, e_id = i, e_job = j\<rparr> (timers_of q)"
proof (cases q)
  case (Small v spare)
  define v' where "v' = place \<lparr>e_key = key, e_id = i, e_job = j\<rparr> v"
  have v': "entries_ok v'" using ok new Small by (simp add: v'_def place_ok)
  show ?thesis
  proof (cases "length v' \<le> SMALL_LIMIT")
    case True
    then show ?thesis using ok v' Small by (auto simp: vec_insert_place v'_def [symmetric])
  next
    case False
    have tree: "(case spare of None \<Rightarrow> ([], []) | Some tree \<Rightarrow> tree) = ([], [])" using ok Small by auto
    have "indexed [] []" by (simp add: indexed_def)
    then obtain ids where ids: "promote v' ([], []) = (map (\<lambda>e. (e_key e, e_id e, e_job e)) v', ids)"
      "indexed (map (\<lambda>e. (e_key e, e_id e, e_job e)) v') ids"
      using promote_appends [of "[]" v' "[]"] v' by (auto simp: entries_ok_def)
    have again: "map entry_of (map (\<lambda>e. (e_key e, e_id e, e_job e)) v') = v'"
      by (simp add: o_def)
    have "insert_timer key i j q = Tree (map (\<lambda>e. (e_key e, e_id e, e_job e)) v') ids []"
      using False by (simp add: Small vec_insert_place v'_def [symmetric] tree ids)
    moreover have "v' \<noteq> []" using False by (auto simp: SMALL_LIMIT_def)
    ultimately show ?thesis using v' ids again by (simp add: Small v'_def)
  qed
next
  case (Tree t ids small)
  have sorted: "sorted_wrt (<) (map fst t)" and parts: "key \<notin> fst ` set t" "i \<notin> (\<lambda>b. fst (snd b)) ` set t"
    using ok new unfolding Tree timers_ok.simps timers_of.simps tree_ok set_map entry_of_image by blast+
  have "entries_ok (place \<lparr>e_key = key, e_id = i, e_job = j\<rparr> (map entry_of t))"
    using ok new by (intro place_ok) (simp_all add: Tree)
  moreover have "tree_insert key (i, j) t \<noteq> []" by (cases "(key, (i, j), t)" rule: tree_insert.cases) simp_all
  ultimately show ?thesis
    using ok tree_insert_place [OF parts(1) sorted] indexed_insert [OF _ parts] by (simp add: Tree)
qed

lemma remove_first_filter: "distinct (map e_id v) \<Longrightarrow> remove_first_id i v = filter (\<lambda>e. e_id e \<noteq> i) v"
  by (induction v) (auto simp: image_iff intro!: sym [OF filter_True])

lemma entries_ok_filter: "entries_ok v \<Longrightarrow> entries_ok (filter P v)"
  by (simp add: entries_ok_def sorted_wrt_map sorted_wrt_filter distinct_map_filter)

lemma demote_refines:
  assumes "entries_ok (map entry_of t)" "indexed t ids"
  shows "timers_ok (demote_empty keep (Tree t ids [])) \<and> timers_of (demote_empty keep (Tree t ids [])) = map entry_of t"
proof (cases "t = []")
  case True
  then have "ids = []" using assms(2) by (cases ids) (auto simp: indexed_def dest: spec [of _ "fst (hd ids)"])
  then show ?thesis by (simp add: True entries_ok_def SMALL_LIMIT_def)
qed (use assms in simp)

lemma indexed_delete:
  assumes "indexed t ids" "set t' = {b \<in> set t. fst (snd b) \<noteq> i}"
  shows "indexed t' (AList.delete i ids)"
proof -
  have "map_of (AList.delete i ids) i' = Some k \<longleftrightarrow> (\<exists>j. (k, i', j) \<in> set t')" for i' k
  proof -
    have "map_of ids i' = Some k \<longleftrightarrow> (\<exists>j. (k, i', j) \<in> set t)" using assms(1) unfolding indexed_def by blast
    then show ?thesis by (simp only: delete_conv' assms(2)) auto
  qed
  then show ?thesis using assms(1) unfolding indexed_def by (blast intro: distinct_delete)
qed

lemma cancel_refines:
  assumes ok: "timers_ok q"
  shows "timers_ok (cancel_id keep i q) \<and> timers_of (cancel_id keep i q) = filter (\<lambda>e. e_id e \<noteq> i) (timers_of q)"
proof (cases q)
  case (Small v spare)
  have "length (filter (\<lambda>e. e_id e \<noteq> i) v) \<le> SMALL_LIMIT"
    using ok Small by (auto intro: order_trans [OF length_filter_le])
  then show ?thesis using ok by (auto simp: Small remove_first_filter entries_ok_filter entries_ok_def [of v])
next
  case (Tree t ids small)
  have index: "map_of ids i' = Some k \<longleftrightarrow> (\<exists>j. (k, i', j) \<in> set t)" and dist: "distinct (map fst ids)" for i' k
    using ok unfolding Tree timers_ok.simps indexed_def by blast+
  have entries: "entries_ok (map entry_of t)" using ok by (simp add: Tree)
  show ?thesis
  proof (cases "map_of ids i")
    case None
    then have "i \<notin> (\<lambda>b. fst (snd b)) ` set t" using index id_in_tree [of i t] by (metis option.distinct(1))
    then have "\<forall>b\<in>set t. fst (snd b) \<noteq> i" by auto
    then show ?thesis using ok None by (auto simp: Tree filter_id_conv split: prod.splits)
  next
    case (Some key)
    then obtain j where j: "(key, i, j) \<in> set t" using index by blast
    have unique: "fst b = key \<longleftrightarrow> fst (snd b) = i" if "b \<in> set t" for b
    proof -
      have "distinct (map fst t)" "distinct (map (\<lambda>b. fst (snd b)) t)"
        using entries by (simp_all add: tree_ok strict_sorted_iff)
      then have "inj_on fst (set t)" "inj_on (\<lambda>b. fst (snd b)) (set t)" by (simp_all add: distinct_map)
      from inj_onD [OF this(1) _ j that] inj_onD [OF this(2) _ j that] show ?thesis by fastforce
    qed
    define t' where "t' = AList.delete key t"
    have t': "t' = filter (\<lambda>b. fst (snd b) \<noteq> i) t"
    proof -
      have "t' = filter (\<lambda>b. fst b \<noteq> key) t" by (auto simp: t'_def AList.delete_eq intro: filter_cong)
      also have "\<dots> = filter (\<lambda>b. fst (snd b) \<noteq> i) t" by (rule filter_cong [OF refl]) (simp only: unique)
      finally show ?thesis .
    qed
    have "indexed t' (AList.delete i ids)" by (rule indexed_delete) (use ok in \<open>auto simp: Tree t'\<close>)
    moreover have "entries_ok (map entry_of t')" using entries_ok_filter [OF entries, of "\<lambda>e. e_id e \<noteq> i"] by (simp add: t' filter_map o_def)
    ultimately have "timers_ok (demote_empty keep (Tree t' (AList.delete i ids) [])) \<and>
        timers_of (demote_empty keep (Tree t' (AList.delete i ids) [])) = map entry_of t'"
      by (intro demote_refines)
    then show ?thesis using ok by (simp add: Tree Some t'_def [symmetric]) (simp add: t' filter_map o_def)
  qed
qed

lemma pop_refines:
  assumes ok: "timers_ok q"
  shows "timers_ok (snd (pop_timer keep q)) \<and>
    fst (pop_timer keep q) = (case timers_of q of [] \<Rightarrow> None | e # _ \<Rightarrow> Some (e_job e)) \<and>
    timers_of (snd (pop_timer keep q)) = tl (timers_of q)"
proof (cases q)
  case (Small v spare)
  then show ?thesis using ok by (cases v) (auto simp: entries_ok_def)
next
  case (Tree t ids small)
  then obtain k i j t' where t: "t = (k, i, j) # t'" using ok by (cases t) auto
  have entries: "i \<notin> (\<lambda>b. fst (snd b)) ` set t'" "entries_ok (map entry_of t')"
    using ok unfolding Tree timers_ok.simps timers_of.simps tree_ok by (simp_all add: t)
  have "indexed t' (AList.delete i ids)"
    by (rule indexed_delete [where t = t]) (use ok entries(1) in \<open>force simp: Tree t\<close>)+
  note demote_refines [OF entries(2) this, of keep]
  then show ?thesis using ok by (simp add: Tree t)
qed

lemma queue_reads:
  assumes ok: "timers_ok q"
  shows "contains_id q i \<longleftrightarrow> i \<in> e_id ` set (timers_of q)" and "timers_len q = length (timers_of q)"
    and "first_key q = map_option e_key (case timers_of q of [] \<Rightarrow> None | e # _ \<Rightarrow> Some e)"
proof -
  show "contains_id q i \<longleftrightarrow> i \<in> e_id ` set (timers_of q)"
  proof (cases q)
    case (Tree t ids small)
    have "map_of ids i \<noteq> None \<longleftrightarrow> (\<exists>k j. (k, i, j) \<in> set t)"
      using ok unfolding Tree timers_ok.simps indexed_def not_None_eq by blast
    then show ?thesis by (simp only: Tree contains_id.simps timers_of.simps set_map entry_of_image id_in_tree)
  qed (auto simp: list_ex_iff)
  show "timers_len q = length (timers_of q)" by (cases q) auto
  show "first_key q = map_option e_key (case timers_of q of [] \<Rightarrow> None | e # _ \<Rightarrow> Some e)"
    by (cases q) (auto split: list.split)
qed

section \<open>What a timer queue promises\<close>

text \<open>Taking up to \<open>n\<close> timers, one after the other.\<close>

fun pop_jobs :: "('q \<Rightarrow> 'j option \<times> 'q) \<Rightarrow> nat \<Rightarrow> 'q \<Rightarrow> 'j list" where
  "pop_jobs pop 0 q = []"
| "pop_jobs pop (Suc n) q = (case pop q of (None, _) \<Rightarrow> [] | (Some job, q') \<Rightarrow> job # pop_jobs pop n q')"

lemma sorted_wrt_on_filter: "sorted_wrt (\<lambda>x y. P x \<longrightarrow> P y \<longrightarrow> R x y) xs \<Longrightarrow> sorted_wrt R (filter P xs)"
  by (induction xs) auto

locale timer_store =
  fixes valid :: "'q \<Rightarrow> bool"
    and listing :: "'q \<Rightarrow> 'j timer_entry list"
    and put :: "timer_key \<Rightarrow> u64 \<Rightarrow> 'j \<Rightarrow> 'q \<Rightarrow> 'q"
    and pop :: "'q \<Rightarrow> 'j option \<times> 'q"
  assumes listing_ok: "valid q \<Longrightarrow> entries_ok (listing q)"
    and put_valid: "valid q \<Longrightarrow> key \<notin> e_key ` set (listing q) \<Longrightarrow> i \<notin> e_id ` set (listing q) \<Longrightarrow> valid (put key i j q)"
    and put_listing: "valid q \<Longrightarrow> key \<notin> e_key ` set (listing q) \<Longrightarrow> i \<notin> e_id ` set (listing q) \<Longrightarrow>
      listing (put key i j q) = place \<lparr>e_key = key, e_id = i, e_job = j\<rparr> (listing q)"
    and pop_valid: "valid q \<Longrightarrow> valid (snd (pop q))"
    and pop_first: "valid q \<Longrightarrow> fst (pop q) = (case listing q of [] \<Rightarrow> None | e # _ \<Rightarrow> Some (e_job e))"
    and pop_rest: "valid q \<Longrightarrow> listing (snd (pop q)) = tl (listing q)"
begin

lemma pops_listing: "valid q \<Longrightarrow> pop_jobs pop n q = map e_job (take n (listing q))"
proof (induction n arbitrary: q)
  case (Suc n)
  obtain first q' where popped: "pop q = (first, q')" by fastforce
  have "valid q'" "listing q' = tl (listing q)" "first = (case listing q of [] \<Rightarrow> None | e # _ \<Rightarrow> Some (e_job e))"
    using pop_valid pop_first pop_rest Suc.prems popped by fastforce+
  then show ?case using Suc.IH popped by (cases "listing q") auto
qed simp

abbreviation put_all :: "'j timer_entry list \<Rightarrow> 'q \<Rightarrow> 'q" where
  "put_all \<equiv> fold (\<lambda>e. put (e_key e) (e_id e) (e_job e))"

lemma puts_listing:
  assumes "valid q" "listing q = []" "distinct (map e_key es)" "distinct (map e_id es)"
  shows "valid (put_all es q) \<and> mset (listing (put_all es q)) = mset es"
  using assms(3,4)
proof (induction es rule: rev_induct)
  case Nil
  then show ?case using assms(1,2) by simp
next
  case (snoc e es)
  define v where "v = listing (put_all es q)"
  have v: "valid (put_all es q)" "mset v = mset es" using snoc by (auto simp: v_def)
  have new: "e_key e \<notin> e_key ` set v" "e_id e \<notin> e_id ` set v"
    using snoc.prems v(2) [THEN mset_eq_setD] by auto
  have "mset (place e v) = add_mset e (mset v)" by (induction v) auto
  then show ?case
    using put_valid [OF v(1), folded v_def, OF new] put_listing [OF v(1), folded v_def, OF new] v(2) by simp
qed

text \<open>Timers that were scheduled with ascending sequence numbers leave in the stable order of their
  deadlines.\<close>

lemma puts_stable:
  assumes "valid q" "listing q = []" "distinct (map e_id es)" "sorted_wrt (<) (map (\<lambda>e. snd (e_key e)) es)"
  shows "listing (put_all es q) = sort_key (\<lambda>e. fst (e_key e)) es"
proof (rule properties_for_sort_key [symmetric])
  have keys: "distinct (map e_key es)"
    using assms(4) by (auto simp: strict_sorted_iff distinct_map intro: inj_on_imageI2 [of snd, unfolded o_def])
  note puts = puts_listing [OF assms(1,2) keys assms(3)]
  define v where "v = listing (put_all es q)"
  have sorted: "sorted_wrt (<) (map e_key v)" using listing_ok puts by (simp add: entries_ok_def v_def)
  show "mset (listing (put_all es q)) = mset es" using puts by simp
  show "sorted (map (\<lambda>e. fst (e_key e)) (listing (put_all es q)))"
    using sorted unfolding v_def [symmetric] by (auto simp: sorted_wrt_map less_prod_def' elim!: sorted_wrt_mono_rel [rotated])
  fix e
  let ?P = "\<lambda>x. fst (e_key e) = fst (e_key x)"
  have "filter ?P v = filter ?P es"
  proof (rule map_sorted_distinct_set_unique [where f = e_key])
    have set: "set v = set es" using puts [THEN conjunct2, THEN mset_eq_setD] by (simp add: v_def)
    show "inj_on e_key (set (filter ?P v) \<union> set (filter ?P es))"
      using keys set by (auto simp: distinct_map inj_on_def)
    show "set (filter ?P v) = set (filter ?P es)" using set by auto
    have "sorted_wrt (<) (map e_key (filter ?P v))" using sorted by (simp add: sorted_wrt_map sorted_wrt_filter)
    moreover have "sorted_wrt (\<lambda>x y. ?P x \<longrightarrow> ?P y \<longrightarrow> e_key x < e_key y) es"
      using assms(4) by (auto simp: sorted_wrt_map less_prod_def elim!: sorted_wrt_mono_rel [rotated])
    then have "sorted_wrt (<) (map e_key (filter ?P es))"
      unfolding sorted_wrt_map by (rule sorted_wrt_on_filter)
    ultimately show "sorted (map e_key (filter ?P v))" "distinct (map e_key (filter ?P v))"
      "sorted (map e_key (filter ?P es))" "distinct (map e_key (filter ?P es))"
      by (simp_all add: strict_sorted_iff)
  qed
  then show "filter ?P (listing (put_all es q)) = filter ?P es" by (simp add: v_def)
qed

end

interpretation timers: timer_store timers_ok timers_of insert_timer "pop_timer keep" for keep
proof
  fix q :: "'a timer_queue"
  assume ok: "timers_ok q"
  show "entries_ok (timers_of q)" using ok by (cases q) auto
  show "timers_ok (snd (pop_timer keep q))" "timers_of (snd (pop_timer keep q)) = tl (timers_of q)"
    "fst (pop_timer keep q) = (case timers_of q of [] \<Rightarrow> None | e # _ \<Rightarrow> Some (e_job e))"
    using pop_refines [OF ok] by simp_all
  fix key i j
  assume "key \<notin> e_key ` set (timers_of q)" "i \<notin> e_id ` set (timers_of q)"
  from insert_refines [OF ok this]
  show "timers_ok (insert_timer key i j q)"
    "timers_of (insert_timer key i j q) = place \<lparr>e_key = key, e_id = i, e_job = j\<rparr> (timers_of q)"
    by simp_all
qed

end
