(* ===== verification/Job_Queue.thy ===== *)
theory Job_Queue
  imports Timer_Queue Js_String Bytecode
begin

text \<open>
  The job queue of the event loop (\<open>interpreter/jobs.rs\<close>, \<open>JobQueue\<close>): microtasks, external events,
  overflow of the host, timers and intervals, kept-alive targets and the waiters of
  \<open>Atomics.waitAsync\<close>. A promise is a reference into the store of promises. Clock readings, delays and
  deadlines are the bits of nonnegative finite \<open>f64\<close> values, whose order is the order of the values;
  the addition of \<open>f64\<close> is an argument.
\<close>

section \<open>Jobs\<close>

datatype promise_state = Pending | Fulfilled | Rejected

type_synonym promise_ref = nat

record 'v reaction =
  on_fulfilled :: 'v
  on_rejected :: 'v
  derived :: promise_ref
  adopted :: bool
  capability :: "('v \<times> 'v) option"

text \<open>\<open>'v\<close> is a value, \<open>'r\<close> a realm and \<open>'h\<close> a callback of the host. The guard of a thenable job is the
  address of its flag.\<close>

datatype ('v, 'r, 'h) job =
    ModuleEvaluation 'r rstring promise_ref
  | DynamicImport 'r promise_ref rstring "(rstring \<times> js_string) list" import_phase "rstring option"
  | JobReaction promise_state 'v "'v reaction"
  | PromiseResolveThenable 'r promise_ref 'v 'v nat
  | Callback 'v "'v list"
  | IntervalJob u64
  | HostCallback 'h
  | HostPromiseSettled promise_ref promise_state 'v
  | HostUncaughtException 'v
  | AtomicsWaitTimeout "nat \<times> nat" u64

section \<open>The queue\<close>

datatype clock_mode = Legacy | VirtualClock u64 | RealTimeClock u64

fun now_ms :: "clock_mode \<Rightarrow> u64" where
  "now_ms Legacy = 0"
| "now_ms (VirtualClock now) = now"
| "now_ms (RealTimeClock now) = now"

record 'v interval =
  i_delay :: u64
  i_callback :: 'v
  i_args :: "'v list"
  i_timer_id :: u64

record atomics_waiter =
  w_native :: "nat option"
  w_shared :: "nat option"
  w_id :: u64
  w_promise :: promise_ref

record ('v, 'r, 'h) job_queue =
  kept_alive :: "'v list"
  kept_identities :: "nat list"
  microtasks :: "('v, 'r, 'h) job list"
  external_events :: "('v, 'r, 'h) job list"
  host_overflow :: "('v, 'r, 'h) job list"
  timers :: "('v, 'r, 'h) job timer_queue"
  intervals :: "(u64 \<times> 'v interval) list"
  max_timers :: "nat option"
  next_timer_id :: u64
  timer_ids_wrapped :: bool
  next_sequence :: u128
  peak_depth :: nat
  clock :: clock_mode
  checkpoint_pending :: bool
  dispatch_depth :: nat
  prefer_timer :: bool
  atomics_waiters :: "((nat \<times> nat) \<times> atomics_waiter list) list"
  next_atomics_waiter_id :: u64

definition empty_queue :: "('v, 'r, 'h) job_queue" where
  "empty_queue = \<lparr>kept_alive = [], kept_identities = [], microtasks = [], external_events = [], host_overflow = [],
     timers = empty_timers, intervals = [], max_timers = None, next_timer_id = 0, timer_ids_wrapped = False,
     next_sequence = 0, peak_depth = 0, clock = Legacy, checkpoint_pending = False, dispatch_depth = 0,
     prefer_timer = False, atomics_waiters = [], next_atomics_waiter_id = 0\<rparr>"

definition queue_len :: "('v, 'r, 'h) job_queue \<Rightarrow> nat" where
  "queue_len q = length (microtasks q) + length (external_events q) + timers_len (timers q) + length (host_overflow q)"

definition queue_is_empty :: "('v, 'r, 'h) job_queue \<Rightarrow> bool" where
  "queue_is_empty q = (microtasks q = [] \<and> external_events q = [] \<and> timers_is_empty (timers q) \<and> host_overflow q = [])"

definition has_outstanding_work :: "('v, 'r, 'h) job_queue \<Rightarrow> bool" where
  "has_outstanding_work q = (\<not> queue_is_empty q \<or> atomics_waiters q \<noteq> [])"

definition observe_depth :: "('v, 'r, 'h) job_queue \<Rightarrow> ('v, 'r, 'h) job_queue" where
  "observe_depth q = q\<lparr>peak_depth := max (peak_depth q) (queue_len q)\<rparr>"

definition push_microtask :: "('v, 'r, 'h) job \<Rightarrow> ('v, 'r, 'h) job_queue \<Rightarrow> ('v, 'r, 'h) job_queue" where
  "push_microtask job q = observe_depth (q\<lparr>microtasks := microtasks q @ [job]\<rparr>)"

definition take_microtask :: "('v, 'r, 'h) job_queue \<Rightarrow> ('v, 'r, 'h) job option \<times> ('v, 'r, 'h) job_queue" where
  "take_microtask q = (case microtasks q of [] \<Rightarrow> (None, q) | job # js \<Rightarrow> (Some job, q\<lparr>microtasks := js\<rparr>))"

definition push_external_event :: "('v, 'r, 'h) job \<Rightarrow> ('v, 'r, 'h) job_queue \<Rightarrow> ('v, 'r, 'h) job_queue" where
  "push_external_event job q = observe_depth (q\<lparr>external_events := external_events q @ [job]\<rparr>)"

definition take_external_event :: "('v, 'r, 'h) job_queue \<Rightarrow> ('v, 'r, 'h) job option \<times> ('v, 'r, 'h) job_queue" where
  "take_external_event q = (case external_events q of [] \<Rightarrow> (None, q) | job # js \<Rightarrow> (Some job, q\<lparr>external_events := js\<rparr>))"

definition push_overflow :: "('v, 'r, 'h) job \<Rightarrow> ('v, 'r, 'h) job_queue \<Rightarrow> ('v, 'r, 'h) job_queue" where
  "push_overflow job q = observe_depth (q\<lparr>host_overflow := host_overflow q @ [job]\<rparr>)"

text \<open>The refused job comes back.\<close>

definition try_push_external_event ::
  "('v, 'r, 'h) job \<Rightarrow> nat \<Rightarrow> ('v, 'r, 'h) job_queue \<Rightarrow> (('v, 'r, 'h) job + unit) \<times> ('v, 'r, 'h) job_queue" where
  "try_push_external_event job capacity q =
     (if length (external_events q) \<ge> capacity then (Inl job, q) else (Inr (), push_external_event job q))"

definition keep_alive :: "('v \<Rightarrow> nat option) \<Rightarrow> nat \<Rightarrow> 'v \<Rightarrow> ('v, 'r, 'h) job_queue \<Rightarrow> ('v, 'r, 'h) job_queue outcome" where
  "keep_alive weak_identity limit v q =
     (case weak_identity v of
        None \<Rightarrow> Inr q
      | Some identity \<Rightarrow>
          if identity \<in> set (kept_identities q) then Inr q
          else if length (kept_alive q) \<ge> limit
          then Inl (ErrMsg ''RangeError: Maximum kept-alive weak targets exceeded'')
          else Inr (q\<lparr>kept_identities := identity # kept_identities q, kept_alive := kept_alive q @ [v]\<rparr>))"

definition clear_kept_alive :: "('v, 'r, 'h) job_queue \<Rightarrow> ('v, 'r, 'h) job_queue" where
  "clear_kept_alive q = q\<lparr>kept_alive := [], kept_identities := []\<rparr>"

section \<open>Timers and intervals\<close>

text \<open>\<open>delay.is_finite() && delay > 0.0\<close> on the bits of a double.\<close>

definition normalize_delay :: "u64 \<Rightarrow> u64" where
  "normalize_delay delay = (if 0 < delay \<and> delay < 0x7FF0000000000000 then delay else 0)"

definition MAX_ID :: u64 where
  "MAX_ID = 2 ^ 53 - 1"

definition succ_id :: "u64 \<Rightarrow> u64" where
  "succ_id i = (if i \<ge> MAX_ID then 1 else i + 1)"

text \<open>The search for an id; \<open>None\<close> when the given number of tries is used up.\<close>

fun mint_id :: "nat \<Rightarrow> (u64 \<Rightarrow> bool) \<Rightarrow> u64 \<Rightarrow> bool \<Rightarrow> (u64 \<times> bool) option" where
  "mint_id 0 occupied i wrapped = None"
| "mint_id (Suc n) occupied i wrapped =
     (let wrapped = (wrapped \<or> i \<ge> MAX_ID); i = succ_id i
      in if \<not> wrapped then Some (i, wrapped)
         else if occupied i then mint_id n occupied i wrapped
         else Some (i, wrapped))"

definition live_id :: "('v, 'r, 'h) job_queue \<Rightarrow> u64 \<Rightarrow> bool" where
  "live_id q i = (contains_id (timers q) i \<or> map_of (intervals q) i \<noteq> None)"

definition tries :: "('v, 'r, 'h) job_queue \<Rightarrow> nat" where
  "tries q = timers_len (timers q) + length (intervals q) + 1"

text \<open>\<open>add now delay\<close> is \<open>(now + delay).min(f64::MAX)\<close>. The job may depend on the id, as an interval's
  does. \<open>None\<close>: the search for an id has not ended.\<close>

definition push_timer_job ::
  "(u64 \<Rightarrow> u64 \<Rightarrow> u64) \<Rightarrow> u64 \<Rightarrow> (u64 \<Rightarrow> ('v, 'r, 'h) job) \<Rightarrow> ('v, 'r, 'h) job_queue \<Rightarrow>
   (u64 \<times> ('v, 'r, 'h) job_queue) outcome option" where
  "push_timer_job add delay job q =
     (case mint_id (tries q) (live_id q) (next_timer_id q) (timer_ids_wrapped q) of
        None \<Rightarrow> None
      | Some (i, wrapped) \<Rightarrow> Some (
          if next_sequence q = -1 then Inl Panicked
          else
            let key = (add (now_ms (clock q)) (normalize_delay delay), next_sequence q + 1)
            in Inr (i, observe_depth (q\<lparr>next_timer_id := i, timer_ids_wrapped := wrapped,
                      next_sequence := next_sequence q + 1, timers := insert_timer key i (job i) (timers q)\<rparr>))))"

definition push_timer where
  "push_timer add delay callback args = push_timer_job add delay (\<lambda>_. Callback callback args)"

definition push_interval where
  "push_interval add delay callback args q =
     map_option (\<lambda>r. bind_outcome r (\<lambda>(i, q). Inr (i, q\<lparr>intervals := AList.update i
       \<lparr>i_delay = delay, i_callback = callback, i_args = args, i_timer_id = i\<rparr> (intervals q)\<rparr>)))
       (push_timer_job add delay IntervalJob q)"

definition interval_callback :: "('v, 'r, 'h) job_queue \<Rightarrow> u64 \<Rightarrow> ('v \<times> 'v list) option" where
  "interval_callback q i = map_option (\<lambda>x. (i_callback x, i_args x)) (map_of (intervals q) i)"

definition reschedule_interval ::
  "(u64 \<Rightarrow> u64 \<Rightarrow> u64) \<Rightarrow> u64 \<Rightarrow> ('v, 'r, 'h) job_queue \<Rightarrow> ('v, 'r, 'h) job_queue outcome option" where
  "reschedule_interval add i q =
     (case map_of (intervals q) i of
        None \<Rightarrow> Some (Inr q)
      | Some x \<Rightarrow> map_option (\<lambda>r. bind_outcome r (\<lambda>(t, q).
          Inr (q\<lparr>intervals := AList.update i (x\<lparr>i_timer_id := t\<rparr>) (intervals q)\<rparr>)))
          (push_timer_job add (i_delay x) (\<lambda>_. IntervalJob i) q))"

definition cancel_timer :: "bool \<Rightarrow> u64 \<Rightarrow> ('v, 'r, 'h) job_queue \<Rightarrow> ('v, 'r, 'h) job_queue" where
  "cancel_timer keep i q =
     (let q = (case map_of (intervals q) i of
                 None \<Rightarrow> q
               | Some x \<Rightarrow> q\<lparr>intervals := AList.delete i (intervals q), timers := cancel_id keep (i_timer_id x) (timers q)\<rparr>)
      in q\<lparr>timers := cancel_id keep i (timers q)\<rparr>)"

definition check_timer_capacity :: "('v, 'r, 'h) job_queue \<Rightarrow> unit outcome" where
  "check_timer_capacity q =
     (let executing = length (filter (\<lambda>(_, x). \<not> contains_id (timers q) (i_timer_id x)) (intervals q))
      in case max_timers q of
           None \<Rightarrow> Inr ()
         | Some limit \<Rightarrow> if timers_len (timers q) + executing \<ge> limit
             then Inl (ErrMsg ''RangeError: Maximum timer count exceeded'') else Inr ())"

definition next_deadline :: "('v, 'r, 'h) job_queue \<Rightarrow> u64 option" where
  "next_deadline q = map_option fst (first_key (timers q))"

definition has_due_timer :: "('v, 'r, 'h) job_queue \<Rightarrow> bool" where
  "has_due_timer q =
     (case next_deadline q of None \<Rightarrow> False | Some deadline \<Rightarrow> clock q = Legacy \<or> deadline \<le> now_ms (clock q))"

definition take_timer ::
  "bool \<Rightarrow> ('v, 'r, 'h) job_queue \<Rightarrow> ('v, 'r, 'h) job option \<times> ('v, 'r, 'h) job_queue" where
  "take_timer keep q =
     (if \<not> has_due_timer q then (None, q)
      else case pop_timer keep (timers q) of (job, ts) \<Rightarrow> (job, q\<lparr>timers := ts\<rparr>))"

definition set_clock :: "clock_mode \<Rightarrow> ('v, 'r, 'h) job_queue \<Rightarrow> ('v, 'r, 'h) job_queue outcome" where
  "set_clock c q =
     (if \<not> timers_is_empty (timers q) then Inl (ErrMsg ''cannot change clocks with pending timers'')
      else Inr (q\<lparr>clock := c\<rparr>))"

definition is_runnable :: "('v, 'r, 'h) job_queue \<Rightarrow> bool" where
  "is_runnable q = (microtasks q \<noteq> [] \<or> external_events q \<noteq> [] \<or> has_due_timer q)"

section \<open>Waiters\<close>

definition register_atomics_waiter ::
  "nat \<times> nat \<Rightarrow> promise_ref \<Rightarrow> ('v, 'r, 'h) job_queue \<Rightarrow> u64 \<times> ('v, 'r, 'h) job_queue" where
  "register_atomics_waiter key promise q =
     (let i = max (next_atomics_waiter_id q + 1) 1;
          ws = (case map_of (atomics_waiters q) key of None \<Rightarrow> [] | Some ws \<Rightarrow> ws)
      in (i, q\<lparr>next_atomics_waiter_id := i,
               atomics_waiters := AList.update key (ws @ [\<lparr>w_native = None, w_shared = None, w_id = i, w_promise = promise\<rparr>])
                 (atomics_waiters q)\<rparr>))"

text \<open>The last waiter of the key gets the native registration, or else the shared buffer.\<close>

definition register_shared_atomics_waiter ::
  "nat \<times> nat \<Rightarrow> promise_ref \<Rightarrow> nat \<Rightarrow> nat option \<Rightarrow> ('v, 'r, 'h) job_queue \<Rightarrow> (u64 \<times> ('v, 'r, 'h) job_queue) outcome" where
  "register_shared_atomics_waiter key promise shared native q =
     (case register_atomics_waiter key promise q of (i, q) \<Rightarrow>
        case map_of (atomics_waiters q) key of
          None \<Rightarrow> Inl Panicked
        | Some ws \<Rightarrow>
            if ws = [] then Inl Panicked
            else Inr (i, q\<lparr>atomics_waiters := AList.update key
              (butlast ws @ [(last ws)\<lparr>w_shared := (if native = None then Some shared else None), w_native := native\<rparr>])
              (atomics_waiters q)\<rparr>))"

definition put_waiters ::
  "nat \<times> nat \<Rightarrow> atomics_waiter list \<Rightarrow> ((nat \<times> nat) \<times> atomics_waiter list) list \<Rightarrow> ((nat \<times> nat) \<times> atomics_waiter list) list" where
  "put_waiters key ws table = (if ws = [] then AList.delete key table else AList.update key ws table)"

fun split_waiter :: "u64 \<Rightarrow> atomics_waiter list \<Rightarrow> (atomics_waiter \<times> atomics_waiter list) option" where
  "split_waiter i [] = None"
| "split_waiter i (w # ws) =
     (if w_id w = i then Some (w, ws) else map_option (\<lambda>(x, rest). (x, w # rest)) (split_waiter i ws))"

definition remove_waiter ::
  "nat \<times> nat \<Rightarrow> u64 \<Rightarrow> ('v, 'r, 'h) job_queue \<Rightarrow> atomics_waiter option \<times> ('v, 'r, 'h) job_queue" where
  "remove_waiter key i q =
     (case map_of (atomics_waiters q) key of
        None \<Rightarrow> (None, q)
      | Some ws \<Rightarrow>
          (case split_waiter i ws of
             None \<Rightarrow> (None, q)
           | Some (w, rest) \<Rightarrow> (Some w, q\<lparr>atomics_waiters := put_waiters key rest (atomics_waiters q)\<rparr>)))"

text \<open>\<open>notified\<close> reads the signal of a native registration. The table is walked in the order of the list,
  where the source has the order of a hash map.\<close>

definition is_notified :: "(nat \<Rightarrow> bool) \<Rightarrow> atomics_waiter \<Rightarrow> bool" where
  "is_notified notified w = (case w_native w of None \<Rightarrow> False | Some n \<Rightarrow> notified n)"

definition take_notified_atomics_waiters ::
  "(nat \<Rightarrow> bool) \<Rightarrow> ('v, 'r, 'h) job_queue \<Rightarrow> promise_ref list \<times> ('v, 'r, 'h) job_queue" where
  "take_notified_atomics_waiters notified q =
     (concat (map (\<lambda>(_, ws). map w_promise (filter (is_notified notified) ws)) (atomics_waiters q)),
      q\<lparr>atomics_waiters := filter (\<lambda>(_, ws). ws \<noteq> [])
          (map (\<lambda>(key, ws). (key, filter (\<lambda>w. \<not> is_notified notified w) ws)) (atomics_waiters q))\<rparr>)"

definition remove_atomics_waiter ::
  "nat \<times> nat \<Rightarrow> u64 \<Rightarrow> ('v, 'r, 'h) job_queue \<Rightarrow> promise_ref option \<times> ('v, 'r, 'h) job_queue" where
  "remove_atomics_waiter key i q = (case remove_waiter key i q of (w, q) \<Rightarrow> (map_option w_promise w, q))"

text \<open>The loop of \<open>take_atomics_waiters\<close>: settled waiters are dropped, native ones stay, and the first
  \<open>limit\<close> others are selected.\<close>

fun select_waiters ::
  "(promise_ref \<Rightarrow> bool) \<Rightarrow> nat \<Rightarrow> promise_ref list \<Rightarrow> atomics_waiter list \<Rightarrow> atomics_waiter list \<Rightarrow>
   promise_ref list \<times> atomics_waiter list" where
  "select_waiters pending limit selected retained [] = (selected, retained)"
| "select_waiters pending limit selected retained (w # ws) =
     (if \<not> pending (w_promise w) then select_waiters pending limit selected retained ws
      else if w_native w \<noteq> None then select_waiters pending limit selected (retained @ [w]) ws
      else if length selected < limit then select_waiters pending limit (selected @ [w_promise w]) retained ws
      else select_waiters pending limit selected (retained @ [w]) ws)"

definition take_atomics_waiters ::
  "(promise_ref \<Rightarrow> bool) \<Rightarrow> nat \<times> nat \<Rightarrow> nat \<Rightarrow> ('v, 'r, 'h) job_queue \<Rightarrow> promise_ref list \<times> ('v, 'r, 'h) job_queue" where
  "take_atomics_waiters pending key limit q =
     (case map_of (atomics_waiters q) key of
        None \<Rightarrow> ([], q)
      | Some ws \<Rightarrow>
          (case select_waiters pending limit [] [] ws of (selected, retained) \<Rightarrow>
             (selected, q\<lparr>atomics_waiters := put_waiters key retained (atomics_waiters q)\<rparr>)))"

section \<open>Fresh ids\<close>

lemma unat_MAX_ID: "unat MAX_ID = 2 ^ 53 - 1"
  by (simp add: MAX_ID_def)

lemma unat_succ_id: "unat (succ_id i) = (if unat i \<ge> 2 ^ 53 - 1 then 1 else unat i + 1)"
proof (cases "MAX_ID \<le> i")
  case False
  then have "unat i + 1 < 2 ^ 64" by (simp add: word_le_nat_alt unat_MAX_ID)
  then have "unat (i + 1) = unat i + 1" by (simp add: unat_word_ariths)
  then show ?thesis using False by (simp add: succ_id_def word_le_nat_alt unat_MAX_ID)
qed (simp add: succ_id_def word_le_nat_alt unat_MAX_ID)

text \<open>The ids are visited in a cycle.\<close>

lemma succ_id_cycle:
  "1 \<le> unat i \<Longrightarrow> unat i \<le> 2 ^ 53 - 1 \<Longrightarrow> unat ((succ_id ^^ k) i) = (unat i - 1 + k) mod (2 ^ 53 - 1) + 1"
proof (induction k)
  case (Suc k)
  obtain s where "unat i = Suc s" using Suc.prems(1) by (cases "unat i") auto
  then show ?case using Suc by (auto simp: unat_succ_id mod_Suc)
qed simp

lemma mod_shift_inj:
  fixes a b n s :: nat
  assumes "a < n" "b < n" "(s + a) mod n = (s + b) mod n"
  shows "a = b"
proof -
  have "x = y" if "x \<le> y" "y < n" "(s + x) mod n = (s + y) mod n" for x y
  proof -
    have "n dvd y - x" using that mod_eq_dvd_iff_nat [of "s + x" "s + y" n] by simp
    then show ?thesis using that by (auto dest!: dvd_imp_le)
  qed
  then show ?thesis using assms by (metis nat_le_linear)
qed

lemma succ_id_range: "1 \<le> unat (succ_id i) \<and> unat (succ_id i) \<le> 2 ^ 53 - 1"
  by (simp add: unat_succ_id)

lemma succ_id_distinct:
  assumes "a < 2 ^ 53 - 1" "b < 2 ^ 53 - 1" "(succ_id ^^ Suc a) i = (succ_id ^^ Suc b) i"
  shows "a = b"
proof -
  define s where "s = unat (succ_id i) - 1"
  have "(s + a) mod (2 ^ 53 - 1) = (s + b) mod (2 ^ 53 - 1)"
    using assms(3) succ_id_range [of i] succ_id_cycle [of "succ_id i" a] succ_id_cycle [of "succ_id i" b]
    by (simp add: s_def funpow_swap1)
  then show ?thesis by (rule mod_shift_inj [OF assms(1,2)])
qed

lemma mint_None: "mint_id n occupied i wrapped = None \<Longrightarrow> k < n \<Longrightarrow> occupied ((succ_id ^^ Suc k) i)"
proof (induction n arbitrary: i wrapped k)
  case (Suc n)
  then have occ: "occupied (succ_id i)" and rest: "mint_id n occupied (succ_id i) (wrapped \<or> i \<ge> MAX_ID) = None"
    by (auto simp: Let_def split: if_splits)
  show ?case
  proof (cases k)
    case (Suc k')
    then show ?thesis using Suc.IH [OF rest, of k'] Suc.prems(2) by (simp add: funpow_swap1)
  qed (use occ in simp)
qed simp

lemma mint_Some:
  "mint_id n occupied i wrapped = Some (j, wrapped') \<Longrightarrow>
   1 \<le> unat j \<and> unat j \<le> 2 ^ 53 - 1 \<and> (wrapped' \<longrightarrow> \<not> occupied j) \<and> (\<not> wrapped' \<longrightarrow> \<not> wrapped \<and> unat j = unat i + 1)"
proof (induction n arbitrary: i wrapped)
  case (Suc n)
  show ?case
  proof (cases "(wrapped \<or> i \<ge> MAX_ID) \<and> occupied (succ_id i)")
    case True
    then show ?thesis using Suc by (auto simp: Let_def)
  next
    case False
    then have "j = succ_id i" "wrapped' = (wrapped \<or> i \<ge> MAX_ID)" using Suc.prems by (auto simp: Let_def split: if_splits)
    then show ?thesis using False succ_id_range [of i] unat_succ_id [of i]
      by (auto simp: word_le_nat_alt unat_MAX_ID)
  qed
qed simp

lemma mint_ends:
  assumes "finite {i. occupied i}" "card {i. occupied i} < n" "n \<le> 2 ^ 53 - 1"
  shows "\<exists>j wrapped'. mint_id n occupied i wrapped = Some (j, wrapped')"
proof (rule ccontr)
  assume "\<not> ?thesis"
  then have "mint_id n occupied i wrapped = None" by (metis not_Some_eq surj_pair)
  then have "(\<lambda>k. (succ_id ^^ Suc k) i) ` {..<n} \<subseteq> {i. occupied i}" using mint_None by blast
  moreover have "inj_on (\<lambda>k. (succ_id ^^ Suc k) i) {..<n}"
    using assms(3) by (intro inj_onI succ_id_distinct [of _ _ i]) auto
  ultimately have "n \<le> card {i. occupied i}" using card_inj_on_le [OF _ _ assms(1), of _ "{..<n}"] by fastforce
  then show False using assms(2) by simp
qed

section \<open>The invariant\<close>

definition queue_ok :: "('v, 'r, 'h) job_queue \<Rightarrow> bool" where
  "queue_ok q \<longleftrightarrow> timers_ok (timers q) \<and>
     (\<not> timer_ids_wrapped q \<longrightarrow> (\<forall>i. live_id q i \<longrightarrow> i \<le> next_timer_id q)) \<and>
     (\<forall>e\<in>set (timers_of (timers q)). snd (e_key e) \<le> next_sequence q) \<and>
     queue_len q \<le> peak_depth q"

lemma live_ids:
  "timers_ok (timers q) \<Longrightarrow> {i. live_id q i} = e_id ` set (timers_of (timers q)) \<union> dom (map_of (intervals q))"
  by (auto simp: live_id_def queue_reads)

lemma live_ids_few:
  assumes "timers_ok (timers q)"
  shows "finite {i. live_id q i}" "card {i. live_id q i} < tries q"
proof -
  have "card (e_id ` set (timers_of (timers q))) \<le> timers_len (timers q)"
    using card_image_le [of "set (timers_of (timers q))" e_id] card_length [of "timers_of (timers q)"]
    by (simp add: queue_reads [OF assms])
  moreover have "card (dom (map_of (intervals q))) \<le> length (intervals q)"
    using card_image_le [of "set (intervals q)" fst] card_length [of "intervals q"] by (simp add: dom_map_of_conv_image_fst)
  ultimately show "card {i. live_id q i} < tries q"
    using card_Un_le [of "e_id ` set (timers_of (timers q))" "dom (map_of (intervals q))"]
    by (simp add: live_ids [OF assms] tries_def)
  show "finite {i. live_id q i}" by (simp add: live_ids [OF assms] finite_dom_map_of)
qed

lemma succ_sequence: "s \<noteq> (-1 :: u128) \<Longrightarrow> x \<le> s \<Longrightarrow> x < s + 1"
proof -
  assume "s \<noteq> (-1 :: u128)" and "x \<le> s"
  then have "1 + s \<noteq> 0" by (simp add: add_eq_0_iff)
  then have "unat (s + 1) = Suc (unat s)" by (metis add.commute unatSuc)
  then show "x < s + 1" using \<open>x \<le> s\<close> by (simp add: word_less_nat_alt word_le_nat_alt)
qed

text \<open>The outcome of scheduling: an unused id, and the timer in its place.\<close>

lemma push_timer_result:
  assumes ok: "queue_ok q" and run: "push_timer_job add delay job q = Some (Inr (i, q'))"
  shows "1 \<le> unat i" "unat i \<le> 2 ^ 53 - 1" "\<not> live_id q i" "queue_ok q'"
    "intervals q' = intervals q \<and> clock q' = clock q \<and> next_sequence q' = next_sequence q + 1 \<and>
       microtasks q' = microtasks q \<and> external_events q' = external_events q \<and> host_overflow q' = host_overflow q"
    "timers_of (timers q') = place \<lparr>e_key = (add (now_ms (clock q)) (normalize_delay delay), next_sequence q + 1),
       e_id = i, e_job = job i\<rparr> (timers_of (timers q))"
    "timers q' = insert_timer (add (now_ms (clock q)) (normalize_delay delay), next_sequence q + 1) i (job i) (timers q)"
proof -
  have t: "timers_ok (timers q)" using ok by (simp add: queue_ok_def)
  obtain wrapped where mint: "mint_id (tries q) (live_id q) (next_timer_id q) (timer_ids_wrapped q) = Some (i, wrapped)"
    and room: "next_sequence q \<noteq> -1"
    using run by (auto simp: push_timer_job_def Let_def split: option.splits if_splits)
  note minted = mint_Some [OF mint]
  show fresh: "\<not> live_id q i"
  proof (cases wrapped)
    case False
    then have "next_timer_id q < i" using minted by (simp add: word_less_nat_alt)
    then show ?thesis using ok minted False by (auto simp: queue_ok_def not_less [symmetric])
  qed (use minted in blast)
  define key where "key = (add (now_ms (clock q)) (normalize_delay delay), next_sequence q + 1)"
  define ts where "ts = insert_timer key i (job i) (timers q)"
  have q': "q' = observe_depth (q\<lparr>next_timer_id := i, timer_ids_wrapped := wrapped,
      next_sequence := next_sequence q + 1, timers := ts\<rparr>)"
    using run mint room by (simp add: push_timer_job_def Let_def ts_def key_def)
  have later: "snd (e_key e) < next_sequence q + 1" if "e \<in> set (timers_of (timers q))" for e
    using that ok room by (simp add: queue_ok_def succ_sequence)
  then have "key \<notin> e_key ` set (timers_of (timers q))" by (metis key_def imageE less_irrefl snd_conv)
  moreover have unused: "i \<notin> e_id ` set (timers_of (timers q))" using fresh by (simp add: live_id_def queue_reads [OF t])
  ultimately have ts: "timers_ok ts" "timers_of ts = place \<lparr>e_key = key, e_id = i, e_job = job i\<rparr> (timers_of (timers q))"
    using insert_refines [OF t] by (simp_all add: ts_def)
  have "x \<le> i" if "\<not> wrapped" "live_id q x" for x
  proof -
    have "x \<le> next_timer_id q" using ok minted that by (simp add: queue_ok_def)
    then show ?thesis using minted that by (simp add: word_le_nat_alt)
  qed
  then show "queue_ok q'" using ts later
    by (auto simp: queue_ok_def q' observe_depth_def live_id_def queue_len_def queue_reads [OF t]
        queue_reads [OF ts(1)] key_def less_imp_le)
  show "1 \<le> unat i" "unat i \<le> 2 ^ 53 - 1" using minted by simp_all
  show "intervals q' = intervals q \<and> clock q' = clock q \<and> next_sequence q' = next_sequence q + 1 \<and>
      microtasks q' = microtasks q \<and> external_events q' = external_events q \<and> host_overflow q' = host_overflow q"
    by (simp add: q' observe_depth_def)
  show "timers_of (timers q') = place \<lparr>e_key = (add (now_ms (clock q)) (normalize_delay delay), next_sequence q + 1),
      e_id = i, e_job = job i\<rparr> (timers_of (timers q))"
    by (simp add: q' observe_depth_def ts key_def)
  show "timers q' = insert_timer (add (now_ms (clock q)) (normalize_delay delay), next_sequence q + 1) i (job i) (timers q)"
    by (simp add: q' observe_depth_def ts_def key_def)
qed

lemma push_timer_ends:
  assumes "queue_ok q" "tries q \<le> 2 ^ 53 - 1" "next_sequence q \<noteq> -1"
  shows "\<exists>i q'. push_timer_job add delay job q = Some (Inr (i, q'))"
proof -
  have "timers_ok (timers q)" using assms(1) by (simp add: queue_ok_def)
  from mint_ends [OF live_ids_few [OF this] assms(2), of "next_timer_id q" "timer_ids_wrapped q"]
  obtain i wrapped where "mint_id (tries q) (live_id q) (next_timer_id q) (timer_ids_wrapped q) = Some (i, wrapped)"
    by blast
  then show ?thesis using assms(3) by (simp add: push_timer_job_def Let_def)
qed

section \<open>Reachable queues\<close>

inductive queue_step :: "('v, 'r, 'h) job_queue \<Rightarrow> ('v, 'r, 'h) job_queue \<Rightarrow> bool" where
  "queue_step q (push_microtask job q)"
| "queue_step q (snd (take_microtask q))"
| "queue_step q (push_external_event job q)"
| "queue_step q (snd (take_external_event q))"
| "queue_step q (push_overflow job q)"
| "queue_step q (snd (try_push_external_event job capacity q))"
| "host_overflow q = job # js \<Longrightarrow> queue_step q (push_external_event job (q\<lparr>host_overflow := js\<rparr>))"
| "keep_alive identity limit v q = Inr q' \<Longrightarrow> queue_step q q'"
| "queue_step q (clear_kept_alive q)"
| "push_timer add delay callback args q = Some (Inr (i, q')) \<Longrightarrow> queue_step q q'"
| "push_interval add delay callback args q = Some (Inr (i, q')) \<Longrightarrow> queue_step q q'"
| "reschedule_interval add i q = Some (Inr q') \<Longrightarrow> queue_step q q'"
| "queue_step q (cancel_timer keep i q)"
| "queue_step q (snd (take_timer keep q))"
| "set_clock c q = Inr q' \<Longrightarrow> queue_step q q'"
| "queue_step q (snd (register_atomics_waiter key promise q))"
| "register_shared_atomics_waiter key promise shared native q = Inr (i, q') \<Longrightarrow> queue_step q q'"
| "queue_step q (snd (remove_waiter key i q))"
| "queue_step q (snd (take_notified_atomics_waiters notified q))"
| "queue_step q (snd (take_atomics_waiters pending key limit q))"
| "queue_step q (q\<lparr>checkpoint_pending := b\<rparr>)"
| "queue_step q (q\<lparr>prefer_timer := b\<rparr>)"
| "queue_step q (q\<lparr>dispatch_depth := d\<rparr>)"
| "queue_step q (q\<lparr>max_timers := m\<rparr>)"

inductive queue_reachable :: "('v, 'r, 'h) job_queue \<Rightarrow> bool" where
  reach_empty: "queue_reachable empty_queue"
| reach_queue: "queue_reachable q \<Longrightarrow> queue_step q q' \<Longrightarrow> queue_reachable q'"

text \<open>Operations that leave timers, ids and sequence numbers alone keep the invariant when they add at
  most what they record; operations that drop timers keep it too.\<close>

lemma queue_ok_same:
  assumes "queue_ok q" "timers q' = timers q" "intervals q' = intervals q" "next_timer_id q' = next_timer_id q"
    "timer_ids_wrapped q' = timer_ids_wrapped q" "next_sequence q' = next_sequence q" "queue_len q' \<le> peak_depth q'"
  shows "queue_ok q'"
  using assms by (simp add: queue_ok_def live_id_def)

lemma queue_ok_fewer:
  assumes ok: "queue_ok q" and t: "timers_ok (timers q')" "set (timers_of (timers q')) \<subseteq> set (timers_of (timers q))"
    "length (timers_of (timers q')) \<le> length (timers_of (timers q))"
    and ivs: "dom (map_of (intervals q')) \<subseteq> dom (map_of (intervals q))"
    and same: "next_timer_id q' = next_timer_id q" "timer_ids_wrapped q' = timer_ids_wrapped q"
    "next_sequence q' = next_sequence q" "microtasks q' = microtasks q" "external_events q' = external_events q"
    "host_overflow q' = host_overflow q" "peak_depth q' = peak_depth q"
  shows "queue_ok q'"
proof -
  have tq: "timers_ok (timers q)" using ok by (simp add: queue_ok_def)
  have "{i. live_id q' i} \<subseteq> {i. live_id q i}"
    unfolding live_ids [OF tq] live_ids [OF t(1)] by (intro Un_mono image_mono t(2) ivs)
  then have live: "live_id q' i \<Longrightarrow> live_id q i" for i by blast
  have "queue_len q' \<le> queue_len q"
    using t(3) by (simp add: queue_len_def same queue_reads(2) [OF tq] queue_reads(2) [OF t(1)])
  then have "queue_len q' \<le> peak_depth q'" using ok same(7) by (simp add: queue_ok_def)
  moreover have "\<forall>e\<in>set (timers_of (timers q')). snd (e_key e) \<le> next_sequence q'"
    using ok t(2) unfolding queue_ok_def same(3) by blast
  moreover have "\<not> timer_ids_wrapped q' \<longrightarrow> (\<forall>i. live_id q' i \<longrightarrow> i \<le> next_timer_id q')"
    using ok live unfolding queue_ok_def same(1,2) by blast
  ultimately show ?thesis using t(1) unfolding queue_ok_def by blast
qed

lemma cancel_timer_ok: "queue_ok q \<Longrightarrow> queue_ok (cancel_timer keep i q)"
proof -
  assume ok: "queue_ok q"
  define q1 where "q1 = (case map_of (intervals q) i of
      None \<Rightarrow> q
    | Some x \<Rightarrow> q\<lparr>intervals := AList.delete i (intervals q), timers := cancel_id keep (i_timer_id x) (timers q)\<rparr>)"
  have drop: "queue_ok (q'\<lparr>intervals := ivs, timers := cancel_id keep x (timers q')\<rparr>)"
    if ok: "queue_ok q'" and ivs: "dom (map_of ivs) \<subseteq> dom (map_of (intervals q'))" for q' ivs x
  proof -
    have t: "timers_ok (timers q')" using ok by (simp add: queue_ok_def)
    show ?thesis using cancel_refines [OF t, of keep x]
      by (intro queue_ok_fewer [OF ok]) (use ivs in \<open>auto simp: length_filter_le\<close>)
  qed
  have "dom (map_of (AList.delete i (intervals q))) \<subseteq> dom (map_of (intervals q))" by (auto simp: delete_conv')
  then have "queue_ok q1" using ok drop [of q] by (simp add: q1_def split: option.split)
  from drop [OF this, of "intervals q1" i] show ?thesis by (simp add: cancel_timer_def Let_def q1_def)
qed

lemma take_timer_ok: "queue_ok q \<Longrightarrow> queue_ok (snd (take_timer keep q))"
proof -
  assume ok: "queue_ok q"
  then have t: "timers_ok (timers q)" by (simp add: queue_ok_def)
  have "queue_ok (q\<lparr>timers := snd (pop_timer keep (timers q))\<rparr>)"
    using pop_refines [OF t, of keep] by (intro queue_ok_fewer [OF ok]) (cases "timers_of (timers q)"; auto)+
  then show ?thesis using ok by (auto simp: take_timer_def split: prod.split)
qed

lemma push_interval_ok: "queue_ok q \<Longrightarrow> push_interval add delay callback args q = Some (Inr (i, q')) \<Longrightarrow> queue_ok q'"
proof -
  assume ok: "queue_ok q" and "push_interval add delay callback args q = Some (Inr (i, q'))"
  then obtain q1 where run: "push_timer_job add delay IntervalJob q = Some (Inr (i, q1))"
    and q': "\<exists>x. q' = q1\<lparr>intervals := AList.update i x (intervals q1)\<rparr>"
    by (auto simp: push_interval_def bind_outcome_Inr_iff)
  have t: "timers_ok (timers q1)" using push_timer_result(4) [OF ok run] by (simp add: queue_ok_def)
  have "contains_id (timers q1) i" using push_timer_result(6) [OF ok run] by (simp add: queue_reads [OF t])
  then have "live_id q1 i" by (simp add: live_id_def)
  then have "live_id q' x \<longleftrightarrow> live_id q1 x" for x using q' by (auto simp: live_id_def update_conv' split: if_splits)
  then show ?thesis using push_timer_result(4) [OF ok run] q' by (auto simp: queue_ok_def queue_len_def)
qed

lemma reschedule_interval_ok: "queue_ok q \<Longrightarrow> reschedule_interval add i q = Some (Inr q') \<Longrightarrow> queue_ok q'"
proof (cases "map_of (intervals q) i")
  case (Some x)
  assume ok: "queue_ok q" and "reschedule_interval add i q = Some (Inr q')"
  then obtain t q1 where run: "push_timer_job add (i_delay x) (\<lambda>_. IntervalJob i) q = Some (Inr (t, q1))"
    and q': "q' = q1\<lparr>intervals := AList.update i (x\<lparr>i_timer_id := t\<rparr>) (intervals q1)\<rparr>"
    using Some by (auto simp: reschedule_interval_def bind_outcome_Inr_iff)
  have "intervals q1 = intervals q" using push_timer_result(5) [OF ok run] by simp
  then have "live_id q' y \<longleftrightarrow> live_id q1 y" for y using Some by (auto simp: q' live_id_def update_conv' split: if_splits)
  then show ?thesis using push_timer_result(4) [OF ok run] by (simp add: queue_ok_def queue_len_def q')
qed (auto simp: reschedule_interval_def)

lemma peak_bound: "queue_ok q \<Longrightarrow> queue_len q \<le> peak_depth q"
  by (simp add: queue_ok_def)

lemma plain_steps_ok:
  assumes "queue_ok q"
  shows "queue_ok (push_microtask job q)" "queue_ok (push_external_event job q)" "queue_ok (push_overflow job q)"
    "queue_ok (clear_kept_alive q)" "queue_ok (q\<lparr>checkpoint_pending := b\<rparr>)" "queue_ok (q\<lparr>prefer_timer := b\<rparr>)"
    "queue_ok (q\<lparr>dispatch_depth := d\<rparr>)" "queue_ok (q\<lparr>max_timers := m\<rparr>)" "queue_ok (q\<lparr>atomics_waiters := ws\<rparr>)"
    "queue_ok (q\<lparr>next_atomics_waiter_id := n, atomics_waiters := ws\<rparr>)" "queue_ok (q\<lparr>kept_identities := ks, kept_alive := vs\<rparr>)"
    "queue_ok (q\<lparr>clock := c\<rparr>)"
  using peak_bound [OF assms]
  by (auto intro!: queue_ok_same [OF assms] simp: push_microtask_def push_external_event_def push_overflow_def
      clear_kept_alive_def observe_depth_def queue_len_def)

lemma taken_steps_ok:
  assumes "queue_ok q"
  shows "queue_ok (snd (take_microtask q))" "queue_ok (snd (take_external_event q))"
    "host_overflow q = job # js \<Longrightarrow> queue_ok (q\<lparr>host_overflow := js\<rparr>)"
  using peak_bound [OF assms]
  by (auto intro!: queue_ok_same [OF assms] assms simp: take_microtask_def take_external_event_def queue_len_def
      split: list.split)

lemma waiter_steps_ok:
  assumes "queue_ok q"
  shows "queue_ok (snd (register_atomics_waiter key promise q))" "queue_ok (snd (remove_waiter key i q))"
    "queue_ok (snd (take_notified_atomics_waiters notified q))" "queue_ok (snd (take_atomics_waiters pending key limit q))"
    "register_shared_atomics_waiter key promise shared native q = Inr (j, q') \<Longrightarrow> queue_ok q'"
proof -
  show reg: "queue_ok (snd (register_atomics_waiter key promise q))"
    by (simp add: register_atomics_waiter_def Let_def plain_steps_ok [OF assms])
  show "queue_ok (snd (remove_waiter key i q))" "queue_ok (snd (take_notified_atomics_waiters notified q))"
    "queue_ok (snd (take_atomics_waiters pending key limit q))"
    by (simp_all add: remove_waiter_def take_notified_atomics_waiters_def take_atomics_waiters_def assms
        plain_steps_ok [OF assms] split: option.split prod.split)
  show "queue_ok q'" if "register_shared_atomics_waiter key promise shared native q = Inr (j, q')"
    using that plain_steps_ok(9) [OF reg]
    by (auto simp: register_shared_atomics_waiter_def split: prod.splits option.splits if_splits)
qed

lemma queue_step_ok: "queue_step q q' \<Longrightarrow> queue_ok q \<Longrightarrow> queue_ok q'"
proof (induction rule: queue_step.induct)
  case (6 q job capacity)
  then show ?case by (simp add: try_push_external_event_def plain_steps_ok)
next
  case (7 q job js)
  then show ?case by (simp add: plain_steps_ok taken_steps_ok)
next
  case (8 identity limit v q q')
  then show ?case by (auto simp: keep_alive_def plain_steps_ok split: option.splits if_splits)
next
  case (10 add delay callback args q i q')
  then show ?case by (auto simp: push_timer_def intro: push_timer_result(4))
next
  case (15 c q q')
  then show ?case by (auto simp: set_clock_def plain_steps_ok split: if_splits)
qed (blast intro: plain_steps_ok taken_steps_ok waiter_steps_ok cancel_timer_ok take_timer_ok push_interval_ok
      reschedule_interval_ok)+

lemma reachable_queue_ok: "queue_reachable q \<Longrightarrow> queue_ok q"
proof (induction rule: queue_reachable.induct)
  case reach_empty
  then show ?case
    by (simp add: queue_ok_def empty_queue_def empty_timers_def entries_ok_def live_id_def queue_len_def)
qed (blast intro: queue_step_ok)

section \<open>Properties\<close>

text \<open>C16: scheduling a timer always ends and never reuses the id of a live timer or interval: the search
  for an id ends within one more try than there are live ids, also after the ids have wrapped, and the
  new timer has an id that no live timer or interval has and that a double represents exactly.\<close>

theorem push_timer_fresh:
  assumes "queue_reachable q" and "timers_len (timers q) + length (intervals q) < 2 ^ 53 - 1" and "next_sequence q \<noteq> -1"
  shows "\<exists>i q'. push_timer_job add delay job q = Some (Inr (i, q')) \<and> \<not> live_id q i \<and> live_id q' i \<and>
    1 \<le> unat i \<and> unat i \<le> 2 ^ 53 - 1 \<and> timers_len (timers q') = timers_len (timers q) + 1"
proof -
  have ok: "queue_ok q" by (rule reachable_queue_ok [OF assms(1)])
  have "tries q \<le> 2 ^ 53 - 1" using assms(2) by (simp add: tries_def)
  from push_timer_ends [OF ok this assms(3)]
  obtain i q' where run: "push_timer_job add delay job q = Some (Inr (i, q'))" by blast
  note result = push_timer_result [OF ok run]
  have t: "timers_ok (timers q)" "timers_ok (timers q')" using ok result(4) by (simp_all add: queue_ok_def)
  then have "live_id q' i" "timers_len (timers q') = timers_len (timers q) + 1"
    using result(6) by (simp_all add: live_id_def queue_reads)
  then show ?thesis using run result by blast
qed

theorem push_timer_fresh_witness:
  "\<exists>i q'. push_timer_job (\<lambda>_ d. d) 0 IntervalJob (empty_queue :: (unit, unit, unit) job_queue) = Some (Inr (i, q')) \<and>
     \<not> live_id (empty_queue :: (unit, unit, unit) job_queue) i \<and> timers_len (timers q') = 1"
proof -
  have "timers_len (timers empty_queue) + length (intervals empty_queue) < 2 ^ 53 - 1" "next_sequence empty_queue \<noteq> -1"
    by (simp_all add: empty_queue_def empty_timers_def)
  from push_timer_fresh [OF reach_empty this] show ?thesis by (fastforce simp: empty_queue_def empty_timers_def)
qed

text \<open>Scheduling one job after the other.\<close>

fun schedule_all ::
  "(u64 \<Rightarrow> u64 \<Rightarrow> u64) \<Rightarrow> (u64 \<times> ('v, 'r, 'h) job) list \<Rightarrow> ('v, 'r, 'h) job_queue \<Rightarrow>
   ('v, 'r, 'h) job_queue outcome option" where
  "schedule_all add [] q = Some (Inr q)"
| "schedule_all add ((delay, job) # js) q =
     (case push_timer_job add delay (\<lambda>_. job) q of
        None \<Rightarrow> None
      | Some (Inl e) \<Rightarrow> Some (Inl e)
      | Some (Inr (_, q)) \<Rightarrow> schedule_all add js q)"

abbreviation put_entries :: "'j timer_entry list \<Rightarrow> 'j timer_queue \<Rightarrow> 'j timer_queue" where
  "put_entries \<equiv> fold (\<lambda>e. insert_timer (e_key e) (e_id e) (e_job e))"

lemma schedule_all_entries:
  assumes "queue_ok q" "clock q = Legacy" "\<And>d. add 0 (normalize_delay d) = normalize_delay d"
    "tries q + length js \<le> 2 ^ 53 - 1" "unat (next_sequence q) + length js < 2 ^ 128"
  shows "\<exists>q' es. schedule_all add js q = Some (Inr q') \<and> queue_ok q' \<and> clock q' = Legacy \<and>
    timers q' = put_entries es (timers q) \<and>
    map (\<lambda>e. (fst (e_key e), e_job e)) es = map (\<lambda>(d, job). (normalize_delay d, job)) js \<and>
    sorted_wrt (<) (map (\<lambda>e. snd (e_key e)) es) \<and> (\<forall>e\<in>set es. next_sequence q < snd (e_key e)) \<and>
    distinct (map e_id es) \<and> (\<forall>e\<in>set es. \<not> live_id q (e_id e))"
  using assms(1,2,4,5)
proof (induction js arbitrary: q)
  case Nil
  then show ?case by (intro exI [of _ q] exI [of _ "[]"]) simp
next
  case (Cons dj js)
  obtain d job where dj: "dj = (d, job)" by fastforce
  have seq: "next_sequence q \<noteq> -1" using Cons.prems(4) by (auto simp: unsigned_minus_1_eq_mask mask_eq_exp_minus_1)
  obtain i q1 where run: "push_timer_job add d (\<lambda>_. job) q = Some (Inr (i, q1))"
    using push_timer_ends [OF Cons.prems(1) _ seq, of add d "\<lambda>_. job"] Cons.prems(3) by auto
  note r = push_timer_result [OF Cons.prems(1) run]
  have t: "timers_ok (timers q)" "timers_ok (timers q1)" using Cons.prems(1) r(4) by (simp_all add: queue_ok_def)
  have succ: "unat (next_sequence q1) = unat (next_sequence q) + 1"
    using r(5) Cons.prems(4) by (simp add: unat_word_ariths)
  have "tries q1 = tries q + 1" using r(5,6) by (simp add: tries_def queue_reads [OF t(1)] queue_reads [OF t(2)])
  then have bounds: "clock q1 = Legacy" "tries q1 + length js \<le> 2 ^ 53 - 1" "unat (next_sequence q1) + length js < 2 ^ 128"
    using r(5) succ Cons.prems(2-4) by auto
  obtain q' es where IH: "schedule_all add js q1 = Some (Inr q')" "queue_ok q'" "clock q' = Legacy"
    "timers q' = put_entries es (timers q1)"
    "map (\<lambda>e. (fst (e_key e), e_job e)) es = map (\<lambda>(d, job). (normalize_delay d, job)) js"
    "sorted_wrt (<) (map (\<lambda>e. snd (e_key e)) es)" "\<forall>e\<in>set es. next_sequence q1 < snd (e_key e)"
    "distinct (map e_id es)" "\<forall>e\<in>set es. \<not> live_id q1 (e_id e)"
    using Cons.IH [OF r(4) bounds] by blast
  define e where "e = \<lparr>e_key = (normalize_delay d, next_sequence q1), e_id = i, e_job = job\<rparr>"
  have live: "live_id q1 x \<longleftrightarrow> live_id q x \<or> x = i" for x
    using r(5,6) by (auto simp: live_id_def queue_reads [OF t(1)] queue_reads [OF t(2)])
  have "timers q1 = insert_timer (e_key e) (e_id e) (e_job e) (timers q)"
    using r(5,7) Cons.prems(2) assms(3) by (simp add: e_def)
  moreover have "next_sequence q < next_sequence q1" using succ by (simp add: word_less_nat_alt)
  ultimately show ?case
    using IH live r(3) run dj by (intro exI [of _ q'] exI [of _ "e # es"]) (auto simp: e_def intro: less_trans)
qed

lemma insort_map: "insort_key f (g x) (map g xs) = map g (insort_key (\<lambda>x. f (g x)) x xs)"
  by (induction xs) auto

lemma sort_map: "sort_key f (map g xs) = map g (sort_key (\<lambda>x. f (g x)) xs)"
  by (induction xs) (auto simp: insort_map)

lemma legacy_take:
  "timers_ok (timers q) \<Longrightarrow> clock q = Legacy \<Longrightarrow> pop_jobs (take_timer keep) n q = pop_jobs (pop_timer keep) n (timers q)"
proof (induction n arbitrary: q)
  case (Suc n)
  note t = Suc.prems(1) and popped = pop_refines [OF Suc.prems(1), of keep]
  show ?case
  proof (cases "timers_of (timers q)")
    case Nil
    then have "fst (pop_timer keep (timers q)) = None" using popped by simp
    moreover have "\<not> has_due_timer q" using Nil by (simp add: has_due_timer_def next_deadline_def queue_reads [OF t])
    ultimately show ?thesis by (auto simp: take_timer_def split: prod.split)
  next
    case (Cons e es)
    then have "has_due_timer q" using Suc.prems(2) by (simp add: has_due_timer_def next_deadline_def queue_reads [OF t])
    moreover obtain ts where ts: "pop_timer keep (timers q) = (Some (e_job e), ts)" "timers_ok ts"
      using popped Cons by (cases "pop_timer keep (timers q)") auto
    ultimately have "take_timer keep q = (Some (e_job e), q\<lparr>timers := ts\<rparr>)" by (simp add: take_timer_def)
    then show ?thesis using Suc.IH [of "q\<lparr>timers := ts\<rparr>"] Suc.prems(2) ts by simp
  qed
qed simp

text \<open>C17: timers fire in the order of their delays, ties in the order of scheduling: whatever is scheduled,
  with the small vector or the search tree behind the queue, taking timers gives the stable sort by
  delay, where negative, infinite and not-a-number delays count as zero.\<close>

theorem timers_fire_in_order:
  assumes "\<And>d. add 0 (normalize_delay d) = normalize_delay d" and "length js < 2 ^ 53 - 1"
  shows "\<exists>q. schedule_all add js empty_queue = Some (Inr q) \<and>
    pop_jobs (take_timer keep) n q =
      map snd (take n (sort_key fst (map (\<lambda>(d, job). (normalize_delay d, job)) js)))"
proof -
  have empty: "timers empty_queue = empty_timers" "timers_ok empty_timers" "timers_of empty_timers = []"
    by (simp_all add: empty_queue_def empty_timers_def entries_ok_def)
  obtain q and es where q: "schedule_all add js empty_queue = Some (Inr q)" "queue_ok q" "clock q = Legacy"
    "timers q = put_entries es empty_timers"
    and es: "map (\<lambda>e. (fst (e_key e), e_job e)) es = map (\<lambda>(d, job). (normalize_delay d, job)) js"
    "sorted_wrt (<) (map (\<lambda>e. snd (e_key e)) es)" "distinct (map e_id es)"
    using schedule_all_entries [of empty_queue add js] reachable_queue_ok [OF reach_empty] assms
    by (auto simp: empty_queue_def empty_timers_def tries_def)
  have "timers_of (timers q) = sort_key (\<lambda>e. fst (e_key e)) es"
    unfolding q(4) by (rule timers.puts_stable [OF empty(2,3) es(3,2)])
  then have "pop_jobs (pop_timer keep) n (timers q) = map e_job (take n (sort_key (\<lambda>e. fst (e_key e)) es))"
    using timers.pops_listing [of "timers q"] q(2) by (simp add: queue_ok_def)
  also have "\<dots> = map snd (take n (sort_key fst (map (\<lambda>e. (fst (e_key e), e_job e)) es)))"
    by (simp add: sort_map take_map)
  finally show ?thesis using q(1,2,3) legacy_take [of q keep n] es(1) by (auto simp: queue_ok_def)
qed

theorem timers_fire_in_order_witness:
  "\<exists>q. schedule_all (\<lambda>_ d. d) [(4, IntervalJob 1), (0, IntervalJob 2), (0xFFF0000000000000, IntervalJob 3), (4, IntervalJob 4)]
      (empty_queue :: (unit, unit, unit) job_queue) = Some (Inr q) \<and>
    pop_jobs (take_timer True) 4 q = [IntervalJob 2, IntervalJob 3, IntervalJob 1, IntervalJob 4]"
  using timers_fire_in_order [of "\<lambda>_ d. d" "[(4, IntervalJob 1), (0, IntervalJob 2), (0xFFF0000000000000, IntervalJob 3),
      (4, IntervalJob 4)] :: (u64 \<times> (unit, unit, unit) job) list" True 4]
  by (simp add: normalize_delay_def)

end
