(* ===== verification/Promises.thy ===== *)
theory Promises
  imports Job_Queue Vm_Machine Execution_Budget
begin

text \<open>
  Promises (\<open>interpreter/promise.rs\<close>, and \<open>settle\<close> of \<open>interpreter/jobs.rs\<close>): resolution, rejection,
  thenable adoption, registration of reactions and the reactions themselves. Promises live in a store
  and are named by their address; the one-shot flags of thenable jobs have a store of their own. Guest
  code is an argument: it may do to the agent whatever the interface below lets it.
\<close>

section \<open>State\<close>

record 'v promise_inner =
  p_state :: promise_state
  resolution_locked :: bool
  external_pending :: bool
  p_value :: 'v
  reactions :: "'v reaction list"
  handled :: bool

record ('o, 'r, 'h, 'w) agent =
  queue :: "('o val, 'r, 'h) job_queue"
  promises :: "'o val promise_inner list"
  guards :: "bool list"
  execution :: execution_state
  world :: 'w

type_synonym ('o, 'r, 'h, 'w, 'a) agent_op =
  "('o, 'r, 'h, 'w) agent \<Rightarrow> ('o fault + 'a) \<times> ('o, 'r, 'h, 'w) agent"

text \<open>What guest code and the other components supply: the tests on values, the reading of \<open>then\<close>, calls,
  realms (entered with or without the realm of allocations), the error values, the resolving functions
  of a thenable job, and the operations of other components that a job starts. \<open>import_job\<close> gives the promise of an
  import, or the object of a source phase import.\<close>

record ('o, 'r, 'h, 'w) guest =
  callable :: "'o val \<Rightarrow> bool"
  js_object :: "'o val \<Rightarrow> bool"
  truthy :: "'o val \<Rightarrow> bool"
  promise_of :: "'o val \<Rightarrow> promise_ref option"
  promise_val :: "promise_ref \<Rightarrow> 'o val"
  function_realm :: "'o val \<Rightarrow> 'r option"
  own_realm :: "'w \<Rightarrow> 'r"
  enter_realm :: "bool \<Rightarrow> 'r \<Rightarrow> 'w \<Rightarrow> 'w"
  leave_realm :: "'w \<Rightarrow> 'w \<Rightarrow> 'w"
  cycle_error :: "'o val"
  message_value :: "rstring \<Rightarrow> 'o val"
  runtime_value :: "rstring \<Rightarrow> 'o val"
  err_text :: "'o vm_err \<Rightarrow> rstring"
  thenable_function :: "bool \<Rightarrow> promise_ref \<Rightarrow> nat \<Rightarrow> 'o val"
  member_then :: "'o val \<Rightarrow> ('o, 'r, 'h, 'w, 'o val) agent_op"
  call_this :: "'o val \<Rightarrow> 'o val \<Rightarrow> 'o val list \<Rightarrow> ('o, 'r, 'h, 'w, 'o val) agent_op"
  host_callback :: "'h \<Rightarrow> ('o, 'r, 'h, 'w, unit) agent_op"
  module_job :: "rstring \<Rightarrow> promise_ref \<Rightarrow> ('o, 'r, 'h, 'w, unit) agent_op"
  import_job :: "rstring \<Rightarrow> (rstring \<times> js_string) list \<Rightarrow> import_phase \<Rightarrow> rstring option \<Rightarrow> ('o, 'r, 'h, 'w, 'o val) agent_op"
  process_of :: "'w \<Rightarrow> 'o val option"
  emit_of :: "'o val \<Rightarrow> 'w \<Rightarrow> 'o val option"
  emit_callable :: "'o val \<Rightarrow> 'w \<Rightarrow> bool"
  native_complete :: "nat \<Rightarrow> 'w \<Rightarrow> bool \<times> 'w"
  notified :: "'w \<Rightarrow> nat \<Rightarrow> bool"
  add_ms :: "u64 \<Rightarrow> u64 \<Rightarrow> u64"

section \<open>The store\<close>

definition pending_promise :: "'o val promise_inner" where
  "pending_promise = \<lparr>p_state = Pending, resolution_locked = False, external_pending = False, p_value = Undefined,
     reactions = [], handled = False\<rparr>"

definition promise_at :: "promise_ref \<Rightarrow> ('o, 'r, 'h, 'w) agent \<Rightarrow> 'o val promise_inner" where
  "promise_at p a = (case get_at (promises a) p of Some x \<Rightarrow> x | None \<Rightarrow> pending_promise)"

definition update_promise ::
  "promise_ref \<Rightarrow> ('o val promise_inner \<Rightarrow> 'o val promise_inner) \<Rightarrow> ('o, 'r, 'h, 'w) agent \<Rightarrow> ('o, 'r, 'h, 'w) agent" where
  "update_promise p f a = a\<lparr>promises := (promises a)[p := f (promise_at p a)]\<rparr>"

definition new_promise :: "('o, 'r, 'h, 'w) agent \<Rightarrow> promise_ref \<times> ('o, 'r, 'h, 'w) agent" where
  "new_promise a = (length (promises a), a\<lparr>promises := promises a @ [pending_promise]\<rparr>)"

definition new_guard :: "('o, 'r, 'h, 'w) agent \<Rightarrow> nat \<times> ('o, 'r, 'h, 'w) agent" where
  "new_guard a = (length (guards a), a\<lparr>guards := guards a @ [False]\<rparr>)"

definition with_queue ::
  "(('o val, 'r, 'h) job_queue \<Rightarrow> ('o val, 'r, 'h) job_queue) \<Rightarrow> ('o, 'r, 'h, 'w) agent \<Rightarrow> ('o, 'r, 'h, 'w) agent" where
  "with_queue f a = a\<lparr>queue := f (queue a)\<rparr>"

text \<open>The first call claims the guard.\<close>

definition claim_resolution :: "nat \<Rightarrow> ('o, 'r, 'h, 'w) agent \<Rightarrow> bool \<times> ('o, 'r, 'h, 'w) agent" where
  "claim_resolution g a =
     (if get_at (guards a) g = Some True then (False, a) else (True, a\<lparr>guards := (guards a)[g := True]\<rparr>))"

section \<open>Settlement\<close>

definition settle ::
  "promise_ref \<Rightarrow> promise_state \<Rightarrow> 'o val \<Rightarrow> ('o, 'r, 'h, 'w) agent \<Rightarrow> ('o, 'r, 'h, 'w) agent" where
  "settle p state v a =
     (if p_state (promise_at p a) \<noteq> Pending then a
      else
        let rs = reactions (promise_at p a);
            a = update_promise p (\<lambda>x. x\<lparr>p_state := state, resolution_locked := True, external_pending := False,
                  p_value := v, reactions := []\<rparr>) a
        in with_queue (fold (\<lambda>r. push_microtask (JobReaction state v r)) rs) a)"

fun promise_error_reason :: "('o, 'r, 'h, 'w) guest \<Rightarrow> 'o vm_err \<Rightarrow> 'o val" where
  "promise_error_reason g (Thrown reason) = reason"
| "promise_error_reason g (RuntimeError m) = runtime_value g m"
| "promise_error_reason g other = message_value g (err_text g other)"

definition resolve_promise_inner ::
  "('o, 'r, 'h, 'w) guest \<Rightarrow> promise_ref \<Rightarrow> 'o val \<Rightarrow> ('o, 'r, 'h, 'w, unit) agent_op" where
  "resolve_promise_inner g p v a =
     (if promise_of g v = Some p then (Inr (), settle p Rejected (cycle_error g) a)
      else if js_object g v then
        (case member_then g v a of
           (Inl (Raised e), a) \<Rightarrow> (Inr (), settle p Rejected (promise_error_reason g e) a)
         | (Inl fault, a) \<Rightarrow> (Inl fault, a)
         | (Inr thn, a) \<Rightarrow>
             if callable g thn then
               let realm = (case function_realm g thn of Some r \<Rightarrow> r | None \<Rightarrow> own_realm g (world a));
                   (guard, a) = new_guard a
               in (Inr (), with_queue (push_microtask (PromiseResolveThenable realm p v thn guard)) a)
             else (Inr (), settle p Fulfilled v a))
      else (Inr (), settle p Fulfilled v a))"

definition resolve_promise ::
  "('o, 'r, 'h, 'w) guest \<Rightarrow> promise_ref \<Rightarrow> 'o val \<Rightarrow> ('o, 'r, 'h, 'w, unit) agent_op" where
  "resolve_promise g p v a =
     (if resolution_locked (promise_at p a) \<or> p_state (promise_at p a) \<noteq> Pending then (Inr (), a)
      else resolve_promise_inner g p v (update_promise p (\<lambda>x. x\<lparr>resolution_locked := True\<rparr>) a))"

definition reject_promise :: "promise_ref \<Rightarrow> 'o val \<Rightarrow> ('o, 'r, 'h, 'w) agent \<Rightarrow> ('o, 'r, 'h, 'w) agent" where
  "reject_promise p reason a =
     (if resolution_locked (promise_at p a) \<or> p_state (promise_at p a) \<noteq> Pending then a
      else settle p Rejected reason (update_promise p (\<lambda>x. x\<lparr>resolution_locked := True\<rparr>) a))"

text \<open>The resolving functions, applied to their first argument.\<close>

definition executor_resolve ::
  "('o, 'r, 'h, 'w) guest \<Rightarrow> promise_ref \<Rightarrow> 'o val list \<Rightarrow> ('o, 'r, 'h, 'w, 'o val) agent_op" where
  "executor_resolve g p args a =
     (case resolve_promise g p (case args of [] \<Rightarrow> Undefined | v # _ \<Rightarrow> v) a of
        (Inl e, a) \<Rightarrow> (Inl e, a) | (Inr _, a) \<Rightarrow> (Inr Undefined, a))"

definition executor_reject ::
  "promise_ref \<Rightarrow> 'o val list \<Rightarrow> ('o, 'r, 'h, 'w, 'o val) agent_op" where
  "executor_reject p args a = (Inr Undefined, reject_promise p (case args of [] \<Rightarrow> Undefined | v # _ \<Rightarrow> v) a)"

definition thenable_resolve ::
  "('o, 'r, 'h, 'w) guest \<Rightarrow> promise_ref \<Rightarrow> nat \<Rightarrow> 'o val list \<Rightarrow> ('o, 'r, 'h, 'w, 'o val) agent_op" where
  "thenable_resolve g p guard args a =
     (case claim_resolution guard a of
        (False, a) \<Rightarrow> (Inr Undefined, a)
      | (True, a) \<Rightarrow>
          (case resolve_promise_inner g p (case args of [] \<Rightarrow> Undefined | v # _ \<Rightarrow> v) a of
             (Inl e, a) \<Rightarrow> (Inl e, a) | (Inr _, a) \<Rightarrow> (Inr Undefined, a)))"

definition thenable_reject ::
  "promise_ref \<Rightarrow> nat \<Rightarrow> 'o val list \<Rightarrow> ('o, 'r, 'h, 'w, 'o val) agent_op" where
  "thenable_reject p guard args a =
     (case claim_resolution guard a of
        (False, a) \<Rightarrow> (Inr Undefined, a)
      | (True, a) \<Rightarrow> (Inr Undefined, settle p Rejected (case args of [] \<Rightarrow> Undefined | v # _ \<Rightarrow> v) a))"

definition run_thenable_job ::
  "('o, 'r, 'h, 'w) guest \<Rightarrow> promise_ref \<Rightarrow> 'o val \<Rightarrow> 'o val \<Rightarrow> nat \<Rightarrow> ('o, 'r, 'h, 'w, unit) agent_op" where
  "run_thenable_job g target thenable thn guard a =
     (case call_this g thn thenable [thenable_function g True target guard, thenable_function g False target guard] a of
        (Inr _, a) \<Rightarrow> (Inr (), a)
      | (Inl (Raised e), a) \<Rightarrow>
          (case claim_resolution guard a of
             (True, a) \<Rightarrow> (Inr (), settle target Rejected (promise_error_reason g e) a)
           | (False, a) \<Rightarrow> (Inr (), a))
      | (Inl fault, a) \<Rightarrow> (Inl fault, a))"

definition settle_host_promise ::
  "('o, 'r, 'h, 'w) guest \<Rightarrow> promise_ref \<Rightarrow> promise_state \<Rightarrow> 'o val \<Rightarrow> ('o, 'r, 'h, 'w, unit) agent_op" where
  "settle_host_promise g p state v a =
     (case state of
        Fulfilled \<Rightarrow> resolve_promise g p v a
      | Rejected \<Rightarrow> (Inr (), reject_promise p v a)
      | Pending \<Rightarrow> (Inl (Raised (Msg (ascii ''host promise event cannot settle to pending''))), a))"

section \<open>Reactions\<close>

definition register_internal ::
  "('o, 'r, 'h, 'w) guest \<Rightarrow> 'o val \<Rightarrow> 'o val \<Rightarrow> 'o val \<Rightarrow> promise_ref option \<Rightarrow> ('o val \<times> 'o val) option \<Rightarrow>
   ('o, 'r, 'h, 'w, 'o val) agent_op" where
  "register_internal g source on_ok on_err der cap a =
     (let (d, a) = (case der of Some d \<Rightarrow> (d, a) | None \<Rightarrow> new_promise a)
      in case (case promise_of g source of
                 Some p \<Rightarrow> (Inr p, a)
               | None \<Rightarrow>
                   let (bridge, a) = new_promise a
                   in (case resolve_promise g bridge source a of (Inl e, a) \<Rightarrow> (Inl e, a) | (Inr _, a) \<Rightarrow> (Inr bridge, a))) of
           (Inl e, a) \<Rightarrow> (Inl e, a)
         | (Inr p, a) \<Rightarrow>
             let a = (if p_state (promise_at p a) = Pending \<and> external_pending (promise_at p a)
                      then update_promise d (\<lambda>x. x\<lparr>external_pending := True\<rparr>) a else a);
                 r = \<lparr>on_fulfilled = on_ok, on_rejected = on_err, derived = d, adopted = (der \<noteq> None), capability = cap\<rparr>;
                 a = update_promise p (\<lambda>x. x\<lparr>handled := True\<rparr>) a
             in (Inr (promise_val g d),
                 case p_state (promise_at p a) of
                   Pending \<Rightarrow> update_promise p (\<lambda>x. x\<lparr>reactions := reactions x @ [r]\<rparr>) a
                 | state \<Rightarrow> with_queue (push_microtask (JobReaction state (p_value (promise_at p a)) r)) a))"

definition register ::
  "('o, 'r, 'h, 'w) guest \<Rightarrow> 'o val \<Rightarrow> 'o val \<Rightarrow> 'o val \<Rightarrow> promise_ref option \<Rightarrow> ('o, 'r, 'h, 'w, 'o val) agent_op" where
  "register g source on_ok on_err der = register_internal g source on_ok on_err der None"

definition handler_of :: "promise_state \<Rightarrow> 'v reaction \<Rightarrow> 'v" where
  "handler_of state r = (if state = Fulfilled then on_fulfilled r else on_rejected r)"

fun rejectable :: "'o vm_err \<Rightarrow> bool" where
  "rejectable (Thrown _) = True"
| "rejectable (Msg _) = True"
| "rejectable (RuntimeError _) = True"
| "rejectable _ = False"

definition run_capability ::
  "('o, 'r, 'h, 'w) guest \<Rightarrow> promise_state \<Rightarrow> 'o val \<Rightarrow> 'o val reaction \<Rightarrow> 'o val \<times> 'o val \<Rightarrow> ('o, 'r, 'h, 'w, unit) agent_op" where
  "run_capability g state v r cap a =
     (case (if callable g (handler_of state r) then call_this g (handler_of state r) Undefined [v] a
            else (if state = Fulfilled then (Inr v, a) else (Inl (Raised (Thrown v)), a))) of
        (Inr x, a) \<Rightarrow>
          (case call_this g (fst cap) Undefined [x] a of (Inl e, a) \<Rightarrow> (Inl e, a) | (Inr _, a) \<Rightarrow> (Inr (), a))
      | (Inl (Raised e), a) \<Rightarrow>
          if rejectable e then
            (case call_this g (snd cap) Undefined [promise_error_reason g e] a of (Inl e, a) \<Rightarrow> (Inl e, a) | (Inr _, a) \<Rightarrow> (Inr (), a))
          else (Inl (Raised e), a)
      | (Inl fault, a) \<Rightarrow> (Inl fault, a))"

definition run_reaction ::
  "('o, 'r, 'h, 'w) guest \<Rightarrow> promise_state \<Rightarrow> 'o val \<Rightarrow> 'o val reaction \<Rightarrow> ('o, 'r, 'h, 'w, unit) agent_op" where
  "run_reaction g state v r a =
     (case capability r of
        Some cap \<Rightarrow> run_capability g state v r cap a
      | None \<Rightarrow>
          if adopted r then (Inr (), settle (derived r) state v a)
          else if \<not> callable g (handler_of state r) then
            (if state = Fulfilled then resolve_promise g (derived r) v a
             else (Inr (), reject_promise (derived r) v a))
          else
            (case call_this g (handler_of state r) Undefined [v] a of
               (Inr x, a) \<Rightarrow> resolve_promise g (derived r) x a
             | (Inl (Raised e), a) \<Rightarrow>
                 (case e of
                    Thrown reason \<Rightarrow> (Inr (), reject_promise (derived r) reason a)
                  | Msg m \<Rightarrow> (Inr (), reject_promise (derived r) (message_value g m) a)
                  | RuntimeError m \<Rightarrow> (Inr (), reject_promise (derived r) (runtime_value g m) a)
                  | _ \<Rightarrow> (Inl (Raised e), a))
             | (Inl fault, a) \<Rightarrow> (Inl fault, a)))"

section \<open>Waiters\<close>

definition settle_atomics_wait_timeout ::
  "('o, 'r, 'h, 'w) guest \<Rightarrow> nat \<times> nat \<Rightarrow> u64 \<Rightarrow> ('o, 'r, 'h, 'w) agent \<Rightarrow> ('o, 'r, 'h, 'w) agent" where
  "settle_atomics_wait_timeout g key i a =
     (case remove_waiter key i (queue a) of (w, q) \<Rightarrow>
        let a = a\<lparr>queue := q\<rparr>
        in case w of
             None \<Rightarrow> a
           | Some w \<Rightarrow>
               let (notified, a) = (case w_native w of
                     None \<Rightarrow> (False, a)
                   | Some n \<Rightarrow> (case native_complete g n (world a) of (b, w') \<Rightarrow> (b, a\<lparr>world := w'\<rparr>)))
               in settle (w_promise w) Fulfilled (VString (from_str (ascii (if notified then ''ok'' else ''timed-out'')))) a)"

definition settle_notified_atomics_waiters ::
  "('o, 'r, 'h, 'w) guest \<Rightarrow> ('o, 'r, 'h, 'w) agent \<Rightarrow> ('o, 'r, 'h, 'w) agent" where
  "settle_notified_atomics_waiters g a =
     (case take_notified_atomics_waiters (notified g (world a)) (queue a) of (ready, q) \<Rightarrow>
        fold (\<lambda>p. settle p Fulfilled (VString (from_str (ascii ''ok'')))) ready (a\<lparr>queue := q\<rparr>))"

section \<open>Steps of the agent\<close>

text \<open>What code may do to promises and guards: make them, settle, lock, mark and claim them, and add a
  reaction to a pending promise. The queue, the budgets and the rest of the agent may change freely.\<close>

definition settled_promise :: "promise_state \<Rightarrow> 'o val \<Rightarrow> 'o val promise_inner" where
  "settled_promise state v = pending_promise\<lparr>p_state := state, resolution_locked := True, p_value := v, handled := (state \<noteq> Rejected)\<rparr>"

inductive agent_step :: "('o, 'r, 'h, 'w) agent \<Rightarrow> ('o, 'r, 'h, 'w) agent \<Rightarrow> bool" where
  step_queue: "agent_step a (a\<lparr>queue := q\<rparr>)"
| step_world: "agent_step a (a\<lparr>world := w\<rparr>)"
| step_execution: "agent_step a (a\<lparr>execution := ex\<rparr>)"
| step_guard: "agent_step a (snd (new_guard a))"
| step_claim: "agent_step a (snd (claim_resolution i a))"
| step_promise: "agent_step a (snd (new_promise a))"
| step_settled: "agent_step a (a\<lparr>promises := promises a @ [settled_promise state v]\<rparr>)"
| step_settle: "agent_step a (settle p state v a)"
| step_lock: "agent_step a (update_promise p (\<lambda>x. x\<lparr>resolution_locked := True\<rparr>) a)"
| step_external: "agent_step a (update_promise p (\<lambda>x. x\<lparr>external_pending := b\<rparr>) a)"
| step_handled: "agent_step a (update_promise p (\<lambda>x. x\<lparr>handled := b\<rparr>) a)"
| step_reaction: "p_state (promise_at p a) = Pending \<Longrightarrow>
    agent_step a (update_promise p (\<lambda>x. x\<lparr>reactions := reactions x @ [r]\<rparr>) a)"

text \<open>Calls of guest code and of other components stay within a relation.\<close>

definition guest_within ::
  "(('o, 'r, 'h, 'w) agent \<Rightarrow> ('o, 'r, 'h, 'w) agent \<Rightarrow> bool) \<Rightarrow> ('o, 'r, 'h, 'w) guest \<Rightarrow> bool" where
  "guest_within R g \<longleftrightarrow>
     (\<forall>v a. R a (snd (member_then g v a))) \<and>
     (\<forall>f this args a. R a (snd (call_this g f this args a))) \<and>
     (\<forall>h a. R a (snd (host_callback g h a))) \<and>
     (\<forall>i p a. R a (snd (module_job g i p a))) \<and>
     (\<forall>i ats ph ref a. R a (snd (import_job g i ats ph ref a)))"

text \<open>What every step keeps: promises and guards stay allocated, a settled promise keeps its state and
  value, a locked one its lock and a claimed guard its claim.\<close>

definition kept :: "('o, 'r, 'h, 'w) agent \<Rightarrow> ('o, 'r, 'h, 'w) agent \<Rightarrow> bool" where
  "kept a a' \<longleftrightarrow> length (promises a) \<le> length (promises a') \<and> length (guards a) \<le> length (guards a') \<and>
     (\<forall>p. p < length (promises a) \<longrightarrow>
        (p_state (promise_at p a) \<noteq> Pending \<longrightarrow>
           p_state (promise_at p a') = p_state (promise_at p a) \<and> p_value (promise_at p a') = p_value (promise_at p a)) \<and>
        (resolution_locked (promise_at p a) \<longrightarrow> resolution_locked (promise_at p a'))) \<and>
     (\<forall>i. i < length (guards a) \<longrightarrow> guards a ! i \<longrightarrow> guards a' ! i)"

lemma kept_refl: "kept a a"
  by (simp add: kept_def)

lemma kept_trans: "kept a b \<Longrightarrow> kept b c \<Longrightarrow> kept a c"
  unfolding kept_def by (smt (verit) order_trans order_less_le_trans)

lemma promise_at_nth: "p < length (promises a) \<Longrightarrow> promise_at p a = promises a ! p"
  by (simp add: promise_at_def get_at_def)

lemma promise_at_update:
  "q < length (promises a) \<Longrightarrow>
     promise_at q (update_promise p f a) = (if q = p then f (promise_at p a) else promise_at q a)"
  by (simp add: promise_at_nth update_promise_def nth_list_update)

lemma kept_update:
  assumes "\<And>x. p_state x \<noteq> Pending \<Longrightarrow> p_state (f x) = p_state x \<and> p_value (f x) = p_value x"
    and "\<And>x. resolution_locked x \<Longrightarrow> resolution_locked (f x)"
  shows "kept a (update_promise p f a)"
proof -
  have "length (promises (update_promise p f a)) = length (promises a)" "guards (update_promise p f a) = guards a"
    by (simp_all add: update_promise_def)
  then show ?thesis using assms by (auto simp: kept_def promise_at_update)
qed

lemma kept_same: "promises a' = promises a @ ps \<Longrightarrow> guards a' = guards a \<Longrightarrow> kept a a'"
  by (auto simp: kept_def promise_at_nth nth_append)

lemma kept_settle: "kept a (settle p state v a)"
proof (cases "p_state (promise_at p a) = Pending")
  case True
  define b where "b = update_promise p (\<lambda>x. if p_state x \<noteq> Pending then x else x\<lparr>p_state := state, resolution_locked := True,
      external_pending := False, p_value := v, reactions := []\<rparr>) a"
  have "kept a b" unfolding b_def by (rule kept_update) auto
  moreover have "promises (settle p state v a) = promises b" "guards (settle p state v a) = guards b"
    using True by (simp_all add: settle_def Let_def with_queue_def b_def update_promise_def)
  ultimately show ?thesis using kept_trans kept_same [of "settle p state v a" b "[]"] by fastforce
qed (simp add: settle_def kept_refl)

lemma step_kept: "agent_step a a' \<Longrightarrow> kept a a'"
proof (induction rule: agent_step.induct)
  case (step_claim a i)
  show ?case
    by (auto simp: claim_resolution_def kept_def promise_at_def) (metis nth_list_update_eq nth_list_update_neq)
next
  case (step_guard a)
  show ?case by (auto simp: new_guard_def kept_def promise_at_def nth_append)
qed (auto intro: kept_settle kept_update kept_same [of _ _ "[]"] kept_same simp: new_promise_def)

lemma steps_kept: "agent_step\<^sup>*\<^sup>* a a' \<Longrightarrow> kept a a'"
  by (induction rule: rtranclp_induct) (auto intro: kept_refl kept_trans step_kept)

section \<open>Operations stay within a relation\<close>

text \<open>A transitive relation that holds of every step which leaves the budgets alone holds of every
  operation of this theory, as soon as the guest's calls stay within it.\<close>

lemma step_with_queue: "agent_step a (with_queue f a)"
  unfolding with_queue_def by (rule step_queue)

lemma execution_kept [simp]:
  "execution (with_queue f a) = execution a" "execution (settle p state v a) = execution a"
  "execution (update_promise p h a) = execution a" "execution (snd (new_guard a)) = execution a"
  "execution (snd (claim_resolution i a)) = execution a" "execution (snd (new_promise a)) = execution a"
  by (simp_all add: with_queue_def settle_def update_promise_def new_guard_def claim_resolution_def new_promise_def Let_def)

named_theorems within_rules \<open>operations within a relation, by the shape of the program\<close>

locale agent_relation =
  fixes R :: "('o, 'r, 'h, 'w) agent \<Rightarrow> ('o, 'r, 'h, 'w) agent \<Rightarrow> bool"
  assumes within_step: "agent_step a b \<Longrightarrow> execution b = execution a \<Longrightarrow> R a b"
    and within_trans: "R a b \<Longrightarrow> R b c \<Longrightarrow> R a c"
begin

lemma within_refl [within_rules]: "R a a"
  using within_step [OF step_queue [of a "queue a"]] by simp

lemma within_then: "R a b \<Longrightarrow> agent_step b c \<Longrightarrow> execution c = execution b \<Longrightarrow> R a c"
  using within_step within_trans by blast

lemma within_shapes [within_rules]:
  "R a b \<Longrightarrow> R a (snd (r, b))"
  "R a (snd p) \<Longrightarrow> (\<And>r b. R a b \<Longrightarrow> R a (snd (k r b))) \<Longrightarrow> R a (snd (case p of (r, b) \<Rightarrow> k r b))"
  "R a (snd p) \<Longrightarrow> (\<And>r b. R a b \<Longrightarrow> R a (m r b)) \<Longrightarrow> R a (case p of (r, b) \<Rightarrow> m r b)"
  "(\<And>x. R a (snd (k1 x))) \<Longrightarrow> (\<And>y. R a (snd (k2 y))) \<Longrightarrow> R a (snd (case s of Inl x \<Rightarrow> k1 x | Inr y \<Rightarrow> k2 y))"
  "(c \<Longrightarrow> R a (snd p)) \<Longrightarrow> (\<not> c \<Longrightarrow> R a (snd q)) \<Longrightarrow> R a (snd (if c then p else q))"
  "(c \<Longrightarrow> R a b) \<Longrightarrow> (\<not> c \<Longrightarrow> R a d) \<Longrightarrow> R a (if c then b else d)"
  "R a (snd p) \<Longrightarrow> (\<And>x. R a (snd (l x))) \<Longrightarrow> R a (snd (case t of None \<Rightarrow> p | Some x \<Rightarrow> l x))"
  "R a b \<Longrightarrow> (\<And>x. R a (n x)) \<Longrightarrow> R a (case t of None \<Rightarrow> b | Some x \<Rightarrow> n x)"
  by (auto split: prod.splits sum.splits option.splits)

lemma within_error_shapes [within_rules]:
  "(\<And>e. R a (snd (k e))) \<Longrightarrow> R a (snd p) \<Longrightarrow> R a (snd q) \<Longrightarrow>
     R a (snd (case x of Raised e \<Rightarrow> k e | IndexPanic \<Rightarrow> p | UnreachablePanic \<Rightarrow> q))"
  "(s = Pending \<Longrightarrow> R a b) \<Longrightarrow> R a c \<Longrightarrow> R a d \<Longrightarrow> R a (case s of Pending \<Rightarrow> b | Fulfilled \<Rightarrow> c | Rejected \<Rightarrow> d)"
  "R a (snd p) \<Longrightarrow> R a (snd q) \<Longrightarrow> R a (snd r) \<Longrightarrow>
     R a (snd (case s of Pending \<Rightarrow> p | Fulfilled \<Rightarrow> q | Rejected \<Rightarrow> r))"
  "R a (snd p) \<Longrightarrow> R a (snd q) \<Longrightarrow> R a (snd (case t of True \<Rightarrow> p | False \<Rightarrow> q))"
  by (auto split: fault.splits promise_state.splits bool.splits)

lemma within_vm_err [within_rules]:
  assumes "\<And>v. R a (snd (k1 v))" "\<And>f this args. R a (snd (k2 f this args))" "\<And>v. R a (snd (k3 v))"
    "\<And>m. R a (snd (k4 m))" "\<And>m. R a (snd (k5 m))" "\<And>l v. R a (snd (k6 l v))" "\<And>l v. R a (snd (k7 l v))" "R a (snd k8)"
  shows "R a (snd (case e of Ret v \<Rightarrow> k1 v | TailCall f this args \<Rightarrow> k2 f this args | Thrown v \<Rightarrow> k3 v | Msg m \<Rightarrow> k4 m
    | RuntimeError m \<Rightarrow> k5 m | Break l v \<Rightarrow> k6 l v | Continue l v \<Rightarrow> k7 l v | Abandon \<Rightarrow> k8))"
  using assms by (cases e) simp_all

lemma within_ends [within_rules]:
  assumes "R a b"
  shows "R a (with_queue f b)" "R a (b\<lparr>queue := q\<rparr>)" "R a (b\<lparr>world := w\<rparr>)" 
    "R a (settle p state v b)"
    "R a (update_promise p (\<lambda>x. x\<lparr>resolution_locked := True\<rparr>) b)"
    "R a (update_promise p (\<lambda>x. x\<lparr>external_pending := ep\<rparr>) b)"
    "R a (update_promise p (\<lambda>x. x\<lparr>handled := h\<rparr>) b)"
    "p_state (promise_at p b) = Pending \<Longrightarrow> R a (update_promise p (\<lambda>x. x\<lparr>reactions := reactions x @ [r]\<rparr>) b)"
    "R a (snd (new_guard b))" "R a (snd (claim_resolution i b))" "R a (snd (new_promise b))"
  using within_then [OF assms] by (simp_all add: agent_step.intros step_with_queue)

lemma within_guest:
  assumes "guest_within R g" "R a b"
  shows "R a (snd (member_then g v b))" "R a (snd (call_this g f this args b))"
    "R a (snd (host_callback g h b))" "R a (snd (module_job g i p b))" "R a (snd (import_job g i ats ph ref b))"
  using assms within_trans unfolding guest_within_def by blast+

lemma within_resolve_inner: "guest_within R g \<Longrightarrow> R a b \<Longrightarrow> R a (snd (resolve_promise_inner g p v b))"
  unfolding resolve_promise_inner_def Let_def by (intro within_rules within_guest)

lemma within_resolve: "guest_within R g \<Longrightarrow> R a b \<Longrightarrow> R a (snd (resolve_promise g p v b))"
  unfolding resolve_promise_def by (intro within_rules within_resolve_inner)

lemma within_reject [within_rules]: "R a b \<Longrightarrow> R a (reject_promise p v b)"
  unfolding reject_promise_def by (intro within_rules)

lemmas within_calls = within_guest within_resolve_inner within_resolve

lemma within_resolvers:
  assumes "guest_within R g" "R a b"
  shows "R a (snd (executor_resolve g p args b))" "R a (snd (executor_reject p args b))"
    "R a (snd (thenable_resolve g p i args b))" "R a (snd (thenable_reject p i args b))"
    "R a (snd (run_thenable_job g p th thn i b))" "R a (snd (settle_host_promise g p state v b))"
  unfolding executor_resolve_def executor_reject_def thenable_resolve_def thenable_reject_def run_thenable_job_def
    settle_host_promise_def
  by ((intro within_rules within_calls assms; assumption?)+)

lemma within_register: "guest_within R g \<Longrightarrow> R a b \<Longrightarrow> R a (snd (register_internal g source f e der cap b))"
  unfolding register_internal_def Let_def by (intro within_rules within_calls)

lemma within_capability: "guest_within R g \<Longrightarrow> R a b \<Longrightarrow> R a (snd (run_capability g state v r cap b))"
  unfolding run_capability_def by (intro within_rules within_calls)

lemma within_reaction: "guest_within R g \<Longrightarrow> R a b \<Longrightarrow> R a (snd (run_reaction g state v r b))"
  unfolding run_reaction_def by (intro within_rules within_calls within_capability)

lemma within_settles [within_rules]: "R a b \<Longrightarrow> R a (fold (\<lambda>p. settle p state v) ps b)"
  by (induction ps arbitrary: b) (simp_all add: within_rules)

lemma within_waiters [within_rules]:
  assumes "R a b"
  shows "R a (settle_atomics_wait_timeout g key i b)" "R a (settle_notified_atomics_waiters g b)"
  using assms by (auto simp: settle_atomics_wait_timeout_def settle_notified_atomics_waiters_def Let_def intro!: within_rules
      split: prod.splits option.splits)

end

text \<open>The sequences of steps are such a relation.\<close>

abbreviation acts :: "('o, 'r, 'h, 'w) agent \<Rightarrow> ('o, 'r, 'h, 'w) agent \<Rightarrow> bool" where
  "acts \<equiv> agent_step\<^sup>*\<^sup>*"

abbreviation guest_acts :: "('o, 'r, 'h, 'w) guest \<Rightarrow> bool" where
  "guest_acts \<equiv> guest_within acts"

interpretation acting: agent_relation acts
  by unfold_locales auto

section \<open>A small guest\<close>

text \<open>A guest for the examples: an object is the promise of its address, and calling it fulfils that
  promise with the first argument; nothing else is callable or has a \<open>then\<close>.\<close>

fun object_address :: "'o val \<Rightarrow> 'o option" where
  "object_address (VObject n) = Some n"
| "object_address _ = None"

definition echo_guest :: "(nat, unit, unit, unit) guest" where
  "echo_guest = \<lparr>callable = (\<lambda>v. object_address v \<noteq> None), js_object = (\<lambda>v. object_address v \<noteq> None),
     truthy = (\<lambda>v. v = VBool True), promise_of = object_address, promise_val = VObject, function_realm = (\<lambda>_. None),
     own_realm = (\<lambda>_. ()), enter_realm = (\<lambda>_ _ w. w), leave_realm = (\<lambda>_ w. w), cycle_error = Null,
     message_value = (\<lambda>m. VString (from_str m)), runtime_value = (\<lambda>m. VString (from_str m)), err_text = (\<lambda>_. []),
     thenable_function = (\<lambda>_ p _. VObject p), member_then = (\<lambda>_ a. (Inr Undefined, a)),
     call_this = (\<lambda>f _ args a. case object_address f of
        None \<Rightarrow> (Inr Undefined, a)
      | Some p \<Rightarrow> (Inr Undefined, settle p Fulfilled (case args of [] \<Rightarrow> Undefined | v # _ \<Rightarrow> v) a)),
     host_callback = (\<lambda>_ a. (Inr (), a)), module_job = (\<lambda>_ p a. (Inr (), settle p Fulfilled Undefined a)),
     import_job = (\<lambda>_ _ _ _ a. (Inr Undefined, a)), process_of = (\<lambda>_. None), emit_of = (\<lambda>_ _. None),
     emit_callable = (\<lambda>_ _. False), native_complete = (\<lambda>_ w. (False, w)), notified = (\<lambda>_ _. False), add_ms = max\<rparr>"

lemma echo_guest_acts: "guest_acts echo_guest"
  by (auto simp: guest_within_def echo_guest_def intro: agent_step.intros r_into_rtranclp split: option.splits)

text \<open>An agent with \<open>n\<close> pending promises and \<open>m\<close> unclaimed guards.\<close>

definition new_agent :: "nat \<Rightarrow> nat \<Rightarrow> (nat, unit, unit, unit) agent" where
  "new_agent n m = \<lparr>queue = empty_queue, promises = replicate n pending_promise, guards = replicate m False,
     execution = new_execution, world = ()\<rparr>"

section \<open>Only the first resolving function acts\<close>

text \<open>A call of one of the two functions of an executor, and of the two of a thenable job.\<close>

definition call_executor where
  "call_executor g p c a = (case c of (True, args) \<Rightarrow> snd (executor_resolve g p args a) | (False, args) \<Rightarrow> snd (executor_reject p args a))"

definition call_thenable where
  "call_thenable g p i c a = (case c of (True, args) \<Rightarrow> snd (thenable_resolve g p i args a) | (False, args) \<Rightarrow> snd (thenable_reject p i args a))"

definition closed :: "promise_ref \<Rightarrow> ('o, 'r, 'h, 'w) agent \<Rightarrow> bool" where
  "closed p a \<longleftrightarrow> resolution_locked (promise_at p a) \<or> p_state (promise_at p a) \<noteq> Pending"

lemma closed_resolvers: "closed p a \<Longrightarrow> call_executor g p c a = a"
  by (auto simp: closed_def call_executor_def executor_resolve_def executor_reject_def resolve_promise_def reject_promise_def
      split: prod.splits bool.splits)

lemma claimed_resolvers: "i < length (guards a) \<Longrightarrow> guards a ! i \<Longrightarrow> call_thenable g p i c a = a"
  by (auto simp: call_thenable_def thenable_resolve_def thenable_reject_def claim_resolution_def split: prod.splits bool.splits)

lemma kept_closed: "kept a b \<Longrightarrow> p < length (promises a) \<Longrightarrow> closed p a \<Longrightarrow> closed p b"
  unfolding kept_def closed_def by metis

lemma first_call_closes:
  assumes "guest_acts g" "p < length (promises a)"
  shows "closed p (call_executor g p c a)"
proof (cases "closed p a")
  case False
  define b where "b = update_promise p (\<lambda>x. x\<lparr>resolution_locked := True\<rparr>) a"
  have b: "p < length (promises b)" "closed p b"
    using assms(2) by (simp_all add: b_def closed_def promise_at_update update_promise_def promise_at_nth)
  have "acts b (call_executor g p c a)"
    using False acting.within_resolve_inner [OF assms(1) acting.within_refl, of b p]
    by (auto simp: closed_def call_executor_def executor_resolve_def executor_reject_def resolve_promise_def
        reject_promise_def b_def [symmetric] intro: acting.within_ends acting.within_refl split: prod.splits bool.splits sum.splits) (metis snd_conv)+
  then show ?thesis using b kept_closed steps_kept by blast
qed (simp add: closed_resolvers)

lemma first_call_claims:
  assumes "guest_acts g" "i < length (guards a)"
  shows "i < length (guards (call_thenable g p i c a)) \<and> guards (call_thenable g p i c a) ! i"
proof (cases "guards a ! i")
  case False
  define b where "b = a\<lparr>guards := (guards a)[i := True]\<rparr>"
  have b: "i < length (guards b)" "guards b ! i" using assms(2) by (simp_all add: b_def)
  have claim: "claim_resolution i a = (True, b)" using False assms(2) by (simp add: claim_resolution_def b_def)
  have "acts b (call_thenable g p i c a)"
    using acting.within_resolve_inner [OF assms(1) acting.within_refl, of b p]
    by (auto simp: call_thenable_def thenable_resolve_def thenable_reject_def claim intro: acting.within_ends acting.within_refl
        split: prod.splits bool.splits sum.splits) (metis snd_conv)+
  then have "kept b (call_thenable g p i c a)" by (rule steps_kept)
  then show ?thesis using b by (auto simp: kept_def)
qed (use assms in \<open>simp add: claimed_resolvers\<close>)

text \<open>
  C13: Of all calls of the two functions an executor gets, and of the two a thenable job hands to
  \<open>then\<close>, the first one decides: however many calls follow, in whatever order, the agent is the one
  after the first.
\<close>

theorem resolvers_act_once:
  assumes "guest_acts g" "p < length (promises a)" "i < length (guards a)"
  shows "fold (call_executor g p) (c # cs) a = call_executor g p c a \<and>
    fold (call_thenable g p i) (c # cs) a = call_thenable g p i c a"
proof
  have "closed p b \<Longrightarrow> fold (call_executor g p) cs b = b" for b
    by (induction cs) (simp_all add: closed_resolvers)
  then show "fold (call_executor g p) (c # cs) a = call_executor g p c a"
    using first_call_closes [OF assms(1,2)] by simp
  have "i < length (guards b) \<Longrightarrow> guards b ! i \<Longrightarrow> fold (call_thenable g p i) cs b = b" for b
    by (induction cs) (simp_all add: claimed_resolvers)
  then show "fold (call_thenable g p i) (c # cs) a = call_thenable g p i c a"
    using first_call_claims [OF assms(1,3)] by simp
qed

theorem resolvers_act_once_witness:
  "p_value (promise_at 0 (fold (call_executor echo_guest 0)
      [(True, [Null]), (False, [Undefined]), (True, [VBool True])] (new_agent 1 1))) = Null"
proof -
  have "guest_acts echo_guest" by (rule echo_guest_acts)
  from resolvers_act_once [OF this, of 0 "new_agent 1 1" 0 "(True, [Null])" "[(False, [Undefined]), (True, [VBool True])]"]
  have "fold (call_executor echo_guest 0) [(True, [Null]), (False, [Undefined]), (True, [VBool True])] (new_agent 1 1) =
    call_executor echo_guest 0 (True, [Null]) (new_agent 1 1)"
    by (simp add: new_agent_def)
  moreover have "p_value (promise_at 0 (call_executor echo_guest 0 (True, [Null]) (new_agent 1 1))) = Null"
    by (simp add: call_executor_def executor_resolve_def resolve_promise_def resolve_promise_inner_def echo_guest_def
        new_agent_def promise_at_def update_promise_def pending_promise_def settle_def Let_def with_queue_def)
  ultimately show ?thesis by simp
qed

section \<open>Reactions run in the order of registration\<close>

text \<open>Handlers registered one after the other, and the reactions they make: each with its own derived
  promise, allocated from \<open>n\<close> on.\<close>

definition register_all where
  "register_all g source regs a = fold (\<lambda>(f, e) a. snd (register g source f e None a)) regs a"

fun reactions_from :: "nat \<Rightarrow> ('v \<times> 'v) list \<Rightarrow> 'v reaction list" where
  "reactions_from n [] = []"
| "reactions_from n ((f, e) # regs) =
     \<lparr>on_fulfilled = f, on_rejected = e, derived = n, adopted = False, capability = None\<rparr> # reactions_from (Suc n) regs"

lemma reactions_from_append: "reactions_from n (xs @ ys) = reactions_from n xs @ reactions_from (n + length xs) ys"
  by (induction n xs rule: reactions_from.induct) simp_all

lemma register_on_promise:
  fixes f e :: "'o val" and a :: "('o, 'r, 'h, 'w) agent"
  assumes "promise_of g source = Some p" "p < length (promises a)"
  defines "b \<equiv> snd (register g source f e None a)"
    and "r \<equiv> \<lparr>on_fulfilled = f, on_rejected = e, derived = length (promises a), adopted = False, capability = None\<rparr>"
  shows "length (promises b) = Suc (length (promises a))"
    "p_state (promise_at p b) = p_state (promise_at p a)" "p_value (promise_at p b) = p_value (promise_at p a)"
    "p_state (promise_at p a) = Pending \<Longrightarrow>
       reactions (promise_at p b) = reactions (promise_at p a) @ [r] \<and> microtasks (queue b) = microtasks (queue a)"
    "p_state (promise_at p a) \<noteq> Pending \<Longrightarrow>
       reactions (promise_at p b) = reactions (promise_at p a) \<and>
       microtasks (queue b) = microtasks (queue a) @ [JobReaction (p_state (promise_at p a)) (p_value (promise_at p a)) r]"
  using assms(1,2)
  by (auto simp: b_def r_def register_def register_internal_def Let_def new_promise_def promise_at_nth update_promise_def
      with_queue_def push_microtask_def observe_depth_def nth_append nth_list_update split: promise_state.splits)

lemma register_all_pending:
  fixes a :: "('o, 'r, 'h, 'w) agent" and regs :: "('o val \<times> 'o val) list"
  assumes "promise_of g source = Some p" "p < length (promises a)" "p_state (promise_at p a) = Pending"
  defines "b \<equiv> register_all g source regs a"
  shows "length (promises b) = length (promises a) + length regs \<and> p_state (promise_at p b) = Pending \<and>
    reactions (promise_at p b) = reactions (promise_at p a) @ reactions_from (length (promises a)) regs \<and>
    microtasks (queue b) = microtasks (queue a)"
  unfolding b_def using assms(2,3)
proof (induction regs arbitrary: a)
  case (Cons reg regs)
  obtain f e where reg: "reg = (f, e)" by force
  note step = register_on_promise [OF assms(1) Cons.prems(1), of f e]
  from Cons.IH [of "snd (register g source f e None a)"] show ?case
    using Cons.prems by (simp add: register_all_def reg step)
qed (simp add: register_all_def)

lemma register_all_settled:
  assumes "promise_of g source = Some p" "p < length (promises a)" "p_state (promise_at p a) \<noteq> Pending"
  shows "microtasks (queue (register_all g source regs a)) = microtasks (queue a) @
    map (JobReaction (p_state (promise_at p a)) (p_value (promise_at p a))) (reactions_from (length (promises a)) regs)"
  using assms(2,3)
proof (induction regs arbitrary: a)
  case (Cons reg regs)
  obtain f e where reg: "reg = (f, e)" by force
  note step = register_on_promise [OF assms(1) Cons.prems(1), of f e]
  from Cons.IH [of "snd (register g source f e None a)"] show ?case
    using Cons.prems by (simp add: register_all_def reg step)
qed (simp add: register_all_def)

lemma push_microtasks: "microtasks (fold (\<lambda>r. push_microtask (job r)) rs q) = microtasks q @ map job rs"
  by (induction rs arbitrary: q) (simp_all add: push_microtask_def observe_depth_def)

lemma settle_pending:
  assumes "p < length (promises a)" "p_state (promise_at p a) = Pending"
  shows "promise_at p (settle p state v a) = (promise_at p a)\<lparr>p_state := state, resolution_locked := True,
      external_pending := False, p_value := v, reactions := []\<rparr>"
    "microtasks (queue (settle p state v a)) = microtasks (queue a) @ map (JobReaction state v) (reactions (promise_at p a))"
    "length (promises (settle p state v a)) = length (promises a)"
  using assms by (simp_all add: settle_def Let_def with_queue_def update_promise_def promise_at_nth push_microtasks)

text \<open>
  C14: Handlers registered on a promise, before or after it settles, are queued exactly once and in
  the order of registration, behind the microtasks already waiting, each with the promise's state and
  value and with a derived promise of its own.
\<close>

theorem reactions_in_order:
  assumes "promise_of g source = Some p" "p < length (promises a)" "p_state (promise_at p a) = Pending"
    "reactions (promise_at p a) = []" "state \<noteq> Pending"
  shows "microtasks (queue (register_all g source later (settle p state v (register_all g source earlier a)))) =
    microtasks (queue a) @ map (JobReaction state v) (reactions_from (length (promises a)) (earlier @ later))"
proof -
  note before = register_all_pending [OF assms(1-3), of earlier]
  define b where "b = settle p state v (register_all g source earlier a)"
  have p: "p < length (promises (register_all g source earlier a))" using before assms(2) by simp
  note mid = settle_pending [OF p, of state v]
  have "p < length (promises b)" "p_state (promise_at p b) \<noteq> Pending" using mid before p assms(5) by (simp_all add: b_def)
  from register_all_settled [OF assms(1) this, of later] show ?thesis
    using mid before assms(4) by (simp add: b_def reactions_from_append)
qed

theorem reactions_in_order_witness:
  "microtasks (queue (register_all echo_guest (VObject 0) [(Null, Null)]
      (settle 0 Rejected (VBool True) (register_all echo_guest (VObject 0) [(Undefined, Null)] (new_agent 1 0))))) =
    [JobReaction Rejected (VBool True) \<lparr>on_fulfilled = Undefined, on_rejected = Null, derived = 1, adopted = False, capability = None\<rparr>,
     JobReaction Rejected (VBool True) \<lparr>on_fulfilled = Null, on_rejected = Null, derived = 2, adopted = False, capability = None\<rparr>]"
proof -
  have "promise_of echo_guest (VObject 0) = Some 0" by (simp add: echo_guest_def)
  from reactions_in_order [OF this, of "new_agent 1 0" Rejected "[(Null, Null)]" "VBool True" "[(Undefined, Null)]"]
  show ?thesis by (simp add: new_agent_def promise_at_def pending_promise_def empty_queue_def)
qed

end
