(* ===== verification/Event_Loop.thy ===== *)
theory Event_Loop
  imports Promises
begin

text \<open>
  The event loop (\<open>interpreter/promise.rs\<close>, with the options of \<open>interpreter/scheduler.rs\<close>): the
  dispatch of one job, ingress of host events with back pressure, the choice of the next job, and the
  turn that runs jobs under the soft budget of the caller and the hard budget of the execution. What
  the loop reads of its surroundings (the clock, the depth of guest execution, the bridge to the host)
  is an argument.
\<close>

section \<open>Options, budgets and outcomes\<close>

datatype fairness_mode = ExternalFirst | Alternate

record event_loop_options =
  fairness :: fairness_mode
  host_batch_size :: nat
  external_capacity :: nat

definition default_options :: event_loop_options where
  "default_options = \<lparr>fairness = ExternalFirst, host_batch_size = 64, external_capacity = 1024\<rparr>"

record turn_budget =
  max_jobs :: nat
  max_duration :: "u64 option"

definition jobs_budget :: "nat \<Rightarrow> turn_budget" where
  "jobs_budget n = \<lparr>max_jobs = n, max_duration = None\<rparr>"

datatype yield_reason = Idle | JobBudget | TimeBudget | Backpressure

record turn_outcome =
  executed_jobs :: nat
  runnable :: bool
  yielded :: yield_reason
  deadline_next :: "u64 option"
  checkpoint :: bool

datatype ('v, 'h) host_event =
    EventCallback 'h
  | EventUncaughtException 'v
  | EventPromiseSettled promise_ref promise_state 'v

text \<open>\<open>deadline_reached w d\<close> is \<open>now_ms() >= d\<close> on the execution's clock and \<open>duration_reached w d\<close> the
  same for the time since the turn began; \<open>host_poll\<close> is \<open>poll_host_events_bounded\<close> of the bridge with
  no timeout, \<open>None\<close> without a bridge; \<open>keep_nodes\<close> is the test on the capacity of the id index of the timers.\<close>

record ('o, 'h, 'w) surroundings =
  deadline_reached :: "'w \<Rightarrow> u64 \<Rightarrow> bool"
  duration_reached :: "'w \<Rightarrow> u64 \<Rightarrow> bool"
  guest_depth :: "'w \<Rightarrow> nat"
  host_poll :: "(nat \<Rightarrow> 'w \<Rightarrow> ('o fault + ('o val, 'h) host_event list) \<times> 'w) option"
  keep_nodes :: bool
  limits :: execution_limits
  options :: event_loop_options

section \<open>Dispatch\<close>

definition in_realm ::
  "('o, 'r, 'h, 'w) guest \<Rightarrow> bool \<Rightarrow> 'r \<Rightarrow> ('o, 'r, 'h, 'w, 'a) agent_op \<Rightarrow> ('o, 'r, 'h, 'w, 'a) agent_op" where
  "in_realm g allocating realm run a =
     (case run (a\<lparr>world := enter_realm g allocating realm (world a)\<rparr>) of
        (r, b) \<Rightarrow> (r, b\<lparr>world := leave_realm g (world a) (world b)\<rparr>))"

text \<open>The promise of an import: the source phase wraps the object in one.\<close>

definition import_promise ::
  "('o, 'r, 'h, 'w) guest \<Rightarrow> rstring \<Rightarrow> (rstring \<times> js_string) list \<Rightarrow> import_phase \<Rightarrow> rstring option \<Rightarrow>
   ('o, 'r, 'h, 'w, 'o val) agent_op" where
  "import_promise g specifier attributes phase referrer a =
     (case import_job g specifier attributes phase referrer a of
        (Inl e, a) \<Rightarrow> (Inl e, a)
      | (Inr v, a) \<Rightarrow>
          if phase = PhaseSource then
            let (p, a) = new_promise a
            in (case resolve_promise g p v a of (Inl e, a) \<Rightarrow> (Inl e, a) | (Inr _, a) \<Rightarrow> (Inr (promise_val g p), a))
          else (Inr v, a))"

definition run_import ::
  "('o, 'r, 'h, 'w) guest \<Rightarrow> 'r \<Rightarrow> promise_ref \<Rightarrow> rstring \<Rightarrow> (rstring \<times> js_string) list \<Rightarrow> import_phase \<Rightarrow>
   rstring option \<Rightarrow> ('o, 'r, 'h, 'w, unit) agent_op" where
  "run_import g realm target specifier attributes phase referrer a =
     (case in_realm g False realm (import_promise g specifier attributes phase referrer) a of
        (Inr v, a) \<Rightarrow>
          (case register g v Undefined Undefined (Some target) a of (Inl e, a) \<Rightarrow> (Inl e, a) | (Inr _, a) \<Rightarrow> (Inr (), a))
      | (Inl (Raised e), a) \<Rightarrow> (Inr (), reject_promise target (promise_error_reason g e) a)
      | (Inl fault, a) \<Rightarrow> (Inl fault, a))"

definition run_host_uncaught_exception ::
  "('o, 'r, 'h, 'w) guest \<Rightarrow> 'o val \<Rightarrow> ('o, 'r, 'h, 'w, unit) agent_op" where
  "run_host_uncaught_exception g ex a =
     (case process_of g (world a) of
        None \<Rightarrow> (Inl (Raised (Thrown ex)), a)
      | Some process \<Rightarrow>
          (case emit_of g process (world a) of
             None \<Rightarrow> (Inl (Raised (Thrown ex)), a)
           | Some emit \<Rightarrow>
               if \<not> emit_callable g emit (world a) then (Inl (Raised (Thrown ex)), a)
               else
                 (case call_this g emit process [VString (from_str (ascii ''uncaughtException'')), ex] a of
                    (Inl e, a) \<Rightarrow> (Inl e, a)
                  | (Inr seen, a) \<Rightarrow>
                      if truthy g seen then (Inr (), a) else (Inl (Raised (Thrown ex)), a))))"

text \<open>An interval that ran is scheduled again, one that failed is cancelled. Scheduling panics when the
  sequence numbers or the ids are used up.\<close>

definition run_interval ::
  "('o, 'r, 'h, 'w) guest \<Rightarrow> bool \<Rightarrow> u64 \<Rightarrow> ('o, 'r, 'h, 'w, unit) agent_op" where
  "run_interval g keep i a =
     (case interval_callback (queue a) i of
        None \<Rightarrow> (Inr (), a)
      | Some (callback, args) \<Rightarrow>
          (case call_this g callback Undefined args a of
             (Inr _, a) \<Rightarrow>
               (case reschedule_interval (add_ms g) i (queue a) of
                  Some (Inr q) \<Rightarrow> (Inr (), a\<lparr>queue := q\<rparr>)
                | _ \<Rightarrow> (Inl UnreachablePanic, a))
           | (Inl (Raised e), a) \<Rightarrow> (Inl (Raised e), with_queue (cancel_timer keep i) a)
           | (Inl fault, a) \<Rightarrow> (Inl fault, a)))"

fun run_job :: "('o, 'r, 'h, 'w) guest \<Rightarrow> bool \<Rightarrow> ('o val, 'r, 'h) job \<Rightarrow> ('o, 'r, 'h, 'w, unit) agent_op" where
  "run_job g keep (ModuleEvaluation realm i target) a = in_realm g False realm (module_job g i target) a"
| "run_job g keep (DynamicImport realm target specifier attributes phase referrer) a =
     run_import g realm target specifier attributes phase referrer a"
| "run_job g keep (JobReaction state v r) a = run_reaction g state v r a"
| "run_job g keep (PromiseResolveThenable realm target thenable thn guard) a =
     in_realm g True realm (run_thenable_job g target thenable thn guard) a"
| "run_job g keep (Callback callback args) a =
     (case call_this g callback Undefined args a of (Inl e, a) \<Rightarrow> (Inl e, a) | (Inr _, a) \<Rightarrow> (Inr (), a))"
| "run_job g keep (HostCallback h) a = host_callback g h a"
| "run_job g keep (HostPromiseSettled p state v) a = settle_host_promise g p state v a"
| "run_job g keep (HostUncaughtException ex) a = run_host_uncaught_exception g ex a"
| "run_job g keep (IntervalJob i) a = run_interval g keep i a"
| "run_job g keep (AtomicsWaitTimeout key i) a = (Inr (), settle_atomics_wait_timeout g key i a)"

definition dispatch_job ::
  "('o, 'r, 'h, 'w) guest \<Rightarrow> bool \<Rightarrow> ('o val, 'r, 'h) job \<Rightarrow> ('o, 'r, 'h, 'w, unit) agent_op" where
  "dispatch_job g keep job a =
     (case run_job g keep job (with_queue (\<lambda>q. q\<lparr>dispatch_depth := dispatch_depth q + 1\<rparr>) a) of
        (r, a) \<Rightarrow> (r, with_queue (\<lambda>q. q\<lparr>dispatch_depth := dispatch_depth q - 1\<rparr>) a))"

section \<open>Ingress\<close>

fun event_job :: "('v, 'h) host_event \<Rightarrow> ('v, 'r, 'h) job" where
  "event_job (EventCallback h) = HostCallback h"
| "event_job (EventPromiseSettled p state v) = HostPromiseSettled p state v"
| "event_job (EventUncaughtException ex) = HostUncaughtException ex"

definition push_host_event ::
  "nat \<Rightarrow> ('v, 'h) host_event \<Rightarrow> ('v, 'r, 'h) job_queue \<Rightarrow> ('v, 'r, 'h) job_queue" where
  "push_host_event capacity event q =
     (case try_push_external_event (event_job event) capacity q of
        (Inl job, q) \<Rightarrow> push_overflow job q | (Inr _, q) \<Rightarrow> q)"

definition push_host_events ::
  "nat \<Rightarrow> ('v, 'h) host_event list \<Rightarrow> ('v, 'r, 'h) job_queue \<Rightarrow> ('v, 'r, 'h) job_queue" where
  "push_host_events capacity events q = fold (push_host_event capacity) events q"

function admit_overflow :: "nat \<Rightarrow> ('v, 'r, 'h) job_queue \<Rightarrow> ('v, 'r, 'h) job_queue" where
  "admit_overflow capacity q =
     (if length (external_events q) < capacity then
        (case host_overflow q of
           [] \<Rightarrow> q
         | job # js \<Rightarrow> admit_overflow capacity (push_external_event job (q\<lparr>host_overflow := js\<rparr>)))
      else q)"
  by auto
termination
  by (relation "measure (\<lambda>(_, q). length (host_overflow q))") (auto simp: push_external_event_def observe_depth_def)

declare admit_overflow.simps [simp del]

definition enqueue_host_events ::
  "('o, 'h, 'w) surroundings \<Rightarrow> ('o, 'r, 'h, 'w, nat) agent_op" where
  "enqueue_host_events s a =
     (let capacity = external_capacity (options s);
          a = with_queue (admit_overflow capacity) a;
          room = capacity - length (external_events (queue a))
      in if room = 0 \<or> host_overflow (queue a) \<noteq> [] then (Inr 0, a)
         else case host_poll s of
           None \<Rightarrow> (Inr 0, a)
         | Some bridge \<Rightarrow>
             (case bridge (min room (host_batch_size (options s))) (world a) of
                (Inl e, w) \<Rightarrow> (Inl e, a\<lparr>world := w\<rparr>)
              | (Inr events, w) \<Rightarrow>
                  (Inr (length events), with_queue (push_host_events capacity events) (a\<lparr>world := w\<rparr>))))"

section \<open>The next job\<close>

definition choose_job ::
  "fairness_mode \<Rightarrow> bool \<Rightarrow> bool \<Rightarrow> ('v, 'r, 'h) job_queue \<Rightarrow> ('v, 'r, 'h) job option \<times> ('v, 'r, 'h) job_queue" where
  "choose_job fair keep microtasks_only q =
     (case take_microtask q of
        (Some job, q) \<Rightarrow> (Some job, q\<lparr>checkpoint_pending := True\<rparr>)
      | (None, q) \<Rightarrow>
          if microtasks_only then (None, q)
          else if fair = Alternate \<and> prefer_timer q \<and> has_due_timer q then take_timer keep (q\<lparr>prefer_timer := False\<rparr>)
          else if external_events q \<noteq> [] then take_external_event (q\<lparr>prefer_timer := True\<rparr>)
          else take_timer keep (q\<lparr>prefer_timer := False\<rparr>))"

section \<open>The turn\<close>

definition outcome_of ::
  "('o, 'h, 'w) surroundings \<Rightarrow> nat \<Rightarrow> yield_reason \<Rightarrow> ('o, 'r, 'h, 'w) agent \<Rightarrow>
   turn_outcome \<times> ('o, 'r, 'h, 'w) agent" where
  "outcome_of s executed reason a =
     (let a = with_queue (\<lambda>q. q\<lparr>checkpoint_pending := (microtasks q \<noteq> [])\<rparr>) a;
          q = queue a;
          reason = (if host_overflow q \<noteq> [] then Backpressure else reason);
          a' = (if reason = Idle \<and> drain_depth (execution a) = 1
                then a\<lparr>execution := retire_completed_execution (has_outstanding_work q) (guest_depth s (world a))
                         (dispatch_depth q) (execution a)\<rparr>
                else a)
      in (\<lparr>executed_jobs = executed, runnable = is_runnable q \<or> host_overflow q \<noteq> [], yielded = reason,
           deadline_next = next_deadline q, checkpoint = checkpoint_pending q\<rparr>, a'))"

definition limit_err :: "string \<Rightarrow> 'o fault" where
  "limit_err m = Raised (Msg (ascii (''RangeError: '' @ m)))"

text \<open>One pass of the loop: it ends the turn, or it has run a job and goes on with the count of the jobs
  at the start and the number of jobs executed.\<close>

datatype ('o, 'r, 'h, 'w) pass =
    Ended "'o fault + turn_outcome" "('o, 'r, 'h, 'w) agent"
  | Again nat nat "('o, 'r, 'h, 'w) agent"

definition ends_with ::
  "('o, 'h, 'w) surroundings \<Rightarrow> nat \<Rightarrow> yield_reason \<Rightarrow> ('o, 'r, 'h, 'w) agent \<Rightarrow> ('o, 'r, 'h, 'w) pass" where
  "ends_with s executed reason a = (case outcome_of s executed reason a of (r, a) \<Rightarrow> Ended (Inr r) a)"

text \<open>Between tasks: the kept-alive targets go and the host is asked for events.\<close>

definition between_tasks ::
  "('o, 'h, 'w) surroundings \<Rightarrow> bool \<Rightarrow> ('o, 'r, 'h, 'w, nat) agent_op" where
  "between_tasks s microtasks_only a =
     (if microtasks (queue a) = [] then
        let a = with_queue (\<lambda>q. clear_kept_alive (q\<lparr>checkpoint_pending := False\<rparr>)) a
        in if microtasks_only then (Inr 0, a) else enqueue_host_events s a
      else (Inr 0, a))"

definition is_ready :: "bool \<Rightarrow> ('v, 'r, 'h) job_queue \<Rightarrow> bool" where
  "is_ready microtasks_only q = (if microtasks_only then microtasks q \<noteq> [] else is_runnable q)"

text \<open>Work that arrives while nothing executes starts a fresh context.\<close>

definition fresh_context :: "execution_limits \<Rightarrow> execution_state \<Rightarrow> execution_state" where
  "fresh_context lim ex =
     ex\<lparr>active := True, loops := loop_budget lim, fuel := fuel_budget lim, jobs := max_jobs_per_drain lim\<rparr>"

definition run_next ::
  "('o, 'r, 'h, 'w) guest \<Rightarrow> ('o, 'h, 'w) surroundings \<Rightarrow> bool \<Rightarrow> nat \<Rightarrow> nat \<Rightarrow> ('o, 'r, 'h, 'w) agent \<Rightarrow>
   ('o, 'r, 'h, 'w) pass" where
  "run_next g s microtasks_only initial executed a =
     (if jobs (execution a) = 0 then Ended (Inl (limit_err ''Maximum job count exceeded'')) a
      else case choose_job (fairness (options s)) (keep_nodes s) microtasks_only (queue a) of
        (None, q) \<Rightarrow> ends_with s executed Idle (a\<lparr>queue := q\<rparr>)
      | (Some job, q) \<Rightarrow>
          (case dispatch_job g (keep_nodes s) job
                  (a\<lparr>queue := q, execution := (execution a)\<lparr>jobs := jobs (execution a) - 1\<rparr>\<rparr>) of
             (Inl e, a) \<Rightarrow> Ended (Inl e) a
           | (Inr _, a) \<Rightarrow> Again initial (initial - jobs (execution a)) a))"

definition turn_pass ::
  "('o, 'r, 'h, 'w) guest \<Rightarrow> ('o, 'h, 'w) surroundings \<Rightarrow> turn_budget \<Rightarrow> bool \<Rightarrow> nat \<Rightarrow> nat \<Rightarrow>
   ('o, 'r, 'h, 'w) agent \<Rightarrow> ('o, 'r, 'h, 'w) pass" where
  "turn_pass g s budget microtasks_only initial executed a =
     (case check_execution (deadline_reached s (world a)) (execution a) of
        Inl m \<Rightarrow> Ended (Inl (Raised (Msg (ascii m)))) a
      | Inr _ \<Rightarrow>
          if executed \<ge> max_jobs budget then ends_with s executed JobBudget a
          else if (case max_duration budget of None \<Rightarrow> False | Some d \<Rightarrow> duration_reached s (world a) d)
          then ends_with s executed TimeBudget a
          else
            (case between_tasks s microtasks_only (settle_notified_atomics_waiters g a) of
               (Inl e, a) \<Rightarrow> Ended (Inl e) a
             | (Inr _, a) \<Rightarrow>
                 if \<not> is_ready microtasks_only (queue a) then ends_with s executed Idle a
                 else if active (execution a) then run_next g s microtasks_only initial executed a
                 else run_next g s microtasks_only (max_jobs_per_drain (limits s)) executed
                        (a\<lparr>execution := fresh_context (limits s) (execution a)\<rparr>)))"

text \<open>The loop; \<open>None\<close> when the given number of passes is used up.\<close>

fun turn_loop ::
  "nat \<Rightarrow> ('o, 'r, 'h, 'w) guest \<Rightarrow> ('o, 'h, 'w) surroundings \<Rightarrow> turn_budget \<Rightarrow> bool \<Rightarrow> nat \<Rightarrow> nat \<Rightarrow>
   ('o, 'r, 'h, 'w) agent \<Rightarrow> (('o fault + turn_outcome) \<times> ('o, 'r, 'h, 'w) agent) option" where
  "turn_loop 0 g s budget microtasks_only initial executed a = None"
| "turn_loop (Suc n) g s budget microtasks_only initial executed a =
     (case turn_pass g s budget microtasks_only initial executed a of
        Ended r a \<Rightarrow> Some (r, a)
      | Again initial executed a \<Rightarrow> turn_loop n g s budget microtasks_only initial executed a)"

definition enter_drain ::
  "('o, 'h, 'w) surroundings \<Rightarrow> ('o, 'r, 'h, 'w) agent \<Rightarrow> ('o, 'r, 'h, 'w) agent" where
  "enter_drain s a =
     (let ex = (if \<not> active (execution a) \<and> drain_depth (execution a) = 0 \<and> is_runnable (queue a)
                then begin_execution (limits s) (has_outstanding_work (queue a)) (checkpoint_pending (queue a))
                       (guest_depth s (world a)) (execution a)
                else execution a)
      in a\<lparr>execution := ex\<lparr>drain_depth := drain_depth ex + 1\<rparr>\<rparr>)"

definition leave_drain :: "('o, 'r, 'h, 'w) agent \<Rightarrow> ('o, 'r, 'h, 'w) agent" where
  "leave_drain a =
     (with_queue (\<lambda>q. q\<lparr>checkpoint_pending := (microtasks q \<noteq> [])\<rparr>) a)
       \<lparr>execution := (execution a)\<lparr>drain_depth := drain_depth (execution a) - 1\<rparr>\<rparr>"

definition poll_queued_jobs ::
  "nat \<Rightarrow> ('o, 'r, 'h, 'w) guest \<Rightarrow> ('o, 'h, 'w) surroundings \<Rightarrow> turn_budget \<Rightarrow> bool \<Rightarrow>
   ('o, 'r, 'h, 'w) agent \<Rightarrow> (('o fault + turn_outcome) \<times> ('o, 'r, 'h, 'w) agent) option" where
  "poll_queued_jobs n g s budget microtasks_only a =
     (let a = enter_drain s a
      in map_option (\<lambda>(r, a). (r, leave_drain a))
           (turn_loop n g s budget microtasks_only (jobs (execution a)) 0 a))"

definition poll_event_loop where
  "poll_event_loop n g s budget a = poll_queued_jobs n g s budget False a"

definition USIZE_MAX :: nat where
  "USIZE_MAX = 2 ^ 64 - 1"

definition drain_queued_jobs ::
  "nat \<Rightarrow> ('o, 'r, 'h, 'w) guest \<Rightarrow> ('o, 'h, 'w) surroundings \<Rightarrow> bool \<Rightarrow>
   ('o, 'r, 'h, 'w) agent \<Rightarrow> (('o fault + nat) \<times> ('o, 'r, 'h, 'w) agent) option" where
  "drain_queued_jobs n g s microtasks_only a =
     map_option (\<lambda>(r, a). (map_sum id executed_jobs r, a)) (poll_queued_jobs n g s (jobs_budget USIZE_MAX) microtasks_only a)"

definition drain_jobs where
  "drain_jobs n g s a = map_option (\<lambda>(r, a). (map_sum id (\<lambda>_. ()) r, a)) (drain_queued_jobs n g s False a)"

definition drain_microtasks where
  "drain_microtasks n g s a = map_option (\<lambda>(r, a). (map_sum id (\<lambda>_. ()) r, a)) (drain_queued_jobs n g s True a)"

definition run_await_timer ::
  "('o, 'r, 'h, 'w) guest \<Rightarrow> ('o, 'h, 'w) surroundings \<Rightarrow> ('o, 'r, 'h, 'w, bool) agent_op" where
  "run_await_timer g s a =
     (case check_execution (deadline_reached s (world a)) (execution a) of
        Inl m \<Rightarrow> (Inl (Raised (Msg (ascii m))), a)
      | Inr _ \<Rightarrow>
          if \<not> has_due_timer (queue a) then (Inr False, a)
          else if jobs (execution a) = 0 then (Inl (limit_err ''Maximum job count exceeded''), a)
          else case take_timer (keep_nodes s) (queue a) of
            (None, q) \<Rightarrow> (Inr False, a\<lparr>queue := q\<rparr>)
          | (Some job, q) \<Rightarrow>
              (case dispatch_job g (keep_nodes s) job
                      (a\<lparr>queue := q, execution := (execution a)\<lparr>jobs := jobs (execution a) - 1\<rparr>\<rparr>) of
                 (Inl e, a) \<Rightarrow> (Inl e, a) | (Inr _, a) \<Rightarrow> (Inr True, a)))"

section \<open>Jobs stay within a relation\<close>

context agent_relation
begin

lemma within_realm:
  assumes "\<And>b. R a b \<Longrightarrow> R a (snd (run b))" "R a b"
  shows "R a (snd (in_realm g allocating realm run b))"
  unfolding in_realm_def by (intro within_rules assms)

lemma within_import: "guest_within R g \<Longrightarrow> R a b \<Longrightarrow> R a (snd (run_import g realm target spec ats phase referrer b))"
  unfolding run_import_def import_promise_def register_def Let_def
  by (intro within_rules within_calls within_register within_realm)

lemma within_uncaught: "guest_within R g \<Longrightarrow> R a b \<Longrightarrow> R a (snd (run_host_uncaught_exception g ex b))"
  unfolding run_host_uncaught_exception_def by (intro within_rules within_calls)

lemma within_interval: "guest_within R g \<Longrightarrow> R a b \<Longrightarrow> R a (snd (run_interval g keep i b))"
proof -
  assume g: "guest_within R g" and b: "R a b"
  have "R a (snd (case reschedule_interval (add_ms g) i (queue c) of Some (Inr q) \<Rightarrow> (Inr (), c\<lparr>queue := q\<rparr>)
      | _ \<Rightarrow> (Inl UnreachablePanic, c)))" if "R a c" for c
    using that by (auto intro!: within_rules split: option.splits sum.splits)
  moreover have "R a (snd (call_this g f Undefined args b))" for f args using g b by (rule within_guest)
  ultimately show ?thesis
    unfolding run_interval_def using b by (auto intro!: within_rules split: option.splits)
qed

lemma within_job: "guest_within R g \<Longrightarrow> R a b \<Longrightarrow> R a (snd (run_job g keep job b))"
  by (cases job; simp only: run_job.simps;
      intro within_rules within_calls within_import within_uncaught within_interval within_reaction within_resolvers within_realm)

lemma within_dispatch: "guest_within R g \<Longrightarrow> R a b \<Longrightarrow> R a (snd (dispatch_job g keep job b))"
  unfolding dispatch_job_def by (intro within_rules within_job)

end

section \<open>A settled promise stays as it is\<close>

definition pass_agent :: "('o, 'r, 'h, 'w) pass \<Rightarrow> ('o, 'r, 'h, 'w) agent" where
  "pass_agent r = (case r of Ended _ a \<Rightarrow> a | Again _ _ a \<Rightarrow> a)"

lemma acts_execution: "acts a b \<Longrightarrow> acts a (b\<lparr>execution := ex\<rparr>)"
  by (erule rtranclp.rtrancl_into_rtrancl) (rule step_execution)

lemma acts_job_start: "acts a b \<Longrightarrow> acts a (b\<lparr>queue := q, execution := ex\<rparr>)"
  using acts_execution [OF acting.within_ends(2)] by fast

lemma acts_ends_with: "acts a b \<Longrightarrow> acts a (pass_agent (ends_with s executed reason b))"
  unfolding ends_with_def outcome_of_def Let_def pass_agent_def
  by (auto intro!: acting.within_ends acts_execution)

lemma acts_enqueue: "acts a b \<Longrightarrow> acts a (snd (enqueue_host_events s b))"
  by (auto simp: enqueue_host_events_def Let_def intro!: acting.within_ends split: option.splits prod.splits sum.splits)

lemma acts_between: "acts a b \<Longrightarrow> acts a (snd (between_tasks s only b))"
  by (auto simp: between_tasks_def Let_def intro!: acting.within_ends acts_enqueue)

lemma acts_run_next:
  assumes "guest_acts g" "acts a b"
  shows "acts a (pass_agent (run_next g s only initial executed b))"
proof -
  obtain j q where j: "choose_job (fairness (options s)) (keep_nodes s) only (queue b) = (j, q)" by force
  define c where "c = b\<lparr>queue := q, execution := (execution b)\<lparr>jobs := jobs (execution b) - 1\<rparr>\<rparr>"
  have "acts a (snd (dispatch_job g (keep_nodes s) job c))" for job
    using acting.within_dispatch [OF assms(1) acts_job_start [OF assms(2)]] by (simp add: c_def)
  then have "acts a d" if "dispatch_job g (keep_nodes s) job c = (r, d)" for job r d using that by (metis snd_conv)
  moreover have "acts a (pass_agent (ends_with s executed Idle (b\<lparr>queue := q\<rparr>)))"
    using assms(2) by (intro acts_ends_with acting.within_ends)
  ultimately show ?thesis using assms(2)
    by (auto simp: run_next_def j c_def [symmetric] simp del: One_nat_def split: option.splits prod.splits sum.splits)
      (simp_all add: pass_agent_def)
qed

lemma acts_pass:
  assumes "guest_acts g" "acts a b"
  shows "acts a (pass_agent (turn_pass g s budget only initial executed b))"
proof -
  have "acts a c" if "between_tasks s only (settle_notified_atomics_waiters g b) = (r, c)" for r c
    using acts_between [OF acting.within_waiters(2) [OF assms(2)]] that by (metis snd_conv)
  then show ?thesis using assms
    by (auto simp: turn_pass_def intro!: acts_ends_with acts_run_next acts_execution split: sum.splits prod.splits)
      (simp_all add: pass_agent_def)
qed

lemma acts_loop:
  "guest_acts g \<Longrightarrow> acts a b \<Longrightarrow> turn_loop n g s budget only initial executed b = Some (r, c) \<Longrightarrow> acts a c"
proof (induction n arbitrary: b initial executed)
  case (Suc n)
  from acts_pass [OF Suc.prems(1,2)] have "acts a (pass_agent (turn_pass g s budget only initial executed b))" .
  with Suc show ?case by (auto simp: pass_agent_def split: pass.splits)
qed simp

lemma acts_poll:
  assumes "guest_acts g" "poll_queued_jobs n g s budget only a = Some (r, b)"
  shows "acts a b"
proof -
  obtain c where c: "turn_loop n g s budget only (jobs (execution (enter_drain s a))) 0 (enter_drain s a) = Some (r, c)"
    "b = leave_drain c" using assms(2) by (auto simp: poll_queued_jobs_def Let_def)
  have "acts a (enter_drain s a)" by (simp add: enter_drain_def Let_def acts_execution)
  from acts_loop [OF assms(1) this c(1)] show ?thesis
    by (auto simp: c(2) leave_drain_def intro!: acts_execution acting.within_ends)
qed

section \<open>A turn ends\<close>

text \<open>Guest code never adds to the job budget of a running execution, nor ends the execution.\<close>

definition spends :: "('o, 'r, 'h, 'w) agent \<Rightarrow> ('o, 'r, 'h, 'w) agent \<Rightarrow> bool" where
  "spends a b \<longleftrightarrow> jobs (execution b) \<le> jobs (execution a) \<and> (active (execution a) \<longrightarrow> active (execution b))"

interpretation spending: agent_relation spends
  by unfold_locales (auto simp: spends_def)

text \<open>What is left to do, in passes.\<close>

definition passes_left :: "execution_limits \<Rightarrow> execution_state \<Rightarrow> nat" where
  "passes_left lim ex = (if active ex then jobs ex else max_jobs_per_drain lim + 1)"

lemma enqueue_execution: "execution (snd (enqueue_host_events s a)) = execution a"
  by (auto simp: enqueue_host_events_def Let_def split: option.splits prod.splits sum.splits)

lemma execution_settles: "execution (fold (\<lambda>p. settle p state v) ps a) = execution a"
  by (induction ps arbitrary: a) simp_all

lemma between_execution:
  assumes "between_tasks s only (settle_notified_atomics_waiters g a) = (r, b)"
  shows "execution b = execution a"
proof -
  have "execution (settle_notified_atomics_waiters g a) = execution a"
    by (auto simp: settle_notified_atomics_waiters_def execution_settles split: prod.splits)
  moreover have "execution (snd (between_tasks s only c)) = execution c" for c
    by (simp add: between_tasks_def Let_def enqueue_execution)
  ultimately show ?thesis using assms by (metis snd_conv)
qed

lemma run_next_again:
  assumes "guest_within spends g" "run_next g s only initial executed a = Again initial' executed' b" "active (execution a)"
  shows "active (execution b)" "jobs (execution b) < jobs (execution a)" "initial' = initial" "executed' \<le> initial"
proof -
  obtain job q where q: "choose_job (fairness (options s)) (keep_nodes s) only (queue a) = (Some job, q)"
    and some: "jobs (execution a) \<noteq> 0"
    and run: "dispatch_job g (keep_nodes s) job (a\<lparr>queue := q, execution := (execution a)\<lparr>jobs := jobs (execution a) - 1\<rparr>\<rparr>) = (Inr (), b)"
    and rest: "initial' = initial" "executed' = initial - jobs (execution b)"
    using assms(2) by (auto simp: run_next_def ends_with_def split: if_splits option.splits prod.splits sum.splits)
  have "spends (a\<lparr>queue := q, execution := (execution a)\<lparr>jobs := jobs (execution a) - 1\<rparr>\<rparr>) b"
    using spending.within_dispatch [OF assms(1) spending.within_refl] run by (metis snd_conv)
  then show "active (execution b)" "jobs (execution b) < jobs (execution a)" "initial' = initial" "executed' \<le> initial"
    using assms(3) some rest by (auto simp: spends_def)
qed

text \<open>Every pass that does not end the turn uses up one of the passes left.\<close>

lemma pass_again:
  assumes g: "guest_within spends g"
    and again: "turn_pass g s budget only initial executed a = Again initial' executed' b"
    and bound: "initial \<le> m" "max_jobs_per_drain (limits s) \<le> m"
  shows "passes_left (limits s) (execution b) < passes_left (limits s) (execution a)" "initial' \<le> m" "executed' \<le> m"
proof -
  obtain r c where c: "between_tasks s only (settle_notified_atomics_waiters g a) = (r, c)" by force
  note same = between_execution [OF c]
  show "passes_left (limits s) (execution b) < passes_left (limits s) (execution a)" "initial' \<le> m" "executed' \<le> m"
  proof (atomize (full), cases "active (execution a)")
    case True
    then have "run_next g s only initial executed c = Again initial' executed' b"
      using again c same by (auto simp: turn_pass_def ends_with_def split: sum.splits if_splits prod.splits)
    from run_next_again [OF g this] show "passes_left (limits s) (execution b) < passes_left (limits s) (execution a) \<and>
        initial' \<le> m \<and> executed' \<le> m"
      using True same bound by (simp add: passes_left_def)
  next
    case False
    then have "run_next g s only (max_jobs_per_drain (limits s)) executed
        (c\<lparr>execution := fresh_context (limits s) (execution c)\<rparr>) = Again initial' executed' b"
      using again c same by (auto simp: turn_pass_def ends_with_def split: sum.splits if_splits prod.splits)
    from run_next_again [OF g this] show "passes_left (limits s) (execution b) < passes_left (limits s) (execution a) \<and>
        initial' \<le> m \<and> executed' \<le> m"
      using False bound by (simp add: passes_left_def fresh_context_def)
  qed
qed

lemma loop_ends:
  "guest_within spends g \<Longrightarrow> passes_left (limits s) (execution a) < n \<Longrightarrow>
     \<exists>r b. turn_loop n g s budget only initial executed a = Some (r, b)"
proof (induction n arbitrary: a initial executed)
  case (Suc n)
  show ?case
  proof (cases "turn_pass g s budget only initial executed a")
    case (Again initial' executed' b)
    from pass_again(1) [OF Suc.prems(1) this, of "max initial (max_jobs_per_drain (limits s))"]
    have "passes_left (limits s) (execution b) < n" using Suc.prems(2) by simp
    then show ?thesis using Again Suc by simp
  qed simp
qed simp

lemma due_timer_taken: "has_due_timer q \<Longrightarrow> fst (take_timer keep q) \<noteq> None"
  by (cases "timers q")
    (auto simp: has_due_timer_def next_deadline_def take_timer_def split: list.splits option.splits prod.splits)

lemma has_due_timer_same: "has_due_timer (q\<lparr>prefer_timer := b\<rparr>) = has_due_timer q"
  "has_due_timer (q\<lparr>checkpoint_pending := b\<rparr>) = has_due_timer q"
  "has_due_timer (q\<lparr>external_events := es\<rparr>) = has_due_timer q"
  by (simp_all add: has_due_timer_def next_deadline_def split: option.splits)

lemma ready_chooses: "is_ready only q \<Longrightarrow> fst (choose_job fair keep only q) \<noteq> None"
  using due_timer_taken [of "q\<lparr>prefer_timer := False\<rparr>" keep]
  by (auto simp: choose_job_def take_microtask_def take_external_event_def is_ready_def is_runnable_def has_due_timer_same
      split: list.splits if_splits)

lemma ends_with_queue:
  "ends_with s executed reason a = Ended r b \<Longrightarrow> is_ready only (queue b) = is_ready only (queue a)"
  by (auto simp: ends_with_def outcome_of_def Let_def with_queue_def is_ready_def is_runnable_def has_due_timer_same
      split: if_splits)

lemma pass_ends:
  assumes "turn_pass g s (jobs_budget limit) only initial executed a = Ended (Inr r) b" "executed < limit"
  shows "\<not> is_ready only (queue b)"
proof -
  obtain x c where c: "between_tasks s only (settle_notified_atomics_waiters g a) = (x, c)" by force
  have "run_next g s only initial' executed (c\<lparr>execution := ex\<rparr>) \<noteq> Ended (Inr r) b" if "is_ready only (queue c)" for initial' ex
    using ready_chooses [OF that, of "fairness (options s)" "keep_nodes s"]
    by (auto simp: run_next_def split: option.splits prod.splits sum.splits)
  from this [of _ "execution c"] this show ?thesis
    using assms c by (auto simp: turn_pass_def jobs_budget_def ends_with_queue split: sum.splits if_splits)
qed

lemma loop_idle:
  assumes g: "guest_within spends g" and m: "max_jobs_per_drain (limits s) \<le> m" "m < limit"
  shows "initial \<le> m \<Longrightarrow> executed \<le> m \<Longrightarrow>
    turn_loop n g s (jobs_budget limit) only initial executed a = Some (Inr r, b) \<Longrightarrow> \<not> is_ready only (queue b)"
proof (induction n arbitrary: a initial executed)
  case (Suc n)
  show ?case
  proof (cases "turn_pass g s (jobs_budget limit) only initial executed a")
    case (Again initial' executed' c)
    from pass_again(2,3) [OF g this Suc.prems(1) m(1)] show ?thesis using Suc Again by simp
  qed (use pass_ends Suc.prems m in force)
qed simp

text \<open>
  C11: Draining ends, and not by giving up quietly. Within one pass per job of the budget a drain
  returns; unless it reports an error, nothing runnable is left: no microtask when only microtasks are
  drained, and otherwise no microtask, no external event and no due timer. Guest code may queue further
  jobs without end, but must not add to the job budget.
\<close>

theorem drain_ends:
  assumes "guest_within spends g" "jobs (execution a) \<le> m" "max_jobs_per_drain (limits s) \<le> m" "m < USIZE_MAX"
  shows "\<exists>r b. drain_queued_jobs (m + 2) g s microtasks_only a = Some (r, b) \<and>
    (case r of Inl _ \<Rightarrow> True | Inr _ \<Rightarrow> \<not> is_ready microtasks_only (queue b))"
proof -
  define c where "c = enter_drain s a"
  have c: "jobs (execution c) \<le> m" "passes_left (limits s) (execution c) < m + 2"
    using assms(2,3) by (auto simp: c_def enter_drain_def begin_execution_def passes_left_def Let_def)
  from loop_ends [OF assms(1) c(2)]
  obtain r d where d: "turn_loop (m + 2) g s (jobs_budget USIZE_MAX) microtasks_only (jobs (execution c)) 0 c = Some (r, d)"
    by blast
  have "is_ready microtasks_only (queue (leave_drain d)) = is_ready microtasks_only (queue d)"
    by (simp add: leave_drain_def with_queue_def is_ready_def is_runnable_def has_due_timer_same)
  moreover have "case r of Inl _ \<Rightarrow> True | Inr _ \<Rightarrow> \<not> is_ready microtasks_only (queue d)"
    using loop_idle [OF assms(1,3,4) c(1) le0] d by (simp split: sum.splits del: turn_loop.simps) blast
  moreover have "drain_queued_jobs (m + 2) g s microtasks_only a = Some (map_sum id executed_jobs r, leave_drain d)"
    using d by (simp add: drain_queued_jobs_def poll_queued_jobs_def c_def [symmetric])
  ultimately show ?thesis by (auto split: sum.splits)
qed

text \<open>Surroundings for the examples: no bridge, no deadline, the default options.\<close>

definition quiet_surroundings :: "(nat, unit, unit) surroundings" where
  "quiet_surroundings = \<lparr>deadline_reached = (\<lambda>_ _. False), duration_reached = (\<lambda>_ _. False), guest_depth = (\<lambda>_. 0),
     host_poll = None, keep_nodes = False,
     limits = \<lparr>loop_budget = 9, fuel_budget = 9, max_jobs_per_drain = 7, max_call_depth = 9\<rparr>, options = default_options\<rparr>"

lemma echo_guest_spends: "guest_within spends echo_guest"
  by (auto simp: guest_within_def echo_guest_def spends_def split: option.splits)

definition example_agent :: "(nat, unit, unit, unit) agent" where
  "example_agent = with_queue (push_external_event (HostPromiseSettled 0 Rejected Null))
     (settle 0 Fulfilled (VBool True) (new_agent 1 0))"

lemma example_agent_state:
  "jobs (execution example_agent) = 1000000" "promises example_agent = [pending_promise\<lparr>p_state := Fulfilled, resolution_locked := True, p_value := VBool True\<rparr>]"
  by (simp_all add: example_agent_def new_agent_def new_execution_def MAX_JOBS_PER_DRAIN_def settle_def promise_at_def
      with_queue_def update_promise_def settled_promise_def pending_promise_def Let_def)

theorem drain_ends_witness:
  "\<exists>r b. drain_queued_jobs 1000002 echo_guest quiet_surroundings False example_agent = Some (r, b) \<and>
    (case r of Inl _ \<Rightarrow> True | Inr _ \<Rightarrow> \<not> is_ready False (queue b))"
  using drain_ends [OF echo_guest_spends, of example_agent 1000000 quiet_surroundings False]
  by (simp add: example_agent_state quiet_surroundings_def USIZE_MAX_def)

text \<open>
  C12: Whatever a turn of the event loop runs, a promise that had settled before the turn has the same
  state and value after it, provided guest code acts on promises through the agent's operations only.
\<close>

theorem settled_stays:
  assumes "guest_acts g" "poll_queued_jobs n g s budget microtasks_only a = Some (r, a')"
    "p < length (promises a)" "p_state (promise_at p a) \<noteq> Pending"
  shows "p_state (promise_at p a') = p_state (promise_at p a) \<and> p_value (promise_at p a') = p_value (promise_at p a)"
  using steps_kept [OF acts_poll [OF assms(1,2)]] assms(3,4) by (auto simp: kept_def)

theorem settled_stays_witness:
  "\<exists>r b. poll_queued_jobs 1000002 echo_guest quiet_surroundings (jobs_budget 5) False example_agent = Some (r, b) \<and>
    p_state (promise_at 0 b) = Fulfilled \<and> p_value (promise_at 0 b) = VBool True"
proof -
  have "passes_left (limits quiet_surroundings) (execution (enter_drain quiet_surroundings example_agent)) < 1000002"
    by (simp add: passes_left_def enter_drain_def begin_execution_def example_agent_state quiet_surroundings_def Let_def)
  from loop_ends [OF echo_guest_spends this]
  obtain r b where run: "poll_queued_jobs 1000002 echo_guest quiet_surroundings (jobs_budget 5) False example_agent = Some (r, b)"
    by (fastforce simp: poll_queued_jobs_def Let_def)
  have settled: "p_state (promise_at 0 example_agent) = Fulfilled" "p_value (promise_at 0 example_agent) = VBool True"
    by (simp_all add: promise_at_def example_agent_state pending_promise_def)
  from settled_stays [OF echo_guest_acts run, of 0] run show ?thesis
    by (simp add: example_agent_state settled)
qed

section \<open>No host event is lost\<close>

definition backlog :: "('v, 'r, 'h) job_queue \<Rightarrow> ('v, 'r, 'h) job list" where
  "backlog q = external_events q @ host_overflow q"

text \<open>Overflow exists only when the queue is full.\<close>

definition overflow_ok :: "nat \<Rightarrow> ('v, 'r, 'h) job_queue \<Rightarrow> bool" where
  "overflow_ok capacity q \<longleftrightarrow> host_overflow q = [] \<or> capacity \<le> length (external_events q)"

lemma admit_overflow_backlog:
  "backlog (admit_overflow capacity q) = backlog q \<and> overflow_ok capacity (admit_overflow capacity q) \<and>
   (length (external_events q) \<le> capacity \<longrightarrow> length (external_events (admit_overflow capacity q)) \<le> capacity)"
proof (induction capacity q rule: admit_overflow.induct)
  case (1 capacity q)
  then show ?case
    by (subst (1 2 3) admit_overflow.simps)
      (auto simp: backlog_def overflow_ok_def push_external_event_def observe_depth_def split: list.splits)
qed

lemma push_host_event_backlog:
  assumes "overflow_ok capacity q" "length (external_events q) \<le> capacity"
  shows "backlog (push_host_event capacity event q) = backlog q @ [event_job event]"
    "overflow_ok capacity (push_host_event capacity event q)"
    "length (external_events (push_host_event capacity event q)) \<le> capacity"
  using assms
  by (auto simp: push_host_event_def try_push_external_event_def push_overflow_def push_external_event_def observe_depth_def
      backlog_def overflow_ok_def)

lemma push_host_events_backlog:
  "overflow_ok capacity q \<Longrightarrow> length (external_events q) \<le> capacity \<Longrightarrow>
     backlog (push_host_events capacity events q) = backlog q @ map event_job events \<and>
     length (external_events (push_host_events capacity events q)) \<le> capacity"
  by (induction events arbitrary: q) (simp_all add: push_host_events_def push_host_event_backlog)

text \<open>Ingress and delivery in any order; the jobs delivered are logged.\<close>

datatype ingress_op = Ingress | Deliver

fun serve ::
  "('o, 'h, 'w) surroundings \<Rightarrow> ingress_op list \<Rightarrow> ('o, 'r, 'h, 'w) agent \<Rightarrow>
   ('o val, 'r, 'h) job list \<times> ('o, 'r, 'h, 'w) agent" where
  "serve s [] a = ([], a)"
| "serve s (Ingress # ops) a = serve s ops (snd (enqueue_host_events s a))"
| "serve s (Deliver # ops) a =
     (case take_external_event (queue a) of
        (None, q) \<Rightarrow> serve s ops (a\<lparr>queue := q\<rparr>)
      | (Some job, q) \<Rightarrow> (case serve s ops (a\<lparr>queue := q\<rparr>) of (out, a) \<Rightarrow> (job # out, a)))"

text \<open>\<open>at_host\<close> is the sequence of events a bridge has yet to hand over; a poll takes a prefix of it.\<close>

definition hands_over :: "('o, 'h, 'w) surroundings \<Rightarrow> ('w \<Rightarrow> ('o val, 'h) host_event list) \<Rightarrow> bool" where
  "hands_over s at_host \<longleftrightarrow> (\<forall>bridge n w. host_poll s = Some bridge \<longrightarrow>
     at_host w = (case fst (bridge n w) of Inl _ \<Rightarrow> [] | Inr events \<Rightarrow> events) @ at_host (snd (bridge n w)))"

lemma enqueue_backlog:
  assumes bridge: "hands_over s at_host"
    and room: "length (external_events (queue a)) \<le> external_capacity (options s)"
  defines "b \<equiv> snd (enqueue_host_events s a)"
  shows "backlog (queue b) @ map event_job (at_host (world b)) = backlog (queue a) @ map event_job (at_host (world a))"
    "length (external_events (queue b)) \<le> external_capacity (options s)"
proof -
  define q where "q = admit_overflow (external_capacity (options s)) (queue a)"
  have q: "backlog q = backlog (queue a)" "overflow_ok (external_capacity (options s)) q"
    "length (external_events q) \<le> external_capacity (options s)"
    using admit_overflow_backlog [of "external_capacity (options s)" "queue a"] room by (simp_all add: q_def)
  note push = push_host_events_backlog [OF q(2,3)]
  have "backlog (queue b) @ map event_job (at_host (world b)) = backlog q @ map event_job (at_host (world a)) \<and>
      length (external_events (queue b)) \<le> external_capacity (options s)"
  proof (cases "host_poll s")
    case (Some h)
    obtain r w where h: "h (min (external_capacity (options s) - length (external_events q)) (host_batch_size (options s))) (world a) = (r, w)"
      by force
    have "at_host (world a) = (case r of Inl _ \<Rightarrow> [] | Inr events \<Rightarrow> events) @ at_host w"
      using bridge Some h unfolding hands_over_def by (metis fst_conv snd_conv)
    then show ?thesis
      using q push Some h
      by (auto simp: b_def enqueue_host_events_def Let_def with_queue_def q_def [symmetric] split: sum.splits)
  qed (use q in \<open>simp add: b_def enqueue_host_events_def Let_def with_queue_def q_def [symmetric]\<close>)
  then show "backlog (queue b) @ map event_job (at_host (world b)) = backlog (queue a) @ map event_job (at_host (world a))"
    "length (external_events (queue b)) \<le> external_capacity (options s)" using q(1) by simp_all
qed

text \<open>
  C15: Events of the host reach the program exactly once and in order, however large the batches a
  bridge hands over and however full the queue is: what has been delivered, followed by what is queued,
  in overflow, and still at the host, is always the sequence there was at the start, and the external
  queue never exceeds its capacity.
\<close>

theorem host_events_in_order:
  assumes "hands_over s at_host" "length (external_events (queue a)) \<le> external_capacity (options s)"
    and "serve s ops a = (out, b)"
  shows "out @ backlog (queue b) @ map event_job (at_host (world b)) = backlog (queue a) @ map event_job (at_host (world a)) \<and>
    length (external_events (queue b)) \<le> external_capacity (options s)"
  using assms(2,3)
proof (induction ops arbitrary: a out)
  case (Cons op ops)
  note IH = Cons.IH and prems = Cons.prems
  show ?case
  proof (cases op)
    case Ingress
    note step = enqueue_backlog [OF assms(1) prems(1)]
    show ?thesis using IH [OF step(2), of out] prems(2) step(1) Ingress by simp
  next
    case Deliver
    show ?thesis
    proof (cases "external_events (queue a)")
      case Nil
      then show ?thesis using IH [of a out] prems Deliver by (simp add: take_external_event_def)
    next
      case (Cons job js)
      define c where "c = a\<lparr>queue := (queue a)\<lparr>external_events := js\<rparr>\<rparr>"
      obtain out' where run: "serve s ops c = (out', b)" "out = job # out'"
        using prems(2) Deliver Cons by (auto simp: take_external_event_def c_def split: prod.splits)
      have "length (external_events (queue c)) \<le> external_capacity (options s)"
        using prems(1) Cons by (simp add: c_def)
      from IH [OF this run(1)] show ?thesis using Cons by (simp add: run(2) c_def backlog_def)
    qed
  qed
qed simp

text \<open>A host with a list of events that hands over two at a time, whatever the limit.\<close>

definition legacy_host :: "nat \<Rightarrow> (nat, unit, (nat val, unit) host_event list) surroundings" where
  "legacy_host capacity = \<lparr>deadline_reached = (\<lambda>_ _. False), duration_reached = (\<lambda>_ _. False), guest_depth = (\<lambda>_. 0),
     host_poll = Some (\<lambda>_ events. (Inr (take 2 events), drop 2 events)), keep_nodes = False,
     limits = \<lparr>loop_budget = 9, fuel_budget = 9, max_jobs_per_drain = 7, max_call_depth = 9\<rparr>,
     options = \<lparr>fairness = Alternate, host_batch_size = 1, external_capacity = capacity\<rparr>\<rparr>"

definition three_events :: "(nat, unit, unit, (nat val, unit) host_event list) agent" where
  "three_events = \<lparr>queue = empty_queue, promises = [], guards = [], execution = new_execution,
     world = [EventCallback (), EventUncaughtException Null, EventPromiseSettled 4 Fulfilled Null]\<rparr>"

theorem host_events_in_order_witness:
  "case serve (legacy_host 1) [Ingress, Deliver, Ingress, Ingress, Deliver] three_events of (out, b) \<Rightarrow>
     out @ backlog (queue b) @ map event_job (world b) =
       [HostCallback (), HostUncaughtException Null, HostPromiseSettled 4 Fulfilled Null] \<and>
     length (external_events (queue b)) \<le> 1"
proof -
  have "hands_over (legacy_host 1) (\<lambda>w. w)" by (simp add: hands_over_def legacy_host_def)
  from host_events_in_order [OF this, of three_events "[Ingress, Deliver, Ingress, Ingress, Deliver]"] show ?thesis
    by (auto simp: three_events_def legacy_host_def empty_queue_def backlog_def simp del: serve.simps split: prod.splits)
qed

section \<open>Fairness\<close>

text \<open>
  Under the alternating policy neither timers nor events of the host starve: with both waiting and
  no microtask, two choices take exactly the first of each, in the order the preference says, and
  leave the rest alone.
\<close>

theorem alternate_fair:
  assumes "microtasks q = []" "external_events q = e # es" "take_timer keep q = (Some t, q')"
    "choose_job Alternate keep False q = (j1, q1)" "choose_job Alternate keep False q1 = (j2, q2)"
  shows "(j1, j2) = (if prefer_timer q then (Some t, Some e) else (Some e, Some t)) \<and>
    external_events q2 = es \<and> timers q2 = timers q' \<and> microtasks q2 = []"
proof -
  have due: "has_due_timer q" using assms(3) by (simp add: take_timer_def split: if_splits)
  obtain ts where pop: "pop_timer keep (timers q) = (Some t, ts)" and q': "q' = q\<lparr>timers := ts\<rparr>"
    using assms(3) by (auto simp: take_timer_def due split: prod.splits)
  show ?thesis
  proof (cases "prefer_timer q")
    case True
    then have "j1 = Some t" "q1 = q\<lparr>prefer_timer := False, timers := ts\<rparr>"
      using assms(1,4) due pop by (auto simp: choose_job_def take_microtask_def take_timer_def has_due_timer_same)
    then show ?thesis using True assms(1,2,5) q'
      by (auto simp: choose_job_def take_microtask_def take_external_event_def)
  next
    case False
    then have "j1 = Some e" "q1 = q\<lparr>prefer_timer := True, external_events := es\<rparr>"
      using assms(1,2,4) by (auto simp: choose_job_def take_microtask_def take_external_event_def)
    then show ?thesis using False assms(1,5) q' due pop
      by (auto simp: choose_job_def take_microtask_def take_timer_def has_due_timer_same)
  qed
qed

definition two_waiting :: "(nat val, unit, unit) job_queue" where
  "two_waiting = empty_queue\<lparr>external_events := [HostCallback ()], prefer_timer := True,
     timers := Small [\<lparr>e_key = (5, 1), e_id = 1, e_job = Callback Null []\<rparr>] None\<rparr>"

theorem alternate_fair_witness:
  "case choose_job Alternate False False two_waiting of (first, q) \<Rightarrow>
     (first, fst (choose_job Alternate False False q)) = (Some (Callback Null []), Some (HostCallback ()))"
proof -
  obtain j1 q1 where 1: "choose_job Alternate False False two_waiting = (j1, q1)" by force
  obtain j2 q2 where 2: "choose_job Alternate False False q1 = (j2, q2)" by force
  have "microtasks two_waiting = []" "external_events two_waiting = [HostCallback ()]" "prefer_timer two_waiting"
    "take_timer False two_waiting = (Some (Callback Null []), two_waiting\<lparr>timers := Small [] None\<rparr>)"
    by (simp_all add: two_waiting_def empty_queue_def take_timer_def has_due_timer_def next_deadline_def)
  from alternate_fair [OF this(1,2,4) 1 2] this(3) show ?thesis by (simp add: 1 2)
qed

end
