(* ===== verification/Wire_Values.thy ===== *)
theory Wire_Values
  imports VM_Prelude "HOL-Library.AList"
begin

text \<open>
  The values of the plugin protocol (\<open>napi-vm-plugin-protocol\<close>, \<open>lib.rs\<close> and the adapters of
  \<open>schema.rs\<close>): JSON values, their normalisation, the errors of the protocol and their validation, and
  the canonical text forms of integers, bytes, instants, identifiers and versions.
\<close>

section \<open>JSON values\<close>

text \<open>A number is stored as an unsigned, a negative or a floating point number. A finite double is its
  value in units of \<open>2\<close> to the power \<open>-1074\<close>, so that equality and order of doubles are those of the
  integers.\<close>

datatype jnumber = PosInt u64 | NegInt u64 | Float int

datatype json = JNull | JBool bool | JNumber jnumber | JString rstring | JArray "json list" | JObject "(rstring \<times> json) list"

definition UNIT :: int where
  "UNIT = 2 ^ 1074"

fun excess :: "nat \<Rightarrow> nat" where
  "excess n = (if n < 2 ^ 53 then 0 else Suc (excess (n div 2)))"

declare excess.simps [simp del]

text \<open>An integer as a double: rounded to 53 bits, ties to even.\<close>

definition round_53 :: "nat \<Rightarrow> nat" where
  "round_53 n =
     (let k = excess n; q = n div 2 ^ k; r = n mod 2 ^ k
      in if k = 0 then n
         else (if 2 ^ (k - 1) < r \<or> r = 2 ^ (k - 1) \<and> odd q then q + 1 else q) * 2 ^ k)"

fun number_value :: "jnumber \<Rightarrow> int" where
  "number_value (PosInt n) = int (round_53 (unat n)) * UNIT"
| "number_value (NegInt n) = - int (round_53 (nat (- sint n))) * UNIT"
| "number_value (Float x) = x"

definition number_of_i64 :: "int \<Rightarrow> jnumber" where
  "number_of_i64 i = (if i < 0 then NegInt (word_of_int i) else PosInt (word_of_int i))"

definition as_f64 :: "json \<Rightarrow> int option" where
  "as_f64 v = (case v of JNumber n \<Rightarrow> Some (number_value n) | _ \<Rightarrow> None)"

definition as_u64 :: "json \<Rightarrow> nat option" where
  "as_u64 v = (case v of JNumber (PosInt n) \<Rightarrow> Some (unat n) | _ \<Rightarrow> None)"

definition as_string :: "json \<Rightarrow> rstring option" where
  "as_string v = (case v of JString s \<Rightarrow> Some s | _ \<Rightarrow> None)"

definition as_array :: "json \<Rightarrow> json list option" where
  "as_array v = (case v of JArray xs \<Rightarrow> Some xs | _ \<Rightarrow> None)"

definition as_object :: "json \<Rightarrow> (rstring \<times> json) list option" where
  "as_object v = (case v of JObject fs \<Rightarrow> Some fs | _ \<Rightarrow> None)"

text \<open>\<open>v.get(k)\<close> and \<open>v[k]\<close>, which is null for a missing key and for anything but an object.\<close>

definition get_key :: "json \<Rightarrow> rstring \<Rightarrow> json option" where
  "get_key v k = (case v of JObject fs \<Rightarrow> map_of fs k | _ \<Rightarrow> None)"

definition at_key :: "json \<Rightarrow> rstring \<Rightarrow> json" where
  "at_key v k = (case get_key v k of Some x \<Rightarrow> x | None \<Rightarrow> JNull)"

section \<open>Errors\<close>

record rpc_error =
  err_code :: int
  err_message :: rstring
  err_data :: json

type_synonym 'a plugin_result = "rpc_error + 'a"

definition error_numbers :: "(rstring \<times> int) list" where
  "error_numbers = map (\<lambda>(s, n). (ascii s, n))
     [(''PARSE_ERROR'', -32700), (''INVALID_REQUEST'', -32600), (''METHOD_NOT_FOUND'', -32601),
      (''INVALID_ARGUMENT'', -32602), (''NOT_READY'', -32001), (''PROTOCOL_MISMATCH'', -32002),
      (''CONTRACT_MISMATCH'', -32003), (''CANCELLED'', -32004), (''DEADLINE_EXCEEDED'', -32005),
      (''OVERLOADED'', -32006), (''PLUGIN_EXITED'', -32007), (''CONNECTION_CLOSED'', -32008),
      (''REENTRANT_CALL'', -32009), (''INVALID_RESULT'', -32010), (''STATE_INCOMPATIBLE'', -32011),
      (''APPLICATION_ERROR'', -32012)]"

definition error_number :: "rstring \<Rightarrow> int" where
  "error_number code = (case map_of error_numbers code of Some n \<Rightarrow> n | None \<Rightarrow> -32603)"

definition rpc_new :: "rstring \<Rightarrow> rstring \<Rightarrow> rpc_error" where
  "rpc_new code message = \<lparr>err_code = error_number code, err_message = take 2048 message,
     err_data = JObject [(ascii ''code'', JString code)]\<rparr>"

definition known_codes :: "rstring list" where
  "known_codes = map fst error_numbers @ [ascii ''INTERNAL_ERROR'']"

definition rpc_domain :: "rstring \<Rightarrow> rstring \<Rightarrow> json \<Rightarrow> rpc_error" where
  "rpc_domain code message data = (rpc_new (ascii ''APPLICATION_ERROR'') message)
     \<lparr>err_data := JObject [(ascii ''code'', JString (ascii ''APPLICATION_ERROR'')), (ascii ''domainCode'', JString code),
        (ascii ''data'', data)]\<rparr>"

definition stable_code :: "rpc_error \<Rightarrow> rstring" where
  "stable_code e = (case as_string (at_key (err_data e) (ascii ''code'')) of Some c \<Rightarrow> c | None \<Rightarrow> ascii ''INTERNAL_ERROR'')"

definition is_domain_code :: "json option \<Rightarrow> bool" where
  "is_domain_code v = (case Option.bind v as_string of Some c \<Rightarrow> c \<noteq> [] | None \<Rightarrow> False)"

definition validate_wire :: "rpc_error \<Rightarrow> unit plugin_result" where
  "validate_wire e =
     (let bad = Inl (rpc_new (ascii ''INVALID_REQUEST'') (ascii ''invalid error metadata''))
      in case as_object (err_data e) of
           None \<Rightarrow> bad
         | Some data \<Rightarrow>
             (case Option.bind (map_of data (ascii ''code'')) as_string of
                None \<Rightarrow> bad
              | Some code \<Rightarrow>
                  if code \<notin> set known_codes \<or> err_code (rpc_new code []) \<noteq> err_code e \<or> length (err_message e) > 2048
                     \<or> (\<exists>k\<in>set (map fst data). k \<notin> set (map ascii [''code'', ''details'', ''domainCode'', ''data'']))
                  then bad
                  else if code = ascii ''APPLICATION_ERROR'' then
                    (if \<not> is_domain_code (map_of data (ascii ''domainCode'')) \<or> map_of data (ascii ''data'') = None
                     then bad else Inr ())
                  else if map_of data (ascii ''domainCode'') \<noteq> None \<or> map_of data (ascii ''data'') \<noteq> None
                  then bad else Inr ()))"

section \<open>Normalisation\<close>

text \<open>A safe integral double becomes an integer, any other number a double. Stored numbers are finite.\<close>

definition normal_number :: "jnumber \<Rightarrow> jnumber" where
  "normal_number n =
     (let f = number_value n
      in if UNIT dvd f \<and> \<bar>f\<bar> \<le> 9007199254740991 * UNIT then number_of_i64 (f div UNIT) else Float f)"

fun normalize_value :: "nat \<Rightarrow> nat \<Rightarrow> json \<Rightarrow> json plugin_result"
  and normalize_items :: "nat \<Rightarrow> nat \<Rightarrow> json list \<Rightarrow> json list plugin_result"
  and normalize_fields :: "nat \<Rightarrow> nat \<Rightarrow> (rstring \<times> json) list \<Rightarrow> (rstring \<times> json) list plugin_result" where
  "normalize_value depth limit v =
     (if depth > limit then Inl (rpc_new (ascii ''INVALID_ARGUMENT'') (ascii ''JSON nesting limit exceeded''))
      else case v of
        JNumber n \<Rightarrow> Inr (JNumber (normal_number n))
      | JArray xs \<Rightarrow> bind_outcome (normalize_items depth limit xs) (\<lambda>ys. Inr (JArray ys))
      | JObject fs \<Rightarrow> bind_outcome (normalize_fields depth limit fs) (\<lambda>gs. Inr (JObject gs))
      | _ \<Rightarrow> Inr v)"
| "normalize_items depth limit [] = Inr []"
| "normalize_items depth limit (x # xs) =
     bind_outcome (normalize_value (depth + 1) limit x) (\<lambda>y.
     bind_outcome (normalize_items depth limit xs) (\<lambda>ys. Inr (y # ys)))"
| "normalize_fields depth limit [] = Inr []"
| "normalize_fields depth limit ((k, x) # fs) =
     bind_outcome (normalize_value (depth + 1) limit x) (\<lambda>y.
     bind_outcome (normalize_fields depth limit fs) (\<lambda>gs. Inr ((k, y) # gs)))"

section \<open>Bytes of a string\<close>

definition utf8_char :: "rchar \<Rightarrow> u8 list" where
  "utf8_char c =
     (if c < 0x80 then [of_nat c]
      else if c < 0x800 then [of_nat (0xC0 + c div 64), of_nat (0x80 + c mod 64)]
      else if c < 0x10000 then [of_nat (0xE0 + c div 4096), of_nat (0x80 + c div 64 mod 64), of_nat (0x80 + c mod 64)]
      else [of_nat (0xF0 + c div 262144), of_nat (0x80 + c div 4096 mod 64), of_nat (0x80 + c div 64 mod 64),
            of_nat (0x80 + c mod 64)])"

definition as_bytes :: "rstring \<Rightarrow> u8 list" where
  "as_bytes s = concat (map utf8_char s)"

definition is_digit :: "u8 \<Rightarrow> bool" where
  "is_digit b = (48 \<le> b \<and> b \<le> 57)"

definition is_lower :: "u8 \<Rightarrow> bool" where
  "is_lower b = (97 \<le> b \<and> b \<le> 122)"

definition is_alphanumeric :: "u8 \<Rightarrow> bool" where
  "is_alphanumeric b = (is_digit b \<or> is_lower b \<or> 65 \<le> b \<and> b \<le> 90)"

fun split_on :: "rchar set \<Rightarrow> rstring \<Rightarrow> rstring list" where
  "split_on seps [] = [[]]"
| "split_on seps (c # s) =
     (if c \<in> seps then [] # split_on seps s
      else case split_on seps s of p # ps \<Rightarrow> (c # p) # ps | [] \<Rightarrow> [[c]])"

fun split_once :: "rchar \<Rightarrow> rstring \<Rightarrow> (rstring \<times> rstring) option" where
  "split_once sep [] = None"
| "split_once sep (c # s) = (if c = sep then Some ([], s) else map_option (\<lambda>(a, b). (c # a, b)) (split_once sep s))"

section \<open>Names, versions and canonical integers\<close>

definition identifier_part :: "rstring \<Rightarrow> bool" where
  "identifier_part p = (p \<noteq> [] \<and> list_all (\<lambda>b. is_lower b \<or> is_digit b) (as_bytes p))"

definition is_identifier :: "rstring \<Rightarrow> bool" where
  "is_identifier s =
     (if s = [] \<or> length (as_bytes s) > 128 then False
      else case split_on {of_char CHR ''.'', of_char CHR ''-''} s of
        [] \<Rightarrow> False
      | first # parts \<Rightarrow> first \<noteq> [] \<and> is_lower (as_bytes first ! 0) \<and> identifier_part first \<and> list_all identifier_part parts)"

definition member_name :: "rstring \<Rightarrow> bool" where
  "member_name s = (s \<noteq> [] \<and> length s \<le> 200)"

definition word_part :: "rstring \<Rightarrow> bool" where
  "word_part x = (x \<noteq> [] \<and> list_all (\<lambda>b. is_alphanumeric b \<or> b = 45) (as_bytes x))"

definition leading_zero :: "rstring \<Rightarrow> bool" where
  "leading_zero x = (length (as_bytes x) > 1 \<and> take 1 x = [48])"

definition version :: "rstring \<Rightarrow> bool" where
  "version s =
     (if s = [] \<or> length (as_bytes s) > 128 then False
      else
        let (base, build) = (case split_once (of_char CHR ''+'') s of None \<Rightarrow> (s, None) | Some (a, b) \<Rightarrow> (a, Some b))
        in if (case build of None \<Rightarrow> False | Some b \<Rightarrow> list_ex (\<lambda>x. \<not> word_part x) (split_on {of_char CHR ''.''} b)) then False
           else
             let (core, pre) = (case split_once (of_char CHR ''-'') base of None \<Rightarrow> (base, None) | Some (a, b) \<Rightarrow> (a, Some b));
                 parts = split_on {of_char CHR ''.''} core
             in if length parts \<noteq> 3 \<or> list_ex (\<lambda>x. x = [] \<or> \<not> list_all is_digit (as_bytes x) \<or> leading_zero x) parts then False
                else case pre of
                  None \<Rightarrow> True
                | Some p \<Rightarrow> \<not> list_ex (\<lambda>x. \<not> word_part x \<or> leading_zero x \<and> list_all is_digit (as_bytes x))
                               (split_on {of_char CHR ''.''} p))"

definition canonical_digits :: "rstring \<Rightarrow> bool" where
  "canonical_digits d = (d \<noteq> [] \<and> list_all is_digit (as_bytes d) \<and> (length (as_bytes d) = 1 \<or> take 1 d \<noteq> [48]))"

definition canonical_decimal :: "rstring \<Rightarrow> bool \<Rightarrow> bool" where
  "canonical_decimal s negatives =
     (case s of
        [] \<Rightarrow> canonical_digits s
      | c # x \<Rightarrow>
          if c = 45 then (if \<not> negatives \<or> x = ascii ''0'' then False else canonical_digits x)
          else canonical_digits s)"

text \<open>\<open>parse::<u64>()\<close> and \<open>parse::<i64>()\<close> on the strings \<open>canonical_decimal\<close> lets through.\<close>

definition digits_number :: "rstring \<Rightarrow> nat" where
  "digits_number = foldl (\<lambda>n c. n * 10 + (c - 48)) 0"

definition parse_u64 :: "rstring \<Rightarrow> nat option" where
  "parse_u64 s = (if s \<noteq> [] \<and> list_all is_digit (as_bytes s) \<and> digits_number s < 2 ^ 64 then Some (digits_number s) else None)"

definition parse_i64 :: "rstring \<Rightarrow> int option" where
  "parse_i64 s =
     (case s of
        [] \<Rightarrow> None
      | c # x \<Rightarrow>
          if c = 45 then
            (if x \<noteq> [] \<and> list_all is_digit (as_bytes x) \<and> digits_number x \<le> 2 ^ 63 then Some (- int (digits_number x)) else None)
          else if list_all is_digit (as_bytes s) \<and> digits_number s < 2 ^ 63 then Some (int (digits_number s)) else None)"

section \<open>Base 64\<close>

definition ALPHABET :: "u8 list" where
  "ALPHABET = map of_char ''ABCDEFGHIJKLMNOPQRSTUVWXYZabcdefghijklmnopqrstuvwxyz0123456789+/''"

definition sextet :: "u8 \<Rightarrow> u8 option" where
  "sextet b =
     (if 65 \<le> b \<and> b \<le> 90 then Some (b - 65)
      else if 97 \<le> b \<and> b \<le> 122 then Some (b - 97 + 26)
      else if 48 \<le> b \<and> b \<le> 57 then Some (b - 48 + 52)
      else if b = 43 then Some 62
      else if b = 47 then Some 63
      else None)"

definition low_bits_clear :: "u8 \<Rightarrow> u8 \<Rightarrow> bool" where
  "low_bits_clear low b = (case sextet b of None \<Rightarrow> False | Some v \<Rightarrow> v AND low = 0)"

definition canonical_base64_bytes :: "u8 list \<Rightarrow> bool" where
  "canonical_base64_bytes b =
     (if length b mod 4 \<noteq> 0 then False
      else if b = [] then True
      else
        let padding = length (takeWhile (\<lambda>x. x = 61) (rev b))
        in if padding > 2 then False
           else if list_ex (\<lambda>x. sextet x = None) (take (length b - padding) b) then False
           else if padding = 1 then low_bits_clear 3 (b ! (length b - 2))
           else if padding = 2 then low_bits_clear 15 (b ! (length b - 3))
           else True)"

definition canonical_base64 :: "rstring \<Rightarrow> bool" where
  "canonical_base64 s = canonical_base64_bytes (as_bytes s)"

fun chunks :: "nat \<Rightarrow> 'a list \<Rightarrow> 'a list list" where
  "chunks n [] = []"
| "chunks n (x # xs) = (if n = 0 then [] else take n (x # xs) # chunks n (drop (n - 1) xs))"

definition alphabet_char :: "u32 \<Rightarrow> rchar" where
  "alphabet_char n = unat (ALPHABET ! unat n)"

definition encode_chunk :: "u8 list \<Rightarrow> rstring" where
  "encode_chunk c =
     (let byte = (\<lambda>i. (ucast (case get_at c i of Some b \<Rightarrow> b | None \<Rightarrow> 0) :: u32));
          n = push_bit 16 (byte 0) OR push_bit 8 (byte 1) OR byte 2
      in [alphabet_char (drop_bit 18 n AND 63), alphabet_char (drop_bit 12 n AND 63),
          if length c > 1 then alphabet_char (drop_bit 6 n AND 63) else 61,
          if length c > 2 then alphabet_char (n AND 63) else 61])"

definition encode_bytes :: "u8 list \<Rightarrow> rstring" where
  "encode_bytes bytes = concat (map encode_chunk (chunks 3 bytes))"

fun position_of :: "'a \<Rightarrow> 'a list \<Rightarrow> nat option" where
  "position_of x [] = None"
| "position_of x (y # ys) = (if y = x then Some 0 else map_option Suc (position_of x ys))"

definition decode_chunk :: "u8 list \<Rightarrow> u8 list" where
  "decode_chunk c =
     (let n = fold (\<lambda>b n. push_bit 6 n OR (of_nat (case position_of b ALPHABET of Some i \<Rightarrow> i | None \<Rightarrow> 0) :: u32)) c 0
      in [ucast (drop_bit 16 n)] @ (if c ! 2 \<noteq> 61 then [ucast (drop_bit 8 n)] else []) @ (if c ! 3 \<noteq> 61 then [ucast n] else []))"

definition decode_bytes :: "rstring \<Rightarrow> u8 list plugin_result" where
  "decode_bytes s =
     (if \<not> canonical_base64 s then Inl (rpc_new (ascii ''INVALID_ARGUMENT'') (ascii ''noncanonical base64''))
      else Inr (concat (map decode_chunk (chunks 4 (as_bytes s)))))"

section \<open>Instants\<close>

definition digits_field :: "u8 list \<Rightarrow> nat \<Rightarrow> nat \<Rightarrow> nat option" where
  "digits_field b a z =
     (let p = take (z - a) (drop a b)
      in if \<not> list_all is_digit p then None else Some (foldl (\<lambda>n b. n * 10 + (unat b - 48)) 0 p))"

definition days_in_month :: "nat \<Rightarrow> nat \<Rightarrow> nat option" where
  "days_in_month y m =
     (if m \<in> {1, 3, 5, 7, 8, 10, 12} then Some 31
      else if m \<in> {4, 6, 9, 11} then Some 30
      else if m = 2 then Some (if y mod 4 = 0 \<and> (y mod 100 \<noteq> 0 \<or> y mod 400 = 0) then 29 else 28)
      else None)"

definition utc_datetime :: "rstring \<Rightarrow> bool" where
  "utc_datetime s =
     (let b = as_bytes s
      in if length b \<noteq> 24 \<or> b ! 4 \<noteq> 45 \<or> b ! 7 \<noteq> 45 \<or> b ! 10 \<noteq> 84 \<or> b ! 13 \<noteq> 58 \<or> b ! 16 \<noteq> 58 \<or> b ! 19 \<noteq> 46 \<or> b ! 23 \<noteq> 90
         then False
         else case (digits_field b 0 4, digits_field b 5 7, digits_field b 8 10, digits_field b 11 13, digits_field b 14 16,
                    digits_field b 17 19, digits_field b 20 23) of
           (Some y, Some m, Some d, Some h, Some mi, Some sec, Some _) \<Rightarrow>
             (case days_in_month y m of
                None \<Rightarrow> False
              | Some days \<Rightarrow> 1 \<le> y \<and> 1 \<le> d \<and> d \<le> days \<and> h < 24 \<and> mi < 60 \<and> sec < 60)
         | _ \<Rightarrow> False)"

section \<open>Four sextets are three bytes\<close>

lemma and_63: "x AND 63 = take_bit 6 (x :: u32)"
  by (simp add: take_bit_eq_mask mask_eq_exp_minus_1)

definition four :: "u32 \<Rightarrow> u32 \<Rightarrow> u32 \<Rightarrow> u32 \<Rightarrow> u32" where
  "four a b c d = push_bit 6 (push_bit 6 (push_bit 6 (push_bit 6 0 OR a) OR b) OR c) OR d"

definition three :: "u8 \<Rightarrow> u8 \<Rightarrow> u8 \<Rightarrow> u32" where
  "three a b c = push_bit 16 (ucast a) OR push_bit 8 (ucast b) OR ucast c"

lemma four_sextets:
  assumes "\<And>i. bit m i \<Longrightarrow> i < 24"
  shows "four (drop_bit 18 m AND 63) (drop_bit 12 m AND 63) (drop_bit 6 m AND 63) (m AND 63) = m"
proof (rule bit_word_eqI)
  fix n assume n: "n < LENGTH(32)"
  show "bit (four (drop_bit 18 m AND 63) (drop_bit 12 m AND 63) (drop_bit 6 m AND 63) (m AND 63)) n = bit m n"
    using n assms [of n] unfolding four_def and_63
    by (cases "n < 6"; cases "n < 12"; cases "n < 18"; auto simp: bit_simps)
qed

lemma sextets_four:
  assumes "take_bit 6 a = a" "take_bit 6 b = b" "take_bit 6 c = c" "take_bit 6 d = d"
  shows "drop_bit 18 (four a b c d) AND 63 = a" "drop_bit 12 (four a b c d) AND 63 = b"
    "drop_bit 6 (four a b c d) AND 63 = c" "four a b c d AND 63 = d" "\<And>i. bit (four a b c d) i \<Longrightarrow> i < 24"
proof -
  have small: "bit x i \<Longrightarrow> i < 6" if "take_bit 6 x = x" for x :: "u32" and i
    using that by (metis bit_take_bit_iff)
  note s = small [OF assms(1)] small [OF assms(2)] small [OF assms(3)] small [OF assms(4)]
  show "drop_bit 18 (four a b c d) AND 63 = a" "drop_bit 12 (four a b c d) AND 63 = b"
    "drop_bit 6 (four a b c d) AND 63 = c" "four a b c d AND 63 = d"
    unfolding four_def and_63 by (rule bit_word_eqI; fastforce simp: bit_simps dest: s)+
  show "\<And>i. bit (four a b c d) i \<Longrightarrow> i < 24"
    unfolding four_def by (auto simp: bit_simps dest!: s)
qed

lemma three_bytes:
  assumes "\<And>i. bit m i \<Longrightarrow> i < 24"
  shows "three (ucast (drop_bit 16 m)) (ucast (drop_bit 8 m)) (ucast m) = m"
proof (rule bit_word_eqI)
  fix n assume n: "n < LENGTH(32)"
  show "bit (three (ucast (drop_bit 16 m)) (ucast (drop_bit 8 m)) (ucast m)) n = bit m n"
    using n assms [of n] unfolding three_def
    by (cases "n < 8"; cases "n < 16"; auto simp: bit_simps)
qed

lemma three_bits: "bit (three a b c) i \<Longrightarrow> i < 24"
  unfolding three_def by (auto simp: bit_simps dest: bit_imp_le_length)

lemma bytes_three: "ucast (drop_bit 16 (three a b c)) = a" "ucast (drop_bit 8 (three a b c)) = b" "ucast (three a b c) = c"
  unfolding three_def by (rule bit_word_eqI; auto simp: bit_simps dest: bit_imp_le_length)+

section \<open>The alphabet\<close>

lemma alphabet_facts: "length ALPHABET = 64" "distinct ALPHABET" "list_all (\<lambda>b. b < 128 \<and> b \<noteq> 61) ALPHABET"
  "map sextet ALPHABET = map (Some \<circ> of_nat) [0..<64]"
  by code_simp+

lemma position_of_nth: "distinct xs \<Longrightarrow> i < length xs \<Longrightarrow> position_of (xs ! i) xs = Some i"
  by (induction xs arbitrary: i) (auto simp: nth_Cons split: nat.splits)

lemma position_of_None: "x \<notin> set xs \<Longrightarrow> position_of x xs = None"
  by (induction xs) auto

lemma alphabet_nth:
  assumes "i < 64"
  shows "ALPHABET ! i < 128" "ALPHABET ! i \<noteq> 61" "sextet (ALPHABET ! i) = Some (of_nat i)" "position_of (ALPHABET ! i) ALPHABET = Some i"
proof -
  have "ALPHABET ! i \<in> set ALPHABET" using assms alphabet_facts(1) by simp
  then show "ALPHABET ! i < 128" "ALPHABET ! i \<noteq> 61" using alphabet_facts(3) by (auto simp: list_all_iff)
  have "map sextet ALPHABET ! i = Some (of_nat i)" using assms by (simp add: alphabet_facts(4))
  then show "sextet (ALPHABET ! i) = Some (of_nat i)" using assms alphabet_facts(1) by simp
  show "position_of (ALPHABET ! i) ALPHABET = Some i" using assms alphabet_facts by (simp add: position_of_nth)
qed

text \<open>Every byte with a sextet is a letter of the alphabet, and the padding is none.\<close>

lemma sextet_table:
  "list_all (\<lambda>b. case sextet b of None \<Rightarrow> True | Some v \<Rightarrow> unat v < 64 \<and> ALPHABET ! unat v = b) (map of_nat [43..<123])"
  by code_simp

lemma sextet_Some:
  assumes "sextet b = Some v"
  shows "ALPHABET ! unat v = b" "unat v < 64"
proof -
  have "43 \<le> unat b" "unat b < 123" using assms by (auto simp: sextet_def word_le_nat_alt split: if_splits)
  then have "b \<in> set (map of_nat [43..<123])"
    unfolding set_map set_upt by (intro image_eqI [of _ _ "unat b"]) simp_all
  then have "case sextet b of None \<Rightarrow> True | Some v \<Rightarrow> unat v < 64 \<and> ALPHABET ! unat v = b"
    using sextet_table unfolding list_all_iff by blast
  then show "ALPHABET ! unat v = b" "unat v < 64" using assms by simp_all
qed

definition code_of :: "u8 \<Rightarrow> u32" where
  "code_of b = of_nat (case position_of b ALPHABET of Some i \<Rightarrow> i | None \<Rightarrow> 0)"

lemma code_of_sextet:
  assumes "sextet b = Some v"
  shows "code_of b = ucast v" "take_bit 6 (code_of b) = code_of b" "alphabet_char (code_of b) = unat b"
proof -
  note v = sextet_Some [OF assms]
  have "position_of b ALPHABET = Some (unat v)" using alphabet_nth(4) [OF v(2)] v(1) by simp
  then have n: "code_of b = of_nat (unat v)" by (simp add: code_of_def)
  then show "code_of b = ucast v" by simp
  have u: "unat (code_of b) = unat v" unfolding n unat_of_nat using v(2) by simp
  show "take_bit 6 (code_of b) = code_of b"
  proof (rule unsigned_word_eqI)
    show "unat (take_bit 6 (code_of b)) = unat (code_of b)"
      unfolding unsigned_take_bit_eq u using v(2) by (simp add: take_bit_nat_eq_self)
  qed
  show "alphabet_char (code_of b) = unat b" using u v(1) by (simp add: alphabet_char_def)
qed

lemma code_of_pad: "code_of 61 = 0"
  using alphabet_facts(3) by (auto simp: code_of_def list_all_iff position_of_None)

lemma alphabet_char_code:
  assumes "unat n < 64"
  shows "alphabet_char n < 128" "of_nat (alphabet_char n) \<noteq> (61 :: u8)" "sextet (of_nat (alphabet_char n)) \<noteq> None"
    "code_of (of_nat (alphabet_char n)) = n"
proof -
  note a = alphabet_nth [OF assms]
  show "alphabet_char n < 128" using a(1) by (simp add: alphabet_char_def word_less_nat_alt)
  show "of_nat (alphabet_char n) \<noteq> (61 :: u8)" "sextet (of_nat (alphabet_char n)) \<noteq> None"
    "code_of (of_nat (alphabet_char n)) = n" using a by (simp_all add: alphabet_char_def code_of_def)
qed

lemma and_63_small: "unat (x AND 63 :: u32) < 64"
proof -
  have "unat (take_bit 6 x) = take_bit 6 (unat x)" by (simp only: unsigned_take_bit_eq)
  then show ?thesis by (simp add: and_63 take_bit_eq_mod)
qed

section \<open>Chunks\<close>

text \<open>The bytes of the text of a chunk.\<close>

definition encoded :: "u8 list \<Rightarrow> u8 list" where
  "encoded c = map of_nat (encode_chunk c)"

lemma encode_chunk_three:
  "encode_chunk [a] = [alphabet_char (drop_bit 18 (three a 0 0) AND 63), alphabet_char (drop_bit 12 (three a 0 0) AND 63), 61, 61]"
  "encode_chunk [a, b] = [alphabet_char (drop_bit 18 (three a b 0) AND 63), alphabet_char (drop_bit 12 (three a b 0) AND 63),
     alphabet_char (drop_bit 6 (three a b 0) AND 63), 61]"
  "encode_chunk [a, b, c] = [alphabet_char (drop_bit 18 (three a b c) AND 63), alphabet_char (drop_bit 12 (three a b c) AND 63),
     alphabet_char (drop_bit 6 (three a b c) AND 63), alphabet_char (three a b c AND 63)]"
  by (simp_all add: encode_chunk_def three_def get_at_def)

lemma decode_chunk_four:
  "decode_chunk [w, x, y, z] =
     (let n = four (code_of w) (code_of x) (code_of y) (code_of z)
      in [ucast (drop_bit 16 n)] @ (if y \<noteq> 61 then [ucast (drop_bit 8 n)] else []) @ (if z \<noteq> 61 then [ucast n] else []))"
  by (simp add: decode_chunk_def four_def code_of_def)

lemma low_sextets_zero: "drop_bit 6 (three a 0 0) AND 63 = 0" "three a 0 0 AND 63 = 0" "three a b 0 AND 63 = 0"
  unfolding three_def and_63 by (rule bit_word_eqI; auto simp: bit_simps)+

lemma four_three:
  "four (drop_bit 18 (three a b c) AND 63) (drop_bit 12 (three a b c) AND 63) (drop_bit 6 (three a b c) AND 63) (three a b c AND 63) =
     three a b c"
  by (rule four_sextets) (rule three_bits)

lemma decode_encoded:
  assumes "c \<noteq> []" "length c \<le> 3"
  shows "decode_chunk (encoded c) = c"
proof -
  note code = alphabet_char_code [OF and_63_small]
  consider a where "c = [a]" | a b where "c = [a, b]" | a b d where "c = [a, b, d]"
    using assms by (cases c; cases "tl c"; cases "tl (tl c)") auto
  then show ?thesis
  proof cases
    case 1
    have "four (drop_bit 18 (three a 0 0) AND 63) (drop_bit 12 (three a 0 0) AND 63) 0 0 = three a 0 0" for a
      using four_three [of a 0 0] by (simp only: low_sextets_zero)
    then show ?thesis by (simp add: 1 encoded_def encode_chunk_three decode_chunk_four code code_of_pad bytes_three Let_def)
  next
    case 2
    have "four (drop_bit 18 (three a b 0) AND 63) (drop_bit 12 (three a b 0) AND 63) (drop_bit 6 (three a b 0) AND 63) 0 = three a b 0" for a b
      using four_three [of a b 0] by (simp only: low_sextets_zero)
    then show ?thesis by (simp add: 2 encoded_def encode_chunk_three decode_chunk_four code code_of_pad bytes_three Let_def)
  next
    case 3
    then show ?thesis by (simp add: encoded_def encode_chunk_three decode_chunk_four code four_three bytes_three Let_def)
  qed
qed

fun last_quad :: "u8 list \<Rightarrow> bool" where
  "last_quad [w, x, y, z] \<longleftrightarrow> sextet w \<noteq> None \<and> sextet x \<noteq> None \<and>
     (if z \<noteq> 61 then sextet y \<noteq> None \<and> sextet z \<noteq> None
      else if y \<noteq> 61 then low_bits_clear 3 y else low_bits_clear 15 x)"
| "last_quad _ \<longleftrightarrow> False"

lemma sextet_pad: "sextet 61 = None"
  by (simp add: sextet_def)

lemma clear_bits:
  assumes "take_bit k v = (0 :: u8)" "i < k"
  shows "\<not> bit v i"
  using assms by (metis bit_0_eq bit_take_bit_iff bot_apply bot_bool_def)

lemma low_bits_clear_bits:
  assumes "low_bits_clear (mask k) b" "i < k"
  shows "\<not> bit (code_of b) i"
proof -
  obtain v where v: "sextet b = Some v" "take_bit k v = 0"
    using assms(1) by (auto simp: low_bits_clear_def take_bit_eq_mask split: option.splits)
  show ?thesis using clear_bits [OF v(2) assms(2)] by (simp add: code_of_sextet(1) [OF v(1)] bit_ucast_iff)
qed

lemma low_masks: "(3 :: u8) = mask 2" "(15 :: u8) = mask 4"
  by (simp_all add: mask_eq_exp_minus_1)

lemma code_small: "sextet b \<noteq> None \<Longrightarrow> take_bit 6 (code_of b) = code_of b"
  using code_of_sextet by auto

lemma encode_decoded:
  assumes "last_quad [w, x, y, z]"
  shows "encode_chunk (decode_chunk [w, x, y, z]) = map unat [w, x, y, z]"
proof -
  define n where "n = four (code_of w) (code_of x) (code_of y) (code_of z)"
  have char: "alphabet_char (code_of b) = unat b" if "sextet b \<noteq> None" for b using that code_of_sextet by auto
  have small: "take_bit 6 (code_of b) = code_of b" if "sextet b \<noteq> None \<or> b = 61" for b
    using that code_small by (auto simp: code_of_pad)
  have ok: "sextet w \<noteq> None" "sextet x \<noteq> None" "sextet y \<noteq> None \<or> y = 61" "sextet z \<noteq> None \<or> z = 61"
    using assms by (auto simp: low_bits_clear_def split: if_splits option.splits)
  note s = sextets_four [OF small [OF disjI1 [OF ok(1)]] small [OF disjI1 [OF ok(2)]] small [OF ok(3)] small [OF ok(4)], folded n_def]
  have n: "three (ucast (drop_bit 16 n)) (ucast (drop_bit 8 n)) (ucast n) = n" by (rule three_bytes) (rule s(5))
  have decoded: "decode_chunk [w, x, y, z] =
      [ucast (drop_bit 16 n)] @ (if y \<noteq> 61 then [ucast (drop_bit 8 n)] else []) @ (if z \<noteq> 61 then [ucast n] else [])"
    by (simp add: decode_chunk_four n_def Let_def)
  show ?thesis
  proof (cases "z = 61")
    case False
    then show ?thesis using assms ok n s
      unfolding decoded by (auto simp: encode_chunk_three char sextet_pad)
  next
    case True
    have low: "ucast n = (0 :: u8)" if "low_bits_clear 3 y \<or> y = 61"
      unfolding n_def four_def True code_of_pad
      by (rule bit_word_eqI)
        (use that low_bits_clear_bits [of 2 y] in \<open>fastforce simp: bit_simps code_of_pad low_masks\<close>)
    have mid: "ucast (drop_bit 8 n) = (0 :: u8)" if "low_bits_clear 15 x" "y = 61"
      unfolding n_def four_def True that(2) code_of_pad
      by (rule bit_word_eqI)
        (use that(1) low_bits_clear_bits [of 4 x] in \<open>fastforce simp: bit_simps low_masks\<close>)
    show ?thesis
    proof (cases "y = 61")
      case y: False
      then have "ucast n = (0 :: u8)" using assms True low by simp
      then show ?thesis using True y assms ok n s
        unfolding decoded by (auto simp: encode_chunk_three char)
    next
      case y: True
      then have "ucast n = (0 :: u8)" "ucast (drop_bit 8 n) = (0 :: u8)" using assms True low mid by auto
      then show ?thesis using True y assms ok n s
        unfolding decoded by (auto simp: encode_chunk_three char)
    qed
  qed
qed

section \<open>Canonical texts\<close>

lemma full_chunk:
  assumes "0 < n" "length (x # xs) mod n = 0"
  shows "n \<le> length (x # xs)" "length (drop (n - 1) xs) mod n = 0"
proof -
  show len: "n \<le> length (x # xs)"
  proof (rule ccontr)
    assume "\<not> n \<le> length (x # xs)"
    then have "length (x # xs) mod n = length (x # xs)" by (intro mod_less) simp
    then show False using assms(2) by simp
  qed
  show "length (drop (n - 1) xs) mod n = 0" using assms len le_mod_geq [of n "Suc (length xs)"] by simp
qed

lemma chunks_append: "0 < n \<Longrightarrow> length p mod n = 0 \<Longrightarrow> chunks n (p @ q) = chunks n p @ chunks n q"
proof (induction n p rule: chunks.induct)
  case (2 n x xs)
  from full_chunk [OF 2(2,3)] show ?case using 2 by (cases n) simp_all
qed simp

lemma chunks_single: "q \<noteq> [] \<Longrightarrow> length q \<le> n \<Longrightarrow> chunks n q = [q]"
  by (cases q) auto

lemma chunks_concat: "0 < n \<Longrightarrow> list_all (\<lambda>l. length l = n) ls \<Longrightarrow> chunks n (concat ls) = ls"
  by (induction ls) (auto simp: chunks_append chunks_single)

lemma concat_chunks: "0 < n \<Longrightarrow> concat (chunks n p) = p"
proof (induction n p rule: chunks.induct)
  case (2 n x xs)
  then show ?case by (cases n) simp_all
qed simp

lemma chunks_full:
  "0 < n \<Longrightarrow> length p mod n = 0 \<Longrightarrow> list_all (\<lambda>c. length c = n \<and> set c \<subseteq> set p) (chunks n p)"
proof (induction n p rule: chunks.induct)
  case (2 n x xs)
  note full = full_chunk [OF 2(2,3)]
  have "list_all (\<lambda>c. length c = n \<and> set c \<subseteq> set (x # xs)) (chunks n (drop (n - 1) xs))"
    using 2(1) [OF _ 2(2) full(2)] 2(2) by (auto simp: list_all_iff dest: in_set_dropD)
  moreover have "set (take n (x # xs)) \<subseteq> set (x # xs)" by (rule set_take_subset)
  ultimately show ?case using 2(2) full(1) by simp
qed simp

lemma four_elements: "length q = 4 \<Longrightarrow> \<exists>w x y z. q = [w, x, y, z]"
  by (auto simp: numeral_eq_Suc length_Suc_conv)

lemma split_last:
  assumes "0 < n" "b \<noteq> []"
  shows "\<exists>p q. b = p @ q \<and> length p mod n = 0 \<and> q \<noteq> [] \<and> length q \<le> n"
proof -
  define k where "k = (length b - 1) div n * n"
  have "k + (length b - 1) mod n = length b - 1" by (simp add: k_def)
  moreover have "(length b - 1) mod n < n" "0 < length b" using assms by simp_all
  ultimately have k: "k < length b" "length b \<le> k + n" by linarith+
  show ?thesis by (rule exI [of _ "take k b"], rule exI [of _ "drop k b"]) (use k in \<open>simp add: k_def\<close>)
qed

lemma canonical_snoc:
  "length p mod 4 = 0 \<Longrightarrow> canonical_base64_bytes (p @ [w, x, y, z]) \<longleftrightarrow>
     list_all (\<lambda>b. sextet b \<noteq> None) p \<and> last_quad [w, x, y, z]"
  by (cases "z = 61"; cases "y = 61"; cases "x = 61")
    (auto simp: canonical_base64_bytes_def Let_def list_ex_iff list_all_iff sextet_pad nth_append low_bits_clear_def
      split: option.splits)

lemma last_quad_elements: "last_quad q \<Longrightarrow> \<exists>w x y z. q = [w, x, y, z]"
  by (cases q rule: last_quad.cases) simp_all

definition canonical_split :: "u8 list \<Rightarrow> u8 list \<Rightarrow> bool" where
  "canonical_split p q \<longleftrightarrow> length p mod 4 = 0 \<and> list_all (\<lambda>b. sextet b \<noteq> None) p \<and> last_quad q"

lemma canonical_splits:
  assumes "canonical_base64_bytes b" "b \<noteq> []"
  shows "\<exists>p q. b = p @ q \<and> canonical_split p q"
proof -
  obtain p q where b: "b = p @ q" "length p mod 4 = 0" "q \<noteq> []" "length q \<le> 4"
    using split_last [of 4, OF _ assms(2)] by (metis zero_less_numeral)
  have "length b mod 4 = 0" using assms(1) unfolding canonical_base64_bytes_def by presburger
  then have "length q mod 4 = 0" unfolding b(1) length_append using b(2) by presburger
  then have "length q = 4" using b(3,4) by (cases "length q < 4") auto
  then obtain w x y z where q: "q = [w, x, y, z]" using four_elements by blast
  then have "canonical_split p q" using assms(1) b(1,2) canonical_snoc [OF b(2)] unfolding canonical_split_def by simp
  then show ?thesis using b(1) by blast
qed

lemma canonical_splitI: "canonical_split p q \<Longrightarrow> canonical_base64_bytes (p @ q)"
  unfolding canonical_split_def using last_quad_elements [of q] canonical_snoc [of p] by force

lemma ascii_bytes: "list_all (\<lambda>c. c < 128) s \<Longrightarrow> as_bytes s = map of_nat s"
  by (induction s) (simp_all add: as_bytes_def utf8_char_def)

text \<open>Only characters of one byte have no byte above the ASCII range.\<close>

lemma utf8_ascii: "\<exists>b\<in>set (utf8_char c). 128 \<le> b" if "128 \<le> c"
proof -
  have "unat (of_nat (0x80 + c mod 64) :: u8) = 0x80 + c mod 64"
    using mod_less_divisor [of 64 c] unfolding unat_of_nat by (intro mod_less) simp
  then have "128 \<le> (of_nat (0x80 + c mod 64) :: u8)" by (simp only: word_le_nat_alt) simp
  moreover have "of_nat (0x80 + c mod 64) \<in> set (utf8_char c)" using that by (simp add: utf8_char_def)
  ultimately show ?thesis by blast
qed

lemma bytes_ascii:
  assumes "list_all (\<lambda>b. b < 128) (as_bytes s)"
  shows "s = map unat (as_bytes s)"
  using assms
proof (induction s)
  case (Cons c s)
  have "c < 128"
  proof (rule ccontr)
    assume "\<not> c < 128"
    then obtain b where "b \<in> set (utf8_char c)" "128 \<le> b" using utf8_ascii [of c] by auto
    then show False using Cons.prems by (auto simp: as_bytes_def list_all_iff not_le [symmetric])
  qed
  moreover have "unat (of_nat c :: u8) = c" using \<open>c < 128\<close> by (simp add: unat_of_nat)
  ultimately show ?case using Cons by (simp add: as_bytes_def utf8_char_def)
qed (simp add: as_bytes_def)

lemma low_bits_clear_char:
  assumes "unat n < 64" "\<And>i. i < k \<Longrightarrow> \<not> bit n i"
  shows "low_bits_clear (mask k) (of_nat (alphabet_char n))"
proof -
  obtain v where v: "sextet (of_nat (alphabet_char n)) = Some v" using alphabet_char_code(3) [OF assms(1)] by blast
  have "n = ucast v" using code_of_sextet(1) [OF v] alphabet_char_code(4) [OF assms(1)] by simp
  then have "take_bit k v = 0" using assms(2) by (auto intro!: bit_word_eqI simp: bit_simps)
  then show ?thesis by (simp add: low_bits_clear_def v take_bit_eq_mask)
qed

lemma encoded_clear:
  "low_bits_clear 3 (of_nat (alphabet_char (drop_bit 6 (three a b 0) AND 63)))"
  "low_bits_clear 15 (of_nat (alphabet_char (drop_bit 12 (three a 0 0) AND 63)))"
proof -
  have "\<not> bit (drop_bit 6 (three a b 0) AND 63) i" if "i < 2" for i
    unfolding and_63 three_def using that by (auto simp: bit_simps)
  from low_bits_clear_char [OF and_63_small this] show "low_bits_clear 3 (of_nat (alphabet_char (drop_bit 6 (three a b 0) AND 63)))"
    unfolding low_masks by simp
  have "\<not> bit (drop_bit 12 (three a 0 0) AND 63) i" if "i < 4" for i
    unfolding and_63 three_def using that by (auto simp: bit_simps)
  from low_bits_clear_char [OF and_63_small this] show "low_bits_clear 15 (of_nat (alphabet_char (drop_bit 12 (three a 0 0) AND 63)))"
    unfolding low_masks by simp
qed

lemma encoded_elements:
  fixes a b d :: u8
  shows "encoded [a] = [of_nat (alphabet_char (drop_bit 18 (three a 0 0) AND 63)), of_nat (alphabet_char (drop_bit 12 (three a 0 0) AND 63)), 61, 61]"
    "encoded [a, b] = [of_nat (alphabet_char (drop_bit 18 (three a b 0) AND 63)), of_nat (alphabet_char (drop_bit 12 (three a b 0) AND 63)),
      of_nat (alphabet_char (drop_bit 6 (three a b 0) AND 63)), 61]"
    "encoded [a, b, d] = [of_nat (alphabet_char (drop_bit 18 (three a b d) AND 63)), of_nat (alphabet_char (drop_bit 12 (three a b d) AND 63)),
      of_nat (alphabet_char (drop_bit 6 (three a b d) AND 63)), of_nat (alphabet_char (three a b d AND 63))]"
  by (simp_all add: encoded_def encode_chunk_three)

lemma last_quads:
  assumes "unat p < 64" "unat q < 64"
  shows "low_bits_clear 15 (of_nat (alphabet_char q)) \<Longrightarrow> last_quad [of_nat (alphabet_char p), of_nat (alphabet_char q), 61, 61]"
    "unat r < 64 \<Longrightarrow> low_bits_clear 3 (of_nat (alphabet_char r)) \<Longrightarrow>
       last_quad [of_nat (alphabet_char p), of_nat (alphabet_char q), of_nat (alphabet_char r), 61]"
    "unat r < 64 \<Longrightarrow> unat s < 64 \<Longrightarrow>
       last_quad [of_nat (alphabet_char p), of_nat (alphabet_char q), of_nat (alphabet_char r), of_nat (alphabet_char s)]"
    "unat r < 64 \<Longrightarrow> unat s < 64 \<Longrightarrow> list_all (\<lambda>b. sextet b \<noteq> None)
       [of_nat (alphabet_char p), of_nat (alphabet_char q), of_nat (alphabet_char r), of_nat (alphabet_char s)]"
  using alphabet_char_code(2,3) assms by simp_all

lemma encoded_shape:
  assumes "c \<noteq> []" "length c \<le> 3"
  shows "length (encoded c) = 4 \<and> list_all (\<lambda>x. x < 128) (encode_chunk c) \<and> last_quad (encoded c) \<and>
    (length c = 3 \<longrightarrow> list_all (\<lambda>b. sextet b \<noteq> None) (encoded c))"
proof -
  note small = and_63_small alphabet_char_code(1) [OF and_63_small]
  consider a where "c = [a]" | a b where "c = [a, b]" | a b d where "c = [a, b, d]"
    using assms by (cases c; cases "tl c"; cases "tl (tl c)") auto
  then show ?thesis
  proof cases
    case 1
    show ?thesis unfolding 1 encoded_elements encode_chunk_three
      by (intro conjI last_quads small encoded_clear impI; simp add: small)
  next
    case 2
    show ?thesis unfolding 2 encoded_elements encode_chunk_three
      by (intro conjI last_quads small encoded_clear impI; simp add: small)
  next
    case 3
    show ?thesis unfolding 3 encoded_elements encode_chunk_three
      by (intro conjI last_quads small impI; simp add: small)
  qed
qed

lemma chunks_bounds: "0 < n \<Longrightarrow> c \<in> set (chunks n p) \<Longrightarrow> c \<noteq> [] \<and> length c \<le> n"
proof (induction n p rule: chunks.induct)
  case (2 n x xs)
  then show ?case by (cases n) auto
qed simp

lemma encode_bytes_bytes: "as_bytes (encode_bytes bs) = concat (map encoded (chunks 3 bs))"
proof -
  have "list_all (\<lambda>c. c < 128) (encode_chunk c)" if "c \<in> set (chunks 3 bs)" for c
    using encoded_shape [of c] chunks_bounds [of 3 c bs] that by simp
  then have "list_all (\<lambda>c. c < 128) (encode_bytes bs)" by (simp add: encode_bytes_def list_all_iff)
  then show ?thesis by (simp add: ascii_bytes) (simp add: encode_bytes_def map_concat encoded_def [abs_def] comp_def)
qed

lemma decode_encode_bytes: "decode_bytes (encode_bytes bs) = Inr bs"
proof (cases "bs = []")
  case True
  then show ?thesis by (simp add: decode_bytes_def canonical_base64_def canonical_base64_bytes_def encode_bytes_def as_bytes_def)
next
  case False
  then obtain p q where bs: "bs = p @ q" "length p mod 3 = 0" "q \<noteq> []" "length q \<le> 3"
    using split_last [of 3 bs] by (metis zero_less_numeral)
  define cs where "cs = chunks 3 p"
  have cs: "chunks 3 bs = cs @ [q]" using bs by (simp add: chunks_append chunks_single cs_def)
  have full: "c \<noteq> [] \<and> length c = 3" if "c \<in> set cs" for c
    using chunks_full [of 3 p] chunks_bounds [of 3 c p] bs(2) that by (auto simp: cs_def list_all_iff)
  have shape: "length (encoded c) = 4 \<and> list_all (\<lambda>b. sextet b \<noteq> None) (encoded c)" if "c \<in> set cs" for c
    using encoded_shape [of c] full [OF that] by simp
  have b: "as_bytes (encode_bytes bs) = concat (map encoded cs) @ encoded q" by (simp add: encode_bytes_bytes cs)
  have "length (concat (map encoded cs)) = 4 * length cs"
    using shape by (induction cs) auto
  then have "canonical_split (concat (map encoded cs)) (encoded q)"
    using shape encoded_shape [OF bs(3,4)] by (auto simp: canonical_split_def list_all_iff)
  then have "canonical_base64 (encode_bytes bs)" unfolding canonical_base64_def b by (rule canonical_splitI)
  moreover have "chunks 4 (as_bytes (encode_bytes bs)) = map encoded (chunks 3 bs)"
    unfolding encode_bytes_bytes using encoded_shape chunks_bounds [of 3 _ bs]
    by (intro chunks_concat) (auto simp: list_all_iff)
  moreover have "map (decode_chunk \<circ> encoded) (chunks 3 bs) = chunks 3 bs"
    using decode_encoded chunks_bounds [of 3 _ bs] by (auto intro: map_idI)
  ultimately show ?thesis by (simp add: decode_bytes_def concat_chunks)
qed

lemma last_quad_decoded:
  assumes "last_quad q"
  shows "decode_chunk q \<noteq> []" "length (decode_chunk q) \<le> 3" "encode_chunk (decode_chunk q) = map unat q" "length q = 4"
    "list_all (\<lambda>b. b < 128) q"
proof -
  obtain w x y z where q: "q = [w, x, y, z]" using last_quad_elements [OF assms] by blast
  have ascii: "b < 128" if "sextet b \<noteq> None \<or> b = 61" for b
    using that by (auto simp: sextet_def word_less_nat_alt word_le_nat_alt split: if_splits)
  show "list_all (\<lambda>b. b < 128) q"
    using assms unfolding q by (auto simp: low_bits_clear_def ascii split: if_splits option.splits)
  show "encode_chunk (decode_chunk q) = map unat q" using encode_decoded assms unfolding q .
  show "decode_chunk q \<noteq> []" "length (decode_chunk q) \<le> 3" "length q = 4" unfolding q decode_chunk_four Let_def by simp_all
qed

lemma full_quad:
  assumes "length q = 4" "list_all (\<lambda>b. sextet b \<noteq> None) q"
  shows "last_quad q" "length (decode_chunk q) = 3"
proof -
  obtain w x y z where q: "q = [w, x, y, z]" using four_elements [OF assms(1)] by blast
  have "y \<noteq> 61" "z \<noteq> 61" using assms(2) sextet_pad unfolding q by auto
  then show "last_quad q" "length (decode_chunk q) = 3" using assms(2) unfolding q decode_chunk_four Let_def by simp_all
qed

lemma encode_decode_bytes:
  assumes "decode_bytes s = Inr bs"
  shows "encode_bytes bs = s"
proof -
  define b where "b = as_bytes s"
  have canonical: "canonical_base64_bytes b" and bs: "bs = concat (map decode_chunk (chunks 4 b))"
    using assms by (simp_all add: decode_bytes_def canonical_base64_def b_def split: if_splits)
  show ?thesis
  proof (cases "b = []")
    case True
    then have "s = map unat b" using bytes_ascii [of s] by (simp add: b_def)
    then show ?thesis using True bs by (simp add: encode_bytes_def)
  next
    case False
    obtain p q where split: "b = p @ q" "canonical_split p q" using canonical_splits [OF canonical False] by blast
    define qs where "qs = chunks 4 p"
    have last: "last_quad q" and p: "length p mod 4 = 0" "list_all (\<lambda>b. sextet b \<noteq> None) p"
      using split(2) by (simp_all add: canonical_split_def)
    have quad: "length c = 4 \<and> list_all (\<lambda>b. sextet b \<noteq> None) c" if "c \<in> set qs" for c
      using chunks_full [of 4 p] p that by (auto simp: qs_def list_all_iff)
    have "q \<noteq> []" using last_quad_decoded(4) [OF last] by auto
    then have b: "chunks 4 b = qs @ [q]" "concat (qs @ [q]) = b"
      using split(1) p last_quad_decoded(4) [OF last] by (simp_all add: chunks_append chunks_single qs_def concat_chunks)
    have three: "list_all (\<lambda>l. length l = 3) (map decode_chunk qs)" using quad full_quad(2) by (auto simp: list_all_iff)
    then have "length (concat (map decode_chunk qs)) = 3 * length qs" by (induction qs) auto
    then have "chunks 3 bs = map decode_chunk qs @ [decode_chunk q]"
      using three last_quad_decoded(1,2) [OF last] by (simp add: bs b(1) chunks_append chunks_single chunks_concat)
    moreover have "map (encode_chunk \<circ> decode_chunk) qs = map (map unat) qs"
      using quad full_quad(1) last_quad_decoded(3) by simp
    ultimately have "encode_bytes bs = map unat (concat (qs @ [q]))"
      using last_quad_decoded(3) [OF last] by (simp add: encode_bytes_def map_concat del: map_eq_conv)
    moreover have "list_all (\<lambda>b. b < 128) c" if "c \<in> set (qs @ [q])" for c
      using that last last_quad_decoded(5) quad full_quad(1) by auto
    then have "list_all (\<lambda>b. b < 128) b" unfolding b(2) [symmetric] list_all_iff by fastforce
    ultimately show ?thesis using bytes_ascii [of s] by (simp only: b(2)) (simp add: b_def)
  qed
qed

text \<open>
  The base 64 form of bytes is a bijection: a text decodes to some bytes exactly when it is the
  encoding of these bytes. So decoding an encoding gives the bytes back, and every other text (wrong
  length, foreign characters, misplaced padding, stray bits before the padding) is refused.
\<close>

theorem base64_exact: "decode_bytes s = Inr bs \<longleftrightarrow> s = encode_bytes bs"
  using decode_encode_bytes encode_decode_bytes by blast

section \<open>Normal forms\<close>

fun nesting :: "json \<Rightarrow> nat" where
  "nesting (JArray xs) = fold max (map (\<lambda>x. nesting x + 1) xs) 0"
| "nesting (JObject fs) = fold max (map (\<lambda>(k, x). nesting x + 1) fs) 0"
| "nesting _ = 0"

fun normal :: "json \<Rightarrow> json" where
  "normal (JNumber n) = JNumber (normal_number n)"
| "normal (JArray xs) = JArray (map normal xs)"
| "normal (JObject fs) = JObject (map (\<lambda>(k, x). (k, normal x)) fs)"
| "normal v = v"

lemma fold_max_le: "fold max ns (m :: nat) \<le> k \<longleftrightarrow> m \<le> k \<and> (\<forall>n\<in>set ns. n \<le> k)"
  by (induction ns arbitrary: m) auto

lemma depth_le:
  fixes f :: "'a \<Rightarrow> nat"
  shows "d + fold max (map (\<lambda>x. f x + 1) xs) 0 \<le> limit \<longleftrightarrow> d \<le> limit \<and> (\<forall>x\<in>set xs. d + 1 + f x \<le> limit)"
proof (cases "d \<le> limit")
  case True
  then have "d + m \<le> limit \<longleftrightarrow> m \<le> limit - d" for m by linarith
  moreover have "f x + 1 \<le> limit - d \<longleftrightarrow> d + 1 + f x \<le> limit" for x using True by linarith
  ultimately show ?thesis using True by (simp add: fold_max_le)
qed simp

abbreviation too_deep :: rpc_error where
  "too_deep \<equiv> rpc_new (ascii ''INVALID_ARGUMENT'') (ascii ''JSON nesting limit exceeded'')"

lemma normalize_exact:
  "normalize_value d limit v = (if d + nesting v \<le> limit then Inr (normal v) else Inl too_deep)"
  "d \<le> limit \<Longrightarrow> normalize_items d limit xs = (if \<forall>x\<in>set xs. d + 1 + nesting x \<le> limit then Inr (map normal xs) else Inl too_deep)"
  "d \<le> limit \<Longrightarrow> normalize_fields d limit fs =
     (if \<forall>(k, x)\<in>set fs. d + 1 + nesting x \<le> limit then Inr (map (\<lambda>(k, x). (k, normal x)) fs) else Inl too_deep)"
proof (induction d limit v and d limit xs and d limit fs rule: normalize_value_normalize_items_normalize_fields.induct)
  case (1 d limit v)
  show ?case
  proof (cases v)
    case (JArray xs)
    have "d + nesting v \<le> limit \<longleftrightarrow> d \<le> limit \<and> (\<forall>x\<in>set xs. d + 1 + nesting x \<le> limit)"
      unfolding JArray nesting.simps by (rule depth_le)
    then show ?thesis using 1 JArray by auto
  next
    case (JObject fs)
    have "d + nesting v \<le> limit \<longleftrightarrow> d \<le> limit \<and> (\<forall>(k, x)\<in>set fs. d + 1 + nesting x \<le> limit)"
      unfolding JObject nesting.simps using depth_le [of d "\<lambda>(k, x). nesting x" fs limit] by (simp add: split_def)
    then show ?thesis using 1 JObject by auto
  qed auto
qed auto

lemma round_53_small: "n < 2 ^ 53 \<Longrightarrow> round_53 n = n"
  by (simp add: round_53_def excess.simps)

lemma number_value_i64:
  assumes "\<bar>i\<bar> \<le> 9007199254740991"
  shows "number_value (number_of_i64 i) = i * UNIT"
proof (cases "i < 0")
  case True
  have "sint (word_of_int i :: u64) = i" using assms by (simp add: sint_sbintrunc' signed_take_bit_int_eq_self)
  then show ?thesis using assms True by (simp add: number_of_i64_def round_53_small)
next
  case False
  have "unat (word_of_int i :: u64) = nat i" using assms False by (simp add: unat_eq_nat_uint uint_word_of_int)
  then show ?thesis using assms False by (simp add: number_of_i64_def round_53_small)
qed

lemma normal_number_stable: "normal_number (normal_number n) = normal_number n"
proof (cases "UNIT dvd number_value n \<and> \<bar>number_value n\<bar> \<le> 9007199254740991 * UNIT")
  case True
  define i where "i = number_value n div UNIT"
  have u: "0 < UNIT" by (simp add: UNIT_def)
  have n: "number_value n = i * UNIT" using True by (simp add: i_def)
  then have "\<bar>i\<bar> * UNIT \<le> 9007199254740991 * UNIT" using True u by (simp add: abs_mult)
  then have "\<bar>i\<bar> \<le> 9007199254740991" using u by (simp add: mult_le_cancel_right)
  then have "number_value (number_of_i64 i) = number_value n" by (simp add: number_value_i64 n)
  moreover have "normal_number n = number_of_i64 i" using True by (simp add: normal_number_def i_def Let_def)
  ultimately show ?thesis using True by (simp add: normal_number_def Let_def i_def)
qed (auto simp: normal_number_def Let_def)

lemma normal_stable: "normal (normal v) = normal v" "nesting (normal v) = nesting v"
  by (induction v rule: normal.induct)
    (auto simp: normal_number_stable comp_def split_def intro!: arg_cong [where f = "\<lambda>ns. fold max ns 0"] cong: map_cong)

text \<open>
  C36: Normalising a value fails exactly when it is nested deeper than the limit; otherwise every
  number ends in its unique stored form, and normalising the result again changes nothing, so that
  both ends of a connection agree on a value.
\<close>

theorem normalize_stable:
  "(\<exists>w. normalize_value 0 limit v = Inr w \<and> normalize_value 0 limit w = Inr w \<and> w = normal v) \<longleftrightarrow> nesting v \<le> limit"
  by (auto simp: normalize_exact(1) normal_stable simp del: normalize_value.simps)

end
