(* ===== verification/Wire_Schema.thy ===== *)
theory Wire_Schema
  imports Wire_Values
begin

text \<open>
  Contract schemas of the plugin protocol (\<open>schema.rs\<close>): the profile of JSON schema a contract may use,
  its checker, the validator of values, and the checks of requests, results, errors, events and
  snapshots against a contract. The library for JSON values is an argument: looking up a pointer in a
  document, and printing a value in an error message.
\<close>

section \<open>Schema documents\<close>

record json_lib =
  pointer :: "json \<Rightarrow> rstring \<Rightarrow> json option"
  show_json :: "json \<Rightarrow> rstring"

definition invalid :: "rstring \<Rightarrow> rpc_error" where
  "invalid message = rpc_new (ascii ''INVALID_ARGUMENT'') message"

abbreviation has_key :: "(rstring \<times> json) list \<Rightarrow> string \<Rightarrow> bool" where
  "has_key fs k \<equiv> map_of fs (ascii k) \<noteq> None"

definition set_key :: "json \<Rightarrow> rstring \<Rightarrow> json \<Rightarrow> json" where
  "set_key s k v = (case s of JObject fs \<Rightarrow> JObject (AList.update k v fs) | _ \<Rightarrow> s)"

definition remove_key :: "json \<Rightarrow> rstring \<Rightarrow> json" where
  "remove_key s k = (case s of JObject fs \<Rightarrow> JObject (AList.delete k fs) | _ \<Rightarrow> s)"

datatype complaint =
    NestingExceeded | NotLocal | Unresolved rstring | UnionMismatch | InvalidNullable | ConstMismatch | EnumMismatch
  | ExpectedObject | InvalidObjectSchema | MissingRequired json | UnknownProperty rstring | ExpectedArray
  | LengthBound | ExpectedString | InvalidWire rstring | ExpectedNumber | UnsafeInteger | NumericBound
  | ExpectedBoolean | ExpectedNull | UnsupportedType

text \<open>Complaints about the schema, not about the value.\<close>

fun blames_schema :: "complaint \<Rightarrow> bool" where
  "blames_schema NestingExceeded = True"
| "blames_schema NotLocal = True"
| "blames_schema (Unresolved _) = True"
| "blames_schema InvalidNullable = True"
| "blames_schema InvalidObjectSchema = True"
| "blames_schema UnsupportedType = True"
| "blames_schema _ = False"

fun complaint_text :: "json_lib \<Rightarrow> complaint \<Rightarrow> rstring" where
  "complaint_text L NestingExceeded = ascii ''maximum nesting exceeded''"
| "complaint_text L NotLocal = ascii ''only bundled local #/$defs/... references are supported''"
| "complaint_text L (Unresolved r) = ascii ''unresolved schema reference '' @ r"
| "complaint_text L UnionMismatch = ascii ''union variant mismatch''"
| "complaint_text L InvalidNullable = ascii ''invalid nullable type''"
| "complaint_text L ConstMismatch = ascii ''const mismatch''"
| "complaint_text L EnumMismatch = ascii ''enum mismatch''"
| "complaint_text L ExpectedObject = ascii ''expected object''"
| "complaint_text L InvalidObjectSchema = ascii ''invalid object schema''"
| "complaint_text L (MissingRequired k) = ascii ''missing required '' @ show_json L k"
| "complaint_text L (UnknownProperty k) = ascii ''unknown property '' @ k"
| "complaint_text L ExpectedArray = ascii ''expected array''"
| "complaint_text L LengthBound = ascii ''length bound exceeded''"
| "complaint_text L ExpectedString = ascii ''expected string''"
| "complaint_text L (InvalidWire w) = ascii ''invalid '' @ w"
| "complaint_text L ExpectedNumber = ascii ''expected finite number''"
| "complaint_text L UnsafeInteger = ascii ''integer outside safe range''"
| "complaint_text L NumericBound = ascii ''numeric bound exceeded''"
| "complaint_text L ExpectedBoolean = ascii ''expected boolean''"
| "complaint_text L ExpectedNull = ascii ''expected null''"
| "complaint_text L UnsupportedType = ascii ''unsupported schema type''"

text \<open>A complaint at a path; failing references are reported without it.\<close>

datatype violation = Violation rstring complaint

fun violation_error :: "json_lib \<Rightarrow> violation \<Rightarrow> rpc_error" where
  "violation_error L (Violation path NotLocal) = invalid (complaint_text L NotLocal)"
| "violation_error L (Violation path (Unresolved r)) = invalid (complaint_text L (Unresolved r))"
| "violation_error L (Violation path c) = invalid (path @ ascii '': '' @ complaint_text L c)"

definition resolve :: "json_lib \<Rightarrow> json \<Rightarrow> rstring \<Rightarrow> complaint + json" where
  "resolve L root r =
     (if take 8 r \<noteq> ascii ''#/$defs/'' then Inl NotLocal
      else case pointer L root (drop 1 r) of Some s \<Rightarrow> Inr s | None \<Rightarrow> Inl (Unresolved r))"

section \<open>Validation\<close>

fun nat_text :: "nat \<Rightarrow> rstring" where
  "nat_text n = (if n < 10 then [48 + n] else nat_text (n div 10) @ [48 + n mod 10])"

declare nat_text.simps [simp del]

definition escape_char :: "rchar \<Rightarrow> rstring" where
  "escape_char c = (if c = of_char CHR ''~'' then ascii ''~0'' else if c = of_char CHR ''/'' then ascii ''~1'' else [c])"

definition child_path :: "rstring \<Rightarrow> rstring \<Rightarrow> rstring" where
  "child_path path k = path @ ascii ''/'' @ concat (map escape_char k)"

definition length_bounds :: "json \<Rightarrow> nat \<Rightarrow> rstring \<Rightarrow> rstring \<Rightarrow> bool" where
  "length_bounds s n lo hi =
     ((case as_u64 (at_key s lo) of None \<Rightarrow> True | Some m \<Rightarrow> m \<le> n) \<and>
      (case as_u64 (at_key s hi) of None \<Rightarrow> True | Some m \<Rightarrow> n \<le> m))"

definition wire_ok :: "rstring \<Rightarrow> rstring \<Rightarrow> bool" where
  "wire_ok w x =
     (if w = ascii ''i64-decimal'' then canonical_decimal x True \<and> parse_i64 x \<noteq> None
      else if w = ascii ''u64-decimal'' then canonical_decimal x False \<and> parse_u64 x \<noteq> None
      else if w = ascii ''bytes-base64'' then canonical_base64 x
      else if w = ascii ''utc-datetime'' then utc_datetime x
      else False)"

definition const_ok :: "json \<Rightarrow> json \<Rightarrow> bool" where
  "const_ok c v = (c = v \<or> (case (as_f64 c, as_f64 v) of (Some x, Some y) \<Rightarrow> x = y | _ \<Rightarrow> False))"

definition check_string :: "json \<Rightarrow> json \<Rightarrow> complaint + unit" where
  "check_string s v =
     (case as_string v of
        None \<Rightarrow> Inl ExpectedString
      | Some x \<Rightarrow>
          if \<not> length_bounds s (length x) (ascii ''minLength'') (ascii ''maxLength'') then Inl LengthBound
          else case as_string (at_key s (ascii ''x-wire-type'')) of
            None \<Rightarrow> Inr ()
          | Some w \<Rightarrow> if wire_ok w x then Inr () else Inl (InvalidWire w))"

definition check_number :: "json \<Rightarrow> json \<Rightarrow> complaint + unit" where
  "check_number s v =
     (case as_f64 v of
        None \<Rightarrow> Inl ExpectedNumber
      | Some n \<Rightarrow>
          if at_key s (ascii ''type'') = JString (ascii ''integer'') \<and> (\<not> UNIT dvd n \<or> \<bar>n\<bar> > 9007199254740991 * UNIT)
          then Inl UnsafeInteger
          else if (case as_f64 (at_key s (ascii ''minimum'')) of None \<Rightarrow> False | Some m \<Rightarrow> n < m)
               \<or> (case as_f64 (at_key s (ascii ''maximum'')) of None \<Rightarrow> False | Some m \<Rightarrow> n > m)
          then Inl NumericBound else Inr ())"

definition at_path :: "rstring \<Rightarrow> complaint + unit \<Rightarrow> violation + unit" where
  "at_path path r = (case r of Inl c \<Rightarrow> Inl (Violation path c) | Inr u \<Rightarrow> Inr u)"

text \<open>Objects and arrays, with the validation of their parts as an argument.\<close>

definition check_object ::
  "(json \<Rightarrow> json \<Rightarrow> rstring \<Rightarrow> violation + unit) \<Rightarrow> json \<Rightarrow> json \<Rightarrow> rstring \<Rightarrow> violation + unit" where
  "check_object part s v path =
     (case as_object v of
        None \<Rightarrow> Inl (Violation path ExpectedObject)
      | Some fs \<Rightarrow>
          (case as_object (at_key s (ascii ''properties'')) of
             None \<Rightarrow> Inl (Violation path InvalidObjectSchema)
           | Some p \<Rightarrow>
               bind_outcome
                 (case as_array (at_key s (ascii ''required'')) of
                    None \<Rightarrow> Inr ()
                  | Some a \<Rightarrow> all_checks (map (\<lambda>k.
                      if map_of fs (case as_string k of Some x \<Rightarrow> x | None \<Rightarrow> []) = None
                      then Inl (Violation path (MissingRequired k)) else Inr ()) a))
                 (\<lambda>_. all_checks (map (\<lambda>(k, x).
                    case map_of p k of
                      None \<Rightarrow> Inl (Violation path (UnknownProperty k))
                    | Some schema \<Rightarrow> part schema x (child_path path k)) fs))))"

definition check_array ::
  "(json \<Rightarrow> json \<Rightarrow> rstring \<Rightarrow> violation + unit) \<Rightarrow> json \<Rightarrow> json \<Rightarrow> rstring \<Rightarrow> violation + unit" where
  "check_array part s v path =
     (case as_array v of
        None \<Rightarrow> Inl (Violation path ExpectedArray)
      | Some a \<Rightarrow>
          if \<not> length_bounds s (length a) (ascii ''minItems'') (ascii ''maxItems'') then Inl (Violation path LengthBound)
          else all_checks (map (\<lambda>(i, x). part (at_key s (ascii ''items'')) x (path @ ascii ''/'' @ nat_text i)) (enumerate 0 a)))"

definition check_type ::
  "(json \<Rightarrow> json \<Rightarrow> rstring \<Rightarrow> violation + unit) \<Rightarrow> json \<Rightarrow> json \<Rightarrow> rstring \<Rightarrow> violation + unit" where
  "check_type part s v path =
     (case as_string (at_key s (ascii ''type'')) of
        None \<Rightarrow> Inr ()
      | Some t \<Rightarrow>
          if t = ascii ''object'' then check_object part s v path
          else if t = ascii ''array'' then check_array part s v path
          else if t = ascii ''string'' then at_path path (check_string s v)
          else if t = ascii ''integer'' \<or> t = ascii ''number'' then at_path path (check_number s v)
          else if t = ascii ''boolean'' then
            (case v of JBool _ \<Rightarrow> Inr () | _ \<Rightarrow> Inl (Violation path ExpectedBoolean))
          else if t = ascii ''null'' then
            (case v of JNull \<Rightarrow> Inr () | _ \<Rightarrow> Inl (Violation path ExpectedNull))
          else Inl (Violation path UnsupportedType))"

definition check_plain ::
  "(json \<Rightarrow> json \<Rightarrow> rstring \<Rightarrow> violation + unit) \<Rightarrow> json \<Rightarrow> json \<Rightarrow> rstring \<Rightarrow> violation + unit" where
  "check_plain part s v path =
     (if (case get_key s (ascii ''const'') of None \<Rightarrow> False | Some c \<Rightarrow> \<not> const_ok c v) then Inl (Violation path ConstMismatch)
      else if (case as_array (at_key s (ascii ''enum'')) of None \<Rightarrow> False | Some e \<Rightarrow> v \<notin> set e)
      then Inl (Violation path EnumMismatch)
      else check_type part s v path)"

text \<open>The first argument is \<open>65 - depth\<close>.\<close>

fun validate_at :: "json_lib \<Rightarrow> nat \<Rightarrow> json \<Rightarrow> json \<Rightarrow> json \<Rightarrow> rstring \<Rightarrow> violation + unit" where
  "validate_at L 0 s v root path = Inl (Violation path NestingExceeded)"
| "validate_at L (Suc n) s v root path =
     (case as_string (at_key s (ascii ''$ref'')) of
        Some r \<Rightarrow>
          (case resolve L root r of Inl c \<Rightarrow> Inl (Violation path c) | Inr t \<Rightarrow> validate_at L n t v root path)
      | None \<Rightarrow>
      case as_array (at_key s (ascii ''oneOf'')) of
        Some a \<Rightarrow>
          if length (filter (\<lambda>t. validate_at L n t v root path = Inr ()) a) = 1 then Inr ()
          else Inl (Violation path UnionMismatch)
      | None \<Rightarrow>
      case as_array (at_key s (ascii ''type'')) of
        Some types \<Rightarrow>
          if v = JNull then Inr ()
          else (case find (\<lambda>t. t \<noteq> JString (ascii ''null'')) types of
                  None \<Rightarrow> Inl (Violation path InvalidNullable)
                | Some t \<Rightarrow> validate_at L n (set_key s (ascii ''type'') t) v root path)
      | None \<Rightarrow> check_plain (\<lambda>t x p. validate_at L n t x root p) s v path)"

section \<open>The checker of schemas\<close>

definition schema_keys :: "rstring list" where
  "schema_keys = map ascii
     [''$schema'', ''$defs'', ''$ref'', ''type'', ''properties'', ''required'', ''additionalProperties'', ''items'',
      ''minItems'', ''maxItems'', ''minLength'', ''maxLength'', ''minimum'', ''maximum'', ''enum'', ''const'', ''oneOf'',
      ''title'', ''description'', ''x-wire-type'']"

definition ensure :: "bool \<Rightarrow> rstring \<Rightarrow> unit plugin_result" where
  "ensure b m = (if b then Inr () else Inl (invalid m))"

definition is_string :: "json \<Rightarrow> bool" where
  "is_string v = (as_string v \<noteq> None)"

definition check_metadata :: "(rstring \<times> json) list \<Rightarrow> unit plugin_result" where
  "check_metadata fs =
     all_checks (
       [ensure (case map_of fs (ascii ''$schema'') of None \<Rightarrow> True
          | Some v \<Rightarrow> v = JString (ascii ''https://json-schema.org/draft/2020-12/schema'')) (ascii ''schema draft must be 2020-12'')] @
       map (\<lambda>k. ensure (case map_of fs (ascii k) of None \<Rightarrow> True | Some v \<Rightarrow> is_string v) (ascii ''schema metadata must be strings''))
         [''title'', ''description''] @
       map (\<lambda>(k, _). ensure (k \<in> set schema_keys) (ascii ''unsupported schema keyword '' @ k)) fs)"

definition only_keys :: "(rstring \<times> json) list \<Rightarrow> string list \<Rightarrow> bool" where
  "only_keys fs ks = list_all (\<lambda>(k, _). k \<in> set (map ascii ks)) fs"

definition check_reference ::
  "json_lib \<Rightarrow> (json \<Rightarrow> rstring list \<Rightarrow> unit plugin_result) \<Rightarrow> (rstring \<times> json) list \<Rightarrow> json \<Rightarrow> json \<Rightarrow> rstring list \<Rightarrow> unit plugin_result" where
  "check_reference L check fs rv root stack =
     (case as_string rv of
        None \<Rightarrow> Inl (invalid (ascii ''$ref must be string''))
      | Some r \<Rightarrow>
          if \<not> only_keys fs [''$ref'', ''title'', ''description''] then Inl (invalid (ascii ''$ref cannot have semantic siblings''))
          else if length stack \<ge> 32 then Inl (invalid (ascii ''schema reference chain exceeds 32''))
          else if r \<in> set stack then Inl (invalid (ascii ''recursive schema reference '' @ r))
          else case resolve L root r of
            Inl c \<Rightarrow> Inl (violation_error L (Violation [] c))
          | Inr t \<Rightarrow> check t (stack @ [r]))"

definition check_nullable ::
  "(json \<Rightarrow> rstring list \<Rightarrow> unit plugin_result) \<Rightarrow> json \<Rightarrow> json list \<Rightarrow> rstring list \<Rightarrow> unit plugin_result" where
  "check_nullable check s types stack =
     (if get_key s (ascii ''enum'') \<noteq> None \<or> get_key s (ascii ''const'') \<noteq> None
      then Inl (invalid (ascii ''nullable type arrays cannot combine enum/const''))
      else if length types \<noteq> 2 \<or> length (filter (\<lambda>t. t = JString (ascii ''null'')) types) \<noteq> 1 \<or> \<not> list_all is_string types
      then Inl (invalid (ascii ''nullable type array requires exactly one type and null''))
      else case find (\<lambda>t. t \<noteq> JString (ascii ''null'')) types of
        None \<Rightarrow> Inr ()
      | Some t \<Rightarrow> check (set_key s (ascii ''type'') t) stack)"

definition check_bounds :: "(rstring \<times> json) list \<Rightarrow> unit plugin_result" where
  "check_bounds fs =
     all_checks (
       map (\<lambda>k. ensure (case map_of fs (ascii k) of None \<Rightarrow> True
          | Some v \<Rightarrow> (case as_u64 v of None \<Rightarrow> False | Some n \<Rightarrow> n \<le> 9007199254740991))
          (ascii ''length bounds must be nonnegative integers''))
         [''minItems'', ''maxItems'', ''minLength'', ''maxLength''] @
       map (\<lambda>k. ensure (case map_of fs (ascii k) of None \<Rightarrow> True | Some v \<Rightarrow> as_f64 v \<noteq> None)
          (ascii ''numeric bounds must be finite numbers'')) [''minimum'', ''maximum''] @
       map (\<lambda>(lo, hi). ensure (case (map_of fs (ascii lo), map_of fs (ascii hi)) of
            (Some a, Some b) \<Rightarrow> (case (as_f64 a, as_f64 b) of (Some x, Some y) \<Rightarrow> x \<le> y | _ \<Rightarrow> False)
          | _ \<Rightarrow> True) (ascii ''conflicting schema bounds''))
         [(''minItems'', ''maxItems''), (''minLength'', ''maxLength''), (''minimum'', ''maximum'')])"

definition check_defs ::
  "(json \<Rightarrow> rstring list \<Rightarrow> unit plugin_result) \<Rightarrow> (rstring \<times> json) list \<Rightarrow> rstring list \<Rightarrow> unit plugin_result" where
  "check_defs check fs stack =
     (case map_of fs (ascii ''$defs'') of
        None \<Rightarrow> Inr ()
      | Some defs \<Rightarrow>
          (case as_object defs of
             None \<Rightarrow> Inl (invalid (ascii ''$defs must be object''))
           | Some ds \<Rightarrow> all_checks (map (\<lambda>(_, d). check d stack) ds)))"

definition tag_of :: "rstring \<Rightarrow> json \<Rightarrow> rstring option" where
  "tag_of k s =
     (if (case as_array (at_key s (ascii ''required'')) of None \<Rightarrow> False | Some a \<Rightarrow> JString k \<in> set a)
      then as_string (at_key (at_key (at_key s (ascii ''properties'')) k) (ascii ''const''))
      else None)"

definition check_variant ::
  "(json \<Rightarrow> rstring list \<Rightarrow> unit plugin_result) \<Rightarrow> rstring list \<Rightarrow> json \<Rightarrow> unit plugin_result" where
  "check_variant check stack s =
     all_checks [
       ensure (get_key s (ascii ''$ref'') = None) (ascii ''oneOf variants must be inline tagged objects''),
       check s stack,
       ensure (at_key s (ascii ''type'') = JString (ascii ''object'')) (ascii ''oneOf requires tagged object variants'')]"

definition check_union ::
  "(json \<Rightarrow> rstring list \<Rightarrow> unit plugin_result) \<Rightarrow> (rstring \<times> json) list \<Rightarrow> json \<Rightarrow> rstring list \<Rightarrow> unit plugin_result" where
  "check_union check fs v stack =
     (if \<not> only_keys fs [''oneOf'', ''title'', ''description''] then Inl (invalid (ascii ''oneOf cannot have semantic siblings''))
      else case as_array v of
        None \<Rightarrow> Inl (invalid (ascii ''oneOf must be array''))
      | Some a \<Rightarrow>
          if length a < 2 \<or> length a > 32 then Inl (invalid (ascii ''tagged union must contain 2..32 variants''))
          else bind_outcome (all_checks (map (check_variant check stack) a)) (\<lambda>_.
            case as_object (at_key (hd a) (ascii ''properties'')) of
              None \<Rightarrow> Inl (invalid (ascii ''tagged union properties missing''))
            | Some props \<Rightarrow>
                ensure (list_ex (\<lambda>(k, _). list_all (\<lambda>s. tag_of k s \<noteq> None) a \<and> distinct (map (tag_of k) a)) props)
                  (ascii ''oneOf needs a shared required string-const discriminator with unique tags'')))"

definition check_required :: "(rstring \<times> json) list \<Rightarrow> json \<Rightarrow> unit plugin_result" where
  "check_required p req =
     (case as_array req of
        None \<Rightarrow> Inl (invalid (ascii ''required must be array''))
      | Some a \<Rightarrow>
          bind_outcome (fold_outcome (\<lambda>k seen.
            case as_string k of
              None \<Rightarrow> Inl (invalid (ascii ''required item must be string''))
            | Some x \<Rightarrow>
                if map_of p x = None \<or> x \<in> set seen then Inl (invalid (ascii ''invalid or duplicate required property''))
                else Inr (seen @ [x])) a []) (\<lambda>_. Inr ()))"

definition check_object_schema ::
  "(json \<Rightarrow> rstring list \<Rightarrow> unit plugin_result) \<Rightarrow> json \<Rightarrow> rstring list \<Rightarrow> unit plugin_result" where
  "check_object_schema check s stack =
     (if at_key s (ascii ''additionalProperties'') \<noteq> JBool False
      then Inl (invalid (ascii ''objects require additionalProperties:false''))
      else case as_object (at_key s (ascii ''properties'')) of
        None \<Rightarrow> Inl (invalid (ascii ''objects require properties''))
      | Some p \<Rightarrow>
          bind_outcome (all_checks (map (\<lambda>(_, t). check t stack) p)) (\<lambda>_.
            case get_key s (ascii ''required'') of
              None \<Rightarrow> Inl (invalid (ascii ''objects require explicit required array''))
            | Some req \<Rightarrow> check_required p req))"

definition type_names :: "rstring list" where
  "type_names = map ascii [''object'', ''array'', ''string'', ''integer'', ''number'', ''boolean'', ''null'']"

definition keyword_types :: "(string \<times> string list) list" where
  "keyword_types =
     [(''properties'', [''object'']), (''required'', [''object'']), (''additionalProperties'', [''object'']),
      (''items'', [''array'']), (''minItems'', [''array'']), (''maxItems'', [''array'']),
      (''minLength'', [''string'']), (''maxLength'', [''string'']),
      (''minimum'', [''integer'', ''number'']), (''maximum'', [''integer'', ''number''])]"

definition check_types ::
  "(json \<Rightarrow> rstring list \<Rightarrow> unit plugin_result) \<Rightarrow> json \<Rightarrow> (rstring \<times> json) list \<Rightarrow> rstring list \<Rightarrow> unit plugin_result" where
  "check_types check s fs stack =
     (case map_of fs (ascii ''type'') of
        None \<Rightarrow> ensure (has_key fs ''$defs'' \<or> has_key fs ''const'' \<or> has_key fs ''enum'') (ascii ''schema requires explicit type'')
      | Some tv \<Rightarrow>
          (case as_string tv of
             None \<Rightarrow> Inl (invalid (ascii ''nullable syntax is type:[nonNullType, null]''))
           | Some t \<Rightarrow>
               all_checks (
                 [ensure (t \<in> set type_names) (ascii ''unsupported type''),
                  if t = ascii ''object'' then check_object_schema check s stack else Inr (),
                  if t = ascii ''array'' then check (at_key s (ascii ''items'')) stack else Inr ()] @
                 map (\<lambda>(k, ts). ensure (\<not> has_key fs k \<or> t \<in> set (map ascii ts)) (ascii k @ ascii '' conflicts with type '' @ t))
                   keyword_types)))"

definition literal_error :: "json_lib \<Rightarrow> violation + unit \<Rightarrow> unit plugin_result" where
  "literal_error L r = (case r of Inl x \<Rightarrow> Inl (violation_error L x) | Inr _ \<Rightarrow> Inr ())"

definition check_literals :: "json_lib \<Rightarrow> json \<Rightarrow> json \<Rightarrow> unit plugin_result" where
  "check_literals L s root =
     all_checks [
       ensure (get_key s (ascii ''enum'') = None \<or> at_key s (ascii ''type'') = JString (ascii ''string''))
         (ascii ''enum is supported only for strings''),
       (case get_key s (ascii ''enum'') of
          None \<Rightarrow> Inr ()
        | Some e \<Rightarrow>
            (case as_array e of
               None \<Rightarrow> Inl (invalid (ascii ''enum must be array''))
             | Some a \<Rightarrow> ensure (a \<noteq> [] \<and> list_all is_string a \<and> distinct a)
                 (ascii ''only unique nonempty string enums supported''))),
       (case get_key s (ascii ''x-wire-type'') of
          None \<Rightarrow> Inr ()
        | Some w \<Rightarrow> ensure (at_key s (ascii ''type'') = JString (ascii ''string'') \<and>
            (case as_string w of None \<Rightarrow> [] | Some x \<Rightarrow> x) \<in> set (map ascii [''i64-decimal'', ''u64-decimal'', ''bytes-base64'', ''utc-datetime'']))
            (ascii ''unknown or non-string x-wire-type'')),
       (case get_key s (ascii ''const'') of
          None \<Rightarrow> Inr ()
        | Some c \<Rightarrow>
            if as_object c \<noteq> None \<or> as_array c \<noteq> None then Inl (invalid (ascii ''only primitive literal constants are supported''))
            else literal_error L (validate_at L 65 (remove_key s (ascii ''const'')) c root (ascii ''const''))),
       (case as_array (at_key s (ascii ''enum'')) of
          None \<Rightarrow> Inr ()
        | Some es \<Rightarrow> all_checks (map (\<lambda>e. literal_error L (validate_at L 65 (remove_key s (ascii ''enum'')) e root (ascii ''enum''))) es))]"

text \<open>One level of the checker, with the check of the parts as an argument.\<close>

definition check_level ::
  "json_lib \<Rightarrow> (json \<Rightarrow> rstring list \<Rightarrow> unit plugin_result) \<Rightarrow> json \<Rightarrow> json \<Rightarrow> rstring list \<Rightarrow> unit plugin_result" where
  "check_level L check s root stack =
     (case as_object s of
        None \<Rightarrow> Inl (invalid (ascii ''schema must be an object''))
      | Some fs \<Rightarrow>
          bind_outcome (check_metadata fs) (\<lambda>_.
            case map_of fs (ascii ''$ref'') of
              Some rv \<Rightarrow> check_reference L check fs rv root stack
            | None \<Rightarrow>
            case as_array (at_key s (ascii ''type'')) of
              Some types \<Rightarrow> check_nullable check s types stack
            | None \<Rightarrow>
                bind_outcome (check_bounds fs) (\<lambda>_.
                bind_outcome (check_defs check fs stack) (\<lambda>_.
                  case map_of fs (ascii ''oneOf'') of
                    Some v \<Rightarrow> check_union check fs v stack
                  | None \<Rightarrow>
                      bind_outcome (check_types check s fs stack) (\<lambda>_. check_literals L s root)))))"

text \<open>The first argument is again \<open>65 - depth\<close>.\<close>

fun check_schema :: "json_lib \<Rightarrow> nat \<Rightarrow> json \<Rightarrow> json \<Rightarrow> rstring list \<Rightarrow> unit plugin_result" where
  "check_schema L 0 s root stack = Inl (invalid (ascii ''schema reference/depth limit exceeded''))"
| "check_schema L (Suc n) s root stack = check_level L (\<lambda>t st. check_schema L n t root st) s root stack"

definition validate :: "json_lib \<Rightarrow> json \<Rightarrow> json \<Rightarrow> unit plugin_result" where
  "validate L schema v =
     bind_outcome (check_schema L 65 schema schema []) (\<lambda>_. literal_error L (validate_at L 65 schema v schema []))"

section \<open>Accepted schemas never fail by themselves\<close>

lemmas json_reads = as_string_def as_array_def as_object_def get_key_def at_key_def

lemma ascii_eq: "ascii x = ascii y \<longleftrightarrow> x = y"
proof -
  have "inj (of_char :: char \<Rightarrow> nat)" by (simp add: inj_def)
  then show ?thesis by (simp add: ascii_def inj_map_eq_map)
qed

lemma ensure_Inr [simp]: "ensure b m = Inr u \<longleftrightarrow> b"
  by (simp add: ensure_def)

lemma literal_error_Inr [simp]: "literal_error L r = Inr u \<longleftrightarrow> r = Inr ()"
  by (cases r) (simp_all add: literal_error_def)

text \<open>A validation that may only complain about the value.\<close>

definition blameless :: "violation + unit \<Rightarrow> bool" where
  "blameless r = (case r of Inl (Violation p c) \<Rightarrow> \<not> blames_schema c | Inr _ \<Rightarrow> True)"

lemma blameless_simps [simp]:
  "blameless (Inr u)" "blameless (Inl (Violation p c)) \<longleftrightarrow> \<not> blames_schema c"
  by (simp_all add: blameless_def)

lemma blameless_all_checks: "(\<And>c. c \<in> set cs \<Longrightarrow> blameless c) \<Longrightarrow> blameless (all_checks cs)"
  by (cases "all_checks cs") (metis all_checks_Inl_mem, metis blameless_simps(1))

lemma blameless_bind: "blameless m \<Longrightarrow> (\<And>u. blameless (f u)) \<Longrightarrow> blameless (bind_outcome m f)"
  by (cases m) auto

lemma blameless_string: "blameless (at_path path (check_string s v))"
  by (simp add: at_path_def check_string_def split: option.split)

lemma blameless_number: "blameless (at_path path (check_number s v))"
  by (simp add: at_path_def check_number_def split: option.split)

lemma blameless_object:
  assumes "as_object (at_key s (ascii ''properties'')) = Some p"
    and "\<And>k t x q. (k, t) \<in> set p \<Longrightarrow> blameless (part t x q)"
  shows "blameless (check_object part s v path)"
  using assms
  by (auto simp: check_object_def split: option.split dest!: map_of_SomeD
      intro!: blameless_bind blameless_all_checks)

lemma blameless_array:
  assumes "\<And>x q. blameless (part (at_key s (ascii ''items'')) x q)"
  shows "blameless (check_array part s v path)"
  using assms by (auto simp: check_array_def split: option.split intro!: blameless_all_checks)

text \<open>What the checker grants for a schema that is no reference, union or nullable type.\<close>

lemma accepted_plain:
  assumes "as_object s = Some fs" and "check_types check s fs stack = Inr ()"
    and "\<And>t x q. check t stack = Inr () \<Longrightarrow> blameless (part t x q)"
  shows "blameless (check_plain part s v path)"
proof -
  have s: "s = JObject fs" using assms(1) by (cases s) (auto simp: as_object_def)
  have "blameless (check_type part s v path)"
  proof (cases "map_of fs (ascii ''type'')")
    case None
    then show ?thesis by (simp add: check_type_def json_reads s)
  next
    case (Some tv)
    with assms(2) obtain t where t: "tv = JString t" "t \<in> set type_names"
      "t = ascii ''object'' \<longrightarrow> check_object_schema check s stack = Inr ()"
      "t = ascii ''array'' \<longrightarrow> check (at_key s (ascii ''items'')) stack = Inr ()"
      by (cases tv) (auto simp: check_types_def as_string_def split: if_splits)
    have st: "as_string (at_key s (ascii ''type'')) = Some t"
      using Some t(1) by (simp add: s json_reads)
    consider "t = ascii ''object''" | "t = ascii ''array''" | "t \<notin> {ascii ''object'', ascii ''array''}" by blast
    then show ?thesis
    proof cases
      case 1
      with t(3) obtain p where p: "as_object (at_key s (ascii ''properties'')) = Some p"
        "list_all (\<lambda>c. c = Inr ()) (map (\<lambda>(_, t). check t stack) p)"
        by (auto simp: check_object_schema_def bind_outcome_Inr_iff split: if_splits option.splits)
      have "blameless (part t x q)" if "(k, t) \<in> set p" for k t x q
        using assms(3) p(2) that by (auto simp: list_all_iff)
      with p(1) 1 show ?thesis by (simp add: check_type_def st blameless_object)
    next
      case 2
      then show ?thesis using t(4) by (simp add: check_type_def st ascii_eq blameless_array assms(3))
    next
      case 3
      then show ?thesis using t(2)
        by (auto simp: check_type_def st type_names_def blameless_string blameless_number split: json.split)
    qed
  qed
  then show ?thesis by (simp add: check_plain_def)
qed

lemma nullable_other:
  assumes "length types = 2" "length (filter (\<lambda>t. t = null) types) = 1"
  obtains t where "find (\<lambda>t. t \<noteq> null) types = Some t"
proof (cases "find (\<lambda>t. t \<noteq> null) types")
  case None
  then have "filter (\<lambda>t. t = null) types = types" by (auto simp: find_None_iff filter_id_conv)
  with assms show ?thesis by simp
qed

lemma accepted_blameless:
  "check_schema L n s root stack = Inr () \<Longrightarrow> n \<le> m \<Longrightarrow> blameless (validate_at L m s v root path)"
proof (induction n arbitrary: s stack v path m)
  case 0
  then show ?case by simp
next
  case (Suc n)
  from Suc.prems(2) obtain k where m: "m = Suc k" and k: "n \<le> k" by (cases m) auto
  let ?check = "\<lambda>t st. check_schema L n t root st"
  from Suc.prems(1) obtain fs where s: "s = JObject fs" and fs: "as_object s = Some fs"
    by (cases s) (auto simp: check_level_def as_object_def)
  note level = Suc.prems(1) [simplified, unfolded check_level_def fs, simplified, unfolded bind_outcome_Inr_iff]
  show ?case
  proof (cases "map_of fs (ascii ''$ref'')")
    case (Some rv)
    with level obtain r t where "as_string rv = Some r" "resolve L root r = Inr t" "?check t (stack @ [r]) = Inr ()"
      by (auto simp: check_reference_def split: option.splits if_splits sum.splits)
    then show ?thesis using Some by (simp add: m s at_key_def get_key_def Suc.IH [OF _ k])
  next
    case no_ref: None
    show ?thesis
    proof (cases "as_array (at_key s (ascii ''type''))")
      case (Some types)
      with level no_ref have nullable: "check_nullable ?check s types stack = Inr ()" by simp
      then obtain t where t: "find (\<lambda>t. t \<noteq> JString (ascii ''null'')) types = Some t"
        by (auto simp: check_nullable_def split: if_splits elim: nullable_other)
      with nullable have "?check (set_key s (ascii ''type'') t) stack = Inr ()"
        by (auto simp: check_nullable_def split: if_splits)
      then have "blameless (validate_at L k (set_key s (ascii ''type'') t) v root path)" by (rule Suc.IH [OF _ k])
      with no_ref Some t show ?thesis
        by (simp add: m s at_key_def get_key_def as_string_def split: option.split)
    next
      case no_types: None
      show ?thesis
      proof (cases "map_of fs (ascii ''oneOf'')")
        case (Some ov)
        with level no_ref no_types obtain a where "as_array ov = Some a"
          by (auto simp: check_union_def bind_outcome_Inr_iff split: option.splits if_splits)
        then show ?thesis using Some no_ref by (simp add: m s at_key_def get_key_def as_string_def)
      next
        case None
        with level no_ref no_types have "check_types ?check s fs stack = Inr ()"
          by (auto simp: bind_outcome_Inr_iff)
        then have "blameless (check_plain (\<lambda>t x p. validate_at L k t x root p) s v path)"
          by (rule accepted_plain [OF fs]) (rule Suc.IH [OF _ k])
        with None no_ref no_types show ?thesis by (simp add: m s at_key_def get_key_def as_string_def as_array_def)
      qed
    qed
  qed
qed

text \<open>
  C33: A schema the checker accepts is one the validator can use on every value: validation with at least the
  depth the check needed never fails for a reason that lies in the schema (nesting too deep, a foreign or dangling reference, a
  nullable type without another type, an object without properties, an unknown type), so every refusal is a
  complaint about the value.
\<close>

theorem accepted_schema_total:
  assumes "check_schema L n s root stack = Inr ()"
    and "n \<le> m" "validate_at L m s v root path = Inl (Violation p c)"
  shows "\<not> blames_schema c"
  using accepted_blameless [OF assms(1,2), of v path] assms(3) by simp

text \<open>A small union of two tagged objects, the second with an optional bounded number.\<close>

definition tagged :: "string \<Rightarrow> (string \<times> json) list \<Rightarrow> json" where
  "tagged t ps = JObject
     [(ascii ''type'', JString (ascii ''object'')), (ascii ''additionalProperties'', JBool False),
      (ascii ''properties'', JObject (
         (ascii ''tag'', JObject [(ascii ''type'', JString (ascii ''string'')), (ascii ''const'', JString (ascii t))]) #
         map (\<lambda>(k, s). (ascii k, s)) ps)),
      (ascii ''required'', JArray [JString (ascii ''tag'')])]"

definition sample_union :: json where
  "sample_union = JObject [(ascii ''oneOf'', JArray [tagged ''a'' [],
     tagged ''b'' [(''n'', JObject [(ascii ''type'', JArray [JString (ascii ''integer''), JString (ascii ''null'')])])]])]"

definition sample_lib :: json_lib where
  "sample_lib = \<lparr>pointer = (\<lambda>_ _. None), show_json = (\<lambda>_. [])\<rparr>"

definition sample_value :: "string \<Rightarrow> json" where
  "sample_value t = JObject [(ascii ''tag'', JString (ascii t))]"

lemma sample_accepted: "check_schema sample_lib 65 sample_union sample_union [] = Inr ()"
  by code_simp

lemma sample_refused: "validate_at sample_lib 65 sample_union (sample_value ''c'') sample_union [] = Inl (Violation [] UnionMismatch)"
  by code_simp

theorem accepted_schema_total_witness:
  "check_schema sample_lib 65 sample_union sample_union [] = Inr () \<and>
   validate_at sample_lib 65 sample_union (sample_value ''c'') sample_union [] = Inl (Violation [] UnionMismatch) \<and>
   \<not> blames_schema UnionMismatch"
  using accepted_schema_total [OF sample_accepted order.refl sample_refused] sample_accepted sample_refused by blast

section \<open>Tagged unions\<close>

lemma only_keys_found: "only_keys fs ks \<Longrightarrow> has_key fs k \<Longrightarrow> k \<in> set ks"
  by (auto simp: only_keys_def list_all_iff ascii_eq dest!: map_of_SomeD)

lemma accepted_no_ref:
  assumes "check_schema L n (JObject fs) root stack = Inr ()" "has_key fs k" "k \<notin> {''$ref'', ''title'', ''description''}"
  shows "map_of fs (ascii ''$ref'') = None"
proof (cases n)
  case (Suc m)
  show ?thesis
  proof (rule ccontr)
    assume "map_of fs (ascii ''$ref'') \<noteq> None"
    with assms(1) Suc have "only_keys fs [''$ref'', ''title'', ''description'']"
      by (auto simp: check_level_def check_reference_def as_object_def bind_outcome_Inr_iff split: option.splits if_splits)
    from only_keys_found [OF this assms(2)] assms(3) show False by auto
  qed
qed (use assms(1) in simp)

lemma accepted_no_union:
  assumes "check_schema L n (JObject fs) root stack = Inr ()" "has_key fs k" "k \<notin> {''oneOf'', ''title'', ''description''}"
  shows "map_of fs (ascii ''oneOf'') = None"
  using assms(1,2)
proof (induction n arbitrary: fs stack)
  case (Suc n)
  show ?case
  proof (rule ccontr)
    assume union: "map_of fs (ascii ''oneOf'') \<noteq> None"
    have no_ref: "map_of fs (ascii ''$ref'') = None" using accepted_no_ref [OF Suc.prems(1) union] by simp
    show False
    proof (cases "as_array (at_key (JObject fs) (ascii ''type''))")
      case None
      with Suc.prems(1) union no_ref have "only_keys fs [''oneOf'', ''title'', ''description'']"
        by (auto simp: check_level_def check_union_def as_object_def bind_outcome_Inr_iff split: option.splits if_splits)
      from only_keys_found [OF this Suc.prems(2)] assms(3) show False by auto
    next
      case (Some types)
      with Suc.prems(1) no_ref have "check_nullable (\<lambda>t st. check_schema L n t root st) (JObject fs) types stack = Inr ()"
        by (auto simp: check_level_def as_object_def bind_outcome_Inr_iff)
      then obtain t where "check_schema L n (JObject (AList.update (ascii ''type'') t fs)) root stack = Inr ()"
        by (auto simp: check_nullable_def set_key_def split: if_splits elim: nullable_other)
      moreover have "has_key (AList.update (ascii ''type'') t fs) k" using Suc.prems(2) by (simp add: update_conv)
      ultimately show False using Suc.IH union by (fastforce simp: update_conv ascii_eq)
    qed
  qed
qed simp

lemma accepted_const:
  assumes "check_schema L n (JObject fs) root stack = Inr ()" "map_of fs (ascii ''const'') \<noteq> None"
  shows "as_array (at_key (JObject fs) (ascii ''type'')) = None"
proof (cases n)
  case (Suc m)
  have no_ref: "map_of fs (ascii ''$ref'') = None" using accepted_no_ref [OF assms] by simp
  show ?thesis
  proof (rule ccontr)
    assume "as_array (at_key (JObject fs) (ascii ''type'')) \<noteq> None"
    with assms no_ref Suc show False
      by (auto simp: check_level_def check_nullable_def as_object_def get_key_def bind_outcome_Inr_iff)
  qed
qed (use assms(1) in simp)

text \<open>What an accepted schema with a constant string admits.\<close>

lemma const_admits:
  assumes "check_schema L n t root stack = Inr ()" "as_string (at_key t (ascii ''const'')) = Some c"
    and "validate_at L m t v root path = Inr ()"
  shows "v = JString c"
proof -
  from assms(2) obtain fs where t: "t = JObject fs" and c: "map_of fs (ascii ''const'') = Some (JString c)"
    by (cases t) (auto simp: json_reads split: option.splits json.splits)
  note accepted = assms(1) [unfolded t]
  have "map_of fs (ascii ''$ref'') = None" "map_of fs (ascii ''oneOf'') = None"
    "as_array (at_key (JObject fs) (ascii ''type'')) = None"
    using accepted_no_ref [OF accepted, of "''const''"] accepted_no_union [OF accepted, of "''const''"]
      accepted_const [OF accepted] c by simp_all
  with assms(3) c show ?thesis
    by (cases m) (auto simp: t json_reads check_plain_def const_ok_def as_f64_def split: if_splits json.splits option.splits)
qed

lemma check_object_Inr:
  "check_object part s v path = Inr () \<longleftrightarrow>
     (\<exists>fs p. v = JObject fs \<and> as_object (at_key s (ascii ''properties'')) = Some p \<and>
       (\<forall>a. as_array (at_key s (ascii ''required'')) = Some a \<longrightarrow>
          list_all (\<lambda>k. map_of fs (case as_string k of Some x \<Rightarrow> x | None \<Rightarrow> []) \<noteq> None) a) \<and>
       list_all (\<lambda>(k, x). \<exists>t. map_of p k = Some t \<and> part t x (child_path path k) = Inr ()) fs)"
proof (cases v)
  case (JObject fs)
  show ?thesis
  proof (cases "as_object (at_key s (ascii ''properties''))")
    case (Some p)
    have req: "list_all (\<lambda>c. c = Inr ()) (map (\<lambda>k. if A k then Inl (e k) else Inr ()) xs) \<longleftrightarrow> list_all (\<lambda>k. \<not> A k) xs"
      for A :: "json \<Rightarrow> bool" and e :: "json \<Rightarrow> violation" and xs
      by (induction xs) auto
    have props: "list_all (\<lambda>c. c = Inr ()) (map (\<lambda>(k, x). case map_of p k of None \<Rightarrow> Inl (e k) | Some t \<Rightarrow> f t x k) xs)
      \<longleftrightarrow> list_all (\<lambda>(k, x). \<exists>t. map_of p k = Some t \<and> f t x k = Inr ()) xs"
      for e :: "rstring \<Rightarrow> violation" and f :: "json \<Rightarrow> json \<Rightarrow> rstring \<Rightarrow> violation + unit" and xs
      by (induction xs) (auto split: option.splits)
    show ?thesis
      by (cases "as_array (at_key s (ascii ''required''))")
        (simp_all add: check_object_def JObject Some as_object_def [of "JObject fs"] bind_outcome_Inr_iff req props)
  qed (simp add: check_object_def JObject as_object_def [of "JObject fs"])
qed (simp_all add: check_object_def as_object_def)

lemma check_object_accepts:
  assumes "check_object part s v path = Inr ()"
  obtains fs p where "v = JObject fs" "as_object (at_key s (ascii ''properties'')) = Some p"
    "\<forall>a k. as_array (at_key s (ascii ''required'')) = Some a \<longrightarrow> JString k \<in> set a \<longrightarrow> map_of fs k \<noteq> None"
    "\<forall>k x. map_of fs k = Some x \<longrightarrow> (\<exists>t. map_of p k = Some t \<and> part t x (child_path path k) = Inr ())"
proof -
  from assms [unfolded check_object_Inr] obtain fs p where
    fs: "v = JObject fs" "as_object (at_key s (ascii ''properties'')) = Some p"
    and required: "\<And>a. as_array (at_key s (ascii ''required'')) = Some a \<Longrightarrow>
          list_all (\<lambda>k. map_of fs (case as_string k of Some x \<Rightarrow> x | None \<Rightarrow> []) \<noteq> None) a"
    and parts: "list_all (\<lambda>(k, x). \<exists>t. map_of p k = Some t \<and> part t x (child_path path k) = Inr ()) fs"
    by blast
  have "map_of fs k \<noteq> None" if "as_array (at_key s (ascii ''required'')) = Some a" "JString k \<in> set a" for a k
    using required [OF that(1)] that(2) unfolding list_all_iff by (fastforce simp: as_string_def)
  moreover have "\<exists>t. map_of p k = Some t \<and> part t x (child_path path k) = Inr ()" if "map_of fs k = Some x" for k x
    using parts map_of_SomeD [OF that] by (auto simp: list_all_iff)
  ultimately show thesis using that [OF fs] by blast
qed

lemma accepted_properties:
  assumes "check_schema L n (JObject fs) root stack = Inr ()"
    and ty: "map_of fs (ascii ''type'') = Some (JString (ascii ''object''))"
    and p: "as_object (at_key (JObject fs) (ascii ''properties'')) = Some p" "map_of p k = Some t"
  shows "\<exists>m. check_schema L m t root stack = Inr ()"
proof (cases n)
  case (Suc m)
  have "map_of fs (ascii ''$ref'') = None" "map_of fs (ascii ''oneOf'') = None"
    using accepted_no_ref [OF assms(1), of "''type''"] accepted_no_union [OF assms(1), of "''type''"] ty by simp_all
  with assms(1) ty Suc have "check_types (\<lambda>t st. check_schema L m t root st) (JObject fs) fs stack = Inr ()"
    by (auto simp: check_level_def as_object_def at_key_def get_key_def as_array_def bind_outcome_Inr_iff)
  with ty have "check_object_schema (\<lambda>t st. check_schema L m t root st) (JObject fs) stack = Inr ()"
    by (simp add: check_types_def as_string_def)
  with p have "check_schema L m t root stack = Inr ()"
    by (auto simp: check_object_schema_def bind_outcome_Inr_iff list_all_iff split: if_splits dest!: map_of_SomeD)
  then show ?thesis ..
qed (use assms(1) in simp)

lemma tagged_admits:
  assumes "check_variant (\<lambda>t st. check_schema L n t root st) stack s = Inr ()" "tag_of k s = Some c"
    and "validate_at L m s v root path = Inr ()"
  shows "\<exists>fs. v = JObject fs \<and> map_of fs k = Some (JString c)"
proof -
  from assms(1) have accepted: "check_schema L n s root stack = Inr ()"
    and obj: "at_key s (ascii ''type'') = JString (ascii ''object'')"
    by (auto simp: check_variant_def)
  from obj obtain gs where s: "s = JObject gs" and ty: "map_of gs (ascii ''type'') = Some (JString (ascii ''object''))"
    by (cases s) (auto simp: json_reads split: option.splits)
  note accepted' = accepted [unfolded s]
  have plain: "map_of gs (ascii ''$ref'') = None" "map_of gs (ascii ''oneOf'') = None"
    using accepted_no_ref [OF accepted', of "''type''"] accepted_no_union [OF accepted', of "''type''"] ty by simp_all
  obtain l where m: "m = Suc l" using assms(3) by (cases m) auto
  let ?part = "\<lambda>t x p. validate_at L l t x root p"
  from assms(3) plain ty have "check_object ?part s v path = Inr ()"
    by (simp add: m s json_reads check_plain_def check_type_def split: if_splits)
  then obtain fs p where fs: "v = JObject fs" and p: "as_object (at_key s (ascii ''properties'')) = Some p"
    and required: "\<forall>a k. as_array (at_key s (ascii ''required'')) = Some a \<longrightarrow> JString k \<in> set a \<longrightarrow> map_of fs k \<noteq> None"
    and parts: "\<forall>k x. map_of fs k = Some x \<longrightarrow> (\<exists>t. map_of p k = Some t \<and> ?part t x (child_path path k) = Inr ())"
    by (rule check_object_accepts)
  from assms(2) have "map_of fs k \<noteq> None"
    and tag: "as_string (at_key (at_key (at_key s (ascii ''properties'')) k) (ascii ''const'')) = Some c"
    using required by (auto simp: tag_of_def split: if_splits option.splits)
  then obtain x t where x: "map_of fs k = Some x" "map_of p k = Some t" "?part t x (child_path path k) = Inr ()"
    using parts by blast
  have "at_key (at_key s (ascii ''properties'')) k = t"
    using p x(2) by (cases "at_key s (ascii ''properties'')") (simp_all add: as_object_def at_key_def get_key_def)
  with tag have "as_string (at_key t (ascii ''const'')) = Some c" by simp
  with const_admits x(3) accepted_properties [OF accepted' ty p [unfolded s] x(2)] have "x = JString c" by blast
  with fs x(1) show ?thesis by simp
qed

lemma accepted_union:
  assumes "check_schema L (Suc n) s root stack = Inr ()" "get_key s (ascii ''oneOf'') = Some (JArray a)"
  shows "check_union (\<lambda>t st. check_schema L n t root st) (the (as_object s)) (JArray a) stack = Inr ()"
proof -
  from assms(2) obtain fs where s: "s = JObject fs" and union: "map_of fs (ascii ''oneOf'') = Some (JArray a)"
    by (cases s) (auto simp: get_key_def)
  note accepted = assms(1) [unfolded s]
  have "map_of fs (ascii ''$ref'') = None" using accepted_no_ref [OF accepted, of "''oneOf''"] union by simp
  moreover have "map_of fs (ascii ''type'') = None"
    using accepted_no_union [OF accepted, of "''type''"] union by (cases "map_of fs (ascii ''type'')") auto
  ultimately show ?thesis using accepted union
    by (simp add: s check_level_def at_key_def get_key_def as_array_def as_object_def bind_outcome_Inr_iff)
qed

text \<open>
  C34: In a union the checker accepts, the variants exclude each other: a value that validates against one
  variant validates against no other, whatever the value, because the variants carry different constants
  under a required key. Counting the matching variants therefore decides whether one matches.
\<close>

theorem union_unambiguous:
  assumes "check_schema L (Suc n) s root stack = Inr ()" "get_key s (ascii ''oneOf'') = Some (JArray a)"
    and "i < length a" "j < length a" "validate_at L m (a ! i) v root p = Inr ()" "validate_at L m (a ! j) v root q = Inr ()"
  shows "i = j"
proof -
  let ?check = "\<lambda>t st. check_schema L n t root st"
  from accepted_union [OF assms(1,2)] obtain k where
    variants: "\<forall>t\<in>set a. check_variant ?check stack t = Inr ()"
    and tags: "\<forall>t\<in>set a. tag_of k t \<noteq> None" "distinct (map (tag_of k) a)"
    by (auto simp: check_union_def as_array_def bind_outcome_Inr_iff list_ex_iff list_all_iff split: if_splits option.splits)
  from tags(1) assms(3,4) obtain c d where cd: "tag_of k (a ! i) = Some c" "tag_of k (a ! j) = Some d"
    by (meson nth_mem option.exhaust)
  note admits = tagged_admits [OF variants [rule_format, OF nth_mem]]
  from admits [OF assms(3) cd(1) assms(5)] admits [OF assms(4) cd(2) assms(6)] have "c = d" by auto
  with cd have "map (tag_of k) a ! i = map (tag_of k) a ! j" using assms(3,4) by simp
  with tags(2) assms(3,4) show ?thesis by (simp only: nth_eq_iff_index_eq length_map)
qed

theorem union_unambiguous_witness:
  "check_schema sample_lib (Suc 64) sample_union sample_union [] = Inr () \<and>
   validate_at sample_lib 64 (tagged ''a'' []) (sample_value ''a'') sample_union [] = Inr () \<and> (0 :: nat) = 0"
proof -
  have union: "get_key sample_union (ascii ''oneOf'') = Some (JArray [tagged ''a'' [],
     tagged ''b'' [(''n'', JObject [(ascii ''type'', JArray [JString (ascii ''integer''), JString (ascii ''null'')])])]])"
    by (simp add: sample_union_def get_key_def)
  have valid: "validate_at sample_lib 64 (tagged ''a'' []) (sample_value ''a'') sample_union [] = Inr ()" by code_simp
  have "check_schema sample_lib (Suc 64) sample_union sample_union [] = Inr ()" using sample_accepted by simp
  from union_unambiguous [OF this union, of 0 0] valid this show ?thesis by simp
qed

end
