(* ===== verification/Wire_Contract.thy ===== *)
theory Wire_Contract
  imports Wire_Schema
begin

text \<open>
  Contracts of the plugin protocol (\<open>Contract\<close> of \<open>schema.rs\<close>): a descriptor of methods, errors, events and
  state with the schemas they refer to, the checks with which a contract is admitted, and the checks of
  arguments, results, errors, events and snapshots against it. Deserialisation, canonical printing and the
  digest are arguments.
\<close>

record contract =
  descriptor :: json
  schemas :: json
  digest :: rstring


section \<open>Checks against a contract\<close>

definition text_or_empty :: "json \<Rightarrow> rstring" where
  "text_or_empty v = (case as_string v of Some x \<Rightarrow> x | None \<Rightarrow> [])"

definition contract_id :: "contract \<Rightarrow> rstring" where
  "contract_id c = text_or_empty (at_key (descriptor c) (ascii ''id''))"


definition contract_schema :: "json_lib \<Rightarrow> contract \<Rightarrow> rstring \<Rightarrow> json plugin_result" where
  "contract_schema L c r = (case resolve L (schemas c) r of Inl e \<Rightarrow> Inl (violation_error L (Violation [] e)) | Inr t \<Rightarrow> Inr t)"

definition validate_ref :: "json_lib \<Rightarrow> contract \<Rightarrow> rstring \<Rightarrow> json \<Rightarrow> unit plugin_result" where
  "validate_ref L c r v =
     bind_outcome (contract_schema L c r) (\<lambda>s. literal_error L (validate_at L 65 s v (schemas c) []))"

definition contract_method :: "contract \<Rightarrow> rstring \<Rightarrow> json plugin_result" where
  "contract_method c m =
     (case get_key (at_key (descriptor c) (ascii ''methods'')) m of
        Some d \<Rightarrow> Inr d
      | None \<Rightarrow> Inl (rpc_new (ascii ''METHOD_NOT_FOUND'') (contract_id c @ ascii ''.'' @ m @ ascii '' is not declared'')))"

definition recode :: "string \<Rightarrow> 'a plugin_result \<Rightarrow> 'a plugin_result" where
  "recode code r = (case r of Inl e \<Rightarrow> Inl (rpc_new (ascii code) (err_message e)) | Inr x \<Rightarrow> Inr x)"

definition contract_input :: "json_lib \<Rightarrow> contract \<Rightarrow> rstring \<Rightarrow> json \<Rightarrow> unit plugin_result" where
  "contract_input L c m v =
     bind_outcome (contract_method c m) (\<lambda>d. validate_ref L c (text_or_empty (at_key d (ascii ''input''))) v)"

definition contract_output :: "json_lib \<Rightarrow> contract \<Rightarrow> rstring \<Rightarrow> json \<Rightarrow> unit plugin_result" where
  "contract_output L c m v =
     bind_outcome (contract_method c m) (\<lambda>d.
       recode ''INVALID_RESULT'' (validate_ref L c (text_or_empty (at_key d (ascii ''output''))) v))"

definition contract_error :: "json_lib \<Rightarrow> contract \<Rightarrow> rstring \<Rightarrow> rpc_error \<Rightarrow> unit plugin_result" where
  "contract_error L c m e =
     (if stable_code e \<noteq> ascii ''APPLICATION_ERROR'' then Inr ()
      else case as_string (at_key (err_data e) (ascii ''domainCode'')) of
        None \<Rightarrow> Inl (rpc_new (ascii ''INVALID_RESULT'') (ascii ''missing domainCode''))
      | Some code \<Rightarrow>
          bind_outcome (contract_method c m) (\<lambda>d.
            if \<not> (case as_array (at_key d (ascii ''errors'')) of None \<Rightarrow> False | Some es \<Rightarrow> JString code \<in> set es)
            then Inl (rpc_new (ascii ''INVALID_RESULT'') (ascii ''undeclared domain error''))
            else case as_string (at_key (at_key (at_key (descriptor c) (ascii ''errors'')) code) (ascii ''data'')) of
              None \<Rightarrow> Inl (rpc_new (ascii ''INVALID_RESULT'') (ascii ''unknown domain error''))
            | Some r \<Rightarrow> recode ''INVALID_RESULT'' (validate_ref L c r (at_key (err_data e) (ascii ''data'')))))"

definition contract_event :: "json_lib \<Rightarrow> contract \<Rightarrow> rstring \<Rightarrow> json \<Rightarrow> unit plugin_result" where
  "contract_event L c event payload =
     (case as_string (at_key (at_key (at_key (descriptor c) (ascii ''events'')) event) (ascii ''payload'')) of
        None \<Rightarrow> Inl (rpc_new (ascii ''INVALID_ARGUMENT'') (ascii ''undeclared event''))
      | Some r \<Rightarrow> validate_ref L c r payload)"

definition contract_snapshot :: "json_lib \<Rightarrow> contract \<Rightarrow> json \<Rightarrow> unit plugin_result" where
  "contract_snapshot L c v =
     (if v = JNull then Inr ()
      else case as_object v of
        None \<Rightarrow> Inl (rpc_new (ascii ''STATE_INCOMPATIBLE'') (ascii ''snapshot must be object or null''))
      | Some fs \<Rightarrow>
          let s = at_key (descriptor c) (ascii ''state'')
          in if length fs \<noteq> 3 \<or> at_key v (ascii ''stateVersion'') \<noteq> at_key s (ascii ''version'')
                \<or> at_key v (ascii ''contract'') \<noteq> at_key s (ascii ''contract'') \<or> \<not> has_key fs ''data'' \<or> s = JNull
             then Inl (rpc_new (ascii ''STATE_INCOMPATIBLE'') (ascii ''snapshot identity does not match generated contract''))
             else recode ''STATE_INCOMPATIBLE''
               (validate_ref L c (text_or_empty (at_key s (ascii ''schema''))) (at_key v (ascii ''data''))))"

section \<open>Admission of a contract\<close>

















section \<open>Admitted contracts\<close>
















end
