(* ===== verification/Wire_Frames.thy ===== *)
theory Wire_Frames
  imports Wire_Contract
begin

text \<open>
  Frames of the plugin protocol (\<open>encode_frame\<close> and \<open>read_frame\<close> of \<open>peer.rs\<close>): a four byte length in
  big-endian order, then a JSON text in UTF-8. The JSON printer and parser are an argument; a connection
  that has ended is the list of the bytes that are still to be read.
\<close>

section \<open>Bytes and text\<close>

definition be_bytes :: "u32 \<Rightarrow> u8 list" where
  "be_bytes n = [ucast (drop_bit 24 n), ucast (drop_bit 16 n), ucast (drop_bit 8 n), ucast n]"

definition from_be_bytes :: "u8 list \<Rightarrow> u32" where
  "from_be_bytes = foldl (\<lambda>n b. push_bit 8 n OR ucast b) 0"

definition is_scalar :: "rchar \<Rightarrow> bool" where
  "is_scalar c = (c < 0xD800 \<or> 0xE000 \<le> c \<and> c < 0x110000)"

definition is_continuation :: "u8 \<Rightarrow> bool" where
  "is_continuation b = (0x80 \<le> b \<and> b < 0xC0)"

definition low_six :: "u8 \<Rightarrow> nat" where
  "low_six b = unat b - 0x80"

text \<open>The first character of a UTF-8 text: overlong forms, surrogates and values past the last scalar are refused.\<close>

definition decode_first :: "u8 list \<Rightarrow> (rchar \<times> u8 list) option" where
  "decode_first bs =
     (case bs of
        [] \<Rightarrow> None
      | a # r1 \<Rightarrow>
          if a < 0x80 then Some (unat a, r1)
          else case r1 of
            [] \<Rightarrow> None
          | b # r2 \<Rightarrow>
              if a < 0xC0 \<or> \<not> is_continuation b then None
              else if a < 0xE0 then
                (let c = (unat a - 0xC0) * 64 + low_six b in if 0x80 \<le> c then Some (c, r2) else None)
              else case r2 of
                [] \<Rightarrow> None
              | d # r3 \<Rightarrow>
                  if \<not> is_continuation d then None
                  else if a < 0xF0 then
                    (let c = (unat a - 0xE0) * 4096 + low_six b * 64 + low_six d
                     in if 0x800 \<le> c \<and> is_scalar c then Some (c, r3) else None)
                  else case r3 of
                    [] \<Rightarrow> None
                  | e # r4 \<Rightarrow>
                      (let c = (unat a - 0xF0) * 262144 + low_six b * 4096 + low_six d * 64 + low_six e
                       in if is_continuation e \<and> 0x10000 \<le> c \<and> is_scalar c then Some (c, r4) else None))"

lemma decode_first_shorter: "decode_first bs = Some (c, rest) \<Longrightarrow> length rest < length bs"
  by (auto simp: decode_first_def Let_def split: list.splits if_splits)

function from_utf8 :: "u8 list \<Rightarrow> rstring option" where
  "from_utf8 bs =
     (if bs = [] then Some []
      else case decode_first bs of None \<Rightarrow> None | Some (c, rest) \<Rightarrow> map_option ((#) c) (from_utf8 rest))"
  by auto
termination
  by (relation "measure length") (auto dest: decode_first_shorter)

declare from_utf8.simps [simp del]

section \<open>Frames\<close>

record wire_text =
  to_text :: "json \<Rightarrow> rstring + rstring"
  from_text :: "rstring \<Rightarrow> rstring + json"
  eof_text :: rstring

definition encode_frame :: "wire_text \<Rightarrow> json \<Rightarrow> nat \<Rightarrow> nat \<Rightarrow> u8 list plugin_result" where
  "encode_frame T v limit depth =
     bind_outcome (normalize_value 0 depth v) (\<lambda>w.
       case to_text T w of
         Inl e \<Rightarrow> Inl (rpc_new (ascii ''INVALID_ARGUMENT'') e)
       | Inr t \<Rightarrow>
           let data = as_bytes t
           in if data = [] \<or> length data > limit \<or> length data > 4294967295
              then Inl (rpc_new (ascii ''OVERLOADED'') (ascii ''frame size limit exceeded''))
              else Inr (be_bytes (of_nat (length data)) @ data))"

definition read_exact :: "wire_text \<Rightarrow> nat \<Rightarrow> u8 list \<Rightarrow> (u8 list \<times> u8 list) plugin_result" where
  "read_exact T n bs =
     (if length bs < n then Inl (rpc_new (ascii ''CONNECTION_CLOSED'') (eof_text T)) else Inr (take n bs, drop n bs))"

definition read_frame :: "wire_text \<Rightarrow> nat \<Rightarrow> nat \<Rightarrow> u8 list \<Rightarrow> (json \<times> u8 list) plugin_result" where
  "read_frame T limit depth bs =
     bind_outcome (read_exact T 4 bs) (\<lambda>(header, bs).
       let n = unat (from_be_bytes header)
       in if n = 0 \<or> n > limit then Inl (rpc_new (ascii ''INVALID_REQUEST'') (ascii ''frame length is zero or exceeds cap''))
          else bind_outcome (read_exact T n bs) (\<lambda>(body, bs).
            case from_utf8 body of
              None \<Rightarrow> Inl (rpc_new (ascii ''PARSE_ERROR'') (ascii ''frame contains invalid UTF-8''))
            | Some s \<Rightarrow>
                (case from_text T s of
                   Inl e \<Rightarrow> Inl (rpc_new (ascii ''PARSE_ERROR'') e)
                 | Inr v \<Rightarrow> bind_outcome (normalize_value 0 depth v) (\<lambda>w. Inr (w, bs)))))"

lemma read_exact_Inr: "read_exact T n bs = Inr (xs, ys) \<longleftrightarrow> n \<le> length bs \<and> xs = take n bs \<and> ys = drop n bs"
  by (auto simp: read_exact_def)

lemma read_frame_Inr:
  "read_frame T limit depth bs = Inr (w, rest) \<longleftrightarrow>
     (\<exists>n s v. 4 \<le> length bs \<and> n = unat (from_be_bytes (take 4 bs)) \<and> 0 < n \<and> n \<le> limit \<and> 4 + n \<le> length bs \<and>
       from_utf8 (take n (drop 4 bs)) = Some s \<and> from_text T s = Inr v \<and> normalize_value 0 depth v = Inr w \<and>
       rest = drop n (drop 4 bs))"
  by (auto simp: read_frame_def bind_outcome_Inr_iff read_exact_Inr Let_def split: option.splits sum.splits if_splits)

lemma read_frame_shorter: "read_frame T limit depth bs = Inr (w, rest) \<Longrightarrow> length rest < length bs"
  by (auto simp: read_frame_Inr)

text \<open>The values a connection carries until reading fails, and the failure.\<close>

function read_frames :: "wire_text \<Rightarrow> nat \<Rightarrow> nat \<Rightarrow> u8 list \<Rightarrow> json list \<times> rpc_error" where
  "read_frames T limit depth bs =
     (case read_frame T limit depth bs of
        Inl e \<Rightarrow> ([], e)
      | Inr (v, rest) \<Rightarrow> (let (vs, e) = read_frames T limit depth rest in (v # vs, e)))"
  by auto
termination
  by (relation "measure (\<lambda>(T, limit, depth, bs). length bs)") (auto dest: read_frame_shorter)

declare read_frames.simps [simp del]

section \<open>What is sent is what is read\<close>

lemma from_be_be: "from_be_bytes (be_bytes n) = n"
proof (rule bit_word_eqI)
  fix i assume "i < LENGTH(32)"
  then have "i < 8 \<or> 8 \<le> i \<and> i < 16 \<or> 16 \<le> i \<and> i < 24 \<or> 24 \<le> i \<and> i < 32" by simp linarith
  then show "bit (from_be_bytes (be_bytes n)) i = bit n i"
    by (elim disjE) (auto simp: from_be_bytes_def be_bytes_def bit_simps)
qed

lemma unat_byte: "x < 256 \<Longrightarrow> unat (of_nat x :: u8) = x"
  by (simp add: unsigned_of_nat take_bit_nat_def)

text \<open>A byte of an encoded character, as the number it was made from.\<close>

lemma lead_byte:
  assumes "x < 256"
  shows "(of_nat x :: u8) < 0x80 \<longleftrightarrow> x < 0x80" "(of_nat x :: u8) < 0xC0 \<longleftrightarrow> x < 0xC0"
    "(of_nat x :: u8) < 0xE0 \<longleftrightarrow> x < 0xE0" "(of_nat x :: u8) < 0xF0 \<longleftrightarrow> x < 0xF0"
  using assms by (simp_all add: word_less_nat_alt unat_byte)

lemma continuation_byte:
  assumes "x < 64"
  shows "is_continuation (of_nat (0x80 + x))" "low_six (of_nat (0x80 + x)) = x"
proof -
  have small: "0x80 + x < 256" using assms by simp
  show "is_continuation (of_nat (0x80 + x))"
    using lead_byte [OF small] assms by (simp add: is_continuation_def linorder_not_less [symmetric])
  show "low_six (of_nat (0x80 + x)) = x" unfolding low_six_def unat_byte [OF small] by simp
qed

lemma base_64_digits:
  "c div 4096 * 4096 + c div 64 mod 64 * 64 + c mod 64 = (c :: nat)"
  "c div 262144 * 262144 + c div 4096 mod 64 * 4096 + c div 64 mod 64 * 64 + c mod 64 = (c :: nat)"
proof -
  have "c div 4096 = c div 64 div 64" "c div 262144 = c div 4096 div 64" by (simp_all add: div_mult2_eq [symmetric])
  then show "c div 4096 * 4096 + c div 64 mod 64 * 64 + c mod 64 = c"
    "c div 262144 * 262144 + c div 4096 mod 64 * 4096 + c div 64 mod 64 * 64 + c mod 64 = c"
    using div_mult_mod_eq [of c 64] div_mult_mod_eq [of "c div 64" 64] div_mult_mod_eq [of "c div 4096" 64] by linarith+
qed

lemma decode_first_char:
  assumes "is_scalar c"
  shows "decode_first (utf8_char c @ rest) = Some (c, rest)"
proof -
  have bounds: "c < 0x110000" using assms by (auto simp: is_scalar_def)
  note continuation = continuation_byte [of "c mod 64"] continuation_byte [of "c div 64 mod 64"]
    continuation_byte [of "c div 4096 mod 64"]
  consider "c < 0x80" | "0x80 \<le> c" "c < 0x800" | "0x800 \<le> c" "c < 0x10000" | "0x10000 \<le> c" by linarith
  then show ?thesis
  proof cases
    case 1
    then show ?thesis using lead_byte [of c] unat_byte [of c] by (simp add: utf8_char_def decode_first_def)
  next
    case 2
    define a where "a = 0xC0 + c div 64"
    have a: "a < 256" "a < 0xE0" "0xC0 \<le> a" using 2 by (auto simp: a_def)
    have "(a - 0xC0) * 64 + c mod 64 = c" by (simp add: a_def)
    then show ?thesis using 2 a continuation
      by (simp add: utf8_char_def a_def [symmetric] decode_first_def lead_byte unat_byte Let_def)
  next
    case 3
    define a where "a = 0xE0 + c div 4096"
    have a: "a < 256" "a < 0xF0" "0xE0 \<le> a" using 3 by (auto simp: a_def)
    have "(a - 0xE0) * 4096 + c div 64 mod 64 * 64 + c mod 64 = c" using base_64_digits(1) [of c] by (simp add: a_def)
    then show ?thesis using 3 a continuation assms
      by (simp add: utf8_char_def a_def [symmetric] decode_first_def lead_byte unat_byte Let_def)
  next
    case 4
    define a where "a = 0xF0 + c div 262144"
    have a: "a < 256" "0xF0 \<le> a" using bounds by (auto simp: a_def)
    have "(a - 0xF0) * 262144 + c div 4096 mod 64 * 4096 + c div 64 mod 64 * 64 + c mod 64 = c" using base_64_digits(2) [of c] by (simp add: a_def)
    then show ?thesis using 4 a continuation assms
      by (simp add: utf8_char_def a_def [symmetric] decode_first_def lead_byte unat_byte Let_def)
  qed
qed

lemma utf8_char_nonempty: "utf8_char c \<noteq> []"
  by (simp add: utf8_char_def)

lemma from_utf8_bytes: "list_all is_scalar s \<Longrightarrow> from_utf8 (as_bytes s) = Some s"
proof (induction s)
  case Nil
  then show ?case by (simp add: as_bytes_def from_utf8.simps)
next
  case (Cons c s)
  then show ?case using decode_first_char [of c "as_bytes s"] utf8_char_nonempty [of c]
    by (simp add: as_bytes_def) (subst from_utf8.simps, simp)
qed

text \<open>What is asked of the JSON text of a value: it parses back to the value.\<close>

definition text_exact :: "wire_text \<Rightarrow> json \<Rightarrow> bool" where
  "text_exact T v = (case to_text T v of Inl _ \<Rightarrow> True | Inr t \<Rightarrow> list_all is_scalar t \<and> from_text T t = Inr v)"

lemma encode_frame_Inr:
  "encode_frame T v limit depth = Inr f \<longleftrightarrow>
     (\<exists>t. nesting v \<le> depth \<and> to_text T (normal v) = Inr t \<and> as_bytes t \<noteq> [] \<and> length (as_bytes t) \<le> limit \<and>
        length (as_bytes t) \<le> 4294967295 \<and> f = be_bytes (of_nat (length (as_bytes t))) @ as_bytes t)"
  by (auto simp: encode_frame_def normalize_exact(1) Let_def simp del: normalize_value.simps split: sum.splits if_splits)

lemma read_encoded:
  assumes "encode_frame T v limit depth = Inr f" "text_exact T (normal v)"
  shows "read_frame T limit depth (f @ rest) = Inr (normal v, rest)"
proof -
  from assms(1) obtain t where t: "nesting v \<le> depth" "to_text T (normal v) = Inr t" "as_bytes t \<noteq> []"
    "length (as_bytes t) \<le> limit" "length (as_bytes t) \<le> 4294967295"
    and f: "f = be_bytes (of_nat (length (as_bytes t))) @ as_bytes t"
    unfolding encode_frame_Inr by blast
  let ?n = "length (as_bytes t)"
  have n: "unat (of_nat ?n :: u32) = ?n" using t(5) by (simp add: unsigned_of_nat take_bit_nat_def)
  have header: "take 4 (f @ rest) = be_bytes (of_nat ?n)" "drop 4 (f @ rest) = as_bytes t @ rest" "4 + ?n \<le> length (f @ rest)"
    by (simp_all add: f be_bytes_def)
  have "normalize_value 0 depth (normal v) = Inr (normal v)"
    using t(1) by (simp add: normalize_exact(1) normal_stable del: normalize_value.simps)
  then show ?thesis using t assms(2)
    unfolding read_frame_Inr header(1,2) from_be_be n
    by (intro exI [of _ ?n] exI [of _ t] exI [of _ "normal v"]) (use header(3) in \<open>simp add: text_exact_def from_utf8_bytes\<close>)
qed

text \<open>
  C40: The frames of a sequence of values, one after the other, are read back as that sequence of normalised
  values, in order and with nothing left over, and the reader then sees the end of the connection. What is
  assumed of the JSON library is that the text of each of these values parses back to it.
\<close>

theorem frames_roundtrip:
  assumes "list_all2 (\<lambda>v f. encode_frame T v limit depth = Inr f) vs fs" "list_all (\<lambda>v. text_exact T (normal v)) vs"
  shows "read_frames T limit depth (concat fs) = (map normal vs, rpc_new (ascii ''CONNECTION_CLOSED'') (eof_text T))"
  using assms
proof (induction vs fs rule: list_all2_induct)
  case Nil
  then show ?case by (simp add: read_frames.simps read_frame_def read_exact_def)
next
  case (Cons v vs f fs)
  then show ?case using read_encoded [of T v limit depth f "concat fs"] by (subst read_frames.simps) simp
qed

text \<open>
  Whatever bytes arrive, a value that is read took no more than the frame limit from the connection, is
  nested no deeper than the limit and is in normal form.
\<close>

theorem read_frame_bounded:
  assumes "read_frame T limit depth bs = Inr (v, rest)"
  shows "length rest < length bs \<and> length bs \<le> 4 + limit + length rest \<and> (\<exists>used. bs = used @ rest) \<and>
    nesting v \<le> depth \<and> normal v = v"
proof -
  from assms [unfolded read_frame_Inr] obtain n s w where n: "0 < n" "n \<le> limit" "4 + n \<le> length bs" "rest = drop n (drop 4 bs)"
    and w: "normalize_value 0 depth w = Inr v" by blast
  have "nesting w \<le> depth" "v = normal w" using w by (auto simp: normalize_exact(1) simp del: normalize_value.simps split: if_splits)
  moreover have "\<exists>used. bs = used @ rest" using n(4) by (metis append_take_drop_id drop_drop)
  moreover have "length rest < length bs" "length bs \<le> 4 + limit + length rest" using n by auto
  ultimately show ?thesis by (simp add: normal_stable)
qed

text \<open>A codec for two values, enough to send and read a frame.\<close>

definition sample_text :: wire_text where
  "sample_text = \<lparr>
     to_text = (\<lambda>v. case v of JNull \<Rightarrow> Inr (ascii ''null'') | JBool True \<Rightarrow> Inr (ascii ''true'') | _ \<Rightarrow> Inl []),
     from_text = (\<lambda>t. if t = ascii ''null'' then Inr JNull else if t = ascii ''true'' then Inr (JBool True) else Inl []),
     eof_text = ascii ''early eof''\<rparr>"

definition sample_frames :: "u8 list list" where
  "sample_frames = map (\<lambda>w. be_bytes 4 @ map of_char w) [''true'', ''null'']"

lemma sample_encoded:
  "encode_frame sample_text (JBool True) 64 8 = Inr (be_bytes 4 @ map of_char ''true'')"
  "encode_frame sample_text JNull 64 8 = Inr (be_bytes 4 @ map of_char ''null'')"
  by (simp_all add: encode_frame_def sample_text_def as_bytes_def utf8_char_def ascii_def)

lemma sample_text_exact: "text_exact sample_text (normal (JBool True))" "text_exact sample_text (normal JNull)"
  by (simp_all add: text_exact_def sample_text_def ascii_def is_scalar_def)

theorem frames_roundtrip_witness:
  "read_frames sample_text 64 8 (concat sample_frames) = ([JBool True, JNull], rpc_new (ascii ''CONNECTION_CLOSED'') (ascii ''early eof''))"
proof -
  have "list_all2 (\<lambda>v f. encode_frame sample_text v 64 8 = Inr f) [JBool True, JNull] sample_frames"
    by (simp add: sample_frames_def sample_encoded)
  from frames_roundtrip [OF this] sample_text_exact show ?thesis by (simp add: sample_text_def)
qed

theorem read_frame_bounded_witness:
  "read_frame sample_text 64 8 (be_bytes 4 @ map of_char ''true'' @ []) = Inr (JBool True, []) \<and> nesting (JBool True) \<le> 8"
proof -
  have "read_frame sample_text 64 8 (be_bytes 4 @ map of_char ''true'' @ []) = Inr (JBool True, [])"
    using read_encoded [OF sample_encoded(1) sample_text_exact(1), of "[]"] by simp
  from this read_frame_bounded [OF this] show ?thesis by blast
qed

end
