(* ===== verification/Wire_Peer.thy ===== *)
theory Wire_Peer
  imports Wire_Frames
begin

text \<open>
  One end of a plugin connection (\<open>Peer\<close> of \<open>peer.rs\<close>) as a state machine: the bounded outbound channels and
  their byte budget, the table of calls that wait for an answer, the table of requests that are being
  handled, the event fence, and closing. Each operation runs to its end under the locks it takes; the tasks
  that write, read, wait and handle requests are steps in any order.
\<close>

section \<open>Limits\<close>

record limits =
  max_frame_bytes :: nat
  max_depth :: nat
  max_pending_calls :: nat
  max_queued_bytes :: nat
  max_call_chain_length :: nat
  call_timeout_ms :: nat
  shutdown_timeout_ms :: nat
  startup_timeout_ms :: nat
  max_log_bytes :: nat
  max_event_queue :: nat

definition default_limits :: limits where
  "default_limits = \<lparr>max_frame_bytes = 8 * 1024 * 1024, max_depth = 64, max_pending_calls = 256,
     max_queued_bytes = 16 * 1024 * 1024, max_call_chain_length = 16, call_timeout_ms = 30000, shutdown_timeout_ms = 5000,
     startup_timeout_ms = 10000, max_log_bytes = 1024 * 1024, max_event_queue = 256\<rparr>"

definition limits_valid :: "limits \<Rightarrow> bool" where
  "limits_valid a = (0 < max_frame_bytes a \<and> max_frame_bytes a \<le> 64 * 1024 * 1024 \<and> 0 < max_depth a \<and> max_depth a \<le> 64 \<and>
     0 < max_pending_calls a \<and> max_pending_calls a \<le> 65536 \<and> max_frame_bytes a \<le> max_queued_bytes a \<and>
     max_queued_bytes a \<le> 256 * 1024 * 1024 \<and> 0 < max_call_chain_length a \<and> max_call_chain_length a \<le> 64 \<and>
     0 < call_timeout_ms a \<and> call_timeout_ms a \<le> 86400000 \<and> 0 < shutdown_timeout_ms a \<and> 0 < startup_timeout_ms a \<and>
     max_log_bytes a \<le> 64 * 1024 * 1024 \<and> 0 < max_event_queue a \<and> max_event_queue a \<le> 65536)"

definition validate_limits :: "limits \<Rightarrow> unit plugin_result" where
  "validate_limits a =
     (if limits_valid a then Inr () else Inl (rpc_new (ascii ''INVALID_ARGUMENT'') (ascii ''invalid transport limits'')))"

definition stricter :: "limits \<Rightarrow> limits \<Rightarrow> limits" where
  "stricter a b = \<lparr>max_frame_bytes = min (max_frame_bytes a) (max_frame_bytes b), max_depth = min (max_depth a) (max_depth b),
     max_pending_calls = min (max_pending_calls a) (max_pending_calls b),
     max_queued_bytes = min (max_queued_bytes a) (max_queued_bytes b),
     max_call_chain_length = min (max_call_chain_length a) (max_call_chain_length b),
     call_timeout_ms = min (call_timeout_ms a) (call_timeout_ms b),
     shutdown_timeout_ms = min (shutdown_timeout_ms a) (shutdown_timeout_ms b),
     startup_timeout_ms = min (startup_timeout_ms a) (startup_timeout_ms b),
     max_log_bytes = min (max_log_bytes a) (max_log_bytes b), max_event_queue = min (max_event_queue a) (max_event_queue b)\<rparr>"

section \<open>State\<close>

datatype lane = Control | Business | Events

record queued_frame =
  request_id :: "rstring option"
  frame_data :: "u8 list"
  ack :: "nat option"

record pending_call =
  receiver_open :: bool
  business :: bool
  accept_result :: "(json \<Rightarrow> unit plugin_result) option"

record active_call =
  cancelled :: bool
  call_size :: nat
  call_business :: bool

record peer =
  session :: rstring
  host_side :: bool
  limits_of :: limits
  channel :: "lane \<Rightarrow> queued_frame list"
  capacity :: "lane \<Rightarrow> nat"
  event_fence :: "rstring option"
  queued_bytes :: nat
  counter :: u64
  pending :: "(rstring \<times> pending_call) list"
  active :: "(rstring \<times> active_call) list"
  active_bytes :: nat
  event_handler :: "(json \<Rightarrow> unit plugin_result) option"
  closed :: bool
  reason :: "rpc_error option"
  late_responses :: u64
  unknown_notifications :: u64
  in_flight :: "(lane \<times> queued_frame) option"
  writer_alive :: bool
  written :: "(lane \<times> queued_frame) list"
  answers :: "(rstring \<times> json plugin_result) list"
  handling :: "(rstring \<times> rstring \<times> json) list"
  acked :: "nat list"
  draining :: "nat list"
  next_ack :: nat

text \<open>The last fields stand for what lives outside \<open>Inner\<close>: the frame the writer task holds, what it has
  written, the results sent to waiting callers, and the tasks spawned for handlers and for shutting down.\<close>

record peer_lib =
  texts :: wire_text
  read_error :: "json \<Rightarrow> rpc_error option"

definition blank_peer :: "rstring \<Rightarrow> bool \<Rightarrow> limits \<Rightarrow> peer" where
  "blank_peer name host lim = \<lparr>session = name, host_side = host, limits_of = lim, channel = (\<lambda>_. []),
     capacity = (\<lambda>l. case l of Control \<Rightarrow> 64 | Business \<Rightarrow> max_pending_calls lim | Events \<Rightarrow> max_event_queue lim),
     event_fence = None, queued_bytes = 0, counter = 1, pending = [], active = [], active_bytes = 0, event_handler = None,
     closed = False, reason = None, late_responses = 0, unknown_notifications = 0, in_flight = None, writer_alive = True,
     written = [], answers = [], handling = [], acked = [], draining = [], next_ack = 0\<rparr>"

definition peer_new :: "rstring \<Rightarrow> rchar \<Rightarrow> limits \<Rightarrow> peer plugin_result" where
  "peer_new name prefix lim =
     bind_outcome (validate_limits lim) (\<lambda>_.
       if prefix \<notin> {of_char CHR ''h'', of_char CHR ''p''} \<or> name = [] \<or> length (as_bytes name) > 128
       then Inl (rpc_new (ascii ''INVALID_ARGUMENT'') (ascii ''invalid peer identity''))
       else Inr (blank_peer name (prefix = of_char CHR ''h'') lim))"

definition side :: "bool \<Rightarrow> rstring" where
  "side host = (if host then ascii ''h'' else ascii ''p'')"

definition call_id :: "peer \<Rightarrow> bool \<Rightarrow> nat \<Rightarrow> rstring" where
  "call_id p outbound n = side (host_side p = outbound) @ ascii '':'' @ session p @ ascii '':'' @ nat_text n"

definition negotiate_limits :: "limits \<Rightarrow> peer \<Rightarrow> unit plugin_result \<times> peer" where
  "negotiate_limits lim p =
     (case validate_limits lim of Inl e \<Rightarrow> (Inl e, p) | Inr _ \<Rightarrow> (Inr (), p\<lparr>limits_of := stricter (limits_of p) lim\<rparr>))"

definition set_event_handler :: "(json \<Rightarrow> unit plugin_result) \<Rightarrow> peer \<Rightarrow> peer" where
  "set_event_handler h p = p\<lparr>event_handler := Some h\<rparr>"

definition hold_events_until_reply :: "rstring \<Rightarrow> peer \<Rightarrow> peer" where
  "hold_events_until_reply m p = p\<lparr>event_fence := Some m\<rparr>"

definition release_event_fence :: "rstring \<Rightarrow> peer \<Rightarrow> peer" where
  "release_event_fence m p = (if event_fence p = Some m then p\<lparr>event_fence := None\<rparr> else p)"

section \<open>Closing and sending\<close>

text \<open>Closing answers every waiting call with the error and cancels every request in progress.\<close>

definition close :: "rpc_error \<Rightarrow> peer \<Rightarrow> peer" where
  "close e p =
     (if reason p \<noteq> None then p
      else p\<lparr>reason := Some e, closed := True,
        answers := answers p @ map (\<lambda>(i, _). (i, Inl e)) (filter (\<lambda>(_, c). receiver_open c) (pending p)),
        pending := [],
        active := map (\<lambda>(i, c). (i, c\<lparr>cancelled := True\<rparr>)) (active p)\<rparr>)"

definition release_bytes :: "queued_frame \<Rightarrow> peer \<Rightarrow> peer" where
  "release_bytes f p = p\<lparr>queued_bytes := queued_bytes p - length (frame_data f)\<rparr>"

definition too_busy :: "string \<Rightarrow> rpc_error" where
  "too_busy m = rpc_new (ascii ''OVERLOADED'') (ascii m)"

text \<open>\<open>try_send\<close>: a frame that does not fit is dropped, which gives its bytes back.\<close>

definition try_send :: "lane \<Rightarrow> queued_frame \<Rightarrow> peer \<Rightarrow> bool \<times> peer" where
  "try_send l f p =
     (if \<not> writer_alive p \<or> capacity p l \<le> length (channel p l) then (False, release_bytes f p)
      else (True, p\<lparr>channel := (channel p)(l := channel p l @ [f])\<rparr>))"

definition lane_of :: "json \<Rightarrow> bool \<Rightarrow> lane" where
  "lane_of v priority =
     (if priority then Control
      else if Option.bind (get_key v (ascii ''method'')) as_string = Some (ascii ''system.event'') then Events else Business)"

definition request_of :: "json \<Rightarrow> rstring option" where
  "request_of v = (if get_key v (ascii ''method'') = None then None else Option.bind (get_key v (ascii ''id'')) as_string)"

definition enqueue :: "peer_lib \<Rightarrow> json \<Rightarrow> bool \<Rightarrow> peer \<Rightarrow> unit plugin_result \<times> peer" where
  "enqueue L v priority p =
     (if closed p then (Inl (rpc_new (ascii ''CONNECTION_CLOSED'') (ascii ''peer is closed'')), p)
      else case encode_frame (texts L) v (max_frame_bytes (limits_of p)) (max_depth (limits_of p)) of
        Inl e \<Rightarrow> (Inl e, p)
      | Inr data \<Rightarrow>
          if queued_bytes p + length data > max_queued_bytes (limits_of p) + (if priority then 1024 * 1024 else 0)
          then (Inl (too_busy ''outbound queued byte limit exceeded''), p)
          else (case try_send (lane_of v priority) \<lparr>request_id = request_of v, frame_data = data, ack = None\<rparr>
                  (p\<lparr>queued_bytes := queued_bytes p + length data\<rparr>) of
                  (True, p) \<Rightarrow> (Inr (), p)
                | (False, q) \<Rightarrow> (Inl (too_busy (if writer_alive p then ''outbound queue rejected frame: full''
                    else ''outbound queue rejected frame: closed'')), q)))"

definition flush :: "peer \<Rightarrow> nat plugin_result \<times> peer" where
  "flush p =
     (case try_send Control \<lparr>request_id = None, frame_data = [], ack = Some (next_ack p)\<rparr> p of
        (True, q) \<Rightarrow> (Inr (next_ack p), q\<lparr>next_ack := Suc (next_ack p)\<rparr>)
      | (False, q) \<Rightarrow> (Inl (too_busy ''control flush queue is full''), q))"

definition rpc_object :: "(string \<times> json) list \<Rightarrow> json" where
  "rpc_object fs = JObject (map (\<lambda>(k, v). (ascii k, v)) ((''jsonrpc'', JString (ascii ''2.0'')) # fs))"

definition notify :: "peer_lib \<Rightarrow> rstring \<Rightarrow> json \<Rightarrow> peer \<Rightarrow> unit plugin_result \<times> peer" where
  "notify L m params p =
     enqueue L (rpc_object [(''method'', JString m), (''params'', params)]) (m \<noteq> ascii ''system.event'') p"

definition error_value :: "rpc_error \<Rightarrow> json" where
  "error_value e = JObject [(ascii ''code'', JNumber (number_of_i64 (err_code e))), (ascii ''message'', JString (err_message e)),
     (ascii ''data'', err_data e)]"

definition respond :: "peer_lib \<Rightarrow> rstring \<Rightarrow> json plugin_result \<Rightarrow> peer \<Rightarrow> unit plugin_result \<times> peer" where
  "respond L i r p =
     enqueue L (rpc_object [(''id'', JString i), (case r of Inr v \<Rightarrow> (''result'', v) | Inl e \<Rightarrow> (''error'', error_value e))]) True p"

section \<open>Calls\<close>

definition class_cap :: "limits \<Rightarrow> bool \<Rightarrow> nat" where
  "class_cap lim b = (if b then max_pending_calls lim else 32)"

definition is_invoke :: "rstring \<Rightarrow> bool" where
  "is_invoke m = (m = ascii ''system.invoke'')"

definition remove_pending :: "rstring \<Rightarrow> peer \<Rightarrow> peer" where
  "remove_pending i p = p\<lparr>pending := filter (\<lambda>(j, _). j \<noteq> i) (pending p)\<rparr>"

definition class_count :: "bool \<Rightarrow> (rstring \<times> pending_call) list \<Rightarrow> nat" where
  "class_count b calls = length (filter (\<lambda>c. business c = b) (map snd calls))"

definition request_full :: "bool \<Rightarrow> peer \<Rightarrow> bool" where
  "request_full b p = (class_cap (limits_of p) b \<le> class_count b (pending p))"

text \<open>The start of a call, up to the point where the caller waits.\<close>

definition register_call :: "rstring \<Rightarrow> (json \<Rightarrow> unit plugin_result) option \<Rightarrow> peer \<Rightarrow> rstring plugin_result \<times> peer" where
  "register_call m accept p =
     (if counter p = - 1 then (Inl (too_busy ''request counter exhausted; create a new session''), p)
      else let i = call_id p True (unat (counter p)); p = p\<lparr>counter := counter p + 1\<rparr>
           in if request_full (is_invoke m) p then (Inl (too_busy ''outbound pending call limit exceeded''), p)
              else (Inr i, p\<lparr>pending := (i, \<lparr>receiver_open = True, business = is_invoke m, accept_result = accept\<rparr>) # pending p\<rparr>))"

definition request :: "peer_lib \<Rightarrow> rstring \<Rightarrow> json \<Rightarrow> (json \<Rightarrow> unit plugin_result) option \<Rightarrow> peer \<Rightarrow> rstring plugin_result \<times> peer" where
  "request L m params accept p =
     (case register_call m accept p of
        (Inl e, p) \<Rightarrow> (Inl e, p)
      | (Inr i, p) \<Rightarrow>
          (case enqueue L (rpc_object [(''id'', JString i), (''method'', JString m), (''params'', params)]) (\<not> is_invoke m) p of
             (Inl e, p) \<Rightarrow> (Inl e, remove_pending i p)
           | (Inr _, p) \<Rightarrow> (Inr i, p)))"

text \<open>A caller that stops waiting drops its receiver first; the entry goes when the call ends or its guard is
  dropped, and then the other side is told.\<close>

definition drop_receiver :: "rstring \<Rightarrow> peer \<Rightarrow> peer" where
  "drop_receiver i p = p\<lparr>pending := map (\<lambda>(j, c). (j, if j = i then c\<lparr>receiver_open := False\<rparr> else c)) (pending p)\<rparr>"

definition finish_call :: "peer_lib \<Rightarrow> rstring \<Rightarrow> peer \<Rightarrow> peer" where
  "finish_call L i p =
     (if map_of (pending p) i = None then p
      else snd (notify L (ascii ''system.cancel'') (JObject [(ascii ''id'', JString i)]) (remove_pending i p)))"

section \<open>Incoming frames\<close>

definition strip_prefix :: "rstring \<Rightarrow> rstring \<Rightarrow> rstring option" where
  "strip_prefix x s = (if take (length x) s = x then Some (drop (length x) s) else None)"

definition bad_request :: "string \<Rightarrow> rpc_error" where
  "bad_request m = rpc_new (ascii ''INVALID_REQUEST'') (ascii m)"

definition check_id :: "peer \<Rightarrow> rstring \<Rightarrow> bool \<Rightarrow> unit plugin_result" where
  "check_id p i outbound =
     (case strip_prefix (side (host_side p = outbound) @ ascii '':'' @ session p @ ascii '':'') i of
        None \<Rightarrow> Inl (bad_request ''request ID namespace or counter is invalid'')
      | Some n \<Rightarrow>
          if n \<noteq> [] \<and> n \<noteq> ascii ''0'' \<and> length (as_bytes n) \<le> 20 \<and> list_all is_digit (as_bytes n)
             \<and> (length (as_bytes n) = 1 \<or> take 1 n \<noteq> ascii ''0'') \<and> parse_u64 n \<noteq> None
          then Inr () else Inl (bad_request ''request ID namespace or counter is invalid''))"

definition class_active :: "bool \<Rightarrow> peer \<Rightarrow> active_call list" where
  "class_active b p = filter (\<lambda>c. call_business c = b) (map snd (active p))"

definition active_full :: "bool \<Rightarrow> nat \<Rightarrow> peer \<Rightarrow> bool" where
  "active_full b nbytes p =
     (class_cap (limits_of p) b \<le> length (class_active b p) \<or>
      max_queued_bytes (limits_of p) < sum_list (map call_size (class_active b p)) + nbytes)"

definition admit :: "rstring \<Rightarrow> nat \<Rightarrow> rstring \<Rightarrow> json \<Rightarrow> peer \<Rightarrow> peer" where
  "admit i nbytes m params p =
     p\<lparr>active_bytes := active_bytes p + nbytes,
       active := (i, \<lparr>cancelled = False, call_size = nbytes, call_business = is_invoke m\<rparr>) # active p,
       handling := handling p @ [(i, m, params)]\<rparr>"

definition receive_request :: "peer_lib \<Rightarrow> json \<Rightarrow> rstring \<Rightarrow> json \<Rightarrow> peer \<Rightarrow> unit plugin_result \<times> peer" where
  "receive_request L v m iv p =
     (case as_string iv of
        None \<Rightarrow> (Inl (bad_request ''request IDs must be namespaced strings''), p)
      | Some i \<Rightarrow>
          (case check_id p i False of
             Inl e \<Rightarrow> (Inl e, p)
           | Inr _ \<Rightarrow>
               (case to_text (texts L) v of
                  Inl e \<Rightarrow> (Inl (rpc_new (ascii ''INVALID_ARGUMENT'') e), p)
                | Inr t \<Rightarrow>
                    let nbytes = length (as_bytes t)
                    in if map_of (active p) i \<noteq> None then (Inl (bad_request ''duplicate active request ID''), p)
                       else if active_full (is_invoke m) nbytes p
                       then respond L i (Inl (too_busy ''inbound active request bounds exceeded'')) p
                       else (Inr (), admit i nbytes m (at_key v (ascii ''params'')) p))))"

definition cancel_active :: "rstring \<Rightarrow> peer \<Rightarrow> peer" where
  "cancel_active i p = p\<lparr>active := map (\<lambda>(j, c). (j, if j = i then c\<lparr>cancelled := True\<rparr> else c)) (active p)\<rparr>"

definition receive_notification :: "json \<Rightarrow> rstring \<Rightarrow> peer \<Rightarrow> unit plugin_result \<times> peer" where
  "receive_notification v m p =
     (let params = at_key v (ascii ''params'') in
      if m = ascii ''system.cancel'' then
        (if (case as_object params of None \<Rightarrow> True | Some fs \<Rightarrow> length fs \<noteq> 1)
         then (Inl (bad_request ''cancellation requires only id''), p)
         else case as_string (at_key params (ascii ''id'')) of
           None \<Rightarrow> (Inl (bad_request ''cancellation requires id''), p)
         | Some i \<Rightarrow> (case check_id p i False of Inl e \<Rightarrow> (Inl e, p) | Inr _ \<Rightarrow> (Inr (), cancel_active i p)))
      else if m = ascii ''system.event'' then
        (case event_handler p of None \<Rightarrow> (Inr (), p) | Some h \<Rightarrow> (h params, p))
      else (Inr (), p\<lparr>unknown_notifications := unknown_notifications p + 1\<rparr>))"

definition answer_call :: "rstring \<Rightarrow> json plugin_result \<Rightarrow> peer \<Rightarrow> peer" where
  "answer_call i r p =
     (case map_of (pending p) i of
        None \<Rightarrow> p\<lparr>late_responses := late_responses p + 1\<rparr>
      | Some c \<Rightarrow>
          if \<not> receiver_open c then (remove_pending i p)\<lparr>late_responses := late_responses p + 1\<rparr>
          else (remove_pending i p)\<lparr>answers := answers p @ [(i, bind_outcome r (\<lambda>v.
            bind_outcome (case accept_result c of None \<Rightarrow> Inr () | Some f \<Rightarrow> f v) (\<lambda>_. Inr v)))]\<rparr>)"

definition read_result :: "peer_lib \<Rightarrow> json \<Rightarrow> (rstring \<times> json) list \<Rightarrow> json plugin_result plugin_result" where
  "read_result L v fs =
     (if has_key fs ''result'' then Inr (Inr (at_key v (ascii ''result'')))
      else case read_error L (at_key v (ascii ''error'')) of
        None \<Rightarrow> Inl (bad_request ''malformed RPC error'')
      | Some e \<Rightarrow> bind_outcome (validate_wire e) (\<lambda>_. Inr (Inl e)))"

definition receive_response :: "peer_lib \<Rightarrow> json \<Rightarrow> (rstring \<times> json) list \<Rightarrow> peer \<Rightarrow> unit plugin_result \<times> peer" where
  "receive_response L v fs p =
     (if \<not> only_keys fs [''jsonrpc'', ''id'', ''result'', ''error''] \<or> has_key fs ''result'' = has_key fs ''error''
      then (Inl (bad_request ''response requires exactly one result/error''), p)
      else case as_string (at_key v (ascii ''id'')) of
        None \<Rightarrow> (Inl (bad_request ''response id must be string''), p)
      | Some i \<Rightarrow>
          (case bind_outcome (check_id p i True) (\<lambda>_. read_result L v fs) of
             Inl e \<Rightarrow> (Inl e, p)
           | Inr r \<Rightarrow> (Inr (), answer_call i r p)))"

definition bounded_method :: "json \<Rightarrow> rstring option" where
  "bounded_method m = (case as_string m of None \<Rightarrow> None | Some x \<Rightarrow> if x \<noteq> [] \<and> length (as_bytes x) \<le> 128 then Some x else None)"

definition receive :: "peer_lib \<Rightarrow> json \<Rightarrow> peer \<Rightarrow> unit plugin_result \<times> peer" where
  "receive L v p =
     (case as_object v of
        None \<Rightarrow> (Inl (bad_request ''batch and non-object RPC envelopes are unsupported''), p)
      | Some fs \<Rightarrow>
          if at_key v (ascii ''jsonrpc'') \<noteq> JString (ascii ''2.0'') then (Inl (bad_request ''jsonrpc must be 2.0''), p)
          else case map_of fs (ascii ''method'') of
            None \<Rightarrow> receive_response L v fs p
          | Some mv \<Rightarrow>
              (case bounded_method mv of
                 None \<Rightarrow> (Inl (bad_request ''method must be bounded string''), p)
               | Some m \<Rightarrow>
                   if \<not> only_keys fs [''jsonrpc'', ''id'', ''method'', ''params''] \<or> as_object (at_key v (ascii ''params'')) = None
                   then (Inl (bad_request ''invalid request fields or params''), p)
                   else case map_of fs (ascii ''id'') of
                     Some iv \<Rightarrow> receive_request L v m iv p
                   | None \<Rightarrow> receive_notification v m p))"

section \<open>Tasks\<close>

text \<open>The reader closes the peer on the first frame it cannot take.\<close>

definition reader_step :: "peer_lib \<Rightarrow> json plugin_result \<Rightarrow> peer \<Rightarrow> peer" where
  "reader_step L frame p =
     (case frame of
        Inl e \<Rightarrow> close e p
      | Inr v \<Rightarrow> (case receive L v p of (Inl e, p) \<Rightarrow> close e p | (Inr _, p) \<Rightarrow> p))"

definition retire :: "rstring \<Rightarrow> peer \<Rightarrow> peer" where
  "retire i p =
     (case map_of (active p) i of
        None \<Rightarrow> p
      | Some c \<Rightarrow> p\<lparr>active := filter (\<lambda>(j, _). j \<noteq> i) (active p), active_bytes := active_bytes p - call_size c\<rparr>)"

definition graceful :: rpc_error where
  "graceful = rpc_new (ascii ''CONNECTION_CLOSED'') (ascii ''graceful shutdown completed'')"

definition finish_handler :: "peer_lib \<Rightarrow> rstring \<Rightarrow> rstring \<Rightarrow> json plugin_result \<Rightarrow> peer \<Rightarrow> peer" where
  "finish_handler L i m r p =
     (case respond L i r (retire i p) of
        (Inl e, p) \<Rightarrow> close e p
      | (Inr _, p) \<Rightarrow>
          (case r of
             Inl _ \<Rightarrow> p
           | Inr _ \<Rightarrow>
               let p = release_event_fence m p
               in if m \<noteq> ascii ''system.shutdown'' then p
                  else case flush p of
                    (Inl _, p) \<Rightarrow> close graceful p
                  | (Inr token, p) \<Rightarrow> p\<lparr>draining := draining p @ [token]\<rparr>))"

text \<open>The task that handles a request ends with the handler's result, whatever it is.\<close>

definition handler_step :: "peer_lib \<Rightarrow> nat \<Rightarrow> json plugin_result \<Rightarrow> peer \<Rightarrow> peer" where
  "handler_step L k r p =
     (case get_at (handling p) k of
        None \<Rightarrow> p
      | Some (i, m, _) \<Rightarrow> finish_handler L i m r (p\<lparr>handling := take k (handling p) @ drop (Suc k) (handling p)\<rparr>))"

definition shutdown_step :: "nat \<Rightarrow> peer \<Rightarrow> peer" where
  "shutdown_step token p = (if token \<in> set (draining p) \<and> (token \<in> set (acked p) \<or> closed p) then close graceful p else p)"

text \<open>The writer prefers control frames; ordinary calls and, without a fence, events share the rest.\<close>

definition pick_lane :: "bool \<Rightarrow> peer \<Rightarrow> lane option" where
  "pick_lane events_first p =
     (let calls = channel p Business \<noteq> []; events = channel p Events \<noteq> [] \<and> event_fence p = None
      in if channel p Control \<noteq> [] then Some Control
         else if calls \<and> events then Some (if events_first then Events else Business)
         else if calls then Some Business else if events then Some Events else None)"

definition stale :: "queued_frame \<Rightarrow> peer \<Rightarrow> bool" where
  "stale f p = (case request_id f of None \<Rightarrow> False | Some i \<Rightarrow> map_of (pending p) i = None)"

definition writer_take :: "bool \<Rightarrow> peer \<Rightarrow> peer" where
  "writer_take events_first p =
     (if closed p \<or> \<not> writer_alive p \<or> in_flight p \<noteq> None then p
      else case pick_lane events_first p of
        None \<Rightarrow> p
      | Some l \<Rightarrow>
          let f = hd (channel p l); p = p\<lparr>channel := (channel p)(l := tl (channel p l))\<rparr>
          in if stale f p then release_bytes f p else p\<lparr>in_flight := Some (l, f)\<rparr>)"

definition writer_done :: "peer \<Rightarrow> peer" where
  "writer_done p =
     (case in_flight p of
        None \<Rightarrow> p
      | Some (l, f) \<Rightarrow>
          release_bytes f (p\<lparr>in_flight := None, written := written p @ [(l, f)],
            acked := (case ack f of None \<Rightarrow> acked p | Some k \<Rightarrow> acked p @ [k])\<rparr>))"

definition lane_frames :: "peer \<Rightarrow> queued_frame list" where
  "lane_frames p = concat (map (channel p) [Control, Business, Events]) @ (case in_flight p of None \<Rightarrow> [] | Some (_, f) \<Rightarrow> [f])"

text \<open>The end of the writer drops every frame that is left.\<close>

definition writer_stop :: "peer \<Rightarrow> peer" where
  "writer_stop p =
     (if closed p \<and> writer_alive p
      then (fold release_bytes (lane_frames p) p)\<lparr>channel := (\<lambda>_. []), in_flight := None, writer_alive := False\<rparr>
      else p)"

definition writer_fail :: "rpc_error \<Rightarrow> peer \<Rightarrow> peer" where
  "writer_fail e p = (if in_flight p = None then p else writer_stop (close e p))"

inductive peer_step :: "peer_lib \<Rightarrow> peer \<Rightarrow> peer \<Rightarrow> bool" for L where
  negotiates: "peer_step L p (snd (negotiate_limits lim p))"
| listens: "peer_step L p (set_event_handler h p)"
| holds: "peer_step L p (hold_events_until_reply m p)"
| closes: "peer_step L p (close e p)"
| notifies: "peer_step L p (snd (notify L m params p))"
| requests: "peer_step L p (snd (request L m params accept p))"
| drops: "peer_step L p (drop_receiver i p)"
| finishes: "peer_step L p (finish_call L i p)"
| reads: "peer_step L p (reader_step L frame p)"
| handles: "peer_step L p (handler_step L k r p)"
| flushes: "peer_step L p (snd (flush p))"
| shuts_down: "peer_step L p (shutdown_step token p)"
| takes: "peer_step L p (writer_take events_first p)"
| writes: "peer_step L p (writer_done p)"
| fails: "peer_step L p (writer_fail e p)"
| stops: "peer_step L p (writer_stop p)"

inductive peer_reaches :: "peer_lib \<Rightarrow> peer \<Rightarrow> peer \<Rightarrow> bool" for L p where
  start: "peer_reaches L p p"
| further: "peer_reaches L p q \<Longrightarrow> peer_step L q r \<Longrightarrow> peer_reaches L p r"

section \<open>Invariants of the operations\<close>

text \<open>What every operation keeps, from what the parts keep that the operations are made of.\<close>

locale peer_invariant =
  fixes L :: peer_lib and I :: "peer \<Rightarrow> bool"
  assumes enqueued: "I p \<Longrightarrow> I (snd (enqueue L v priority p))"
    and flushed: "I p \<Longrightarrow> I (snd (flush p))"
    and closing: "I p \<Longrightarrow> I (close e p)"
    and requested: "I p \<Longrightarrow> I (snd (request L m params accept p))"
    and removed: "I p \<Longrightarrow> I (remove_pending i p)"
    and dropped: "I p \<Longrightarrow> I (drop_receiver i p)"
    and answered: "I p \<Longrightarrow> I (answer_call i r p)"
    and admitted: "I p \<Longrightarrow> map_of (active p) i = None \<Longrightarrow> \<not> active_full (is_invoke m) n p \<Longrightarrow> I (admit i n m params p)"
    and retired: "I p \<Longrightarrow> I (retire i p)"
    and cancels: "I p \<Longrightarrow> I (cancel_active i p)"
    and stricter_kept: "I p \<Longrightarrow> limits_valid lim \<Longrightarrow> I (p\<lparr>limits_of := stricter (limits_of p) lim\<rparr>)"
    and held: "I p \<Longrightarrow> I (p\<lparr>event_fence := Some m\<rparr>)"
    and replied: "I p \<Longrightarrow> respond L i (Inr v) p = (Inr (), q) \<Longrightarrow> I (q\<lparr>event_fence := None\<rparr>)"
    and listened: "I p \<Longrightarrow> I (p\<lparr>event_handler := h\<rparr>)"
    and counted: "I p \<Longrightarrow> I (p\<lparr>unknown_notifications := c\<rparr>)"
    and spawned: "I p \<Longrightarrow> I (p\<lparr>handling := hs\<rparr>)"
    and drained: "I p \<Longrightarrow> I (p\<lparr>draining := ks\<rparr>)"
    and taken: "I p \<Longrightarrow> I (writer_take b p)"
    and wrote: "I p \<Longrightarrow> I (writer_done p)"
    and stopped: "I p \<Longrightarrow> I (writer_stop p)"
begin

lemma notify_keeps: "I p \<Longrightarrow> I (snd (notify L m params p))"
  by (simp add: notify_def enqueued)

lemma respond_keeps: "I p \<Longrightarrow> I (snd (respond L i r p))"
  by (simp add: respond_def enqueued)

lemma finish_call_keeps: "I p \<Longrightarrow> I (finish_call L i p)"
  by (simp add: finish_call_def notify_keeps removed)

lemma receive_keeps: "I p \<Longrightarrow> I (snd (receive L v p))"
proof -
  assume p: "I p"
  have "I (snd (receive_request L v m iv p))" for m iv
    using p by (auto simp: receive_request_def Let_def respond_keeps admitted split: option.split sum.split)
  moreover have "I (snd (receive_notification v m p))" for m
    using p by (auto simp: receive_notification_def Let_def cancels counted split: option.split sum.split)
  moreover have "I (snd (receive_response L v fs p))" for fs
    using p by (auto simp: receive_response_def answered split: option.split sum.split)
  ultimately show ?thesis using p by (auto simp: receive_def split: option.split)
qed

lemma reader_keeps: "I p \<Longrightarrow> I (reader_step L frame p)"
  using receive_keeps by (auto simp: reader_step_def closing split: sum.split prod.split) (metis snd_conv closing)+

lemma finish_handler_keeps:
  assumes "I p"
  shows "I (finish_handler L i m r p)"
proof (cases "respond L i r (retire i p)")
  case (Pair x q)
  note p = retired [OF assms, of i]
  have q: "I q" using respond_keeps [OF p, of i r] Pair by simp
  have free: "I (release_event_fence m q)" if "r = Inr v" "x = Inr u" for v u
    using q replied [OF p] that Pair by (simp add: release_event_fence_def)
  obtain y q' where flush: "flush (release_event_fence m q) = (y, q')" by (cases "flush (release_event_fence m q)")
  have "I q'" if "r = Inr v" "x = Inr u" for v u using flushed [OF free [OF that]] flush by simp
  with q free flush show ?thesis
    by (auto simp: finish_handler_def Pair Let_def closing drained split: sum.split)
qed

lemma step_keeps: "peer_step L p q \<Longrightarrow> I p \<Longrightarrow> I q"
proof (induction rule: peer_step.induct)
  case (negotiates p lim)
  then show ?case by (simp add: negotiate_limits_def validate_limits_def stricter_kept)
next
  case (handles p k r)
  then show ?case by (auto simp: handler_step_def finish_handler_keeps spawned split: option.split)
qed (simp_all add: set_event_handler_def hold_events_until_reply_def shutdown_step_def writer_fail_def listened held closing
  notify_keeps requested dropped finish_call_keeps reader_keeps flushed taken wrote stopped)

lemma reaches_keeps: "peer_reaches L p q \<Longrightarrow> I p \<Longrightarrow> I q"
  by (induction rule: peer_reaches.induct) (auto intro: step_keeps)

end

section \<open>The channels\<close>

text \<open>Sending touches nothing but the channels and the byte count.\<close>

lemma try_send_frame:
  "snd (try_send l f p) = p\<lparr>channel := channel (snd (try_send l f p)), queued_bytes := queued_bytes (snd (try_send l f p))\<rparr>"
  by (simp add: try_send_def release_bytes_def)

lemma enqueue_frame:
  "snd (enqueue L v b p) = p\<lparr>channel := channel (snd (enqueue L v b p)), queued_bytes := queued_bytes (snd (enqueue L v b p))\<rparr>"
  by (simp add: enqueue_def try_send_def release_bytes_def split: sum.split)

lemma flush_frame:
  "snd (flush p) = p\<lparr>channel := channel (snd (flush p)), queued_bytes := queued_bytes (snd (flush p)), next_ack := next_ack (snd (flush p))\<rparr>"
  by (simp add: flush_def try_send_def release_bytes_def)

definition bytes_in :: "(lane \<Rightarrow> queued_frame list) \<Rightarrow> (lane \<times> queued_frame) option \<Rightarrow> nat" where
  "bytes_in c out = sum_list (map (length \<circ> frame_data)
     (concat (map c [Control, Business, Events]) @ (case out of None \<Rightarrow> [] | Some (_, f) \<Rightarrow> [f])))"

definition lane_capacity :: "limits \<Rightarrow> lane \<Rightarrow> nat" where
  "lane_capacity A = (\<lambda>l. case l of Control \<Rightarrow> 64 | Business \<Rightarrow> max_pending_calls A | Events \<Rightarrow> max_event_queue A)"

definition queue_ok :: "limits \<Rightarrow> peer \<Rightarrow> bool" where
  "queue_ok A p \<longleftrightarrow> queued_bytes p = bytes_in (channel p) (in_flight p) \<and> queued_bytes p \<le> max_queued_bytes A + 1024 * 1024 \<and>
     max_queued_bytes (limits_of p) \<le> max_queued_bytes A \<and> (\<forall>l. length (channel p l) \<le> capacity p l) \<and> capacity p = lane_capacity A \<and>
     limits_valid (limits_of p)"

lemma bytes_in_send [simp]: "bytes_in (c(l := c l @ [f])) out = bytes_in c out + length (frame_data f)"
  by (cases l) (simp_all add: bytes_in_def)

lemma bytes_in_take:
  assumes "c l = f # fs"
  shows "bytes_in c None = bytes_in (c(l := fs)) None + length (frame_data f)"
    "bytes_in (c(l := fs)) (Some (k, f)) = bytes_in c None"
  using assms by (cases l; simp add: bytes_in_def)+

lemma bytes_in_done: "bytes_in c (Some (k, f)) = bytes_in c None + length (frame_data f)"
  by (simp add: bytes_in_def)

lemma stricter_valid: "limits_valid a \<Longrightarrow> limits_valid b \<Longrightarrow> limits_valid (stricter a b)"
  unfolding limits_valid_def stricter_def by simp linarith

lemma queue_send:
  assumes "queue_ok A p" "queued_bytes p + length (frame_data f) \<le> max_queued_bytes A + 1024 * 1024"
  shows "queue_ok A (snd (try_send l f (p\<lparr>queued_bytes := queued_bytes p + length (frame_data f)\<rparr>)))"
  using assms by (auto simp: queue_ok_def try_send_def release_bytes_def)

lemma queue_enqueue:
  assumes ok: "queue_ok A p"
  shows "queue_ok A (snd (enqueue L v b p))"
proof (cases "encode_frame (texts L) v (max_frame_bytes (limits_of p)) (max_depth (limits_of p))")
  case (Inr data)
  let ?f = "\<lparr>request_id = request_of v, frame_data = data, ack = None\<rparr>"
  let ?sent = "try_send (lane_of v b) ?f (p\<lparr>queued_bytes := queued_bytes p + length data\<rparr>)"
  have "queue_ok A (snd ?sent)" if "queued_bytes p + length data \<le> max_queued_bytes (limits_of p) + (if b then 1024 * 1024 else 0)"
  proof -
    have "max_queued_bytes (limits_of p) \<le> max_queued_bytes A" using ok by (simp add: queue_ok_def)
    with that have "queued_bytes p + length (frame_data ?f) \<le> max_queued_bytes A + 1024 * 1024" by (cases b) auto
    from queue_send [OF ok this, of "lane_of v b"] show ?thesis by simp
  qed
  then show ?thesis using ok Inr by (cases ?sent) (auto simp: enqueue_def not_less split: bool.split)
qed (use ok in \<open>simp add: enqueue_def\<close>)

lemma queue_flush: "queue_ok A p \<Longrightarrow> queue_ok A (snd (flush p))"
  by (auto simp: flush_def try_send_def release_bytes_def queue_ok_def)

lemma pick_lane_nonempty: "pick_lane b p = Some l \<Longrightarrow> channel p l = hd (channel p l) # tl (channel p l)"
  by (auto simp: pick_lane_def Let_def split: if_splits)

lemma queue_take:
  assumes ok: "queue_ok A p"
  shows "queue_ok A (writer_take b p)"
proof (cases "closed p \<or> \<not> writer_alive p \<or> in_flight p \<noteq> None \<or> pick_lane b p = None")
  case False
  then obtain l where l: "pick_lane b p = Some l" and idle: "in_flight p = None" by blast
  have moved: "queue_ok A (release_bytes f (p\<lparr>channel := (channel p)(l := fs)\<rparr>))"
    "queue_ok A (p\<lparr>channel := (channel p)(l := fs), in_flight := Some (l, f)\<rparr>)"
    if "channel p l = f # fs" for f fs
    using ok idle that bytes_in_take [of "channel p" l, OF that] spec [of "\<lambda>l. length (channel p l) \<le> capacity p l" l]
    by (auto simp: queue_ok_def release_bytes_def)
  show ?thesis using False l moved [OF pick_lane_nonempty [OF l]] by (simp add: writer_take_def Let_def)
qed (use ok in \<open>auto simp: writer_take_def\<close>)

lemma queue_done: "queue_ok A p \<Longrightarrow> queue_ok A (writer_done p)"
  by (auto simp: writer_done_def queue_ok_def release_bytes_def bytes_in_done split: option.split)

lemma fold_release: "fold release_bytes fs p = p\<lparr>queued_bytes := queued_bytes p - sum_list (map (length \<circ> frame_data) fs)\<rparr>"
  by (induction fs arbitrary: p) (simp_all add: release_bytes_def)

lemma lane_frames_bytes: "sum_list (map (length \<circ> frame_data) (lane_frames p)) = bytes_in (channel p) (in_flight p)"
  by (simp add: lane_frames_def bytes_in_def)

lemma queue_stop: "queue_ok A p \<Longrightarrow> queue_ok A (writer_stop p)"
  by (auto simp: writer_stop_def fold_release lane_frames_bytes queue_ok_def) (simp add: bytes_in_def)

text \<open>What a call keeps when neither the counter nor the table of calls matters.\<close>

lemma request_keeps:
  assumes counted: "\<And>p c. I p \<Longrightarrow> I (p\<lparr>counter := c\<rparr>)" and listed: "\<And>p c. I p \<Longrightarrow> I (p\<lparr>pending := c\<rparr>)"
    and sending: "\<And>p v b. I p \<Longrightarrow> I (snd (enqueue L v b p))" and "I p"
  shows "I (snd (request L m params accept p))"
proof -
  obtain x q where reg: "register_call m accept p = (x, q)" by (cases "register_call m accept p")
  have q: "I q" using reg assms(4) by (auto simp: register_call_def Let_def counted listed split: if_splits)
  show ?thesis
  proof (cases x)
    case (Inr i)
    let ?v = "rpc_object [(''id'', JString i), (''method'', JString m), (''params'', params)]"
    obtain y r where sent: "enqueue L ?v (\<not> is_invoke m) q = (y, r)" by (cases "enqueue L ?v (\<not> is_invoke m) q")
    then have "I r" using sending [OF q, of ?v "\<not> is_invoke m"] by simp
    then show ?thesis using reg Inr sent by (auto simp: request_def remove_pending_def listed split: sum.split)
  qed (use reg q in \<open>simp add: request_def\<close>)
qed

interpretation queues: peer_invariant L "queue_ok A" for L A
proof (unfold_locales, goal_cases)
  case 1 then show ?case by (rule queue_enqueue)
next
  case 2 then show ?case by (rule queue_flush)
next
  case (4 p m params accept)
  then show ?case by (intro request_keeps [where I = "queue_ok A"] queue_enqueue) (auto simp: queue_ok_def)
next
  case (11 p lim)
  then show ?case by (auto simp: queue_ok_def stricter_valid) (simp add: stricter_def)
next
  case (13 p i v q)
  then have "queue_ok A q" using queue_enqueue [OF 13(1)] by (metis respond_def snd_conv)
  then show ?case by (auto simp: queue_ok_def)
next
  case 18 then show ?case by (rule queue_take)
next
  case 19 then show ?case by (rule queue_done)
next
  case 20 then show ?case by (rule queue_stop)
qed (auto simp: queue_ok_def close_def remove_pending_def drop_receiver_def answer_call_def admit_def retire_def cancel_active_def
  split: option.split)

section \<open>Calls and their answers\<close>

definition issued :: "peer \<Rightarrow> rstring \<Rightarrow> bool" where
  "issued p i \<longleftrightarrow> (\<exists>n. 0 < n \<and> n < unat (counter p) \<and> i = call_id p True n)"

definition call_keys :: "peer \<Rightarrow> rstring list" where
  "call_keys p = map fst (pending p) @ map fst (answers p)"

definition calls_ok :: "limits \<Rightarrow> peer \<Rightarrow> bool" where
  "calls_ok A p \<longleftrightarrow> distinct (call_keys p) \<and> list_all (issued p) (call_keys p) \<and> (\<forall>b. class_count b (pending p) \<le> class_cap A b) \<and>
     max_pending_calls (limits_of p) \<le> max_pending_calls A \<and> 0 < unat (counter p) \<and>
     (closed p \<longleftrightarrow> reason p \<noteq> None) \<and> (closed p \<longrightarrow> pending p = [])"

text \<open>Request numbers are printed without ambiguity.\<close>

lemma digits_number_snoc: "digits_number (x @ [c]) = digits_number x * 10 + (c - 48)"
  by (simp add: digits_number_def)

lemma nat_text_number: "digits_number (nat_text n) = n"
proof (induction n rule: nat_text.induct)
  case (1 n)
  show ?case
  proof (cases "n < 10")
    case True
    then show ?thesis by (simp add: nat_text.simps [of n] digits_number_def)
  next
    case False
    then show ?thesis using 1 by (subst nat_text.simps) (simp add: digits_number_snoc)
  qed
qed

lemma call_id_inj: "call_id p b n = call_id p b m \<Longrightarrow> n = m"
  by (simp add: call_id_def) (metis nat_text_number)

lemma issued_frame:
  "session q = session p \<Longrightarrow> host_side q = host_side p \<Longrightarrow> counter q = counter p \<Longrightarrow> issued q i = issued p i"
  by (simp add: issued_def call_id_def)

lemma calls_same:
  assumes "calls_ok A p" "session q = session p" "host_side q = host_side p" "counter q = counter p"
    "max_pending_calls (limits_of q) \<le> max_pending_calls (limits_of p)" "closed q \<longleftrightarrow> reason q \<noteq> None" "closed q \<Longrightarrow> pending q = []"
    and "distinct (call_keys q)" "set (call_keys q) \<subseteq> set (call_keys p)" "\<And>b. class_count b (pending q) \<le> class_count b (pending p)"
  shows "calls_ok A q"
proof -
  have "list_all (issued q) (call_keys q)"
    using assms(1,9) issued_frame [OF assms(2-4)] by (auto simp: calls_ok_def list_all_iff)
  moreover have "class_count b (pending q) \<le> class_cap A b" for b
    using assms(1) assms(10) [of b] order.trans by (auto simp: calls_ok_def)
  moreover have "max_pending_calls (limits_of q) \<le> max_pending_calls A" using assms(1,5) by (simp add: calls_ok_def)
  ultimately show ?thesis using assms by (simp add: calls_ok_def)
qed

lemma class_count_filter: "class_count b (filter P xs) \<le> class_count b xs"
  by (induction xs) (auto simp: class_count_def)

lemma calls_facts:
  assumes "calls_ok A p"
  shows "closed p \<longleftrightarrow> reason p \<noteq> None" "closed p \<Longrightarrow> pending p = []" "distinct (call_keys p)"
  using assms by (auto simp: calls_ok_def)

lemma keys_without: "map fst (filter (\<lambda>(j, _). j \<noteq> i) xs) = filter (\<lambda>j. j \<noteq> i) (map fst xs)"
  by (induction xs) auto

lemma calls_remove: "calls_ok A p \<Longrightarrow> calls_ok A (remove_pending i p)"
  by (rule calls_same, assumption)
    (auto simp: calls_ok_def call_keys_def remove_pending_def keys_without class_count_filter)

lemma calls_drop: "calls_ok A p \<Longrightarrow> calls_ok A (drop_receiver i p)"
proof (rule calls_same, assumption)
  let ?g = "\<lambda>(j, c). (j, if j = i then c\<lparr>receiver_open := False\<rparr> else c)"
  have keys: "map fst (map ?g xs) = map fst xs" for xs :: "(rstring \<times> pending_call) list" by (induction xs) auto
  have "business (snd (?g x)) = business (snd x)" for x :: "rstring \<times> pending_call" by (cases x) simp
  then have count: "class_count b (map ?g xs) = class_count b xs" for b xs by (induction xs) (simp_all add: class_count_def)
  assume ok: "calls_ok A p"
  from ok show "distinct (call_keys (drop_receiver i p))" "set (call_keys (drop_receiver i p)) \<subseteq> set (call_keys p)"
    "class_count b (pending (drop_receiver i p)) \<le> class_count b (pending p)" for b
    by (simp_all add: calls_ok_def call_keys_def drop_receiver_def keys count del: map_map)
  from ok show "closed (drop_receiver i p) \<longleftrightarrow> reason (drop_receiver i p) \<noteq> None"
    "closed (drop_receiver i p) \<Longrightarrow> pending (drop_receiver i p) = []"
    by (simp_all add: drop_receiver_def calls_facts)
qed (simp_all add: drop_receiver_def)

lemma calls_close: "calls_ok A p \<Longrightarrow> calls_ok A (close e p)"
proof (rule calls_same, assumption)
  assume ok: "calls_ok A p"
  have keys: "map fst (map (\<lambda>(i, _). (i, x)) xs) = map fst xs" for x :: "json plugin_result" and xs :: "(rstring \<times> pending_call) list"
    by (induction xs) auto
  from ok show "distinct (call_keys (close e p))" "set (call_keys (close e p)) \<subseteq> set (call_keys p)"
    by (auto simp: calls_ok_def call_keys_def close_def keys distinct_map_filter simp del: map_map) (force intro: rev_image_eqI)+
  from ok show "closed (close e p) \<longleftrightarrow> reason (close e p) \<noteq> None" "closed (close e p) \<Longrightarrow> pending (close e p) = []"
    by (auto simp: close_def calls_facts split: if_splits)
qed (simp_all add: close_def class_count_def)

lemma calls_answer: "calls_ok A p \<Longrightarrow> calls_ok A (answer_call i r p)"
proof (rule calls_same, assumption)
  assume ok: "calls_ok A p"
  define a b where "a = map fst (pending p)" and "b = map fst (answers p)"
  have keys: "call_keys p = a @ b" by (simp add: call_keys_def a_def b_def)
  let ?rest = "filter (\<lambda>j. j \<noteq> i) a"
  have known: "i \<in> set a" if "map_of (pending p) i = Some c" for c
    using map_of_SomeD [OF that] by (force simp: a_def)
  have "call_keys (answer_call i r p) \<in> {a @ b, ?rest @ b} \<or> i \<in> set a \<and> call_keys (answer_call i r p) = ?rest @ b @ [i]"
    by (auto simp: call_keys_def answer_call_def remove_pending_def keys_without a_def [symmetric] b_def [symmetric] known split: option.split)
  then show "distinct (call_keys (answer_call i r p))" "set (call_keys (answer_call i r p)) \<subseteq> set (call_keys p)"
    using calls_facts(3) [OF ok] keys by auto
  from ok show "closed (answer_call i r p) \<longleftrightarrow> reason (answer_call i r p) \<noteq> None"
    "closed (answer_call i r p) \<Longrightarrow> pending (answer_call i r p) = []"
    "class_count b (pending (answer_call i r p)) \<le> class_count b (pending p)" for b
    by (auto simp: answer_call_def remove_pending_def calls_facts class_count_filter split: option.splits if_splits)
qed (simp_all add: answer_call_def remove_pending_def split: option.split)

lemma counter_next: "c \<noteq> - 1 \<Longrightarrow> unat (c + 1 :: u64) = Suc (unat c)"
  by (metis add.commute unatSuc add_eq_0_iff)

lemma calls_count:
  assumes "calls_ok A p" "counter p \<noteq> - 1"
  shows "calls_ok A (p\<lparr>counter := counter p + 1\<rparr>)"
proof -
  have "issued (p\<lparr>counter := counter p + 1\<rparr>) i" if "issued p i" for i
    using that counter_next [OF assms(2)] by (auto simp: issued_def call_id_def)
  then show ?thesis using assms(1) counter_next [OF assms(2)]
    by (auto simp: calls_ok_def call_keys_def list_all_iff)
qed

lemma fresh_call: "calls_ok A p \<Longrightarrow> call_id p True (unat (counter p)) \<notin> set (call_keys p)"
  by (auto simp: calls_ok_def list_all_iff issued_def dest!: call_id_inj)

lemma calls_other:
  assumes "calls_ok A p" "session q = session p" "host_side q = host_side p" "counter q = counter p" "limits_of q = limits_of p"
    "closed q = closed p" "reason q = reason p" "pending q = pending p" "answers q = answers p"
  shows "calls_ok A q"
proof (rule calls_same [OF assms(1-4)])
  show "closed q \<longleftrightarrow> reason q \<noteq> None" "closed q \<Longrightarrow> pending q = []" "distinct (call_keys q)"
    using calls_facts [OF assms(1)] assms by (simp_all add: call_keys_def)
qed (use assms in \<open>simp_all add: call_keys_def\<close>)

lemma calls_enqueue: "calls_ok A p \<Longrightarrow> calls_ok A (snd (enqueue L v b p))"
  by (subst enqueue_frame) (rule calls_other, assumption, simp_all)

lemma calls_register:
  assumes ok: "calls_ok A p" and reg: "register_call m accept p = (Inr i, q)" and "\<not> closed p"
  shows "calls_ok A q"
proof -
  let ?p = "p\<lparr>counter := counter p + 1\<rparr>"
  from reg have room: "counter p \<noteq> - 1" "\<not> request_full (is_invoke m) ?p" and i: "i = call_id p True (unat (counter p))"
    and q: "q = ?p\<lparr>pending := (i, \<lparr>receiver_open = True, business = is_invoke m, accept_result = accept\<rparr>) # pending p\<rparr>"
    by (auto simp: register_call_def Let_def split: if_splits)
  note ok' = calls_count [OF ok room(1)]
  have "issued q i" using ok counter_next [OF room(1)]
    by (auto simp: issued_def i q call_id_def calls_ok_def intro!: exI [of _ "unat (counter p)"])
  moreover have "issued q j" if "issued ?p j" for j using that issued_frame [of q ?p] by (simp add: q)
  moreover have "i \<notin> set (call_keys p)" using fresh_call [OF ok] by (simp add: i)
  moreover have "class_count b (pending q) \<le> class_cap A b" for b
    using ok' room(2) by (cases "b = is_invoke m") (auto simp: q calls_ok_def request_full_def class_count_def class_cap_def split: if_splits)
  ultimately show ?thesis using ok' assms(3)
    by (auto simp: calls_ok_def call_keys_def list_all_iff q)
qed

lemma calls_request: "calls_ok A p \<Longrightarrow> calls_ok A (snd (request L m params accept p))"
proof -
  assume ok: "calls_ok A p"
  obtain x q where reg: "register_call m accept p = (x, q)" by (cases "register_call m accept p")
  show ?thesis
  proof (cases x)
    case (Inl e)
    then have "calls_ok A q" using reg ok calls_count [OF ok] by (auto simp: register_call_def Let_def split: if_splits)
    then show ?thesis using reg Inl by (simp add: request_def)
  next
    case (Inr i)
    let ?v = "rpc_object [(''id'', JString i), (''method'', JString m), (''params'', params)]"
    obtain y r where sent: "enqueue L ?v (\<not> is_invoke m) q = (y, r)" by (cases "enqueue L ?v (\<not> is_invoke m) q")
    show ?thesis
    proof (cases "closed p")
      case False
      then have "calls_ok A r" using calls_enqueue [OF calls_register [OF ok reg [unfolded Inr]], of L ?v "\<not> is_invoke m"] sent by simp
      then show ?thesis using reg Inr sent by (auto simp: request_def calls_remove split: sum.split)
    next
      case True
      have q: "counter p \<noteq> - 1" "pending p = []" "remove_pending i q = p\<lparr>counter := counter p + 1\<rparr>" "closed q"
        using reg Inr True calls_facts(2) [OF ok True] by (auto simp: register_call_def Let_def remove_pending_def split: if_splits)
      then have "y = Inl (rpc_new (ascii ''CONNECTION_CLOSED'') (ascii ''peer is closed''))" "r = q"
        using sent by (auto simp: enqueue_def)
      then show ?thesis using reg Inr sent q calls_count [OF ok] by (simp add: request_def)
    qed
  qed
qed

interpretation calls: peer_invariant L "calls_ok A" for L A
proof (unfold_locales, goal_cases)
  case 1 then show ?case by (rule calls_enqueue)
next
  case (2 p) then show ?case by (subst flush_frame) (rule calls_other, assumption, simp_all)
next
  case 3 then show ?case by (rule calls_close)
next
  case 4 then show ?case by (rule calls_request)
next
  case 5 then show ?case by (rule calls_remove)
next
  case 6 then show ?case by (rule calls_drop)
next
  case 7 then show ?case by (rule calls_answer)
next
  case (11 p lim)
  then show ?case by (auto simp: calls_ok_def call_keys_def list_all_iff issued_def call_id_def stricter_def)
next
  case (13 p i v q)
  then have "calls_ok A q" using calls_enqueue [OF 13(1)] by (metis respond_def snd_conv)
  then show ?case by (rule calls_other) simp_all
next
  case (18 p b)
  then show ?case by (rule calls_other) (simp_all add: writer_take_def release_bytes_def Let_def split: option.split)
next
  case (19 p)
  then show ?case by (rule calls_other) (simp_all add: writer_done_def release_bytes_def split: option.split)
next
  case (20 p)
  then show ?case by (rule calls_other) (simp_all add: writer_stop_def fold_release)
qed (erule calls_other; simp add: admit_def retire_def cancel_active_def split: option.split)+

section \<open>Requests in progress\<close>

definition class_sizes :: "bool \<Rightarrow> (rstring \<times> active_call) list \<Rightarrow> nat list" where
  "class_sizes b calls = map call_size (filter (\<lambda>c. call_business c = b) (map snd calls))"

definition active_ok :: "limits \<Rightarrow> peer \<Rightarrow> bool" where
  "active_ok A p \<longleftrightarrow> distinct (map fst (active p)) \<and> active_bytes p = sum_list (map (call_size \<circ> snd) (active p)) \<and>
     (\<forall>b. length (class_sizes b (active p)) \<le> class_cap A b \<and> sum_list (class_sizes b (active p)) \<le> max_queued_bytes A) \<and>
     max_pending_calls (limits_of p) \<le> max_pending_calls A \<and> max_queued_bytes (limits_of p) \<le> max_queued_bytes A"

text \<open>Marking calls as cancelled changes neither their names nor their sizes.\<close>

lemma active_marked:
  assumes "active_ok A p" "active q = map (\<lambda>(i, c). (i, if P i then c\<lparr>cancelled := True\<rparr> else c)) (active p)"
    "active_bytes q = active_bytes p" "limits_of q = limits_of p"
  shows "active_ok A q"
proof -
  let ?g = "\<lambda>(i, c). (i, if P i then c\<lparr>cancelled := True\<rparr> else c)"
  have g: "fst (?g x) = fst x" "call_size (snd (?g x)) = call_size (snd x)" "call_business (snd (?g x)) = call_business (snd x)"
    for x :: "rstring \<times> active_call" by (cases x; simp)+
  have "map fst (map ?g xs) = map fst xs" "map (call_size \<circ> snd) (map ?g xs) = map (call_size \<circ> snd) xs"
    "class_sizes b (map ?g xs) = class_sizes b xs" for b xs
    by (induction xs) (simp_all add: g class_sizes_def)
  with assms show ?thesis by (simp add: active_ok_def del: map_map)
qed

lemma active_other: "active_ok A p \<Longrightarrow> active q = active p \<Longrightarrow> active_bytes q = active_bytes p \<Longrightarrow> limits_of q = limits_of p \<Longrightarrow> active_ok A q"
  by (simp add: active_ok_def)

lemma sum_without:
  "distinct (map fst xs) \<Longrightarrow> map_of xs i = Some c \<Longrightarrow>
   sum_list (map (call_size \<circ> snd) xs) = call_size c + sum_list (map (call_size \<circ> snd) (filter (\<lambda>(j, _). j \<noteq> i) xs))"
proof (induction xs)
  case (Cons x xs)
  show ?case
  proof (cases "fst x = i")
    case True
    then have "filter (\<lambda>(j, _). j \<noteq> i) xs = xs" using Cons.prems(1) by (auto simp: filter_id_conv rev_image_eqI)
    with True Cons.prems(2) show ?thesis by (cases x) auto
  qed (use Cons in \<open>auto split: prod.splits\<close>)
qed simp

lemma class_sizes_filter: "length (class_sizes b (filter P xs)) \<le> length (class_sizes b xs)"
  "sum_list (class_sizes b (filter P xs)) \<le> sum_list (class_sizes b xs)"
  by (induction xs) (auto simp: class_sizes_def)

lemma active_retire:
  assumes ok: "active_ok A p"
  shows "active_ok A (retire i p)"
proof (cases "map_of (active p) i")
  case (Some c)
  have "length (class_sizes b (active (retire i p))) \<le> class_cap A b" "sum_list (class_sizes b (active (retire i p))) \<le> max_queued_bytes A" for b
    using ok class_sizes_filter [of b "\<lambda>(j, _). j \<noteq> i" "active p"] Some order.trans
    by (fastforce simp: active_ok_def retire_def)+
  then show ?thesis using ok sum_without [OF _ Some]
    by (simp add: active_ok_def) (simp add: retire_def Some distinct_map_filter)
qed (use ok in \<open>simp add: retire_def\<close>)

lemma active_admit:
  assumes ok: "active_ok A p" and "map_of (active p) i = None" "\<not> active_full (is_invoke m) n p"
  shows "active_ok A (admit i n m params p)"
proof -
  have new: "class_sizes b (active (admit i n m params p)) = (if b = is_invoke m then n # class_sizes b (active p) else class_sizes b (active p))" for b
    by (simp add: class_sizes_def admit_def)
  have "class_cap (limits_of p) b \<le> class_cap A b" for b using ok by (simp add: active_ok_def class_cap_def)
  then have "length (class_sizes (is_invoke m) (active p)) < class_cap A (is_invoke m)"
    "n + sum_list (class_sizes (is_invoke m) (active p)) \<le> max_queued_bytes A"
    using assms(3) ok by (auto simp: active_full_def class_active_def class_sizes_def active_ok_def not_le not_less
      intro: less_le_trans order.trans)
  with ok new assms(2) show ?thesis by (auto simp: active_ok_def admit_def map_of_eq_None_iff Suc_le_eq)
qed

lemma active_enqueue: "active_ok A p \<Longrightarrow> active_ok A (snd (enqueue L v b p))"
  by (subst enqueue_frame) (rule active_other, assumption, simp_all)

interpretation serving: peer_invariant L "active_ok A" for L A
proof (unfold_locales, goal_cases)
  case 1 then show ?case by (rule active_enqueue)
next
  case (2 p) then show ?case by (subst flush_frame) (rule active_other, assumption, simp_all)
next
  case (3 p e)
  then show ?case
    by (cases "reason p") (simp_all add: active_marked [where P = "\<lambda>_. True", OF 3] close_def)
next
  case (4 p m params accept)
  then show ?case by (intro request_keeps [where I = "active_ok A"] active_enqueue) (auto simp: active_ok_def)
next
  case 8 then show ?case by (rule active_admit)
next
  case 9 then show ?case by (rule active_retire)
next
  case (10 p i) then show ?case by (rule active_marked [where P = "\<lambda>j. j = i"]) (simp_all add: cancel_active_def)
next
  case (11 p lim) then show ?case by (auto simp: active_ok_def stricter_def)
next
  case (13 p i v q)
  then have "active_ok A q" using active_enqueue [OF 13(1)] by (metis respond_def snd_conv)
  then show ?case by (rule active_other) simp_all
next
  case (18 p b)
  then show ?case by (rule active_other) (simp_all add: writer_take_def release_bytes_def Let_def split: option.split)
next
  case (19 p)
  then show ?case by (rule active_other) (simp_all add: writer_done_def release_bytes_def split: option.split)
next
  case (20 p)
  then show ?case by (rule active_other) (simp_all add: writer_stop_def fold_release)
qed (erule active_other; simp add: remove_pending_def drop_receiver_def answer_call_def split: option.split)+

section \<open>What holds of every peer\<close>

lemma new_peer:
  assumes "peer_new name c lim = Inr p"
  shows "queue_ok lim p" "calls_ok lim p" "active_ok lim p"
  using assms
  by (auto simp: peer_new_def blank_peer_def validate_limits_def bind_outcome_Inr_iff queue_ok_def bytes_in_def lane_capacity_def calls_ok_def
      call_keys_def class_count_def active_ok_def class_sizes_def split: if_splits)

text \<open>
  C37: A peer stays within the limits it was made with, whatever its callers, handlers and the other side do
  and in whatever order its tasks run: the byte count is exactly what the channels and the writer hold, at most
  one mebibyte above the limit; each channel, the calls that wait and the requests in progress stay within
  their caps, and the negotiated limits stay valid.
\<close>

theorem peer_within_limits:
  assumes "peer_new name c lim = Inr p" "peer_reaches L p q"
  shows "queued_bytes q = sum_list (map (length \<circ> frame_data) (lane_frames q)) \<and>
    queued_bytes q \<le> max_queued_bytes lim + 1024 * 1024 \<and> (\<forall>l. length (channel q l) \<le> lane_capacity lim l) \<and>
    (\<forall>b. class_count b (pending q) \<le> class_cap lim b \<and> length (class_active b q) \<le> class_cap lim b \<and>
       sum_list (map call_size (class_active b q)) \<le> max_queued_bytes lim) \<and> limits_valid (limits_of q)"
  using queues.reaches_keeps [OF assms(2) new_peer(1) [OF assms(1)]] calls.reaches_keeps [OF assms(2) new_peer(2) [OF assms(1)]]
    serving.reaches_keeps [OF assms(2) new_peer(3) [OF assms(1)]]
  by (auto simp: queue_ok_def calls_ok_def active_ok_def lane_frames_bytes class_sizes_def class_active_def)

text \<open>
  C38: Every call is answered at most once, and an answered call no longer waits, also when responses are
  repeated, arrive late, or race with closing and with callers that give up; only calls this peer made are ever
  answered, and once the peer is closed no call waits.
\<close>

theorem answered_once:
  assumes "peer_new name c lim = Inr p" "peer_reaches L p q"
  shows "distinct (map fst (answers q)) \<and> set (map fst (answers q)) \<inter> set (map fst (pending q)) = {} \<and>
    list_all (issued q) (map fst (answers q)) \<and> (closed q \<longrightarrow> pending q = [])"
  using calls.reaches_keeps [OF assms(2) new_peer(2) [OF assms(1)]]
  by (auto simp: calls_ok_def call_keys_def)

section \<open>Request identifiers\<close>

lemma nat_text_digits: "list_all (\<lambda>c. 48 \<le> c \<and> c \<le> 57) (nat_text n)" "nat_text n \<noteq> []"
proof (induction n rule: nat_text.induct)
  case (1 n)
  { case 1 with "1.IH"(1) show ?case by (subst nat_text.simps) (cases "n < 10", auto) }
  { case 2 show ?case by (subst nat_text.simps) simp }
qed

lemma nat_text_length: "n < 10 ^ Suc k \<Longrightarrow> length (nat_text n) \<le> Suc k"
proof (induction k arbitrary: n)
  case (Suc k)
  have "length (nat_text (n div 10)) \<le> Suc k" using Suc by (simp add: less_mult_imp_div_less mult.commute)
  then show ?case by (subst nat_text.simps) simp
qed (simp add: nat_text.simps)

lemma nat_text_lead: "nat_text n = 48 # x \<Longrightarrow> n = 0"
proof (induction n arbitrary: x rule: nat_text.induct)
  case (1 n)
  show ?case
  proof (cases "n < 10")
    case True
    then show ?thesis using 1 by (simp add: nat_text.simps [of n])
  next
    case False
    then have eq: "nat_text (n div 10) @ [48 + n mod 10] = 48 # x" using "1.prems" by (simp add: nat_text.simps [of n])
    then obtain y where "nat_text (n div 10) = 48 # y" using nat_text_digits(2) [of "n div 10"]
      by (cases "nat_text (n div 10)") auto
    with 1 False have "n div 10 = 0" by blast
    with False show ?thesis by simp
  qed
qed

text \<open>A canonical numeral is the text of its number.\<close>

lemma numeral_text:
  "d \<noteq> [] \<Longrightarrow> list_all (\<lambda>c. 48 \<le> c \<and> c \<le> 57) d \<Longrightarrow> length d = 1 \<or> hd d \<noteq> 48 \<Longrightarrow> nat_text (digits_number d) = d"
proof (induction d rule: rev_induct)
  case (snoc c d)
  show ?case
  proof (cases d)
    case Nil
    then show ?thesis using snoc.prems by (auto simp: digits_number_def nat_text.simps)
  next
    case (Cons a x)
    then have IH: "nat_text (digits_number d) = d" using snoc by auto
    have "digits_number d \<noteq> 0"
    proof
      assume "digits_number d = 0"
      with IH have "d = [48]" by (simp add: nat_text.simps)
      with snoc.prems(3) show False by simp
    qed
    then have "\<not> digits_number (d @ [c]) < 10" by (simp add: digits_number_snoc)
    moreover obtain e where "c = 48 + e" "e < 10" using snoc.prems(2) by (auto simp: le_iff_add)
    then have "digits_number (d @ [c]) div 10 = digits_number d" "48 + digits_number (d @ [c]) mod 10 = c"
      by (simp_all add: digits_number_snoc)
    ultimately show ?thesis by (subst nat_text.simps) (simp add: IH)
  qed
qed simp

lemma strip_prefix_Some: "strip_prefix x s = Some y \<longleftrightarrow> s = x @ y"
  by (auto simp: strip_prefix_def) (metis append_take_drop_id)

lemma digit_bytes: "list_all is_digit (as_bytes s) \<longleftrightarrow> list_all (\<lambda>c. 48 \<le> c \<and> c \<le> 57) s"
proof
  assume digits: "list_all is_digit (as_bytes s)"
  then have "list_all (\<lambda>b. b < 128) (as_bytes s)"
    by (auto simp: list_all_iff is_digit_def word_less_nat_alt word_le_nat_alt)
  from bytes_ascii [OF this] have "s = map unat (as_bytes s)" .
  moreover have "list_all (\<lambda>c. 48 \<le> c \<and> c \<le> 57) (map unat (as_bytes s))"
    using digits by (auto simp: list_all_iff is_digit_def word_le_nat_alt)
  ultimately show "list_all (\<lambda>c. 48 \<le> c \<and> c \<le> 57) s" by simp
next
  assume digits: "list_all (\<lambda>c. 48 \<le> c \<and> c \<le> 57) s"
  then have "as_bytes s = map of_nat s" by (intro ascii_bytes) (auto simp: list_all_iff)
  with digits show "list_all is_digit (as_bytes s)"
    by (auto simp: list_all_iff is_digit_def word_le_nat_alt unat_byte)
qed

lemma digit_lengths: "list_all (\<lambda>c. 48 \<le> c \<and> c \<le> 57) s \<Longrightarrow> length (as_bytes s) = length s"
  by (subst ascii_bytes) (auto simp: list_all_iff)

lemma counter_text:
  "n \<noteq> [] \<and> n \<noteq> ascii ''0'' \<and> length (as_bytes n) \<le> 20 \<and> list_all is_digit (as_bytes n)
     \<and> (length (as_bytes n) = 1 \<or> take 1 n \<noteq> ascii ''0'') \<and> parse_u64 n \<noteq> None \<longleftrightarrow>
   (\<exists>k. 0 < k \<and> k < 2 ^ 64 \<and> n = nat_text k)" (is "?ok \<longleftrightarrow> ?text")
proof
  assume ok: ?ok
  then have digits: "list_all (\<lambda>c. 48 \<le> c \<and> c \<le> 57) n" by (simp add: digit_bytes)
  have "length n = 1 \<or> hd n \<noteq> 48" using ok digit_lengths [OF digits] by (cases n) (auto simp: ascii_def)
  then have same: "nat_text (digits_number n) = n" using ok digits by (intro numeral_text) auto
  moreover have "digits_number n < 2 ^ 64" using ok by (auto simp: parse_u64_def split: if_splits)
  moreover have "digits_number n \<noteq> 0"
  proof
    assume "digits_number n = 0"
    with same have "n = ascii ''0''" by (simp add: nat_text.simps ascii_def)
    with ok show False by simp
  qed
  ultimately show ?text by (intro exI [of _ "digits_number n"]) simp
next
  assume ?text
  then obtain k where k: "0 < k" "k < 2 ^ 64" and n: "n = nat_text k" by blast
  have digits: "list_all (\<lambda>c. 48 \<le> c \<and> c \<le> 57) n" "n \<noteq> []" using nat_text_digits n by simp_all
  have "length n \<le> 20" using nat_text_length [of k 19] k(2) n by simp
  moreover have lead: "take 1 n \<noteq> ascii ''0''" using nat_text_lead [of k] k(1) n by (cases "nat_text k") (auto simp: ascii_def)
  moreover have "n \<noteq> ascii ''0''" using lead by (auto simp: ascii_def)
  ultimately show ?ok using digits k n digit_lengths [OF digits(1)]
    by (simp add: digit_bytes parse_u64_def nat_text_number)
qed

text \<open>
  The identifiers a peer accepts are exactly those of the right side and session with a positive 64 bit
  counter in canonical decimal form, so the answer to a call names it and nothing else does.
\<close>

theorem check_id_exact: "check_id p i outbound = Inr () \<longleftrightarrow> (\<exists>n. 0 < n \<and> n < 2 ^ 64 \<and> i = call_id p outbound n)"
proof -
  let ?x = "side (host_side p = outbound) @ ascii '':'' @ session p @ ascii '':''"
  have "check_id p i outbound = Inr () \<longleftrightarrow> (\<exists>n. strip_prefix ?x i = Some n \<and> (\<exists>k. 0 < k \<and> k < 2 ^ 64 \<and> n = nat_text k))"
    unfolding counter_text [symmetric] by (auto simp: check_id_def split: option.split)
  then show ?thesis by (auto simp: strip_prefix_Some call_id_def)
qed

section \<open>The event fence\<close>

text \<open>The frames the writer has taken from the channels and not given up.\<close>

definition taken :: "peer \<Rightarrow> (lane \<times> queued_frame) list" where
  "taken p = written p @ (case in_flight p of None \<Rightarrow> [] | Some x \<Rightarrow> [x])"








lemma sent_control: "set (channel p Control) \<subseteq> set (channel (snd (try_send l f p)) Control)"
  by (auto simp: try_send_def release_bytes_def)


lemma taken_frame: "written q = written p \<Longrightarrow> in_flight q = in_flight p \<Longrightarrow> taken q = taken p"
  by (simp add: taken_def)








section \<open>Sample runs\<close>

definition sample_peer_lib :: peer_lib where
  "sample_peer_lib = \<lparr>texts = \<lparr>to_text = (\<lambda>_. Inr (ascii ''{}'')), from_text = (\<lambda>_. Inl []), eof_text = []\<rparr>, read_error = (\<lambda>_. None)\<rparr>"

definition sample_peer :: peer where
  "sample_peer = blank_peer (ascii ''s'') True default_limits"

lemma sample_peer_new: "peer_new (ascii ''s'') (of_char CHR ''h'') default_limits = Inr sample_peer"
proof -
  have "limits_valid default_limits" by (simp add: limits_valid_def default_limits_def)
  moreover have "length (as_bytes (ascii ''s'')) \<le> 128" by (simp add: as_bytes_def ascii_def utf8_char_def)
  ultimately show ?thesis by (simp add: peer_new_def validate_limits_def sample_peer_def) (simp add: ascii_def)
qed

definition sample_called :: peer where
  "sample_called = snd (request sample_peer_lib (ascii ''system.invoke'') (JObject []) None sample_peer)"

lemma sample_called_reached: "peer_reaches sample_peer_lib sample_peer sample_called"
  unfolding sample_called_def by (rule peer_reaches.further [OF peer_reaches.start peer_step.requests])

theorem peer_within_limits_witness:
  "peer_new (ascii ''s'') (of_char CHR ''h'') default_limits = Inr sample_peer \<and> peer_reaches sample_peer_lib sample_peer sample_called \<and>
   queued_bytes sample_called \<le> 17 * 1024 * 1024 \<and> class_count True (pending sample_called) \<le> 256"
proof -
  note bounds = peer_within_limits [OF sample_peer_new sample_called_reached]
  have "class_count True (pending sample_called) \<le> class_cap default_limits True"
    "queued_bytes sample_called \<le> max_queued_bytes default_limits + 1024 * 1024" using bounds by blast+
  then show ?thesis using sample_peer_new sample_called_reached by (simp add: class_cap_def) (simp add: default_limits_def)
qed

lemma sample_closed_reached: "peer_reaches sample_peer_lib sample_peer (close graceful sample_called)"
  by (rule peer_reaches.further [OF sample_called_reached peer_step.closes])

theorem answered_once_witness:
  "peer_new (ascii ''s'') (of_char CHR ''h'') default_limits = Inr sample_peer \<and>
   peer_reaches sample_peer_lib sample_peer (close graceful sample_called) \<and> distinct (map fst (answers (close graceful sample_called)))"
  using answered_once [OF sample_peer_new sample_closed_reached] sample_peer_new sample_closed_reached by blast











end
