(* ===== verification/Regex_Class.thy ===== *)
theory Regex_Class
  imports Js_String
begin

text \<open>
  Patterns and character classes of the regular expression engine (\<open>regex/parse.rs\<close>, \<open>regex/mod.rs\<close>,
  \<open>regex/unicode.rs\<close>): the syntax tree, reading one character in the direction of the match, case
  folding, and the ends at which a class can match. Positions count UTF-16 units. The Unicode tables come
  from other packages and are a record of functions. The indexed table of string alternatives is shown to
  find what a scan over all of them finds.
\<close>

section \<open>Syntax trees\<close>

record string_alts =
  alts :: "u16 list list"
  by_single :: "u16 \<rightharpoonup> nat list"
  by_pair :: "u16 \<times> u16 \<rightharpoonup> nat list"
  has_empty :: bool

datatype shorthand = Digit | Word | Space

datatype class_item =
    ItemChar nat
  | ItemRange nat nat
  | ItemShorthand shorthand bool
  | ItemProperty bool "(nat \<times> nat) list" "(nat \<times> nat) list" "(nat \<times> nat) list" bool
  | ItemNested bool "class_item list"
  | ItemStrings string_alts
  | ItemConjoin "class_item list list"
  | ItemExcept "class_item list" "class_item list"

datatype anchor = Start | End | WordBoundary | NotWordBoundary

datatype regex_node =
    Empty
  | Char nat
  | AnyChar
  | Class bool "class_item list"
  | Concat "regex_node list"
  | Alt "regex_node list"
  | Repeat regex_node nat "nat option" bool
  | Group "nat option" regex_node
  | Modifiers u8 u8 regex_node
  | Backref nat
  | NamedBackref rstring
  | Anchor anchor
  | Look bool bool regex_node

record regex =
  root :: regex_node
  group_count :: nat
  names :: "(rstring \<times> nat list) list"
  source :: js_string
  flags :: rstring
  global :: bool
  ignore_case :: bool
  multiline :: bool
  dot_all :: bool
  sticky :: bool
  unicode :: bool

section \<open>The table of string alternatives\<close>

text \<open>\<open>entry(key).or_default().push(index)\<close>\<close>

definition push_entry :: "'k \<Rightarrow> nat \<Rightarrow> ('k \<rightharpoonup> nat list) \<Rightarrow> 'k \<rightharpoonup> nat list" where
  "push_entry x i t = t(x \<mapsto> (case t x of None \<Rightarrow> [] | Some is \<Rightarrow> is) @ [i])"

fun index_alternative :: "nat \<times> u16 list \<Rightarrow> string_alts \<Rightarrow> string_alts" where
  "index_alternative (i, []) t = t\<lparr>has_empty := True\<rparr>"
| "index_alternative (i, [only]) t = t\<lparr>by_single := push_entry only i (by_single t)\<rparr>"
| "index_alternative (i, first # second # _) t = t\<lparr>by_pair := push_entry (first, second) i (by_pair t)\<rparr>"

definition new_alts :: "u16 list list \<Rightarrow> string_alts" where
  "new_alts xs =
     fold index_alternative (enumerate 0 xs) \<lparr>alts = xs, by_single = Map.empty, by_pair = Map.empty, has_empty = False\<rparr>"

definition has_single :: "string_alts \<Rightarrow> u16 \<Rightarrow> bool" where
  "has_single t u = (by_single t u \<noteq> None)"

section \<open>Case folding\<close>

text \<open>\<open>simple_fold\<close> and the code points that change when folded are those of \<open>icu_casemap\<close> and
  \<open>icu_properties\<close>; \<open>to_uppercase\<close> is \<open>char::to_uppercase\<close>, which yields at least one character.\<close>

record case_tables =
  simple_fold :: "nat \<Rightarrow> nat"
  to_uppercase :: "nat \<Rightarrow> nat list"
  changes_when_casefolded :: "nat list"

definition canonical :: "case_tables \<Rightarrow> nat \<Rightarrow> bool \<Rightarrow> nat" where
  "canonical t c u =
     (if \<not> valid_char c then c
      else if u then simple_fold t c
      else case to_uppercase t c of
          [first] \<Rightarrow> if 128 \<le> c \<and> first < 128 then c else first
        | _ \<Rightarrow> c)"

text \<open>The members of the group of a key, beside the key; the groups of the source are tables of these.\<close>

definition group_members :: "case_tables \<Rightarrow> bool \<Rightarrow> nat \<Rightarrow> nat list" where
  "group_members t u key =
     (if u then filter (\<lambda>c. valid_char c \<and> simple_fold t c = key \<and> key \<noteq> c) (changes_when_casefolded t)
      else filter (\<lambda>c. canonical t c False = key \<and> key \<noteq> c) [0..<0x10000])"

definition range_matches :: "case_tables \<Rightarrow> nat \<Rightarrow> nat \<Rightarrow> nat \<Rightarrow> bool \<Rightarrow> bool" where
  "range_matches t c low high u =
     (let key = canonical t c u; others = group_members t u key
      in (low \<le> key \<and> key \<le> high)
         \<or> (others \<noteq> [] \<and> list_ex (\<lambda>c. low \<le> c \<and> c \<le> high) (key # others)))"

section \<open>Reading characters\<close>

text \<open>What a matcher does not change while it runs. The direction and the modifiers, which it does change,
  are arguments of what reads them.\<close>

record matcher =
  regex :: regex
  input :: "u16 list"
  budget :: nat
  tables :: case_tables

definition folds_case :: "u8 \<Rightarrow> bool" where
  "folds_case ms = (ms AND 1 \<noteq> 0)"

definition scalar :: "matcher \<Rightarrow> nat \<Rightarrow> nat option" where
  "scalar m pos = (case get_at (input m) pos of
     None \<Rightarrow> None
   | Some hi \<Rightarrow> (case get_at (input m) (pos + 1) of
         Some lo \<Rightarrow> Some (if unicode (regex m) \<and> is_high hi \<and> is_low lo then combine_pair hi lo else unat hi)
       | None \<Rightarrow> Some (unat hi)))"

definition width :: "nat \<Rightarrow> nat" where
  "width c = (if c > 0xFFFF then 2 else 1)"

definition advance_pos :: "matcher \<Rightarrow> nat \<Rightarrow> nat" where
  "advance_pos m pos = pos + (case scalar m pos of None \<Rightarrow> 1 | Some c \<Rightarrow> width c)"

definition character :: "matcher \<Rightarrow> bool \<Rightarrow> nat \<Rightarrow> (nat \<times> nat) option" where
  "character m fwd pos =
     (if fwd then map_option (\<lambda>c. (c, pos + width c)) (scalar m pos)
      else if pos = 0 then None
      else case get_at (input m) (pos - 1) of
          None \<Rightarrow> None
        | Some lo \<Rightarrow>
            (let start = (if unicode (regex m) \<and> is_low lo \<and> 0 < pos - 1 \<and> is_high (input m ! (pos - 2))
                          then pos - 2 else pos - 1)
             in map_option (\<lambda>c. (c, start)) (scalar m start)))"

definition same_char :: "matcher \<Rightarrow> u8 \<Rightarrow> nat \<Rightarrow> nat \<Rightarrow> bool" where
  "same_char m ms a b =
     (if a = b then True
      else if folds_case ms
      then canonical (tables m) a (unicode (regex m)) = canonical (tables m) b (unicode (regex m))
      else False)"

definition word_character :: "matcher \<Rightarrow> u8 \<Rightarrow> nat \<Rightarrow> bool" where
  "word_character m ms c =
     ((48 \<le> c \<and> c \<le> 57) \<or> (65 \<le> c \<and> c \<le> 90) \<or> (97 \<le> c \<and> c \<le> 122) \<or> c = 95
      \<or> (unicode (regex m) \<and> folds_case ms \<and> (c = 0x017F \<or> c = 0x212A)))"

definition is_word :: "matcher \<Rightarrow> u8 \<Rightarrow> nat \<Rightarrow> bool" where
  "is_word m ms i = (case scalar m i of None \<Rightarrow> False | Some c \<Rightarrow> word_character m ms c)"

definition line_terminator :: "nat \<Rightarrow> bool" where
  "line_terminator c = (c = 10 \<or> c = 13 \<or> c = 0x2028 \<or> c = 0x2029)"

section \<open>Class items\<close>

definition space_character :: "nat \<Rightarrow> bool" where
  "space_character c =
     ((9 \<le> c \<and> c \<le> 13) \<or> c = 0x20 \<or> c = 0xA0 \<or> c = 0x1680 \<or> (0x2000 \<le> c \<and> c \<le> 0x200A) \<or> c = 0x2028
      \<or> c = 0x2029 \<or> c = 0x202F \<or> c = 0x205F \<or> c = 0x3000 \<or> c = 0xFEFF)"

definition shorthand_matches :: "matcher \<Rightarrow> u8 \<Rightarrow> shorthand \<Rightarrow> nat \<Rightarrow> bool" where
  "shorthand_matches m ms kind c = (case kind of
     Digit \<Rightarrow> 48 \<le> c \<and> c \<le> 57
   | Word \<Rightarrow> word_character m ms c
   | Space \<Rightarrow> space_character c)"

text \<open>\<open>partition_point\<close> on ranges sorted by their upper ends is the number of ranges below the character.\<close>

definition property_matches ::
    "matcher \<Rightarrow> u8 \<Rightarrow> bool \<Rightarrow> (nat \<times> nat) list \<Rightarrow> (nat \<times> nat) list \<Rightarrow> (nat \<times> nat) list \<Rightarrow> bool \<Rightarrow> nat \<Rightarrow> bool" where
  "property_matches m ms surrogates ranges folded folded_complement negated c =
     (let complement_first = (folds_case ms \<and> negated \<and> of_char (CHR ''v'') \<notin> set (flags (regex m)));
          chosen = (if complement_first then folded_complement else if folds_case ms then folded else ranges);
          index = length (takeWhile (\<lambda>(_, high). high < c) chosen);
          hit = (if 0xD800 \<le> c \<and> c \<le> 0xDFFF
                 then (if complement_first then \<not> surrogates else surrogates)
                 else case get_at chosen index of None \<Rightarrow> False | Some (low, high) \<Rightarrow> low \<le> c \<and> c \<le> high)
      in if complement_first then hit else hit \<noteq> negated)"

definition strings_match_scalar :: "matcher \<Rightarrow> u8 \<Rightarrow> string_alts \<Rightarrow> nat \<Rightarrow> bool" where
  "strings_match_scalar m ms t c =
     (if \<not> folds_case ms \<and> c \<le> 0xFFFF then has_single t (of_nat c)
      else list_ex (\<lambda>a. length a = 1 \<and> same_char m ms c (unat (a ! 0))) (alts t))"

fun union_matches :: "matcher \<Rightarrow> u8 \<Rightarrow> class_item list \<Rightarrow> nat \<Rightarrow> bool"
  and item_matches :: "matcher \<Rightarrow> u8 \<Rightarrow> class_item \<Rightarrow> nat \<Rightarrow> bool"
  and unions_match :: "matcher \<Rightarrow> u8 \<Rightarrow> class_item list list \<Rightarrow> nat \<Rightarrow> bool" where
  "union_matches m ms [] c = False"
| "union_matches m ms (i # is) c = (if item_matches m ms i c then True else union_matches m ms is c)"
| "item_matches m ms (ItemStrings t) c = strings_match_scalar m ms t c"
| "item_matches m ms (ItemNested negated is) c = (union_matches m ms is c \<noteq> negated)"
| "item_matches m ms (ItemConjoin us) c = unions_match m ms us c"
| "item_matches m ms (ItemExcept left right) c = (union_matches m ms left c \<and> \<not> union_matches m ms right c)"
| "item_matches m ms (ItemChar want) c = same_char m ms c want"
| "item_matches m ms (ItemRange low high) c =
     (if low \<le> c \<and> c \<le> high then True
      else if folds_case ms then range_matches (tables m) c low high (unicode (regex m)) else False)"
| "item_matches m ms (ItemShorthand kind negated) c = (shorthand_matches m ms kind c \<noteq> negated)"
| "item_matches m ms (ItemProperty surrogates ranges folded complement negated) c =
     property_matches m ms surrogates ranges folded complement negated c"
| "unions_match m ms [] c = True"
| "unions_match m ms (u # us) c = (if union_matches m ms u c then unions_match m ms us c else False)"

definition class_matches :: "matcher \<Rightarrow> u8 \<Rightarrow> bool \<Rightarrow> class_item list \<Rightarrow> nat \<Rightarrow> bool" where
  "class_matches m ms negated is c = (union_matches m ms is c \<noteq> negated)"

section \<open>Ends of a class\<close>

definition string_at :: "matcher \<Rightarrow> u8 \<Rightarrow> u16 list \<Rightarrow> nat \<Rightarrow> bool" where
  "string_at m ms a pos =
     (if a = [] then True
      else if length (input m) < pos + length a then False
      else list_all (\<lambda>(offset, u). same_char m ms (unat (input m ! (pos + offset))) (unat u)) (enumerate 0 a))"

text \<open>Two lists of alternative indices and ends, both ascending in the index, merged.\<close>

fun merge_ends :: "(nat \<times> nat) list \<Rightarrow> (nat \<times> nat) list \<Rightarrow> nat list" where
  "merge_ends singles [] = map snd singles"
| "merge_ends [] (l # longer) = snd l # merge_ends [] longer"
| "merge_ends (s # singles) (l # longer) =
     (if fst s \<le> fst l then snd s # merge_ends singles (l # longer)
      else snd l # merge_ends (s # singles) longer)"

definition string_table_ends :: "matcher \<Rightarrow> u8 \<Rightarrow> string_alts \<Rightarrow> nat \<Rightarrow> nat list" where
  "string_table_ends m ms t pos =
     (let u = input m ! pos;
          candidates = (if pos + 1 < length (input m)
                        then (case by_pair t (u, input m ! (pos + 1)) of None \<Rightarrow> [] | Some is \<Rightarrow> is) else []);
          longer = map (\<lambda>i. (i, pos + length (alts t ! i))) (filter (\<lambda>i. string_at m ms (alts t ! i) pos) candidates);
          singles = map (\<lambda>i. (i, pos + 1)) (case by_single t u of None \<Rightarrow> [] | Some is \<Rightarrow> is)
      in merge_ends singles longer)"

definition alternative_end :: "matcher \<Rightarrow> bool \<Rightarrow> u8 \<Rightarrow> nat \<Rightarrow> u16 list \<Rightarrow> nat list" where
  "alternative_end m fwd ms pos a =
     (if fwd then (if string_at m ms a pos then [pos + length a] else [])
      else if pos < length a then []
      else if string_at m ms a (pos - length a) then [pos - length a] else [])"

definition strings_ends :: "matcher \<Rightarrow> bool \<Rightarrow> u8 \<Rightarrow> string_alts \<Rightarrow> nat \<Rightarrow> nat list" where
  "strings_ends m fwd ms t pos =
     (if fwd \<and> \<not> folds_case ms \<and> pos < length (input m)
      then string_table_ends m ms t pos @ (if has_empty t then [pos] else [])
      else concat (map (alternative_end m fwd ms pos) (alts t)))"

text \<open>The single character a union may take.\<close>

definition scalar_end :: "matcher \<Rightarrow> bool \<Rightarrow> u8 \<Rightarrow> class_item list \<Rightarrow> nat \<Rightarrow> nat list" where
  "scalar_end m fwd ms is pos = (case character m fwd pos of
     None \<Rightarrow> [] | Some (c, stop) \<Rightarrow> if union_matches m ms is c then [stop] else [])"

fun union_ends :: "matcher \<Rightarrow> bool \<Rightarrow> u8 \<Rightarrow> class_item list \<Rightarrow> nat \<Rightarrow> nat list"
  and items_ends :: "matcher \<Rightarrow> bool \<Rightarrow> u8 \<Rightarrow> class_item list \<Rightarrow> nat \<Rightarrow> nat list"
  and item_ends :: "matcher \<Rightarrow> bool \<Rightarrow> u8 \<Rightarrow> class_item \<Rightarrow> nat \<Rightarrow> nat list"
  and common_ends :: "matcher \<Rightarrow> bool \<Rightarrow> u8 \<Rightarrow> nat list option \<Rightarrow> class_item list list \<Rightarrow> nat \<Rightarrow> nat list option" where
  "union_ends m fwd ms is pos = items_ends m fwd ms is pos @ scalar_end m fwd ms is pos"
| "items_ends m fwd ms [] pos = []"
| "items_ends m fwd ms (i # is) pos = item_ends m fwd ms i pos @ items_ends m fwd ms is pos"
| "item_ends m fwd ms (ItemStrings t) pos = strings_ends m fwd ms t pos"
| "item_ends m fwd ms (ItemNested negated is) pos =
     (let sub = union_ends m fwd ms is pos
      in if \<not> negated then sub
         else if sub = [] then (case character m fwd pos of None \<Rightarrow> [] | Some (_, stop) \<Rightarrow> [stop]) else [])"
| "item_ends m fwd ms (ItemConjoin us) pos =
     (case common_ends m fwd ms None us pos of None \<Rightarrow> [] | Some kept \<Rightarrow> kept)"
| "item_ends m fwd ms (ItemExcept left right) pos =
     (let excluded = union_ends m fwd ms right pos
      in filter (\<lambda>e. e \<notin> set excluded) (union_ends m fwd ms left pos))"
| "item_ends m fwd ms _ pos = []"
| "common_ends m fwd ms common [] pos = common"
| "common_ends m fwd ms common (u # us) pos =
     (let es = union_ends m fwd ms u pos
      in common_ends m fwd ms (Some (case common of None \<Rightarrow> es | Some kept \<Rightarrow> filter (\<lambda>e. e \<in> set es) kept)) us pos)"

text \<open>\<open>pos.abs_diff(end)\<close>, negated for the descending order.\<close>

definition distance_key :: "nat \<Rightarrow> nat \<Rightarrow> int" where
  "distance_key pos stop = - \<bar>int pos - int stop\<bar>"

definition push_new :: "nat \<Rightarrow> nat list \<Rightarrow> nat list" where
  "push_new e es = (if e \<in> set es then es else es @ [e])"

text \<open>The ends of a class that is not negated are on one side of the position, so their distances differ and
  the unstable sort of the source has one result.\<close>

definition class_ends :: "matcher \<Rightarrow> bool \<Rightarrow> u8 \<Rightarrow> bool \<Rightarrow> class_item list \<Rightarrow> nat \<Rightarrow> nat list" where
  "class_ends m fwd ms negated is pos =
     (if negated then (case character m fwd pos of
          None \<Rightarrow> [] | Some (c, stop) \<Rightarrow> if union_matches m ms is c then [] else [stop])
      else sort_key (distance_key pos) (fold push_new (union_ends m fwd ms is pos) []))"

fun set_contains_strings :: "class_item list \<Rightarrow> bool"
  and item_contains_strings :: "class_item \<Rightarrow> bool"
  and unions_contain_strings :: "class_item list list \<Rightarrow> bool" where
  "set_contains_strings [] = False"
| "set_contains_strings (i # is) = (item_contains_strings i \<or> set_contains_strings is)"
| "item_contains_strings (ItemStrings _) = True"
| "item_contains_strings (ItemNested _ is) = set_contains_strings is"
| "item_contains_strings (ItemConjoin us) = unions_contain_strings us"
| "item_contains_strings (ItemExcept left right) = (set_contains_strings left \<or> set_contains_strings right)"
| "item_contains_strings _ = False"
| "unions_contain_strings [] = False"
| "unions_contain_strings (u # us) = (set_contains_strings u \<or> unions_contain_strings us)"

definition scalar_item :: "class_item \<Rightarrow> bool" where
  "scalar_item i = (case i of
     ItemChar _ \<Rightarrow> True | ItemRange _ _ \<Rightarrow> True | ItemShorthand _ _ \<Rightarrow> True | ItemProperty _ _ _ _ _ \<Rightarrow> True | _ \<Rightarrow> False)"

definition scalar_only :: "class_item list \<Rightarrow> bool" where
  "scalar_only is = (\<not> set_contains_strings is \<and> list_all scalar_item is)"

section \<open>Characters stay inside the input\<close>

text \<open>The positions a match in one direction may reach.\<close>

definition reach :: "matcher \<Rightarrow> bool \<Rightarrow> nat \<Rightarrow> nat \<Rightarrow> bool" where
  "reach m fwd pos stop = (if fwd then pos \<le> stop \<and> stop \<le> length (input m) else stop \<le> pos \<and> pos \<le> length (input m))"

lemma reach_refl [simp]: "reach m fwd pos pos \<longleftrightarrow> pos \<le> length (input m)"
  by (simp add: reach_def)

lemma reach_trans: "reach m fwd a b \<Longrightarrow> reach m fwd b c \<Longrightarrow> reach m fwd a c"
  by (auto simp: reach_def split: if_splits)

lemma reach_le: "reach m fwd a b \<Longrightarrow> b \<le> length (input m) \<and> a \<le> length (input m)"
  by (auto simp: reach_def split: if_splits)

lemma scalar_None_iff [simp]: "scalar m pos = None \<longleftrightarrow> length (input m) \<le> pos"
  by (auto simp: scalar_def get_at_def split: option.splits)

lemma combine_pair_big: "0x10000 \<le> combine_pair hi lo"
  by (simp add: combine_pair_def)

lemma unit_small: "unat (u :: u16) \<le> 0xFFFF"
  using unsigned_less [of u, where ?'a = nat] by simp

lemma scalar_width: "scalar m pos = Some c \<Longrightarrow> pos + width c \<le> length (input m)"
  using unit_small
  by (auto simp: scalar_def get_at_def width_def not_less dest!: spec split: if_splits)

lemma width_pos [simp]: "0 < width c"
  by (simp add: width_def)

lemma character_forward: "character m True pos = Some (c, stop) \<Longrightarrow> pos < stop \<and> stop \<le> length (input m)"
  using scalar_width [of m pos c] by (auto simp: character_def)

lemma character_backward: "character m False pos = Some (c, stop) \<Longrightarrow> stop < pos"
  by (auto simp: character_def Let_def split: if_splits option.splits)

lemma character_reach: "character m fwd pos = Some (c, stop) \<Longrightarrow> pos \<le> length (input m) \<Longrightarrow> reach m fwd pos stop \<and> stop \<noteq> pos"
  using character_forward [of m pos c stop] character_backward [of m pos c stop]
  by (cases fwd) (auto simp: reach_def)

lemma scalar_end_reach: "stop \<in> set (scalar_end m fwd ms is pos) \<Longrightarrow> pos \<le> length (input m) \<Longrightarrow> reach m fwd pos stop"
  by (auto simp: scalar_end_def dest: character_reach character_reach [OF sym] split: option.splits if_splits)

section \<open>Ends stay inside the input\<close>

lemma string_at_fits: "string_at m ms a pos \<Longrightarrow> a = [] \<or> pos + length a \<le> length (input m)"
  by (auto simp: string_at_def split: if_splits)

lemma alternative_end_reach:
  "stop \<in> set (alternative_end m fwd ms pos a) \<Longrightarrow> pos \<le> length (input m) \<Longrightarrow> reach m fwd pos stop"
  using string_at_fits [of m ms a pos] by (auto simp: alternative_end_def reach_def split: if_splits)

lemma set_merge_ends: "set (merge_ends ss ls) = snd ` set ss \<union> snd ` set ls"
  by (induction ss ls rule: merge_ends.induct) auto

lemma set_filterD: "x \<in> set (filter P xs) \<Longrightarrow> P x"
  by simp

lemma in_merged_ends:
  "stop \<in> set (merge_ends (map (\<lambda>i. (i, n)) is) (map (\<lambda>i. (i, f i)) js)) \<Longrightarrow> stop = n \<or> (\<exists>i \<in> set js. stop = f i)"
  by (auto simp: set_merge_ends)

lemma table_end_cases:
  assumes "stop \<in> set (string_table_ends m ms t pos)"
  obtains "stop = pos + 1" | a where "string_at m ms a pos" "stop = pos + length a"
proof -
  note in_merged_ends [OF assms [unfolded string_table_ends_def Let_def]]
  then show ?thesis
    by (elim disjE bexE) (rule that(1), assumption, rule that(2), erule set_filterD, assumption)
qed

lemma string_table_ends_reach:
  assumes "stop \<in> set (string_table_ends m ms t pos)" and "pos < length (input m)"
  shows "reach m True pos stop"
  using assms(1)
proof (cases rule: table_end_cases)
  case 1
  then show ?thesis using assms(2) by (simp add: reach_def)
next
  case (2 a)
  then show ?thesis using assms(2) string_at_fits [of m ms a pos] by (auto simp: reach_def)
qed

lemma strings_ends_reach:
  assumes "stop \<in> set (strings_ends m fwd ms t pos)" and "pos \<le> length (input m)"
  shows "reach m fwd pos stop"
  using assms string_table_ends_reach [of stop m ms t pos]
  by (auto simp: strings_ends_def dest: alternative_end_reach split: if_splits)

lemma ends_reach:
  shows "pos \<le> length (input m) \<Longrightarrow> \<forall>stop \<in> set (union_ends m fwd ms is pos). reach m fwd pos stop"
    and "pos \<le> length (input m) \<Longrightarrow> \<forall>stop \<in> set (items_ends m fwd ms is pos). reach m fwd pos stop"
    and "pos \<le> length (input m) \<Longrightarrow> \<forall>stop \<in> set (item_ends m fwd ms i pos). reach m fwd pos stop"
    and "pos \<le> length (input m) \<Longrightarrow> \<forall>kept. common = Some kept \<longrightarrow> (\<forall>stop \<in> set kept. reach m fwd pos stop) \<Longrightarrow>
      \<forall>kept. common_ends m fwd ms common us pos = Some kept \<longrightarrow> (\<forall>stop \<in> set kept. reach m fwd pos stop)"
proof (induction m fwd ms "is" pos and m fwd ms "is" pos and m fwd ms i pos and m fwd ms common us pos
    rule: union_ends_items_ends_item_ends_common_ends.induct)
  case (1 m fwd ms "is" pos)
  then show ?case using scalar_end_reach by auto
next
  case (4 m fwd ms t pos)
  then show ?case using strings_ends_reach by simp
next
  case (5 m fwd ms negated "is" pos)
  have "\<forall>stop \<in> set (case character m fwd pos of None \<Rightarrow> [] | Some (_, stop) \<Rightarrow> [stop]). reach m fwd pos stop"
    by (cases "character m fwd pos") (auto dest: character_reach [OF _ 5(2)])
  then show ?case using 5 by (simp only: item_ends.simps Let_def split: if_split) simp
next
  case (6 m fwd ms us pos)
  then show ?case by (cases "common_ends m fwd ms None us pos") simp_all
next
  case (7 m fwd ms left right pos)
  then show ?case by (auto simp: Let_def)
next
  case (10 m fwd ms common u us pos)
  show ?case unfolding common_ends.simps Let_def
    by (rule 10(2) [OF refl 10(3)]) (use 10(1) [OF 10(3)] 10(4) in \<open>auto split: option.splits\<close>)
qed auto

lemma set_fold_push_new: "set (fold push_new xs ys) = set xs \<union> set ys"
  by (induction xs arbitrary: ys) (auto simp: push_new_def)

lemma class_ends_reach:
  assumes "stop \<in> set (class_ends m fwd ms negated is pos)" and "pos \<le> length (input m)"
  shows "reach m fwd pos stop"
  using assms ends_reach(1) [OF assms(2)]
  by (auto simp: class_ends_def set_fold_push_new dest: character_reach character_reach [OF sym] split: if_splits option.splits)

section \<open>Classes of single characters\<close>

lemma items_ends_scalar: "list_all scalar_item is \<Longrightarrow> items_ends m fwd ms is pos = []"
  by (induction "is") (auto simp: scalar_item_def split: class_item.splits)

lemma class_ends_scalar:
  assumes "scalar_only is"
  shows "class_ends m fwd ms negated is pos = (case character m fwd pos of
     None \<Rightarrow> [] | Some (c, stop) \<Rightarrow> if class_matches m ms negated is c then [stop] else [])"
  using assms
  by (auto simp: scalar_only_def class_ends_def items_ends_scalar scalar_end_def class_matches_def push_new_def
      split: option.splits)

section \<open>The table finds what a scan finds\<close>

definition entries :: "('k \<rightharpoonup> nat list) \<Rightarrow> 'k \<Rightarrow> nat list" where
  "entries t x = (case t x of None \<Rightarrow> [] | Some is \<Rightarrow> is)"

lemma entries_push [simp]: "entries (push_entry x i t) y = entries t y @ (if y = x then [i] else [])"
  by (simp add: entries_def push_entry_def)

lemma index_alternative_frame [simp]: "alts (index_alternative e t) = alts t"
  by (cases "(e, t)" rule: index_alternative.cases) auto

lemma fold_index_alts [simp]: "alts (fold index_alternative es t) = alts t"
  by (induction es arbitrary: t) auto

lemma single_step: "entries (by_single (index_alternative (i, a) t)) u = entries (by_single t) u @ (if a = [u] then [i] else [])"
  by (cases "((i, a), t)" rule: index_alternative.cases) auto

lemma pair_step:
  "entries (by_pair (index_alternative (i, a) t)) (u, v) = entries (by_pair t) (u, v) @ (if take 2 a = [u, v] then [i] else [])"
  by (cases "((i, a), t)" rule: index_alternative.cases) auto

lemma singles_indexed:
  "entries (by_single (fold index_alternative es t)) u = entries (by_single t) u @ map fst (filter (\<lambda>(i, a). a = [u]) es)"
  by (induction es arbitrary: t) (auto simp: single_step)

lemma pairs_indexed:
  "entries (by_pair (fold index_alternative es t)) (u, v) =
     entries (by_pair t) (u, v) @ map fst (filter (\<lambda>(i, a). take 2 a = [u, v]) es)"
  by (induction es arbitrary: t) (auto simp: pair_step)

lemma new_alts_tables:
  "alts (new_alts xs) = xs"
  "entries (by_single (new_alts xs)) u = map fst (filter (\<lambda>(i, a). a = [u]) (enumerate 0 xs))"
  "entries (by_pair (new_alts xs)) (u, v) = map fst (filter (\<lambda>(i, a). take 2 a = [u, v]) (enumerate 0 xs))"
  unfolding new_alts_def by (simp_all add: singles_indexed pairs_indexed) (simp_all add: entries_def)

lemma merge_left: "\<forall>l \<in> set ls. fst s \<le> fst l \<Longrightarrow> merge_ends (s # ss) ls = snd s # merge_ends ss ls"
  by (cases ls) auto

lemma merge_right: "\<forall>s \<in> set ss. fst l < fst s \<Longrightarrow> merge_ends ss (l # ls) = snd l # merge_ends ss ls"
  by (cases ss) auto

lemma merge_filters:
  assumes "sorted_wrt (<) (map fst es)" and "\<forall>e \<in> set es. \<not> (P e \<and> Q e)"
  shows "merge_ends (map (\<lambda>(i, a). (i, f a)) (filter P es)) (map (\<lambda>(i, a). (i, f a)) (filter Q es)) =
    map (\<lambda>(i, a). f a) (filter (\<lambda>e. P e \<or> Q e) es)"
  using assms
proof (induction es)
  case (Cons e es)
  then have "\<forall>x \<in> set es. fst e < fst x" by auto
  with Cons show ?case
    by (auto simp: case_prod_beta merge_left merge_right less_imp_le)
qed simp

lemma string_at_short: "string_at m ms [x] pos \<longleftrightarrow> pos < length (input m) \<and> same_char m ms (unat (input m ! pos)) (unat x)"
  by (auto simp: string_at_def)

lemma string_at_long:
  "string_at m ms (x # y # a) pos \<Longrightarrow>
     pos + 1 < length (input m) \<and> same_char m ms (unat (input m ! pos)) (unat x)
     \<and> same_char m ms (unat (input m ! (pos + 1))) (unat y)"
  by (auto simp: string_at_def split: if_splits)

lemma same_char_exact [simp]: "\<not> folds_case ms \<Longrightarrow> same_char m ms (unat u) (unat v) \<longleftrightarrow> u = v"
  by (auto simp: same_char_def word_unat_eq_iff)

lemma filter_enumerate:
  "map (\<lambda>(i, a). f a) (filter (\<lambda>(i, a). R a) (enumerate n xs)) = map f (filter R xs)"
  by (induction xs arbitrary: n) auto

lemma table_condition:
  assumes "\<not> folds_case ms" and "pos < length (input m)"
  shows "(a = [input m ! pos] \<or>
      pos + 1 < length (input m) \<and> take 2 a = [input m ! pos, input m ! (pos + 1)] \<and> string_at m ms a pos)
    \<longleftrightarrow> a \<noteq> [] \<and> string_at m ms a pos"
proof (cases a)
  case (Cons x r)
  then show ?thesis using assms string_at_long [of m ms x _ _ pos]
    by (cases r) (auto simp: string_at_short)
qed simp

text \<open>C32: On the path without case folding, the ends found through the two indices of the table and the merge
  of their buckets are, in the order of the alternatives in the pattern, the ends of exactly those nonempty
  alternatives that stand in the input at the position.\<close>

theorem string_table_exact:
  assumes "\<not> folds_case ms" and "pos < length (input m)"
  shows "string_table_ends m ms (new_alts xs) pos =
    map (\<lambda>a. pos + length a) (filter (\<lambda>a. a \<noteq> [] \<and> string_at m ms a pos) xs)"
proof -
  let ?es = "enumerate 0 xs" and ?u = "input m ! pos" and ?v = "input m ! (pos + 1)"
  let ?P = "\<lambda>(i::nat, a). a = [?u]"
  let ?Q = "\<lambda>(i::nat, a). pos + 1 < length (input m) \<and> take 2 a = [?u, ?v] \<and> string_at m ms a pos"
  have nth: "xs ! i = a" if "(i, a) \<in> set ?es" for i a
    using that by (auto simp: in_set_enumerate_eq)
  have singles: "map (\<lambda>i. (i, pos + 1)) (entries (by_single (new_alts xs)) ?u)
    = map (\<lambda>(i, a). (i, pos + length a)) (filter ?P ?es)"
    by (auto simp: new_alts_tables intro!: map_cong)
  have longer: "map (\<lambda>i. (i, pos + length (xs ! i))) (filter (\<lambda>i. string_at m ms (xs ! i) pos)
      (if pos + 1 < length (input m) then entries (by_pair (new_alts xs)) (?u, ?v) else []))
    = map (\<lambda>(i, a). (i, pos + length a)) (filter ?Q ?es)"
    by (auto simp: new_alts_tables filter_map o_def case_prod_beta nth intro!: map_cong filter_cong)
  have "string_table_ends m ms (new_alts xs) pos = map (\<lambda>(i, a). pos + length a) (filter (\<lambda>e. ?P e \<or> ?Q e) ?es)"
    unfolding string_table_ends_def Let_def entries_def [symmetric] new_alts_tables(1) singles longer
    by (rule merge_filters) (auto simp: sorted_wrt_upt)
  also have "(\<lambda>e. ?P e \<or> ?Q e) = (\<lambda>(i, a). a \<noteq> [] \<and> string_at m ms a pos)"
    by (rule ext) (use table_condition [OF assms] in \<open>simp only: case_prod_beta\<close>)
  finally show ?thesis by (simp add: filter_enumerate)
qed

text \<open>The alternatives \<open>ab\<close>, \<open>a\<close>, \<open>b\<close> and the empty one at the start of \<open>abc\<close>.\<close>

definition abc_matcher :: matcher where
  "abc_matcher = \<lparr>regex = \<lparr>root = Empty, group_count = 0, names = [], source = default_string, flags = [], global = False, ignore_case = False, multiline = False,
     dot_all = False, sticky = False, unicode = False\<rparr>, input = [97, 98, 99], budget = 1000,
     tables = \<lparr>simple_fold = id, to_uppercase = (\<lambda>c. [c]), changes_when_casefolded = []\<rparr>\<rparr>"

theorem string_table_exact_witness:
  "\<not> folds_case 0 \<and> 0 < length (input abc_matcher)
   \<and> string_table_ends abc_matcher 0 (new_alts [[97, 98], [97], [98], []]) 0 = [2, 1]"
proof -
  have "\<not> folds_case 0" "0 < length (input abc_matcher)" by (simp_all add: folds_case_def abc_matcher_def)
  from string_table_exact [OF this, of "[[97, 98], [97], [98], []]"] this show ?thesis
    by (simp add: string_at_def abc_matcher_def same_char_def folds_case_def)
qed

end
