(* ===== verification/Regex_Match.thy ===== *)
theory Regex_Match
  imports Regex_Class
begin

text \<open>
  The backtracking matcher (\<open>Matcher\<close> and \<open>Regex::find_at\<close> of \<open>regex/mod.rs\<close>). A node is a function of a
  position, the captures and a continuation, over the matcher's cells: the steps taken, the nesting depth,
  the direction and the modifiers. A continuation of the source cannot return an error: a frame that owns
  one keeps it in a local variable, answers \<open>true\<close>, and reports it when control is back, so that every frame
  between just returns; in the model the error is the answer itself. After an error the matcher is dropped,
  so captures and cells are kept for regular answers only. Counts of repetitions are natural numbers: the
  nesting limit bounds them in \<open>repeat\<close>, the length of the input in the loops over single characters.
\<close>

section \<open>State and answers\<close>

type_synonym captures = "(nat \<times> nat) option list"

text \<open>\<open>match_end\<close> is the variable of \<open>find_at\<close> that its continuation sets.\<close>

record mstate =
  steps :: nat
  depth :: nat
  forward :: bool
  modifiers :: u8
  match_end :: "nat option"

datatype halt = Halt rust_err | OutOfTurns

datatype mresult = Answer bool captures mstate | Stopped halt

type_synonym cont = "nat \<Rightarrow> captures \<Rightarrow> mstate \<Rightarrow> mresult"
type_synonym node_fn = "nat \<Rightarrow> captures \<Rightarrow> cont \<Rightarrow> mstate \<Rightarrow> mresult"

definition MAX_STEPS :: nat where "MAX_STEPS = 1000000"
definition STEPS_PER_INPUT_UNIT :: nat where "STEPS_PER_INPUT_UNIT = 64"
definition MAX_DEPTH :: nat where "MAX_DEPTH = 512"

definition nesting_error :: rust_err where
  "nesting_error = ErrMsg ''RangeError: Regular expression exceeded the nesting budget''"

definition budget_error :: rust_err where
  "budget_error = ErrMsg ''RangeError: Regular expression exceeded the backtracking budget''"

definition with_outcome :: "'a outcome \<Rightarrow> ('a \<Rightarrow> mresult) \<Rightarrow> mresult" where
  "with_outcome r f = (case r of Inl e \<Rightarrow> Stopped (Halt e) | Inr x \<Rightarrow> f x)"

definition or_else :: "mresult \<Rightarrow> (captures \<Rightarrow> mstate \<Rightarrow> mresult) \<Rightarrow> mresult" where
  "or_else r f = (case r of Answer b caps st \<Rightarrow> if b then r else f caps st | Stopped h \<Rightarrow> r)"

definition afterwards :: "mresult \<Rightarrow> (bool \<Rightarrow> captures \<Rightarrow> mstate \<Rightarrow> mresult) \<Rightarrow> mresult" where
  "afterwards r f = (case r of Answer b caps st \<Rightarrow> f b caps st | Stopped h \<Rightarrow> Stopped h)"

definition mstep :: "matcher \<Rightarrow> mstate \<Rightarrow> mstate outcome" where
  "mstep m st = (if budget m < steps st + 1 then Inl budget_error else Inr (st\<lparr>steps := steps st + 1\<rparr>))"

text \<open>\<open>enter\<close>, \<open>step\<close>, the body of \<open>node_inner\<close>, and the drop of \<open>MatchDepth\<close>.\<close>

definition framed :: "matcher \<Rightarrow> node_fn \<Rightarrow> node_fn" where
  "framed m body pos caps k st =
     (if MAX_DEPTH \<le> depth st then Stopped (Halt nesting_error)
      else with_outcome (mstep m (st\<lparr>depth := depth st + 1\<rparr>)) (\<lambda>st.
        afterwards (body pos caps k st) (\<lambda>b caps st.
          if depth st = 0 then Stopped (Halt Panicked) else Answer b caps (st\<lparr>depth := depth st - 1\<rparr>))))"

section \<open>Captures\<close>

definition set_capture :: "nat \<Rightarrow> (nat \<times> nat) option \<Rightarrow> captures \<Rightarrow> captures outcome" where
  "set_capture i v caps = (if i < length caps then Inr (caps[i := v]) else Inl Panicked)"

text \<open>\<open>caps.get(index).copied().flatten()\<close>\<close>

definition get_capture :: "captures \<Rightarrow> nat \<Rightarrow> (nat \<times> nat) option" where
  "get_capture caps i = (case get_at caps i of None \<Rightarrow> None | Some v \<Rightarrow> v)"

text \<open>\<open>caps.copy_from_slice(&saved)\<close>\<close>

definition copy_back :: "captures \<Rightarrow> captures \<Rightarrow> captures outcome" where
  "copy_back saved caps = (if length saved = length caps then Inr saved else Inl Panicked)"

fun clear_captures :: "regex_node \<Rightarrow> captures \<Rightarrow> captures outcome"
  and clear_all :: "regex_node list \<Rightarrow> captures \<Rightarrow> captures outcome" where
  "clear_captures (Group index nd) caps =
     bind_outcome (case index of None \<Rightarrow> Inr caps | Some i \<Rightarrow> set_capture i None caps) (clear_captures nd)"
| "clear_captures (Concat nds) caps = clear_all nds caps"
| "clear_captures (Alt nds) caps = clear_all nds caps"
| "clear_captures (Repeat nd _ _ _) caps = clear_captures nd caps"
| "clear_captures (Look _ _ nd) caps = clear_captures nd caps"
| "clear_captures (Modifiers _ _ nd) caps = clear_captures nd caps"
| "clear_captures _ caps = Inr caps"
| "clear_all [] caps = Inr caps"
| "clear_all (nd # nds) caps = bind_outcome (clear_captures nd caps) (clear_all nds)"

section \<open>Single characters and classes\<close>

definition reject :: "captures \<Rightarrow> mstate \<Rightarrow> mresult" where
  "reject caps st = Answer False caps st"

definition dot_matches :: "u8 \<Rightarrow> nat \<Rightarrow> bool" where
  "dot_matches ms c = (ms AND 4 \<noteq> 0 \<or> \<not> line_terminator c)"

definition one_character :: "matcher \<Rightarrow> (u8 \<Rightarrow> nat \<Rightarrow> bool) \<Rightarrow> node_fn" where
  "one_character m p pos caps k st = (case character m (forward st) pos of
     None \<Rightarrow> reject caps st
   | Some (c, stop) \<Rightarrow> if p (modifiers st) c then k stop caps st else reject caps st)"

fun try_ends :: "nat list \<Rightarrow> captures \<Rightarrow> cont \<Rightarrow> mstate \<Rightarrow> mresult" where
  "try_ends [] caps k st = reject caps st"
| "try_ends (stop # stops) caps k st = or_else (k stop caps st) (\<lambda>caps st. try_ends stops caps k st)"

section \<open>Assertions and back references\<close>

definition boundary :: "matcher \<Rightarrow> u8 \<Rightarrow> nat \<Rightarrow> bool" where
  "boundary m ms pos = ((0 < pos \<and> is_word m ms (pos - 1)) \<noteq> is_word m ms pos)"

definition anchor_holds :: "matcher \<Rightarrow> u8 \<Rightarrow> anchor \<Rightarrow> nat \<Rightarrow> bool outcome" where
  "anchor_holds m ms a pos = (case a of
     Start \<Rightarrow> if pos = 0 then Inr True
              else if ms AND 2 = 0 then Inr False
              else bind_outcome (index_at (input m) (pos - 1)) (\<lambda>u. Inr (line_terminator (unat u)))
   | End \<Rightarrow> if pos = length (input m) then Inr True
            else if ms AND 2 = 0 then Inr False
            else bind_outcome (index_at (input m) pos) (\<lambda>u. Inr (line_terminator (unat u)))
   | WordBoundary \<Rightarrow> Inr (boundary m ms pos)
   | NotWordBoundary \<Rightarrow> Inr (\<not> boundary m ms pos))"

text \<open>\<open>Option::expect\<close>\<close>

definition expect :: "'a option \<Rightarrow> 'a outcome" where
  "expect x = (case x of None \<Rightarrow> Inl Panicked | Some y \<Rightarrow> Inr y)"

function same_range :: "matcher \<Rightarrow> u8 \<Rightarrow> nat \<Rightarrow> nat \<Rightarrow> nat \<Rightarrow> nat \<Rightarrow> bool outcome" where
  "same_range m ms begin start len offset =
     (if len \<le> offset then Inr True
      else bind_outcome (expect (scalar m (begin + offset))) (\<lambda>actual.
        bind_outcome (expect (scalar m (start + offset))) (\<lambda>captured.
          if same_char m ms actual captured then same_range m ms begin start len (offset + width captured)
          else Inr False)))"
  by pat_completeness auto
termination
  by (relation "measure (\<lambda>(m, ms, begin, start, len, offset). len - offset)") (auto intro: diff_less_mono2)

declare same_range.simps [simp del]

definition backreference :: "matcher \<Rightarrow> nat \<Rightarrow> node_fn" where
  "backreference m i pos caps k st = (case get_capture caps i of
     None \<Rightarrow> k pos caps st
   | Some (start, stop) \<Rightarrow>
       (let len = stop - start; begin = (if forward st then pos else pos - len) in
        if stop < start then Stopped (Halt Panicked)
        else if \<not> forward st \<and> pos < len then reject caps st
        else if length (input m) < begin + len then reject caps st
        else if unicode (regex m) \<and> 0 < begin \<and> begin < length (input m)
          \<and> is_low (input m ! begin) \<and> is_high (input m ! (begin - 1)) then reject caps st
        else with_outcome (same_range m (modifiers st) begin start len 0) (\<lambda>same.
          if same then k (if forward st then pos + len else begin) caps st else reject caps st)))"

definition named_group :: "matcher \<Rightarrow> rstring \<Rightarrow> captures \<Rightarrow> nat option" where
  "named_group m name caps = (case map_of (names (regex m)) name of
     None \<Rightarrow> None | Some is \<Rightarrow> find (\<lambda>i. get_capture caps i \<noteq> None) is)"

section \<open>Sequences and alternatives\<close>

function sequence :: "node_fn list \<Rightarrow> node_fn" where
  "sequence nodes pos caps k st =
     (if nodes = [] then k pos caps st
      else if forward st then hd nodes pos caps (\<lambda>pos caps st. sequence (tl nodes) pos caps k st) st
      else last nodes pos caps (\<lambda>pos caps st. sequence (butlast nodes) pos caps k st) st)"
  by pat_completeness auto
termination
  by (relation "measure (\<lambda>(nodes, _). length nodes)") auto

declare sequence.simps [simp del]

fun alternatives :: "node_fn list \<Rightarrow> node_fn" where
  "alternatives [] pos caps k st = reject caps st"
| "alternatives (branch # branches) pos caps k st =
     or_else (branch pos caps k st) (\<lambda>_ st. alternatives branches pos caps k st)"

section \<open>Repetition of single characters\<close>

definition reached :: "nat option \<Rightarrow> nat \<Rightarrow> bool" where
  "reached hi count = (case hi of None \<Rightarrow> False | Some limit \<Rightarrow> limit \<le> count)"

definition atom_matches :: "matcher \<Rightarrow> u8 \<Rightarrow> regex_node \<Rightarrow> nat \<Rightarrow> bool outcome" where
  "atom_matches m ms atom c = (case atom of
     Char want \<Rightarrow> Inr (same_char m ms c want)
   | AnyChar \<Rightarrow> Inr (dot_matches ms c)
   | Class negated is \<Rightarrow> Inr (class_matches m ms negated is c)
   | _ \<Rightarrow> Inl Panicked)"

fun try_positions :: "matcher \<Rightarrow> captures \<Rightarrow> nat list \<Rightarrow> captures \<Rightarrow> cont \<Rightarrow> mstate \<Rightarrow> mresult" where
  "try_positions m saved [] caps k st = reject caps st"
| "try_positions m saved (pos # ps) caps k st =
     with_outcome (mstep m st) (\<lambda>st.
       or_else (k pos caps st) (\<lambda>caps st.
         with_outcome (copy_back saved caps) (\<lambda>caps. try_positions m saved ps caps k st)))"

text \<open>What follows the loop of \<open>repeat_atom\<close>, the rest of its body, and the loop; \<open>n\<close> bounds the turns.\<close>

definition atom_finish :: "matcher \<Rightarrow> nat \<Rightarrow> bool \<Rightarrow> captures \<Rightarrow> cont \<Rightarrow> nat \<Rightarrow> nat list \<Rightarrow> captures \<Rightarrow> mstate \<Rightarrow> mresult" where
  "atom_finish m lo greedy saved k count positions caps st =
     (if greedy \<and> lo \<le> count then try_positions m saved (rev (drop lo positions)) caps k st else reject caps st)"

definition atom_onward ::
    "matcher \<Rightarrow> regex_node \<Rightarrow> nat \<Rightarrow> nat option \<Rightarrow> bool \<Rightarrow> captures \<Rightarrow> cont
     \<Rightarrow> (nat \<Rightarrow> nat \<Rightarrow> nat list \<Rightarrow> captures \<Rightarrow> mstate \<Rightarrow> mresult) \<Rightarrow> nat \<Rightarrow> nat \<Rightarrow> nat list \<Rightarrow> captures \<Rightarrow> mstate \<Rightarrow> mresult" where
  "atom_onward m atom lo hi greedy saved k loop count pos positions caps st =
     (if reached hi count then atom_finish m lo greedy saved k count positions caps st
      else case character m (forward st) pos of
          None \<Rightarrow> atom_finish m lo greedy saved k count positions caps st
        | Some (c, stop) \<Rightarrow> with_outcome (atom_matches m (modifiers st) atom c) (\<lambda>b.
            if b then loop (count + 1) stop (if greedy then positions @ [stop] else positions) caps st
            else atom_finish m lo greedy saved k count positions caps st))"

fun atom_loop ::
    "matcher \<Rightarrow> regex_node \<Rightarrow> nat \<Rightarrow> nat option \<Rightarrow> bool \<Rightarrow> captures \<Rightarrow> cont \<Rightarrow> nat \<Rightarrow> nat \<Rightarrow> nat \<Rightarrow> nat list \<Rightarrow> captures \<Rightarrow> mstate \<Rightarrow> mresult" where
  "atom_loop m atom lo hi greedy saved k 0 count pos positions caps st = Stopped OutOfTurns"
| "atom_loop m atom lo hi greedy saved k (Suc n) count pos positions caps st =
     with_outcome (mstep m st) (\<lambda>st.
       let onward = atom_onward m atom lo hi greedy saved k (atom_loop m atom lo hi greedy saved k n) count pos positions
       in if \<not> greedy \<and> lo \<le> count
          then or_else (k pos caps st) (\<lambda>caps st. with_outcome (copy_back saved caps) (\<lambda>caps. onward caps st))
          else onward caps st)"

definition repeat_atom :: "matcher \<Rightarrow> regex_node \<Rightarrow> nat \<Rightarrow> nat option \<Rightarrow> bool \<Rightarrow> node_fn" where
  "repeat_atom m atom lo hi greedy pos caps k st =
     atom_loop m atom lo hi greedy caps k (length (input m) + 1) 0 pos [pos] caps st"

section \<open>Repetition of classes\<close>

function class_run ::
    "matcher \<Rightarrow> bool \<Rightarrow> u8 \<Rightarrow> bool \<Rightarrow> class_item list \<Rightarrow> nat option \<Rightarrow> nat list \<Rightarrow> nat \<Rightarrow> nat list" where
  "class_run m fwd ms negated is hi ends current =
     (if (case hi of None \<Rightarrow> False | Some limit \<Rightarrow> limit < length ends) then ends
      else case character m fwd current of
          None \<Rightarrow> ends
        | Some (c, stop) \<Rightarrow>
            if class_matches m ms negated is c then class_run m fwd ms negated is hi (ends @ [stop]) stop else ends)"
  by pat_completeness auto
termination
proof (relation "measure (\<lambda>(m, fwd, ms, negated, is, hi, ends, current).
    if fwd then length (input m) - current else current)", goal_cases)
  case (2 m fwd ms negated "is" hi ends current x c stop)
  then show ?case using character_forward [of m current c stop] character_backward [of m current c stop]
    by (cases fwd) auto
qed simp

declare class_run.simps [simp del]

record cframe =
  f_pos :: nat
  f_count :: nat
  f_ends :: "nat list"
  tried_stop :: bool

text \<open>The field \<open>f_ends\<close> holds the ends from the index \<open>next\<close> of the source on.\<close>

definition make_frame :: "matcher \<Rightarrow> bool \<Rightarrow> class_item list \<Rightarrow> nat option \<Rightarrow> mstate \<Rightarrow> nat \<Rightarrow> nat \<Rightarrow> cframe" where
  "make_frame m negated is hi st pos count =
     \<lparr>f_pos = pos, f_count = count,
      f_ends = (if reached hi count then [] else class_ends m (forward st) (modifiers st) negated is pos),
      tried_stop = False\<rparr>"

definition next_count :: "nat \<Rightarrow> nat option \<Rightarrow> nat \<Rightarrow> nat" where
  "next_count lo hi count = (if hi = None \<and> lo \<le> count then lo else count + 1)"

definition may_stop :: "nat \<Rightarrow> cframe \<Rightarrow> bool" where
  "may_stop lo frame = (lo \<le> f_count frame \<and> \<not> tried_stop frame)"

type_synonym loop_fn = "cframe list \<Rightarrow> (nat \<times> nat) set \<Rightarrow> captures \<Rightarrow> mstate \<Rightarrow> mresult"

text \<open>The body of the loop after the stop of a lazy repetition, and the loop over the stack of frames; \<open>n\<close> bounds
  the turns.\<close>

definition class_onward ::
    "matcher \<Rightarrow> bool \<Rightarrow> class_item list \<Rightarrow> nat \<Rightarrow> nat option \<Rightarrow> bool \<Rightarrow> captures \<Rightarrow> cont \<Rightarrow> loop_fn \<Rightarrow> cframe
     \<Rightarrow> cframe list \<Rightarrow> (nat \<times> nat) set \<Rightarrow> captures \<Rightarrow> mstate \<Rightarrow> mresult" where
  "class_onward m negated is lo hi greedy saved k loop frame stack failed caps st =
     (let leave = loop stack (insert (f_pos frame, f_count frame) failed) in
      case f_ends frame of
        stop # others \<Rightarrow>
          (let rest = frame\<lparr>f_ends := others\<rparr> # stack; count = next_count lo hi (f_count frame)
           in if stop = f_pos frame \<and> lo \<le> f_count frame then loop rest failed caps st
              else if (stop, count) \<in> failed then loop rest failed caps st
              else loop (make_frame m negated is hi st stop count # rest) failed caps st)
      | [] \<Rightarrow>
          if greedy \<and> may_stop lo frame
          then or_else (k (f_pos frame) caps st) (\<lambda>caps st. with_outcome (copy_back saved caps) (\<lambda>caps. leave caps st))
          else leave caps st)"

fun class_loop :: "matcher \<Rightarrow> bool \<Rightarrow> class_item list \<Rightarrow> nat \<Rightarrow> nat option \<Rightarrow> bool \<Rightarrow> captures \<Rightarrow> cont \<Rightarrow> nat \<Rightarrow> loop_fn" where
  "class_loop m negated is lo hi greedy saved k n [] failed caps st = reject caps st"
| "class_loop m negated is lo hi greedy saved k n (frame # stack) failed caps st =
     (if n = 0 then Stopped OutOfTurns
      else with_outcome (mstep m st) (\<lambda>st.
        let onward = class_onward m negated is lo hi greedy saved k (class_loop m negated is lo hi greedy saved k (n - 1))
        in if \<not> greedy \<and> may_stop lo frame
           then or_else (k (f_pos frame) caps st) (\<lambda>caps st.
             with_outcome (copy_back saved caps) (\<lambda>caps. onward (frame\<lparr>tried_stop := True\<rparr>) stack failed caps st))
           else onward frame stack failed caps st))"

definition repeat_class :: "matcher \<Rightarrow> bool \<Rightarrow> class_item list \<Rightarrow> nat \<Rightarrow> nat option \<Rightarrow> bool \<Rightarrow> node_fn" where
  "repeat_class m negated is lo hi greedy pos caps k st =
     (if scalar_only is
      then (let ends = drop lo (class_run m (forward st) (modifiers st) negated is hi [pos] pos)
            in try_ends (if greedy then rev ends else ends) caps k st)
      else class_loop m negated is lo hi greedy caps k (budget m + 2) [make_frame m negated is hi st pos 0] {} caps st)"

section \<open>Repetition\<close>

fun strip_groups :: "regex_node \<Rightarrow> regex_node" where
  "strip_groups (Group None nd) = strip_groups nd"
| "strip_groups nd = nd"

definition cleared :: "regex_node \<Rightarrow> captures \<Rightarrow> (captures \<Rightarrow> mresult) \<Rightarrow> mresult" where
  "cleared nd caps f = with_outcome (clear_captures nd caps) f"

text \<open>\<open>body\<close> is the matcher of the node \<open>nd\<close>, \<open>again\<close> the repetition with one more iteration done.\<close>

definition repeat_onward :: "regex_node \<Rightarrow> node_fn \<Rightarrow> nat option \<Rightarrow> bool \<Rightarrow> node_fn \<Rightarrow> nat \<Rightarrow> node_fn" where
  "repeat_onward nd body hi greedy again count pos caps k st =
     (if reached hi count then (if greedy then k pos caps st else reject caps st)
      else cleared nd caps (\<lambda>fresh.
        or_else (body pos fresh (\<lambda>stop caps st. if stop = pos then reject caps st else again stop caps k st) st)
          (\<lambda>_ st. if greedy then k pos caps st else reject caps st)))"

definition repeat_turn :: "matcher \<Rightarrow> regex_node \<Rightarrow> node_fn \<Rightarrow> nat \<Rightarrow> nat option \<Rightarrow> bool \<Rightarrow> node_fn \<Rightarrow> nat \<Rightarrow> node_fn" where
  "repeat_turn m nd body lo hi greedy again count pos caps k st =
     with_outcome (mstep m st) (\<lambda>st.
       if count < lo then cleared nd caps (\<lambda>caps. body pos caps (\<lambda>stop caps st. again stop caps k st) st)
       else if greedy then repeat_onward nd body hi greedy again count pos caps k st
       else or_else (k pos caps st) (\<lambda>caps st. repeat_onward nd body hi greedy again count pos caps k st))"

text \<open>Each turn enters the body, which deepens the nesting, so that the limit on the nesting bounds the turns \<open>n\<close>.\<close>

fun repeat :: "matcher \<Rightarrow> regex_node \<Rightarrow> node_fn \<Rightarrow> nat \<Rightarrow> nat option \<Rightarrow> bool \<Rightarrow> nat \<Rightarrow> nat \<Rightarrow> node_fn" where
  "repeat m nd body lo hi greedy 0 count pos caps k st = Stopped OutOfTurns"
| "repeat m nd body lo hi greedy (Suc n) count pos caps k st =
     (let general = repeat_turn m nd body lo hi greedy (repeat m nd body lo hi greedy n (count + 1)) count pos caps k st
      in if count \<noteq> 0 then general
         else case strip_groups nd of
             Class negated is \<Rightarrow> repeat_class m negated is lo hi greedy pos caps k st
           | Char c \<Rightarrow> repeat_atom m (Char c) lo hi greedy pos caps k st
           | AnyChar \<Rightarrow> repeat_atom m AnyChar lo hi greedy pos caps k st
           | _ \<Rightarrow> general)"

section \<open>Nodes\<close>

definition group_node :: "node_fn \<Rightarrow> nat \<Rightarrow> node_fn" where
  "group_node body i pos caps k st =
     (let previous = get_capture caps i in
      afterwards (body pos caps (\<lambda>stop caps st.
          with_outcome (index_at caps i) (\<lambda>prior.
            with_outcome (set_capture i (Some (min pos stop, max pos stop)) caps) (\<lambda>caps.
              or_else (k stop caps st) (\<lambda>caps st. with_outcome (set_capture i prior caps) (\<lambda>caps. reject caps st))))) st)
        (\<lambda>b caps st. Answer b (if \<not> b \<and> i < length caps then caps[i := previous] else caps) st))"

definition modified :: "u8 \<Rightarrow> u8 \<Rightarrow> u8 \<Rightarrow> u8" where
  "modified add remove outer = (outer OR add) AND NOT remove"

definition modifiers_node :: "node_fn \<Rightarrow> u8 \<Rightarrow> u8 \<Rightarrow> node_fn" where
  "modifiers_node body add remove pos caps k st =
     (let outer = modifiers st; inner = modified add remove outer in
      afterwards (body pos caps (\<lambda>pos caps st.
          afterwards (k pos caps (st\<lparr>modifiers := outer\<rparr>)) (\<lambda>b caps st. Answer b caps (st\<lparr>modifiers := inner\<rparr>)))
          (st\<lparr>modifiers := inner\<rparr>))
        (\<lambda>b caps st. Answer b caps (st\<lparr>modifiers := outer\<rparr>)))"

definition look_node :: "node_fn \<Rightarrow> bool \<Rightarrow> bool \<Rightarrow> node_fn" where
  "look_node body ahead negative pos saved k st =
     afterwards (body pos saved (\<lambda>_ caps st. Answer True caps st) (st\<lparr>forward := ahead\<rparr>)) (\<lambda>hit caps st'.
       let st = st'\<lparr>forward := forward st\<rparr> in
       if hit = negative then reject saved st
       else k pos (if negative then saved else caps) st)"

primrec node :: "matcher \<Rightarrow> regex_node \<Rightarrow> node_fn" where
  "node m (Modifiers add remove nd) = framed m (modifiers_node (node m nd) add remove)"
| "node m Empty = framed m (\<lambda>pos caps k st. k pos caps st)"
| "node m (Char want) = framed m (one_character m (\<lambda>ms c. same_char m ms c want))"
| "node m AnyChar = framed m (one_character m dot_matches)"
| "node m (Class negated is) = framed m (\<lambda>pos caps k st.
     try_ends (class_ends m (forward st) (modifiers st) negated is pos) caps k st)"
| "node m (Concat nds) = framed m (sequence (map (node m) nds))"
| "node m (Alt nds) = framed m (alternatives (map (node m) nds))"
| "node m (Repeat nd lo hi greedy) = framed m (repeat m nd (node m nd) lo hi greedy MAX_DEPTH 0)"
| "node m (Group index nd) = framed m (case index of None \<Rightarrow> node m nd | Some i \<Rightarrow> group_node (node m nd) i)"
| "node m (Backref i) = framed m (backreference m i)"
| "node m (NamedBackref name) = framed m (\<lambda>pos caps k st.
     case named_group m name caps of None \<Rightarrow> k pos caps st | Some i \<Rightarrow> backreference m i pos caps k st)"
| "node m (Anchor a) = framed m (\<lambda>pos caps k st.
     with_outcome (anchor_holds m (modifiers st) a pos) (\<lambda>ok. if ok then k pos caps st else reject caps st))"
| "node m (Look ahead negative nd) = framed m (look_node (node m nd) ahead negative)"

section \<open>Searching\<close>

definition final :: cont where
  "final pos caps st = Answer True caps (st\<lparr>match_end := Some pos\<rparr>)"

lemma advance_grows: "pos < advance_pos m pos"
  by (auto simp: advance_pos_def split: option.split)

function find_loop :: "matcher \<Rightarrow> mstate \<Rightarrow> nat \<Rightarrow> halt + captures option" where
  "find_loop m st at =
     (case node m (root (regex m)) at (replicate (group_count (regex m) + 1) None) final (st\<lparr>match_end := None\<rparr>) of
        Stopped h \<Rightarrow> Inl h
      | Answer matched caps st \<Rightarrow>
          if matched then
            (let stop = (case match_end st of None \<Rightarrow> at | Some e \<Rightarrow> e)
             in case set_capture 0 (Some (at, stop)) caps of Inl e \<Rightarrow> Inl (Halt e) | Inr caps \<Rightarrow> Inr (Some caps))
          else if sticky (regex m) \<or> length (input m) \<le> at then Inr None
          else find_loop m st (advance_pos m at))"
  by pat_completeness auto
termination
  using advance_grows
  by (relation "measure (\<lambda>(m, st, at). length (input m) - at)") (auto intro: diff_less_mono2)

declare find_loop.simps [simp del]

definition usize_max :: nat where "usize_max = 2 ^ 64 - 1"

definition flag_bits :: "regex \<Rightarrow> u8" where
  "flag_bits r = of_bool (ignore_case r) OR push_bit 1 (of_bool (multiline r)) OR push_bit 2 (of_bool (dot_all r))"

definition new_matcher :: "case_tables \<Rightarrow> regex \<Rightarrow> u16 list \<Rightarrow> matcher" where
  "new_matcher t r us = \<lparr>regex = r, input = us,
     budget = min usize_max (MAX_STEPS + min usize_max (length us * STEPS_PER_INPUT_UNIT)), tables = t\<rparr>"

definition new_state :: "regex \<Rightarrow> mstate" where
  "new_state r = \<lparr>steps = 0, depth = 0, forward = True, modifiers = flag_bits r, match_end = None\<rparr>"

definition first_start :: "regex \<Rightarrow> u16 list \<Rightarrow> nat \<Rightarrow> nat" where
  "first_start r us start =
     (if unicode r \<and> 0 < start \<and> start < length us \<and> is_high (us ! (start - 1)) \<and> is_low (us ! start)
      then start - 1 else start)"

definition find_at :: "case_tables \<Rightarrow> regex \<Rightarrow> u16 list \<Rightarrow> nat \<Rightarrow> halt + captures option" where
  "find_at t r us start =
     (if length us < start then Inr None
      else find_loop (new_matcher t r us) (new_state r) (first_start r us start))"

end
