(* ===== verification/Regex_Spec.thy ===== *)
theory Regex_Spec
  imports Regex_Match
begin

text \<open>
  What a pattern matches, without continuations: the list of the positions at which it can end, in the order
  of preference of the backtracking rules of ECMAScript (earlier alternatives first, longer or shorter
  repetitions first). The matcher is shown to call its continuation on these positions in this order, to
  stay inside the input and the captures, and to use up no turns but those its budgets allow. The order is
  that of patterns without back references; with them the bounds are still shown.
\<close>

section \<open>Reference semantics\<close>

definition left :: "matcher \<Rightarrow> bool \<Rightarrow> nat \<Rightarrow> nat" where
  "left m fwd pos = (if fwd then length (input m) - pos else pos)"

definition less_one :: "nat option \<Rightarrow> nat option" where
  "less_one hi = map_option (\<lambda>h. h - 1) hi"

text \<open>Repetition: first the iterations that have to be, then those that make progress.\<close>

function reps :: "matcher \<Rightarrow> bool \<Rightarrow> (nat \<Rightarrow> nat list) \<Rightarrow> bool \<Rightarrow> nat \<Rightarrow> nat option \<Rightarrow> nat \<Rightarrow> nat list" where
  "reps m fwd f greedy (Suc lo) hi pos = concat (map (reps m fwd f greedy lo (less_one hi)) (f pos))"
| "reps m fwd f greedy 0 hi pos =
     (let longer = (if hi = Some 0 then []
        else concat (map (reps m fwd f greedy 0 (less_one hi)) (filter (\<lambda>e. left m fwd e < left m fwd pos) (f pos))))
      in if greedy then longer @ [pos] else pos # longer)"
  by pat_completeness auto
termination
  by (relation "measures [\<lambda>(m, fwd, f, greedy, lo, hi, pos). lo, \<lambda>(m, fwd, f, greedy, lo, hi, pos). left m fwd pos]") auto

declare reps.simps(2) [simp del]

fun seq_paths :: "(nat \<Rightarrow> nat list) list \<Rightarrow> nat \<Rightarrow> nat list" where
  "seq_paths [] pos = [pos]"
| "seq_paths (f # fs) pos = concat (map (seq_paths fs) (f pos))"

definition one_path :: "matcher \<Rightarrow> bool \<Rightarrow> (nat \<Rightarrow> bool) \<Rightarrow> nat \<Rightarrow> nat list" where
  "one_path m fwd p pos = (case character m fwd pos of None \<Rightarrow> [] | Some (c, stop) \<Rightarrow> if p c then [stop] else [])"

type_synonym paths_fn = "bool \<Rightarrow> u8 \<Rightarrow> nat \<Rightarrow> nat list"

definition both_ways :: "paths_fn list \<Rightarrow> paths_fn" where
  "both_ways fs fwd ms = (let gs = map (\<lambda>f. f fwd ms) fs in seq_paths (if fwd then gs else rev gs))"

primrec paths :: "matcher \<Rightarrow> regex_node \<Rightarrow> paths_fn" where
  "paths m (Modifiers add remove nd) = (\<lambda>fwd ms. paths m nd fwd (modified add remove ms))"
| "paths m Empty = (\<lambda>fwd ms pos. [pos])"
| "paths m (Char want) = (\<lambda>fwd ms. one_path m fwd (\<lambda>c. same_char m ms c want))"
| "paths m AnyChar = (\<lambda>fwd ms. one_path m fwd (dot_matches ms))"
| "paths m (Class negated is) = (\<lambda>fwd ms. class_ends m fwd ms negated is)"
| "paths m (Concat nds) = both_ways (map (paths m) nds)"
| "paths m (Alt nds) = (\<lambda>fwd ms pos. concat (map (\<lambda>f. f fwd ms pos) (map (paths m) nds)))"
| "paths m (Repeat nd lo hi greedy) = (\<lambda>fwd ms. reps m fwd (paths m nd fwd ms) greedy lo hi)"
| "paths m (Group index nd) = paths m nd"
| "paths m (Backref i) = (\<lambda>fwd ms pos. [])"
| "paths m (NamedBackref name) = (\<lambda>fwd ms pos. [])"
| "paths m (Anchor a) = (\<lambda>fwd ms pos. if anchor_holds m ms a pos = Inr True then [pos] else [])"
| "paths m (Look ahead negative nd) = (\<lambda>fwd ms pos. if (paths m nd ahead ms pos \<noteq> []) \<noteq> negative then [pos] else [])"

text \<open>What the parser guarantees of a pattern: groups are numbered up to \<open>group_count\<close>, and the bounds of a
  repetition are in order.\<close>

primrec numbered :: "nat \<Rightarrow> regex_node \<Rightarrow> bool" where
  "numbered n (Modifiers add remove nd) = numbered n nd"
| "numbered n Empty = True"
| "numbered n (Char c) = True"
| "numbered n AnyChar = True"
| "numbered n (Class negated is) = True"
| "numbered n (Concat nds) = list_all id (map (numbered n) nds)"
| "numbered n (Alt nds) = list_all id (map (numbered n) nds)"
| "numbered n (Repeat nd lo hi greedy) = (numbered n nd \<and> (case hi of None \<Rightarrow> True | Some h \<Rightarrow> lo \<le> h))"
| "numbered n (Group index nd) = (numbered n nd \<and> (case index of None \<Rightarrow> True | Some i \<Rightarrow> i \<le> n))"
| "numbered n (Backref i) = True"
| "numbered n (NamedBackref name) = True"
| "numbered n (Anchor a) = True"
| "numbered n (Look ahead negative nd) = numbered n nd"

primrec no_backrefs :: "regex_node \<Rightarrow> bool" where
  "no_backrefs (Modifiers add remove nd) = no_backrefs nd"
| "no_backrefs Empty = True"
| "no_backrefs (Char c) = True"
| "no_backrefs AnyChar = True"
| "no_backrefs (Class negated is) = True"
| "no_backrefs (Concat nds) = list_all id (map no_backrefs nds)"
| "no_backrefs (Alt nds) = list_all id (map no_backrefs nds)"
| "no_backrefs (Repeat nd lo hi greedy) = no_backrefs nd"
| "no_backrefs (Group index nd) = no_backrefs nd"
| "no_backrefs (Backref i) = False"
| "no_backrefs (NamedBackref name) = False"
| "no_backrefs (Anchor a) = True"
| "no_backrefs (Look ahead negative nd) = no_backrefs nd"

section \<open>The first success\<close>

definition or_opt :: "'a option \<Rightarrow> 'a option \<Rightarrow> 'a option" where
  "or_opt x y = (case x of None \<Rightarrow> y | Some z \<Rightarrow> Some z)"

lemma or_opt_simps [simp]: "or_opt None y = y" "or_opt (Some z) y = Some z" "or_opt x None = x"
  by (auto simp: or_opt_def split: option.split)

lemma or_opt_assoc [simp]: "or_opt (or_opt x y) z = or_opt x (or_opt y z)"
  by (cases x) auto

lemma or_opt_None_iff [simp]: "or_opt x y = None \<longleftrightarrow> x = None \<and> y = None"
  by (cases x) auto

fun first_some :: "('a \<Rightarrow> 'b option) \<Rightarrow> 'a list \<Rightarrow> 'b option" where
  "first_some g [] = None"
| "first_some g (x # xs) = or_opt (g x) (first_some g xs)"

lemma first_some_append [simp]: "first_some g (xs @ ys) = or_opt (first_some g xs) (first_some g ys)"
  by (induction xs) auto

lemma first_some_concat: "first_some g (concat (map f xs)) = first_some (\<lambda>x. first_some g (f x)) xs"
  by (induction xs) auto

lemma first_some_filter: "first_some g (filter p xs) = first_some (\<lambda>x. if p x then g x else None) xs"
  by (induction xs) auto

lemma first_some_cong: "(\<And>x. x \<in> set xs \<Longrightarrow> g x = h x) \<Longrightarrow> first_some g xs = first_some h xs"
  by (induction xs) auto

lemma first_some_const: "first_some (\<lambda>_. Some y) xs = (if xs = [] then None else Some y)"
  by (cases xs) auto

section \<open>Paths stay inside the input\<close>

definition bounded_paths :: "matcher \<Rightarrow> bool \<Rightarrow> (nat \<Rightarrow> nat list) \<Rightarrow> bool" where
  "bounded_paths m fwd f = (\<forall>pos \<le> length (input m). \<forall>stop \<in> set (f pos). reach m fwd pos stop)"

lemma bounded_pathsD: "bounded_paths m fwd f \<Longrightarrow> stop \<in> set (f pos) \<Longrightarrow> pos \<le> length (input m) \<Longrightarrow> reach m fwd pos stop"
  by (simp add: bounded_paths_def)

lemma bounded_step:
  assumes "bounded_paths m fwd f" and "e \<in> set (f pos)" and "pos \<le> length (input m)"
    and "e \<le> length (input m) \<Longrightarrow> reach m fwd e stop"
  shows "reach m fwd pos stop"
  using bounded_pathsD [OF assms(1-3)] assms(4) reach_le reach_trans by blast

lemma one_path_bounded: "bounded_paths m fwd (one_path m fwd p)"
  by (auto simp: bounded_paths_def one_path_def dest: character_reach character_reach [OF sym] split: option.splits if_splits)

lemma seq_paths_bounded: "list_all (bounded_paths m fwd) fs \<Longrightarrow> bounded_paths m fwd (seq_paths fs)"
proof (induction fs)
  case (Cons f fs)
  then have f: "bounded_paths m fwd f" and fs: "bounded_paths m fwd (seq_paths fs)" by simp_all
  show ?case unfolding bounded_paths_def
    by (auto intro: bounded_step [OF f] bounded_pathsD [OF fs])
qed (simp add: bounded_paths_def)

lemma reps_bounded:
  "bounded_paths m fwd f \<Longrightarrow> pos \<le> length (input m) \<Longrightarrow> stop \<in> set (reps m fwd f greedy lo hi pos) \<Longrightarrow> reach m fwd pos stop"
proof (induction m fwd f greedy lo hi pos arbitrary: stop rule: reps.induct)
  case (1 m fwd f greedy lo hi pos)
  from 1(4) obtain e where "e \<in> set (f pos)" "stop \<in> set (reps m fwd f greedy lo (less_one hi) e)" by auto
  then show ?case using 1(1-3) by (blast intro: bounded_step)
next
  case (2 m fwd f greedy hi pos)
  show ?case
  proof (cases "stop = pos")
    case False
    then obtain e where "hi \<noteq> Some 0" "e \<in> set (f pos)" "left m fwd e < left m fwd pos"
        "stop \<in> set (reps m fwd f greedy 0 (less_one hi) e)"
      using 2(4) by (auto simp: reps.simps(2) [of m fwd f greedy hi pos] Let_def split: if_splits)
    moreover from this have "e \<in> set (filter (\<lambda>e. left m fwd e < left m fwd pos) (f pos))" by simp
    ultimately show ?thesis using 2(1) 2(2-3) by (blast intro: bounded_step)
  qed (use 2(3) in simp)
qed

theorem paths_bounded: "bounded_paths m fwd (paths m nd fwd ms)"
proof (induction nd arbitrary: fwd ms)
  case (Concat nds)
  then show ?case unfolding paths.simps both_ways_def Let_def
    by (intro seq_paths_bounded) (auto simp: list_all_iff)
next
  case (Alt nds)
  then show ?case by (auto simp: bounded_paths_def)
next
  case (Repeat nd lo hi greedy)
  then show ?case using reps_bounded [OF Repeat] unfolding bounded_paths_def paths.simps by blast
qed (auto simp: bounded_paths_def one_path_bounded [unfolded bounded_paths_def] dest: class_ends_reach)

end
