(* ===== verification/Regex_Correct.thy ===== *)
theory Regex_Correct
  imports Regex_Spec
begin

text \<open>
  The matcher meets its reference semantics. \<open>res_ok\<close> says of an answer that the captures are good, that the
  cells are restored and that the budgets are the only errors; in exact mode also that it is the answer the
  reference gives. \<open>cont_ok\<close> says it of a continuation, \<open>body_ok\<close> and \<open>node_ok\<close> of what is run with one. Each
  construct keeps them, and so does every node, by induction on the pattern.
\<close>

section \<open>Good states and answers\<close>

definition good_caps :: "matcher \<Rightarrow> captures \<Rightarrow> bool" where
  "good_caps m caps =
     (length caps = group_count (regex m) + 1 \<and> list_all (\<lambda>c. case c of None \<Rightarrow> True
        | Some (start, stop) \<Rightarrow> start \<le> stop \<and> stop \<le> length (input m)) caps)"

definition fits :: "matcher \<Rightarrow> mstate \<Rightarrow> bool" where
  "fits m st = (steps st \<le> budget m \<and> depth st \<le> MAX_DEPTH \<and> match_end st = None)"

text \<open>The same cells, apart from the steps.\<close>

definition later :: "matcher \<Rightarrow> mstate \<Rightarrow> mstate \<Rightarrow> bool" where
  "later m st st' = (steps st \<le> steps st' \<and> steps st' \<le> budget m \<and> depth st' = depth st
     \<and> forward st' = forward st \<and> modifiers st' = modifiers st \<and> match_end st' = None)"

text \<open>\<open>v\<close> is the answer of the reference: nothing, or the final value of \<open>match_end\<close>, which satisfies \<open>P\<close>.\<close>

fun res_ok :: "matcher \<Rightarrow> bool \<Rightarrow> (nat option \<Rightarrow> bool) \<Rightarrow> mstate \<Rightarrow> nat option option \<Rightarrow> mresult \<Rightarrow> bool" where
  "res_ok m x P st v (Stopped h) = (h = Halt nesting_error \<or> h = Halt budget_error)"
| "res_ok m x P st v (Answer b caps st') =
     (good_caps m caps \<and> later m st (st'\<lparr>match_end := None\<rparr>)
      \<and> (if b then P (match_end st') else match_end st' = None)
      \<and> (x \<longrightarrow> v = (if b then Some (match_end st') else None)))"

definition cont_ok :: "matcher \<Rightarrow> bool \<Rightarrow> (nat option \<Rightarrow> bool) \<Rightarrow> (nat \<Rightarrow> nat option option) \<Rightarrow> mstate \<Rightarrow> nat \<Rightarrow> cont \<Rightarrow> bool" where
  "cont_ok m x P g st0 base k = (\<forall>pos caps st. reach m (forward st0) base pos \<longrightarrow> good_caps m caps \<longrightarrow> fits m st \<longrightarrow>
     forward st = forward st0 \<longrightarrow> modifiers st = modifiers st0 \<longrightarrow> depth st0 \<le> depth st \<longrightarrow>
     res_ok m x P st (g pos) (k pos caps st))"

definition body_ok :: "matcher \<Rightarrow> bool \<Rightarrow> node_fn \<Rightarrow> paths_fn \<Rightarrow> bool" where
  "body_ok m x fn f = (\<forall>P g pos caps k st. pos \<le> length (input m) \<longrightarrow> good_caps m caps \<longrightarrow> fits m st \<longrightarrow> 1 \<le> depth st \<longrightarrow>
     cont_ok m x P g st pos k \<longrightarrow>
     res_ok m x P st (first_some g (f (forward st) (modifiers st) pos)) (fn pos caps k st))"

definition node_ok :: "matcher \<Rightarrow> bool \<Rightarrow> node_fn \<Rightarrow> paths_fn \<Rightarrow> bool" where
  "node_ok m x fn f = (\<forall>P g pos caps k st. pos \<le> length (input m) \<longrightarrow> good_caps m caps \<longrightarrow> fits m st \<longrightarrow>
     cont_ok m x P g (st\<lparr>depth := depth st + 1\<rparr>) pos k \<longrightarrow>
     res_ok m x P st (first_some g (f (forward st) (modifiers st) pos)) (fn pos caps k st))"

section \<open>Rules\<close>

lemma cont_okD:
  assumes "cont_ok m x P g st0 base k" and "reach m (forward st0) base pos" and "good_caps m caps" and "fits m st"
    and "forward st = forward st0" and "modifiers st = modifiers st0" and "depth st0 \<le> depth st"
  shows "res_ok m x P st (g pos) (k pos caps st)"
  using assms unfolding cont_ok_def by blast

lemma cont_okI:
  assumes "\<And>pos caps st. reach m (forward st0) base pos \<Longrightarrow> good_caps m caps \<Longrightarrow> fits m st \<Longrightarrow>
    forward st = forward st0 \<Longrightarrow> modifiers st = modifiers st0 \<Longrightarrow> depth st0 \<le> depth st \<Longrightarrow>
    res_ok m x P st (g pos) (k pos caps st)"
  shows "cont_ok m x P g st0 base k"
  using assms unfolding cont_ok_def by blast

lemma cont_ok_mono:
  assumes "cont_ok m x P g st0 base k" and "reach m (forward st0) base pos"
    and "forward st = forward st0" and "modifiers st = modifiers st0" and "depth st0 \<le> depth st"
  shows "cont_ok m x P g st pos k"
  using assms(3-5) cont_okD [OF assms(1)] reach_trans [OF assms(2)]
  by (intro cont_okI) auto

lemma body_okI:
  assumes "\<And>P g pos caps k st. pos \<le> length (input m) \<Longrightarrow> good_caps m caps \<Longrightarrow> fits m st \<Longrightarrow> 1 \<le> depth st \<Longrightarrow>
     cont_ok m x P g st pos k \<Longrightarrow>
     res_ok m x P st (first_some g (f (forward st) (modifiers st) pos)) (fn pos caps k st)"
  shows "body_ok m x fn f"
  using assms unfolding body_ok_def by blast

lemma body_okD:
  assumes "body_ok m x fn f" and "pos \<le> length (input m)" and "good_caps m caps" and "fits m st" and "1 \<le> depth st"
    and "cont_ok m x P g st pos k"
  shows "res_ok m x P st (first_some g (f (forward st) (modifiers st) pos)) (fn pos caps k st)"
  using assms unfolding body_ok_def by blast

lemma node_okD:
  assumes "node_ok m x fn f" and "pos \<le> length (input m)" and "good_caps m caps" and "fits m st"
    and "cont_ok m x P g (st\<lparr>depth := depth st + 1\<rparr>) pos k"
  shows "res_ok m x P st (first_some g (f (forward st) (modifiers st) pos)) (fn pos caps k st)"
  using assms unfolding node_ok_def by blast

lemma later_refl [simp]: "later m st st \<longleftrightarrow> steps st \<le> budget m \<and> match_end st = None"
  by (auto simp: later_def)

lemma later_trans: "later m a b \<Longrightarrow> later m b c \<Longrightarrow> later m a c"
  by (auto simp: later_def)

lemma later_fits: "later m st st' \<Longrightarrow> fits m st \<Longrightarrow> fits m st'"
  by (auto simp: later_def fits_def)

lemma later_cells: "later m st st' \<Longrightarrow> depth st' = depth st \<and> forward st' = forward st \<and> modifiers st' = modifiers st"
  by (simp add: later_def)

lemma res_ok_later: "later m st st' \<Longrightarrow> res_ok m x P st' v r \<Longrightarrow> res_ok m x P st v r"
  by (cases r) (auto intro: later_trans)

lemma res_ok_reject [simp]:
  "res_ok m x P st v (reject caps st) \<longleftrightarrow> good_caps m caps \<and> steps st \<le> budget m \<and> match_end st = None \<and> (x \<longrightarrow> v = None)"
  by (auto simp: reject_def later_def)

lemma or_elseI:
  assumes "res_ok m x P st v r"
    and "\<And>caps st'. later m st st' \<Longrightarrow> good_caps m caps \<Longrightarrow> (x \<longrightarrow> v = None) \<Longrightarrow> res_ok m x P st' w (f caps st')"
  shows "res_ok m x P st (or_opt v w) (or_else r f)"
proof (cases r)
  case (Answer b caps st')
  show ?thesis
  proof (cases b)
    case True
    then show ?thesis using assms(1) Answer by (auto simp: or_else_def)
  next
    case False
    with assms(1) Answer have "match_end st' = None" "later m st (st'\<lparr>match_end := None\<rparr>)" "good_caps m caps" "x \<longrightarrow> v = None"
      by auto
    moreover from this have "later m st st'" by (simp add: later_def)
    ultimately have "res_ok m x P st w (f caps st')" using assms(2) res_ok_later by blast
    then show ?thesis using Answer False \<open>x \<longrightarrow> v = None\<close> by (cases "f caps st'") (auto simp: or_else_def)
  qed
next
  case (Stopped h)
  then show ?thesis using assms(1) by (simp add: or_else_def)
qed

lemma mstepI:
  assumes "fits m st"
    and "\<And>st'. later m st st' \<Longrightarrow> fits m st' \<Longrightarrow> steps st' = steps st + 1 \<Longrightarrow> depth st' = depth st \<Longrightarrow>
      forward st' = forward st \<Longrightarrow> modifiers st' = modifiers st \<Longrightarrow> res_ok m x P st' v (f st')"
  shows "res_ok m x P st v (with_outcome (mstep m st) f)"
proof (cases "budget m < steps st + 1")
  case True
  then show ?thesis by (simp add: mstep_def with_outcome_def)
next
  case False
  let ?st = "st\<lparr>steps := steps st + 1\<rparr>"
  have "later m st ?st" using False assms(1) by (simp add: later_def fits_def)
  with assms have "res_ok m x P st v (f ?st)"
    by (intro res_ok_later [OF \<open>later m st ?st\<close>] assms(2)) (auto intro: later_fits)
  then show ?thesis using False by (simp add: mstep_def with_outcome_def)
qed

lemma with_outcome_simps [simp]:
  "with_outcome (Inr y) f = f y" "with_outcome (Inl e) f = Stopped (Halt e)"
  by (simp_all add: with_outcome_def)

lemma afterwards_simps [simp]:
  "afterwards (Answer b caps st) f = f b caps st" "afterwards (Stopped h) f = Stopped h"
  by (simp_all add: afterwards_def)

lemma copy_back_good [simp]: "good_caps m saved \<Longrightarrow> good_caps m caps \<Longrightarrow> copy_back saved caps = Inr saved"
  by (simp add: copy_back_def good_caps_def)

text \<open>Restoring the captures of a failed attempt.\<close>

lemma or_restoreI:
  assumes "res_ok m x P st v r" and "good_caps m saved"
    and "\<And>st'. later m st st' \<Longrightarrow> (x \<longrightarrow> v = None) \<Longrightarrow> res_ok m x P st' w (f saved st')"
  shows "res_ok m x P st (or_opt v w) (or_else r (\<lambda>caps st. with_outcome (copy_back saved caps) (\<lambda>caps. f caps st)))"
  using assms by (intro or_elseI) auto

section \<open>Frames\<close>

lemma framed_ok:
  assumes "body_ok m x body f"
  shows "node_ok m x (framed m body) f"
  unfolding node_ok_def
proof (intro allI impI)
  fix P g pos caps k st
  assume *: "pos \<le> length (input m)" "good_caps m caps" "fits m st" and k: "cont_ok m x P g (st\<lparr>depth := depth st + 1\<rparr>) pos k"
  show "res_ok m x P st (first_some g (f (forward st) (modifiers st) pos)) (framed m body pos caps k st)"
  proof (cases "MAX_DEPTH \<le> depth st")
    case False
    let ?st = "st\<lparr>depth := depth st + 1\<rparr>"
    let ?v = "first_some g (f (forward st) (modifiers st) pos)"
    have "res_ok m x P ?st ?v (with_outcome (mstep m ?st) (body pos caps k))"
    proof (rule mstepI)
      show "fits m ?st" using False *(3) by (simp add: fits_def)
    next
      fix st' assume st': "later m ?st st'" "fits m st'" "depth st' = depth ?st" "forward st' = forward ?st"
        "modifiers st' = modifiers ?st"
      then have "cont_ok m x P g st' pos k" using *(1) by (intro cont_ok_mono [OF k]) auto
      from body_okD [OF assms *(1,2) st'(2) _ this] st'
      show "res_ok m x P st' ?v (body pos caps k st')" by simp
    qed
    then show ?thesis using False
      by (cases "mstep m ?st"; cases "body pos caps k (projr (mstep m ?st))") (auto simp: framed_def later_def)
  qed (simp add: framed_def)
qed

lemma node_body_ok: "node_ok m x fn f \<Longrightarrow> body_ok m x fn f"
proof (rule body_okI)
  fix P g pos caps k st
  assume "node_ok m x fn f" and *: "pos \<le> length (input m)" "good_caps m caps" "fits m st" and k: "cont_ok m x P g st pos k"
  then show "res_ok m x P st (first_some g (f (forward st) (modifiers st) pos)) (fn pos caps k st)"
    using cont_ok_mono [OF k, of pos "st\<lparr>depth := depth st + 1\<rparr>"] by (intro node_okD) auto
qed

section \<open>Simple nodes\<close>

lemma try_ends_ok:
  assumes "cont_ok m x P g st0 base k" and "\<forall>stop \<in> set stops. reach m (forward st0) base stop"
    and "good_caps m caps" and "fits m st"
    and "forward st = forward st0" and "modifiers st = modifiers st0" and "depth st0 \<le> depth st"
  shows "res_ok m x P st (first_some g stops) (try_ends stops caps k st)"
  using assms(2-)
proof (induction stops arbitrary: caps st)
  case Nil
  then show ?case by (simp add: fits_def)
next
  case (Cons stop stops)
  have "res_ok m x P st (g stop) (k stop caps st)"
    using Cons.prems by (intro cont_okD [OF assms(1)]) auto
  then show ?case unfolding try_ends.simps first_some.simps
  proof (rule or_elseI)
    fix caps st' assume "later m st st'" "good_caps m caps"
    then show "res_ok m x P st' (first_some g stops) (try_ends stops caps k st')"
      using Cons.prems later_cells [of m st st'] by (intro Cons.IH) (auto intro: later_fits)
  qed
qed

lemma empty_ok: "body_ok m x (\<lambda>pos caps k st. k pos caps st) (\<lambda>fwd ms pos. [pos])"
  by (rule body_okI) (auto intro: cont_okD)

lemma one_character_ok: "body_ok m x (one_character m p) (\<lambda>fwd ms. one_path m fwd (p ms))"
proof (rule body_okI)
  fix P g pos caps k st
  assume *: "pos \<le> length (input m)" "good_caps m caps" "fits m st" and k: "cont_ok m x P g st pos k"
  have "res_ok m x P st (g stop) (k stop caps st)" if "character m (forward st) pos = Some (c, stop)" for c stop
    using * character_reach [OF that *(1)] by (intro cont_okD [OF k]) auto
  then show "res_ok m x P st (first_some g (one_path m (forward st) (p (modifiers st)) pos)) (one_character m p pos caps k st)"
    using * by (auto simp: one_character_def one_path_def fits_def split: option.split)
qed

lemma class_ok:
  "body_ok m x (\<lambda>pos caps k st. try_ends (class_ends m (forward st) (modifiers st) negated is pos) caps k st)
     (\<lambda>fwd ms. class_ends m fwd ms negated is)"
  by (intro body_okI try_ends_ok) (auto dest: class_ends_reach)

lemma anchor_total: "pos \<le> length (input m) \<Longrightarrow> \<exists>b. anchor_holds m ms a pos = Inr b"
  by (cases a) (auto simp: anchor_holds_def index_at_def)

lemma anchor_ok:
  "body_ok m x (\<lambda>pos caps k st.
       with_outcome (anchor_holds m (modifiers st) a pos) (\<lambda>ok. if ok then k pos caps st else reject caps st))
     (\<lambda>fwd ms pos. if anchor_holds m ms a pos = Inr True then [pos] else [])"
proof (rule body_okI)
  fix P g pos caps k st
  assume *: "pos \<le> length (input m)" "good_caps m caps" "fits m st" and k: "cont_ok m x P g st pos k"
  obtain b where b: "anchor_holds m (modifiers st) a pos = Inr b" using anchor_total [OF *(1)] by blast
  have "res_ok m x P st (g pos) (k pos caps st)" using * by (intro cont_okD [OF k]) auto
  then show "res_ok m x P st (first_some g (if anchor_holds m (modifiers st) a pos = Inr True then [pos] else []))
      (with_outcome (anchor_holds m (modifiers st) a pos) (\<lambda>ok. if ok then k pos caps st else reject caps st))"
    using * b by (cases b) (auto simp: fits_def)
qed

section \<open>Back references\<close>

lemma scalar_inside: "pos < length (input m) \<Longrightarrow> \<exists>c. scalar m pos = Some c"
  using scalar_None_iff [of m pos] by (cases "scalar m pos") auto

lemma same_range_total:
  "begin + len \<le> length (input m) \<Longrightarrow> start + len \<le> length (input m) \<Longrightarrow> \<exists>b. same_range m ms begin start len offset = Inr b"
proof (induction m ms "begin" start len offset rule: same_range.induct)
  case (1 m ms "begin" start len offset)
  show ?case
  proof (cases "len \<le> offset")
    case False
    then obtain c d where cd: "scalar m (begin + offset) = Some c" "scalar m (start + offset) = Some d"
      using 1(2,3) scalar_inside [of "begin + offset" m] scalar_inside [of "start + offset" m] by auto
    then have "\<exists>b. same_range m ms begin start len (offset + width d) = Inr b" if "same_char m ms c d"
      using 1 False that by (simp add: expect_def)
    then show ?thesis using False cd by (subst same_range.simps) (auto simp: expect_def)
  qed (auto simp: same_range.simps)
qed

lemma get_capture_good:
  assumes "good_caps m caps" and "get_capture caps i = Some (start, stop)"
  shows "start \<le> stop \<and> stop \<le> length (input m)"
proof -
  from assms(2) have "i < length caps" "caps ! i = Some (start, stop)"
    by (auto simp: get_capture_def get_at_def split: option.splits if_splits)
  then show ?thesis using assms(1) by (auto simp: good_caps_def list_all_length split: option.splits)
qed

lemma backreference_ok:
  assumes "pos \<le> length (input m)" "good_caps m caps" "fits m st" and k: "cont_ok m False P g st pos k"
  shows "res_ok m False P st v (backreference m i pos caps k st)"
proof (cases "get_capture caps i")
  case None
  have "res_ok m False P st (g pos) (k pos caps st)" using assms by (intro cont_okD [OF k]) auto
  then show ?thesis using None by (cases "k pos caps st") (auto simp: backreference_def)
next
  case (Some c)
  then obtain start stop where c: "get_capture caps i = Some (start, stop)" by (cases c) auto
  note bounds = get_capture_good [OF assms(2) c]
  define len where "len = stop - start"
  define at where "at = (if forward st then pos else pos - len)"
  define stuck where "stuck = (\<not> forward st \<and> pos < len \<or> length (input m) < at + len
    \<or> unicode (regex m) \<and> 0 < at \<and> at < length (input m) \<and> is_low (input m ! at) \<and> is_high (input m ! (at - 1)))"
  have eq: "backreference m i pos caps k st = (if stuck then reject caps st
      else with_outcome (same_range m (modifiers st) at start len 0) (\<lambda>same.
        if same then k (if forward st then pos + len else at) caps st else reject caps st))"
    using bounds unfolding backreference_def c option.case prod.case Let_def stuck_def at_def len_def by simp
  show ?thesis
  proof (cases stuck)
    case True
    then show ?thesis using assms eq by (simp add: fits_def)
  next
    case False
    then have fit: "at + len \<le> length (input m)" by (simp add: stuck_def)
    moreover have "start + len \<le> length (input m)" using bounds by (simp add: len_def)
    ultimately obtain b where b: "same_range m (modifiers st) at start len 0 = Inr b"
      using same_range_total by blast
    have "res_ok m False P st (g (if forward st then pos + len else at)) (k (if forward st then pos + len else at) caps st)"
      using assms fit by (intro cont_okD [OF k]) (auto simp: reach_def at_def)
    then have "res_ok m False P st v (k (if forward st then pos + len else at) caps st)"
      by (cases "k (if forward st then pos + len else at) caps st") auto
    then show ?thesis using eq b False assms by (simp add: fits_def)
  qed
qed

section \<open>Sequences and alternatives\<close>

lemma sequence_simps:
  "sequence [] pos caps k st = k pos caps st"
  "forward st \<Longrightarrow> sequence (fn # fns) pos caps k st = fn pos caps (\<lambda>pos caps st. sequence fns pos caps k st) st"
  "\<not> forward st \<Longrightarrow> sequence (fns @ [fn]) pos caps k st = fn pos caps (\<lambda>pos caps st. sequence fns pos caps k st) st"
  by (auto simp: sequence.simps [of "[]"] sequence.simps [of "fn # fns"] sequence.simps [of "fns @ [fn]"])

lemma after_node:
  assumes "node_ok m x fn f" and "pos \<le> length (input m)" and "good_caps m caps" and "fits m st"
    and "\<And>pos' caps st'. reach m (forward st) pos pos' \<Longrightarrow> good_caps m caps \<Longrightarrow> fits m st' \<Longrightarrow> forward st' = forward st \<Longrightarrow>
      modifiers st' = modifiers st \<Longrightarrow> depth st < depth st' \<Longrightarrow> res_ok m x P st' (h pos') (k' pos' caps st')"
  shows "res_ok m x P st (first_some h (f (forward st) (modifiers st) pos)) (fn pos caps k' st)"
  using assms by (intro node_okD [OF assms(1)] cont_okI) auto

lemma sequence_forward:
  assumes "list_all2 (node_ok m x) fns fs" and "forward st" and "pos \<le> length (input m)" and "good_caps m caps" and "fits m st"
    and "cont_ok m x P g st pos k"
  shows "res_ok m x P st (first_some g (seq_paths (map (\<lambda>f. f (forward st) (modifiers st)) fs) pos)) (sequence fns pos caps k st)"
  using assms
proof (induction fns fs arbitrary: pos caps st rule: list_all2_induct)
  case Nil
  then show ?case by (auto simp: sequence_simps intro: cont_okD)
next
  case (Cons fn fns f fs)
  show ?case unfolding sequence_simps(2) [OF Cons.prems(1)] list.map seq_paths.simps first_some_concat
  proof (rule after_node [OF Cons.hyps(1)])
    fix pos' caps st'
    assume *: "reach m (forward st) pos pos'" "good_caps m caps" "fits m st'" and same: "forward st' = forward st"
      "modifiers st' = modifiers st" "depth st < depth st'"
    have "cont_ok m x P g st' pos' k" using *(1) same by (intro cont_ok_mono [OF Cons.prems(5)]) auto
    then show "res_ok m x P st' (first_some g (seq_paths (map (\<lambda>f. f (forward st) (modifiers st)) fs) pos'))
        (sequence fns pos' caps k st')"
      using Cons.IH [of st' pos' caps] * same Cons.prems(1) reach_le by simp
  qed (use Cons.prems in auto)
qed

lemma sequence_backward:
  assumes "list_all2 (node_ok m x) fns fs" and "\<not> forward st" and "pos \<le> length (input m)" and "good_caps m caps" and "fits m st"
    and "cont_ok m x P g st pos k"
  shows "res_ok m x P st (first_some g (seq_paths (rev (map (\<lambda>f. f (forward st) (modifiers st)) fs)) pos)) (sequence fns pos caps k st)"
  using assms
proof (induction fns arbitrary: fs pos caps st rule: rev_induct)
  case Nil
  then show ?case by (auto simp: sequence_simps intro: cont_okD)
next
  case (snoc fn fns)
  then obtain gs f where fs: "fs = gs @ [f]" and gs: "list_all2 (node_ok m x) fns gs" and f: "node_ok m x fn f"
    by (auto simp: list_all2_append1 list_all2_Cons1)
  show ?case unfolding sequence_simps(3) [OF snoc.prems(2)] fs map_append rev_append list.map rev.simps append.simps
      seq_paths.simps first_some_concat
  proof (rule after_node [OF f])
    fix pos' caps st'
    assume *: "reach m (forward st) pos pos'" "good_caps m caps" "fits m st'" and same: "forward st' = forward st"
      "modifiers st' = modifiers st" "depth st < depth st'"
    have "cont_ok m x P g st' pos' k" using *(1) same by (intro cont_ok_mono [OF snoc.prems(6)]) auto
    then show "res_ok m x P st' (first_some g (seq_paths (rev (map (\<lambda>f. f (forward st) (modifiers st)) gs)) pos'))
        (sequence fns pos' caps k st')"
      using snoc.IH [OF gs, of st' pos' caps] * same snoc.prems(2) reach_le by simp
  qed (use snoc.prems in auto)
qed

lemma sequence_ok: "list_all2 (node_ok m x) fns fs \<Longrightarrow> body_ok m x (sequence fns) (both_ways fs)"
  using sequence_forward [of m x fns fs] sequence_backward [of m x fns fs]
  by (intro body_okI) (simp add: both_ways_def Let_def)

lemma alternatives_ok:
  assumes "list_all2 (node_ok m x) fns fs"
  shows "body_ok m x (alternatives fns) (\<lambda>fwd ms pos. concat (map (\<lambda>f. f fwd ms pos) fs))"
  using assms
proof (induction fns fs rule: list_all2_induct)
  case Nil
  then show ?case by (auto intro!: body_okI simp: fits_def)
next
  case (Cons fn fns f fs)
  show ?case
  proof (rule body_okI)
    fix P g pos caps k st
    assume *: "pos \<le> length (input m)" "good_caps m caps" "fits m st" "1 \<le> depth st" and k: "cont_ok m x P g st pos k"
    have "res_ok m x P st (or_opt (first_some g (f (forward st) (modifiers st) pos))
        (first_some g (concat (map (\<lambda>f. f (forward st) (modifiers st) pos) fs)))) (alternatives (fn # fns) pos caps k st)"
      unfolding alternatives.simps
    proof (rule or_elseI)
      show "res_ok m x P st (first_some g (f (forward st) (modifiers st) pos)) (fn pos caps k st)"
        by (rule body_okD [OF node_body_ok [OF Cons.hyps(1)] * k])
    next
      fix caps' st' assume "later m st st'"
      then show "res_ok m x P st' (first_some g (concat (map (\<lambda>f. f (forward st) (modifiers st) pos) fs)))
          (alternatives fns pos caps k st')"
        using body_okD [OF Cons.IH *(1,2) later_fits, of st st' P g k] cont_ok_mono [OF k, of pos st'] * later_cells by fastforce
    qed
    then show "res_ok m x P st (first_some g (concat (map (\<lambda>f. f (forward st) (modifiers st) pos) (f # fs))))
        (alternatives (fn # fns) pos caps k st)" by simp
  qed
qed

section \<open>Groups, modifiers and assertions\<close>

lemma set_capture_good:
  assumes "good_caps m caps" and "i \<le> group_count (regex m)"
    and "case c of None \<Rightarrow> True | Some (start, stop) \<Rightarrow> start \<le> stop \<and> stop \<le> length (input m)"
  shows "set_capture i c caps = Inr (caps[i := c])" and "good_caps m (caps[i := c])"
  using assms by (auto simp: set_capture_def good_caps_def list_all_length nth_list_update)

lemma index_good:
  assumes "good_caps m caps" and "i \<le> group_count (regex m)"
  shows "index_at caps i = Inr (caps ! i)" and "get_capture caps i = caps ! i"
    and "case caps ! i of None \<Rightarrow> True | Some (start, stop) \<Rightarrow> start \<le> stop \<and> stop \<le> length (input m)"
  using assms by (auto simp: index_at_def get_capture_def good_caps_def list_all_length)

lemma group_ok:
  assumes "node_ok m x fn f" and i: "i \<le> group_count (regex m)"
  shows "body_ok m x (group_node fn i) f"
proof (rule body_okI)
  fix P g pos caps k st
  assume *: "pos \<le> length (input m)" "good_caps m caps" "fits m st" and k: "cont_ok m x P g st pos k"
  let ?k = "\<lambda>stop caps st. with_outcome (index_at caps i) (\<lambda>prior.
    with_outcome (set_capture i (Some (min pos stop, max pos stop)) caps) (\<lambda>caps.
      or_else (k stop caps st) (\<lambda>caps st. with_outcome (set_capture i prior caps) (\<lambda>caps. reject caps st))))"
  have "res_ok m x P st (first_some g (f (forward st) (modifiers st) pos)) (fn pos caps ?k st)"
  proof (rule after_node [OF assms(1) *])
    fix stop caps st'
    assume a: "reach m (forward st) pos stop" "good_caps m caps" "fits m st'" "forward st' = forward st"
      "modifiers st' = modifiers st" "depth st < depth st'"
    note prior = index_good [OF a(2) i]
    have set: "set_capture i (Some (min pos stop, max pos stop)) caps = Inr (caps[i := Some (min pos stop, max pos stop)])"
      "good_caps m (caps[i := Some (min pos stop, max pos stop)])"
      using set_capture_good [OF a(2) i, of "Some (min pos stop, max pos stop)"] a(1) reach_le by auto
    have "res_ok m x P st' (or_opt (g stop) None) (or_else (k stop (caps[i := Some (min pos stop, max pos stop)]) st')
        (\<lambda>caps' st. with_outcome (set_capture i (caps ! i) caps') (\<lambda>caps. reject caps st)))"
    proof (rule or_elseI)
      show "res_ok m x P st' (g stop) (k stop (caps[i := Some (min pos stop, max pos stop)]) st')"
        using a set by (intro cont_okD [OF k]) auto
    next
      fix caps' st'' assume "later m st' st''" "good_caps m caps'"
      then show "res_ok m x P st'' None (with_outcome (set_capture i (caps ! i) caps') (\<lambda>caps. reject caps st''))"
        using set_capture_good [OF _ i prior(3)] by (auto simp: later_def)
    qed
    then show "res_ok m x P st' (g stop) (?k stop caps st')" using set prior by simp
  qed
  then show "res_ok m x P st (first_some g (f (forward st) (modifiers st) pos)) (group_node fn i pos caps k st)"
    using set_capture_good(2) [OF _ i index_good(3) [OF *(2) i]] index_good(2) [OF *(2) i]
    by (cases "fn pos caps ?k st") (auto simp: group_node_def Let_def)
qed

lemma modifiers_ok:
  assumes "node_ok m x fn f"
  shows "body_ok m x (modifiers_node fn add remove) (\<lambda>fwd ms. f fwd (modified add remove ms))"
proof (rule body_okI)
  fix P g pos caps k st
  assume *: "pos \<le> length (input m)" "good_caps m caps" "fits m st" and k: "cont_ok m x P g st pos k"
  let ?inner = "modified add remove (modifiers st)"
  let ?k = "\<lambda>pos caps st'. afterwards (k pos caps (st'\<lparr>modifiers := modifiers st\<rparr>)) (\<lambda>b caps st. Answer b caps (st\<lparr>modifiers := ?inner\<rparr>))"
  let ?st = "st\<lparr>modifiers := ?inner\<rparr>"
  have "res_ok m x P ?st (first_some g (f (forward ?st) (modifiers ?st) pos)) (fn pos caps ?k ?st)"
  proof (rule after_node [OF assms *(1,2)])
    fix stop caps st'
    assume a: "reach m (forward ?st) pos stop" "good_caps m caps" "fits m st'" "forward st' = forward ?st"
      "modifiers st' = modifiers ?st" "depth ?st < depth st'"
    have "res_ok m x P (st'\<lparr>modifiers := modifiers st\<rparr>) (g stop) (k stop caps (st'\<lparr>modifiers := modifiers st\<rparr>))"
      using a by (intro cont_okD [OF k]) (auto simp: fits_def)
    then show "res_ok m x P st' (g stop) (?k stop caps st')" using a(5)
      by (cases "k stop caps (st'\<lparr>modifiers := modifiers st\<rparr>)") (auto simp: later_def)
  qed (use *(3) in \<open>simp add: fits_def\<close>)
  then show "res_ok m x P st (first_some g (f (forward st) (modified add remove (modifiers st)) pos))
      (modifiers_node fn add remove pos caps k st)"
    by (cases "fn pos caps ?k ?st") (auto simp: modifiers_node_def Let_def later_def)
qed

lemma look_ok:
  assumes "node_ok m x fn f"
  shows "body_ok m x (look_node fn ahead negative) (\<lambda>fwd ms pos. if (f ahead ms pos \<noteq> []) \<noteq> negative then [pos] else [])"
proof (rule body_okI)
  fix P g pos caps k st
  assume *: "pos \<le> length (input m)" "good_caps m caps" "fits m st" and k: "cont_ok m x P g st pos k"
  let ?st = "st\<lparr>forward := ahead\<rparr>"
  have body: "res_ok m x (\<lambda>w. w = None) ?st (first_some (\<lambda>_. Some None) (f (forward ?st) (modifiers ?st) pos))
      (fn pos caps (\<lambda>_ caps st. Answer True caps st) ?st)"
    by (rule after_node [OF assms *(1,2)]) (use *(3) in \<open>auto simp: fits_def later_def\<close>)
  show "res_ok m x P st (first_some g (if (f ahead (modifiers st) pos \<noteq> []) \<noteq> negative then [pos] else []))
      (look_node fn ahead negative pos caps k st)"
  proof (cases "fn pos caps (\<lambda>_ caps st. Answer True caps st) ?st")
    case (Answer hit caps' st')
    let ?st' = "st'\<lparr>forward := forward st\<rparr>"
    from body Answer have good: "good_caps m caps'" and st': "later m st ?st'" and hit: "x \<longrightarrow> (f ahead (modifiers st) pos \<noteq> []) = hit"
      by (auto simp: first_some_const later_def split: if_splits)
    have "res_ok m x P ?st' (g pos) (k pos caps'' ?st')" if "good_caps m caps''" for caps''
      using * that st' later_cells [OF st'] later_fits [OF st'] by (intro cont_okD [OF k]) auto
    then have "res_ok m x P st (g pos) (k pos (if negative then caps else caps') ?st')"
      using good *(2) res_ok_later [OF st'] by auto
    moreover have "res_ok m x P st None (reject caps ?st')" using * st' by (intro res_ok_later [OF st']) (auto simp: later_def)
    ultimately show ?thesis using Answer hit
      by (cases x; cases "k pos (if negative then caps else caps') ?st'"; cases "hit = negative")
        (auto simp: look_node_def Let_def reject_def)
  next
    case (Stopped h)
    then show ?thesis using body by (simp add: look_node_def)
  qed
qed

end
