(* ===== verification/Regex_Search.thy ===== *)
theory Regex_Search
  imports Regex_Correct
begin

text \<open>
  Repetitions, and the search they are part of: the loops over single characters and over the stack of class
  frames, the general repetition, every node of a pattern, and \<open>find_at\<close>.
\<close>

section \<open>Repetition in the reference\<close>

definition hi_minus :: "nat option \<Rightarrow> nat \<Rightarrow> nat option" where
  "hi_minus hi count = map_option (\<lambda>h. h - count) hi"

lemma hi_minus_zero [simp]: "hi_minus hi 0 = hi"
  by (simp add: hi_minus_def option.map_ident)

lemma less_one_hi_minus [simp]: "less_one (hi_minus hi count) = hi_minus hi (Suc count)"
  by (cases hi) (auto simp: less_one_def hi_minus_def)

lemma hi_minus_reached: "hi_minus hi count = Some 0 \<longleftrightarrow> reached hi count"
  by (cases hi) (auto simp: hi_minus_def reached_def)

definition ordered :: "nat \<Rightarrow> nat option \<Rightarrow> bool" where
  "ordered lo hi = (case hi of None \<Rightarrow> True | Some h \<Rightarrow> lo \<le> h)"

lemma ordered_reached: "ordered lo hi \<Longrightarrow> reached hi count \<Longrightarrow> lo \<le> count"
  by (auto simp: ordered_def reached_def split: option.splits)

lemma left_less: "reach m fwd pos e \<Longrightarrow> left m fwd e < left m fwd pos \<longleftrightarrow> e \<noteq> pos"
  by (auto simp: reach_def left_def split: if_splits)

text \<open>One iteration more, by the count of the matcher.\<close>

lemma reps_unfold:
  assumes "ordered lo hi"
  shows "reps m fwd f greedy (lo - count) (hi_minus hi count) pos =
    (let longer = (if reached hi count then [] else concat (map (reps m fwd f greedy (lo - Suc count) (hi_minus hi (Suc count)))
       (if lo \<le> count then filter (\<lambda>e. left m fwd e < left m fwd pos) (f pos) else f pos)))
     in if \<not> lo \<le> count then longer else if greedy then longer @ [pos] else pos # longer)"
proof (cases "lo \<le> count")
  case True
  then show ?thesis by (simp add: reps.simps(2) [of m fwd f greedy "hi_minus hi count"] hi_minus_reached)
next
  case False
  then have "\<not> reached hi count" and "lo - count = Suc (lo - Suc count)" using ordered_reached [OF assms] by auto
  then show ?thesis using False by simp
qed

lemma first_progress:
  assumes "bounded_paths m fwd f" and "pos \<le> length (input m)"
  shows "first_some h (filter (\<lambda>e. left m fwd e < left m fwd pos) (f pos)) = first_some (\<lambda>e. if e = pos then None else h e) (f pos)"
  unfolding first_some_filter using left_less bounded_pathsD [OF assms(1) _ assms(2)] by (intro first_some_cong) auto

lemma first_reps:
  assumes "ordered lo hi" and "bounded_paths m fwd f" and "pos \<le> length (input m)"
  shows "first_some g (reps m fwd f greedy (lo - count) (hi_minus hi count) pos) =
    (let longer = (if reached hi count then None
       else first_some (\<lambda>e. if e = pos \<and> lo \<le> count then None
         else first_some g (reps m fwd f greedy (lo - Suc count) (hi_minus hi (Suc count)) e)) (f pos))
     in if \<not> lo \<le> count then longer else if greedy then or_opt longer (g pos) else or_opt (g pos) longer)"
  unfolding reps_unfold [OF assms(1), of m fwd f greedy count pos]
  by (cases "lo \<le> count"; cases greedy) (simp_all add: Let_def first_some_concat first_progress [OF assms(2,3)] cong: if_cong)

definition one_more :: "matcher \<Rightarrow> bool \<Rightarrow> (nat \<Rightarrow> bool) \<Rightarrow> bool \<Rightarrow> nat \<Rightarrow> nat option \<Rightarrow> nat \<Rightarrow> nat \<Rightarrow> nat list" where
  "one_more m fwd p greedy lo hi count pos =
     (if reached hi count then [] else case character m fwd pos of
        None \<Rightarrow> []
      | Some (c, stop) \<Rightarrow> if p c then reps m fwd (one_path m fwd p) greedy (lo - Suc count) (hi_minus hi (Suc count)) stop else [])"

lemma one_path_progress: "e \<in> set (one_path m fwd p pos) \<Longrightarrow> pos \<le> length (input m) \<Longrightarrow> left m fwd e < left m fwd pos"
  by (cases "character m fwd pos") (auto simp: one_path_def left_less dest!: character_reach split: if_splits)

lemma reps_one:
  assumes "ordered lo hi" and "pos \<le> length (input m)"
  shows "reps m fwd (one_path m fwd p) greedy (lo - count) (hi_minus hi count) pos =
    (if \<not> lo \<le> count then one_more m fwd p greedy lo hi count pos
     else if greedy then one_more m fwd p greedy lo hi count pos @ [pos] else pos # one_more m fwd p greedy lo hi count pos)"
proof -
  have "(if lo \<le> count then filter (\<lambda>e. left m fwd e < left m fwd pos) (one_path m fwd p pos) else one_path m fwd p pos) = one_path m fwd p pos"
    using one_path_progress [OF _ assms(2)] by (auto simp: filter_id_conv)
  then show ?thesis unfolding reps_unfold [OF assms(1), of m fwd "one_path m fwd p" greedy count pos] one_more_def
    by (auto simp: Let_def one_path_def split: option.split)
qed

lemma res_ok_eq: "res_ok m x P st v r \<Longrightarrow> x \<longrightarrow> v = w \<Longrightarrow> res_ok m x P st w r"
  by (cases r) auto

section \<open>Clearing captures\<close>

lemma clear_good:
  shows "numbered (group_count (regex m)) nd \<Longrightarrow> good_caps m caps \<Longrightarrow> \<exists>caps'. clear_captures nd caps = Inr caps' \<and> good_caps m caps'"
    and "list_all (numbered (group_count (regex m))) nds \<Longrightarrow> good_caps m caps \<Longrightarrow> \<exists>caps'. clear_all nds caps = Inr caps' \<and> good_caps m caps'"
proof (induction nd caps and nds caps rule: clear_captures_clear_all.induct)
  case (1 index nd caps)
  show ?case
  proof (cases index)
    case (Some i)
    then have "i \<le> group_count (regex m)" using 1(2) by simp
    note s = set_capture_good [OF 1(3) this, of None]
    then show ?thesis using 1 Some by auto
  qed (use 1 in simp)
next
  case (9 nd nds caps)
  then obtain c where "clear_captures nd caps = Inr c" "good_caps m c" by auto
  then show ?case using 9 by auto
qed (auto simp: list_all_iff)

lemma clearedI:
  assumes "numbered (group_count (regex m)) nd" and "good_caps m caps"
    and "\<And>caps'. good_caps m caps' \<Longrightarrow> res_ok m x P st v (f caps')"
  shows "res_ok m x P st v (cleared nd caps f)"
  using clear_good(1) [OF assms(1,2)] assms(3) by (auto simp: cleared_def)

section \<open>Loops over single characters\<close>

lemma try_positions_ok:
  assumes "cont_ok m x P g st0 base k" and "good_caps m saved" and "\<forall>pos \<in> set ps. reach m (forward st0) base pos"
    and "good_caps m caps" and "fits m st" and "later m st0 st"
  shows "res_ok m x P st (first_some g ps) (try_positions m saved ps caps k st)"
  using assms(3-)
proof (induction ps arbitrary: caps st)
  case Nil
  then show ?case by (simp add: fits_def)
next
  case (Cons pos ps)
  show ?case unfolding try_positions.simps first_some.simps
  proof (rule mstepI [OF Cons.prems(3)])
    fix st1 assume st1: "later m st st1" "fits m st1"
    note l1 = later_trans [OF Cons.prems(4) st1(1)]
    show "res_ok m x P st1 (or_opt (g pos) (first_some g ps)) (or_else (k pos caps st1)
        (\<lambda>caps st. with_outcome (copy_back saved caps) (\<lambda>caps. try_positions m saved ps caps k st)))"
    proof (rule or_restoreI [OF _ assms(2)])
      show "res_ok m x P st1 (g pos) (k pos caps st1)"
        using Cons.prems st1 later_cells [OF l1] by (intro cont_okD [OF assms(1)]) auto
    next
      fix st2 assume "later m st1 st2"
      then show "res_ok m x P st2 (first_some g ps) (try_positions m saved ps saved k st2)"
        using Cons.prems(1) assms(2) by (intro Cons.IH) (auto intro: later_trans [OF l1] later_fits [OF _ st1(2)])
    qed
  qed
qed

lemma left_decreases:
  assumes "character m fwd pos = Some (c, stop)" and "pos \<le> length (input m)" and "left m fwd pos < Suc n"
  shows "left m fwd stop < n" and "stop \<le> length (input m)" and "reach m fwd pos stop"
  using character_reach [OF assms(1,2)] left_less [of m fwd pos stop] assms(3) reach_le by auto

text \<open>The positions kept for a greedy repetition are \<open>qs @ [pos]\<close>; none are kept for a lazy one.\<close>

definition still_to_try :: "bool \<Rightarrow> nat \<Rightarrow> nat list \<Rightarrow> nat list" where
  "still_to_try greedy lo qs = (if greedy then rev (drop lo qs) else [])"

lemma atom_finish_ok:
  assumes "cont_ok m x P g st0 base k" and "good_caps m saved" and "reach m (forward st0) base pos"
    and "\<forall>q \<in> set qs. reach m (forward st0) base q" and "length qs = count"
    and "greedy \<longrightarrow> positions = qs @ [pos]" and "good_caps m caps" and "fits m st" and "later m st0 st"
  shows "res_ok m x P st (first_some g (still_to_try greedy lo (qs @ [pos]))) (atom_finish m lo greedy saved k count positions caps st)"
proof (cases "greedy \<and> lo \<le> count")
  case True
  have "res_ok m x P st (first_some g (rev (drop lo positions))) (try_positions m saved (rev (drop lo positions)) caps k st)"
    using True assms(3-) by (intro try_positions_ok [OF assms(1,2)]) (auto dest!: in_set_dropD)
  then show ?thesis using True assms(6) by (simp add: atom_finish_def still_to_try_def)
next
  case False
  then have "still_to_try greedy lo (qs @ [pos]) = []" using assms(5) by (auto simp: still_to_try_def)
  then show ?thesis using False assms(7,8) by (auto simp: atom_finish_def fits_def)
qed

lemma atom_onward_ok:
  assumes atom: "\<And>c. atom_matches m (modifiers st0) atom c = Inr (p c)" and st: "later m st0 st"
    and finish: "res_ok m x P st v (atom_finish m lo greedy saved k count positions caps st)"
    and loop: "\<And>c stop. character m (forward st0) pos = Some (c, stop) \<Longrightarrow>
      res_ok m x P st (or_opt (first_some g (reps m (forward st0) (one_path m (forward st0) p) greedy (lo - Suc count) (hi_minus hi (Suc count)) stop)) v)
        (loop (Suc count) stop (if greedy then positions @ [stop] else positions) caps st)"
  shows "res_ok m x P st (or_opt (first_some g (one_more m (forward st0) p greedy lo hi count pos)) v)
    (atom_onward m atom lo hi greedy saved k loop count pos positions caps st)"
  using finish loop later_cells [OF st]
  by (cases "character m (forward st0) pos") (auto simp: atom_onward_def one_more_def atom)

lemma atom_loop_ok:
  assumes atom: "\<And>c. atom_matches m (modifiers st0) atom c = Inr (p c)"
    and k: "cont_ok m x P g st0 base k" and saved: "good_caps m saved" and lohi: "ordered lo hi"
    and "left m (forward st0) pos < n" and "reach m (forward st0) base pos"
    and "length qs = count" and "\<forall>q \<in> set qs. reach m (forward st0) base q"
    and "greedy \<longrightarrow> positions = qs @ [pos]"
    and "good_caps m caps" and "fits m st" and "later m st0 st"
  shows "res_ok m x P st (or_opt (first_some g (reps m (forward st0) (one_path m (forward st0) p) greedy (lo - count) (hi_minus hi count) pos))
      (first_some g (still_to_try greedy lo qs)))
    (atom_loop m atom lo hi greedy saved k n count pos positions caps st)"
  using assms(5-)
proof (induction n arbitrary: count pos qs positions caps st)
  case (Suc n)
  let ?F = "forward st0" and ?after = "first_some g (still_to_try greedy lo (qs @ [pos]))"
  let ?more = "first_some g (one_more m ?F p greedy lo hi count pos)"
  let ?onward = "atom_onward m atom lo hi greedy saved k (atom_loop m atom lo hi greedy saved k n) count pos positions"
  have pos: "pos \<le> length (input m)" using Suc.prems(2) reach_le by blast
  have onward: "res_ok m x P st (or_opt ?more ?after) (?onward caps st)" if "good_caps m caps" "fits m st" "later m st0 st" for caps st
  proof (rule atom_onward_ok [OF atom that(3)])
    show "res_ok m x P st ?after (atom_finish m lo greedy saved k count positions caps st)"
      using Suc.prems that by (intro atom_finish_ok [OF k saved]) auto
  next
    fix c stop assume "character m ?F pos = Some (c, stop)"
    note onto = left_decreases [OF this pos Suc.prems(1)]
    show "res_ok m x P st (or_opt (first_some g (reps m ?F (one_path m ?F p) greedy (lo - Suc count) (hi_minus hi (Suc count)) stop)) ?after)
        (atom_loop m atom lo hi greedy saved k n (Suc count) stop (if greedy then positions @ [stop] else positions) caps st)"
      using Suc.prems onto that reach_trans by (intro Suc.IH) auto
  qed
  show ?case unfolding atom_loop.simps Let_def
  proof (rule mstepI [OF Suc.prems(7)])
    fix st1 assume st1: "later m st st1" "fits m st1"
    note l1 = later_trans [OF Suc.prems(8) st1(1)]
    have "res_ok m x P st1 (g pos) (k pos caps st1)"
      using Suc.prems(2,6) st1 later_cells [OF l1] by (intro cont_okD [OF k]) auto
    then have "res_ok m x P st1 (or_opt (g pos) (or_opt ?more ?after))
        (or_else (k pos caps st1) (\<lambda>caps st. with_outcome (copy_back saved caps) (\<lambda>caps. ?onward caps st)))"
      by (rule or_restoreI [OF _ saved]) (intro onward saved later_fits [OF _ st1(2)] later_trans [OF l1])
    moreover have "res_ok m x P st1 (or_opt ?more ?after) (?onward caps st1)"
      using Suc.prems(6) st1 l1 by (intro onward)
    moreover have "still_to_try greedy lo (qs @ [pos]) = (if greedy \<and> lo \<le> count then pos # still_to_try greedy lo qs else [])"
        "\<not> lo \<le> count \<or> \<not> greedy \<Longrightarrow> still_to_try greedy lo qs = []"
      using Suc.prems(3) by (auto simp: still_to_try_def)
    ultimately show "res_ok m x P st1 (or_opt (first_some g (reps m ?F (one_path m ?F p) greedy (lo - count) (hi_minus hi count) pos))
        (first_some g (still_to_try greedy lo qs)))
      (if \<not> greedy \<and> lo \<le> count then or_else (k pos caps st1) (\<lambda>caps st. with_outcome (copy_back saved caps) (\<lambda>caps. ?onward caps st))
       else ?onward caps st1)"
      unfolding reps_one [OF lohi pos, of ?F p greedy count] by (cases "lo \<le> count"; cases greedy) auto
  qed
qed simp

declare atom_loop.simps [simp del]

lemma repeat_atom_ok:
  assumes "\<And>ms c. atom_matches m ms atom c = Inr (p ms c)" and "ordered lo hi"
  shows "body_ok m x (repeat_atom m atom lo hi greedy) (\<lambda>fwd ms. reps m fwd (one_path m fwd (p ms)) greedy lo hi)"
proof (rule body_okI)
  fix P g pos caps k st
  assume *: "pos \<le> length (input m)" "good_caps m caps" "fits m st" and k: "cont_ok m x P g st pos k"
  then show "res_ok m x P st (first_some g (reps m (forward st) (one_path m (forward st) (p (modifiers st))) greedy lo hi pos))
      (repeat_atom m atom lo hi greedy pos caps k st)"
    using atom_loop_ok [OF assms(1) k *(2) assms(2), of pos "length (input m) + 1" "[]" 0 greedy "[pos]" caps st]
    by (cases greedy; cases "forward st") (simp_all add: repeat_atom_def left_def still_to_try_def fits_def)
qed

section \<open>Classes of single characters\<close>

lemma class_run_lists:
  assumes "ordered lo hi" and "current \<le> length (input m)" and "length qs = count"
  shows "rev (drop lo (class_run m fwd ms negated is hi (qs @ [current]) current)) =
      reps m fwd (one_path m fwd (class_matches m ms negated is)) True (lo - count) (hi_minus hi count) current @ rev (drop lo qs)"
    (is "?greedy qs count current")
    and "drop lo (class_run m fwd ms negated is hi (qs @ [current]) current) =
      drop lo qs @ reps m fwd (one_path m fwd (class_matches m ms negated is)) False (lo - count) (hi_minus hi count) current"
    (is "?lazy qs count current")
proof -
  let ?p = "class_matches m ms negated is"
  have "?greedy qs count current \<and> ?lazy qs count current" using assms(2,3)
  proof (induction "left m fwd current" arbitrary: current qs count rule: less_induct)
    case less
    have hi: "(case hi of None \<Rightarrow> False | Some limit \<Rightarrow> limit < length (qs @ [current])) \<longleftrightarrow> reached hi count"
      using less.prems(2) by (auto simp: reached_def split: option.split)
    note run = class_run.simps [of m fwd ms negated "is" hi "qs @ [current]" current, unfolded hi]
    note reps = reps_one [OF assms(1) less.prems(1), of fwd ?p _ count]
    show ?case
    proof (cases "reached hi count \<or> (case character m fwd current of None \<Rightarrow> True | Some (c, stop) \<Rightarrow> \<not> ?p c)")
      case True
      then have "class_run m fwd ms negated is hi (qs @ [current]) current = qs @ [current]"
        and "one_more m fwd ?p greedy lo hi count current = []" for greedy
        by (auto simp: run one_more_def split: option.splits)
      then show ?thesis using less.prems(2) unfolding reps by (cases "lo \<le> count") auto
    next
      case False
      then obtain c stop where c: "character m fwd current = Some (c, stop)" "?p c" "\<not> reached hi count"
        by (auto split: option.splits)
      note onto = left_decreases [OF c(1) less.prems(1) lessI]
      have "?greedy (qs @ [current]) (Suc count) stop \<and> ?lazy (qs @ [current]) (Suc count) stop"
        using onto left_less [OF onto(3)] character_reach [OF c(1) less.prems(1)] less.prems(2) by (intro less.hyps) auto
      moreover have "class_run m fwd ms negated is hi (qs @ [current]) current
          = class_run m fwd ms negated is hi ((qs @ [current]) @ [stop]) stop"
        and "one_more m fwd ?p greedy lo hi count current = reps m fwd (one_path m fwd ?p) greedy (lo - Suc count) (hi_minus hi (Suc count)) stop" for greedy
        using c by (simp_all add: run one_more_def)
      ultimately show ?thesis using less.prems(2) unfolding reps by (cases "lo \<le> count") auto
    qed
  qed
  then show "?greedy qs count current" "?lazy qs count current" by blast+
qed

lemma class_ends_one: "scalar_only is \<Longrightarrow> class_ends m fwd ms negated is = one_path m fwd (class_matches m ms negated is)"
  by (rule ext) (simp add: class_ends_scalar one_path_def)

section \<open>Classes with strings\<close>

text \<open>What the frames of the stack have still to try. \<open>val\<close> is the answer of the reference at a position with a
  count of repetitions done.\<close>

definition child_val :: "(nat \<Rightarrow> nat \<Rightarrow> 'r option) \<Rightarrow> nat \<Rightarrow> nat option \<Rightarrow> cframe \<Rightarrow> nat \<Rightarrow> 'r option" where
  "child_val val lo hi frame e =
     (if e = f_pos frame \<and> lo \<le> f_count frame then None else val e (next_count lo hi (f_count frame)))"

definition frame_val ::
    "(nat \<Rightarrow> nat \<Rightarrow> 'r option) \<Rightarrow> (nat \<Rightarrow> 'r option) \<Rightarrow> nat \<Rightarrow> nat option \<Rightarrow> bool \<Rightarrow> cframe \<Rightarrow> 'r option" where
  "frame_val val g lo hi greedy frame =
     (let stop = (if may_stop lo frame then g (f_pos frame) else None);
          ends = first_some (child_val val lo hi frame) (f_ends frame)
      in if greedy then or_opt ends stop else or_opt stop ends)"

fun stack_val :: "(cframe \<Rightarrow> 'r option) \<Rightarrow> cframe list \<Rightarrow> 'r option" where
  "stack_val fv [] = None"
| "stack_val fv (frame # stack) = or_opt (fv frame) (stack_val fv stack)"

text \<open>Below the top, a frame waits for the frame above it: what it had tried before that one failed.\<close>

fun chained :: "(nat \<Rightarrow> nat \<Rightarrow> 'r option) \<Rightarrow> (cframe \<Rightarrow> 'r option) \<Rightarrow> 'r option \<Rightarrow> cframe list \<Rightarrow> bool" where
  "chained val fv v [] = True"
| "chained val fv v (frame # stack) =
     (val (f_pos frame) (f_count frame) = or_opt v (fv frame) \<and> chained val fv (val (f_pos frame) (f_count frame)) stack)"

definition rep_val ::
    "matcher \<Rightarrow> bool \<Rightarrow> (nat \<Rightarrow> nat list) \<Rightarrow> (nat \<Rightarrow> 'r option) \<Rightarrow> nat \<Rightarrow> nat option \<Rightarrow> bool \<Rightarrow> nat \<Rightarrow> nat \<Rightarrow> 'r option" where
  "rep_val m fwd f g lo hi greedy pos count = first_some g (reps m fwd f greedy (lo - count) (hi_minus hi count) pos)"

lemma rep_val_next: "rep_val m fwd f g lo hi greedy pos (next_count lo hi count) = rep_val m fwd f g lo hi greedy pos (Suc count)"
  by (auto simp: rep_val_def next_count_def hi_minus_def)

lemma child_val_same [simp]:
  "child_val val lo hi (frame\<lparr>f_ends := es\<rparr>) = child_val val lo hi frame"
  "child_val val lo hi (frame\<lparr>tried_stop := b\<rparr>) = child_val val lo hi frame"
  by (simp_all add: fun_eq_iff child_val_def)

lemma child_val_fresh:
  "child_val (rep_val m fwd f g lo hi greedy) lo hi (make_frame m negated is hi st pos count) =
     (\<lambda>e. if e = pos \<and> lo \<le> count then None
        else first_some g (reps m fwd f greedy (lo - Suc count) (hi_minus hi (Suc count)) e))"
  by (simp add: fun_eq_iff child_val_def make_frame_def rep_val_next) (simp add: rep_val_def)

lemma make_frame_fields [simp]:
  "f_pos (make_frame m negated is hi st pos count) = pos" "f_count (make_frame m negated is hi st pos count) = count"
  "tried_stop (make_frame m negated is hi st pos count) = False"
  "f_ends (make_frame m negated is hi st pos count) =
     (if reached hi count then [] else class_ends m (forward st) (modifiers st) negated is pos)"
  by (simp_all add: make_frame_def)

text \<open>A fresh frame has everything to try.\<close>

lemma fresh_frame:
  assumes "ordered lo hi" and "pos \<le> length (input m)"
  shows "frame_val (rep_val m (forward st) (class_ends m (forward st) (modifiers st) negated is) g lo hi greedy) g lo hi greedy
      (make_frame m negated is hi st pos count) =
    rep_val m (forward st) (class_ends m (forward st) (modifiers st) negated is) g lo hi greedy pos count"
proof -
  let ?f = "class_ends m (forward st) (modifiers st) negated is"
  have bounded: "bounded_paths m (forward st) ?f" by (simp add: bounded_paths_def class_ends_reach)
  show ?thesis
    unfolding rep_val_def [of m "forward st" ?f g lo hi greedy pos count] first_reps [OF assms(1) bounded assms(2)]
    by (simp add: frame_val_def child_val_fresh Let_def may_stop_def)
qed

lemma drop_child:
  assumes "f_ends frame = e # es" and "child_val val lo hi frame e = None"
  shows "frame_val val g lo hi greedy (frame\<lparr>f_ends := es\<rparr>) = frame_val val g lo hi greedy frame"
  using assms by (simp add: frame_val_def Let_def may_stop_def)

lemma take_child:
  assumes "f_ends frame = e # es" and "greedy \<or> \<not> may_stop lo frame"
  shows "frame_val val g lo hi greedy frame = or_opt (child_val val lo hi frame e) (frame_val val g lo hi greedy (frame\<lparr>f_ends := es\<rparr>))"
  using assms by (auto simp: frame_val_def Let_def may_stop_def)

lemma stop_tried:
  assumes "may_stop lo frame" and "\<not> greedy"
  shows "frame_val val g lo hi greedy frame = or_opt (g (f_pos frame)) (frame_val val g lo hi greedy (frame\<lparr>tried_stop := True\<rparr>))"
  using assms by (simp add: frame_val_def Let_def may_stop_def)

lemma leave_val:
  assumes "f_ends frame = []" and "greedy \<or> \<not> may_stop lo frame"
  shows "frame_val val g lo hi greedy frame = (if greedy \<and> may_stop lo frame then g (f_pos frame) else None)"
  using assms by (auto simp: frame_val_def Let_def)

text \<open>What holds of the loop whenever it comes round.\<close>

definition loop_inv ::
    "matcher \<Rightarrow> bool \<Rightarrow> mstate \<Rightarrow> nat \<Rightarrow> (nat \<Rightarrow> nat \<Rightarrow> 'r option) \<Rightarrow> (cframe \<Rightarrow> 'r option) \<Rightarrow> cframe list \<Rightarrow> (nat \<times> nat) set \<Rightarrow> bool" where
  "loop_inv m x st0 base val fv stack failed =
     (list_all (\<lambda>frame. reach m (forward st0) base (f_pos frame)
        \<and> (\<forall>e \<in> set (f_ends frame). reach m (forward st0) (f_pos frame) e)) stack
      \<and> (x \<longrightarrow> chained val fv None stack \<and> (\<forall>(pos, count) \<in> failed. val pos count = None)))"

lemma inv_replace:
  assumes "loop_inv m x st0 base val fv (frame # stack) failed"
    and "f_pos frame' = f_pos frame" and "f_count frame' = f_count frame" and "set (f_ends frame') \<subseteq> set (f_ends frame)"
    and "x \<longrightarrow> fv frame' = fv frame"
  shows "loop_inv m x st0 base val fv (frame' # stack) failed"
  using assms by (auto simp: loop_inv_def)

lemma inv_push:
  assumes "loop_inv m x st0 base val fv (frame # stack) failed" and "f_ends frame = e # es"
    and "fv frame = or_opt (val e count) (fv (frame\<lparr>f_ends := es\<rparr>))" and "fv child = val e count"
    and "f_pos child = e" and "f_count child = count" and "\<forall>e' \<in> set (f_ends child). reach m (forward st0) e e'"
  shows "loop_inv m x st0 base val fv (child # frame\<lparr>f_ends := es\<rparr> # stack) failed"
  using assms by (auto simp: loop_inv_def intro: reach_trans)

lemma inv_pop:
  assumes "loop_inv m x st0 base val fv (frame # stack) failed" and "x \<longrightarrow> fv frame = None"
  shows "loop_inv m x st0 base val fv stack (insert (f_pos frame, f_count frame) failed)"
  using assms by (auto simp: loop_inv_def)

lemma inv_failed:
  assumes "loop_inv m x st0 base val fv stack failed" and "(e, count) \<in> failed" and x
  shows "val e count = None"
  using assms by (auto simp: loop_inv_def)

definition ready :: "matcher \<Rightarrow> mstate \<Rightarrow> nat \<Rightarrow> mstate \<Rightarrow> bool" where
  "ready m st0 n st = (budget m + 2 \<le> n + steps st \<and> fits m st \<and> later m st0 st)"

lemma ready_later: "ready m st0 n st \<Longrightarrow> later m st st' \<Longrightarrow> ready m st0 n st'"
  using later_trans later_fits by (auto simp: ready_def later_def fits_def)

lemma ready_cells: "ready m st0 n st \<Longrightarrow> fits m st \<and> depth st = depth st0 \<and> forward st = forward st0 \<and> modifiers st = modifiers st0"
  by (auto simp: ready_def dest: later_cells)

definition loop_ok ::
    "matcher \<Rightarrow> bool \<Rightarrow> (nat option \<Rightarrow> bool) \<Rightarrow> mstate \<Rightarrow> nat \<Rightarrow> (nat \<Rightarrow> nat \<Rightarrow> nat option option) \<Rightarrow> (cframe \<Rightarrow> nat option option)
     \<Rightarrow> nat \<Rightarrow> loop_fn \<Rightarrow> bool" where
  "loop_ok m x P st0 base val fv n loop = (\<forall>stack failed caps st. loop_inv m x st0 base val fv stack failed \<longrightarrow> ready m st0 n st \<longrightarrow>
     good_caps m caps \<longrightarrow> res_ok m x P st (stack_val fv stack) (loop stack failed caps st))"

lemma loop_okD:
  assumes "loop_ok m x P st0 base val fv n loop" and "loop_inv m x st0 base val fv stack failed" and "ready m st0 n st"
    and "good_caps m caps" and "x \<longrightarrow> stack_val fv stack = w"
  shows "res_ok m x P st w (loop stack failed caps st)"
  using assms unfolding loop_ok_def by (blast intro: res_ok_eq)

lemma try_stop_ok:
  assumes "cont_ok m x P g st0 base k" and "loop_inv m x st0 base val fv (frame # stack) failed"
    and "ready m st0 n st" and "good_caps m caps"
  shows "res_ok m x P st (g (f_pos frame)) (k (f_pos frame) caps st)"
  using assms(2-) ready_cells [OF assms(3)] by (intro cont_okD [OF assms(1)]) (auto simp: loop_inv_def)

lemma class_onward_ok:
  assumes k: "cont_ok m x P g st0 base k" and saved: "good_caps m saved" and lohi: "ordered lo hi"
    and val: "val = rep_val m (forward st0) (class_ends m (forward st0) (modifiers st0) negated is) g lo hi greedy"
    and fv: "fv = frame_val val g lo hi greedy" and loop: "loop_ok m x P st0 base val fv n loop"
    and inv: "loop_inv m x st0 base val fv (frame # stack) failed" and tried: "greedy \<or> \<not> may_stop lo frame"
    and st: "ready m st0 n st" "good_caps m caps"
  shows "res_ok m x P st (or_opt (fv frame) (stack_val fv stack)) (class_onward m negated is lo hi greedy saved k loop frame stack failed caps st)"
proof (cases "f_ends frame")
  case Nil
  note v = leave_val [OF Nil tried, of val g hi, folded fv]
  have leave: "res_ok m x P st' (stack_val fv stack) (loop stack (insert (f_pos frame, f_count frame) failed) caps st')"
    if "x \<longrightarrow> fv frame = None" "ready m st0 n st'" "good_caps m caps" for caps st'
    using that by (intro loop_okD [OF loop inv_pop [OF inv]]) auto
  have "res_ok m x P st (or_opt (g (f_pos frame)) (stack_val fv stack)) (or_else (k (f_pos frame) caps st)
      (\<lambda>caps st. with_outcome (copy_back saved caps) (\<lambda>caps. loop stack (insert (f_pos frame, f_count frame) failed) caps st)))"
    if "greedy \<and> may_stop lo frame"
    using v that saved ready_later [OF st(1)]
    by (intro or_restoreI [OF try_stop_ok [OF k inv st] saved] leave) auto
  then show ?thesis using v leave [OF _ st] by (auto simp: class_onward_def Let_def Nil)
next
  case (Cons e es)
  let ?c = "next_count lo hi (f_count frame)" and ?rest = "frame\<lparr>f_ends := es\<rparr>"
  let ?child = "make_frame m negated is hi st e ?c"
  note cells = ready_cells [OF st(1)]
  have e: "reach m (forward st0) (f_pos frame) e" using inv Cons by (simp add: loop_inv_def)
  have child: "fv ?child = val e ?c"
    unfolding fv val using fresh_frame [OF lohi, of e m st negated "is" g greedy ?c] reach_le [OF e] cells by simp
  show ?thesis
  proof (cases "e = f_pos frame \<and> lo \<le> f_count frame \<or> (e, ?c) \<in> failed")
    case True
    then have "x \<longrightarrow> child_val val lo hi frame e = None" using inv_failed [OF inv] by (auto simp: child_val_def)
    then have same: "x \<longrightarrow> fv ?rest = fv frame" using drop_child [OF Cons, of val lo hi g greedy, folded fv] by simp
    have "res_ok m x P st (or_opt (fv frame) (stack_val fv stack)) (loop (?rest # stack) failed caps st)"
      using same Cons by (intro loop_okD [OF loop inv_replace [OF inv] st]) auto
    then show ?thesis using True by (auto simp: class_onward_def Let_def Cons)
  next
    case False
    then have take: "fv frame = or_opt (val e ?c) (fv ?rest)"
      using take_child [OF Cons tried, of val g hi, folded fv] by (auto simp: child_val_def)
    have "res_ok m x P st (or_opt (fv frame) (stack_val fv stack)) (loop (?child # ?rest # stack) failed caps st)"
      using take child reach_le [OF e] cells
      by (intro loop_okD [OF loop inv_push [OF inv Cons take] st]) (auto dest: class_ends_reach)
    then show ?thesis using False by (auto simp: class_onward_def Let_def Cons)
  qed
qed

lemma class_loop_ok:
  assumes k: "cont_ok m x P g st0 base k" and saved: "good_caps m saved" and lohi: "ordered lo hi"
    and val: "val = rep_val m (forward st0) (class_ends m (forward st0) (modifiers st0) negated is) g lo hi greedy"
    and fv: "fv = frame_val val g lo hi greedy"
  shows "loop_ok m x P st0 base val fv n (class_loop m negated is lo hi greedy saved k n)"
proof (induction n)
  case 0
  show ?case by (auto simp: loop_ok_def ready_def fits_def)
next
  case (Suc n)
  note onward = class_onward_ok [OF k saved lohi val fv Suc]
  show ?case unfolding loop_ok_def
  proof (intro allI impI)
    fix stack failed caps st
    assume inv: "loop_inv m x st0 base val fv stack failed" and st: "ready m st0 (Suc n) st" and caps: "good_caps m caps"
    show "res_ok m x P st (stack_val fv stack) (class_loop m negated is lo hi greedy saved k (Suc n) stack failed caps st)"
    proof (cases stack)
      case Nil
      then show ?thesis using st caps by (simp add: ready_def fits_def)
    next
      case (Cons frame rest)
      note inv = inv [unfolded Cons]
      let ?onward = "class_onward m negated is lo hi greedy saved k (class_loop m negated is lo hi greedy saved k n)"
      let ?frame = "frame\<lparr>tried_stop := True\<rparr>"
      have eq: "class_loop m negated is lo hi greedy saved k (Suc n) stack failed caps st = with_outcome (mstep m st) (\<lambda>st.
          if \<not> greedy \<and> may_stop lo frame then or_else (k (f_pos frame) caps st) (\<lambda>caps st.
            with_outcome (copy_back saved caps) (\<lambda>caps. ?onward ?frame rest failed caps st))
          else ?onward frame rest failed caps st)"
        unfolding Cons by (subst class_loop.simps(2)) (simp only: Let_def diff_Suc_1 nat.simps if_False)
      have "res_ok m x P st (or_opt (fv frame) (stack_val fv rest)) \<dots>"
      proof (rule mstepI)
        fix st1 assume st1: "later m st st1" "fits m st1" "steps st1 = steps st + 1"
        then have r1: "ready m st0 n st1" using st later_trans by (auto simp: ready_def)
        show "res_ok m x P st1 (or_opt (fv frame) (stack_val fv rest)) (if \<not> greedy \<and> may_stop lo frame
            then or_else (k (f_pos frame) caps st1) (\<lambda>caps st.
              with_outcome (copy_back saved caps) (\<lambda>caps. ?onward ?frame rest failed caps st))
            else ?onward frame rest failed caps st1)"
        proof (cases "\<not> greedy \<and> may_stop lo frame")
          case True
          then have v: "fv frame = or_opt (g (f_pos frame)) (fv ?frame)" unfolding fv by (intro stop_tried) auto
          have "res_ok m x P st1 (or_opt (g (f_pos frame)) (or_opt (fv ?frame) (stack_val fv rest))) (or_else (k (f_pos frame) caps st1)
              (\<lambda>caps st. with_outcome (copy_back saved caps) (\<lambda>caps. ?onward ?frame rest failed caps st)))"
            using True v saved ready_later [OF r1] inv_replace [OF inv, of ?frame]
            by (intro or_restoreI [OF try_stop_ok [OF k inv r1 caps] saved] onward) (auto simp: may_stop_def)
          then show ?thesis using True v by simp
        next
          case False
          then have "res_ok m x P st1 (or_opt (fv frame) (stack_val fv rest)) (?onward frame rest failed caps st1)"
            using inv r1 caps by (intro onward) auto
          then show ?thesis using False by auto
        qed
      qed (use st in \<open>simp add: ready_def\<close>)
      then show ?thesis unfolding eq using Cons by simp
    qed
  qed
qed

declare class_loop.simps [simp del]

lemma repeat_class_ok:
  assumes "ordered lo hi"
  shows "body_ok m x (repeat_class m negated is lo hi greedy) (\<lambda>fwd ms. reps m fwd (class_ends m fwd ms negated is) greedy lo hi)"
proof (rule body_okI)
  fix P g pos caps k st
  assume *: "pos \<le> length (input m)" "good_caps m caps" "fits m st" and k: "cont_ok m x P g st pos k"
  let ?F = "forward st" and ?M = "modifiers st"
  let ?f = "class_ends m ?F ?M negated is"
  have bounded: "bounded_paths m ?F ?f" by (simp add: bounded_paths_def class_ends_reach)
  show "res_ok m x P st (first_some g (reps m ?F ?f greedy lo hi pos)) (repeat_class m negated is lo hi greedy pos caps k st)"
  proof (cases "scalar_only is")
    case True
    let ?ends = "drop lo (class_run m ?F ?M negated is hi [pos] pos)"
    have "(if greedy then rev ?ends else ?ends) = reps m ?F ?f greedy lo hi pos"
      using class_run_lists [OF assms *(1), of "[]" 0 ?F ?M negated "is"] by (simp add: class_ends_one [OF True])
    moreover have "res_ok m x P st (first_some g (reps m ?F ?f greedy lo hi pos)) (try_ends (reps m ?F ?f greedy lo hi pos) caps k st)"
      using * reps_bounded [OF bounded *(1)] by (intro try_ends_ok [OF k]) auto
    ultimately show ?thesis using True by (simp add: repeat_class_def Let_def)
  next
    case False
    let ?frame = "make_frame m negated is hi st pos 0"
    let ?val = "rep_val m ?F ?f g lo hi greedy" and ?fv = "frame_val (rep_val m ?F ?f g lo hi greedy) g lo hi greedy"
    have v: "?fv ?frame = ?val pos 0" by (rule fresh_frame [OF assms *(1)])
    have "loop_inv m x st pos ?val ?fv [?frame] {}"
      using v * by (auto simp: loop_inv_def class_ends_reach)
    then have "res_ok m x P st (stack_val ?fv [?frame]) (class_loop m negated is lo hi greedy caps k (budget m + 2) [?frame] {} caps st)"
      using * by (intro loop_okD [OF class_loop_ok [OF k *(2) assms refl refl]]) (auto simp: ready_def fits_def)
    then show ?thesis using False v by (simp add: repeat_class_def rep_val_def)
  qed
qed

section \<open>The general repetition\<close>

lemma strip_groups_paths: "paths m (strip_groups nd) = paths m nd"
  by (induction nd rule: strip_groups.induct) auto

text \<open>One turn, when the turns that follow are right.\<close>

definition more_ends ::
    "matcher \<Rightarrow> bool \<Rightarrow> (nat \<Rightarrow> nat list) \<Rightarrow> (nat \<Rightarrow> 'r option) \<Rightarrow> nat \<Rightarrow> nat option \<Rightarrow> bool \<Rightarrow> nat \<Rightarrow> nat \<Rightarrow> 'r option" where
  "more_ends m fwd f g lo hi greedy pos count = (if reached hi count then None
     else first_some (\<lambda>e. if e = pos then None else rep_val m fwd f g lo hi greedy e (Suc count)) (f pos))"

lemma rep_val_cases:
  assumes "ordered lo hi" and "bounded_paths m fwd f" and "pos \<le> length (input m)"
  shows "count < lo \<Longrightarrow> rep_val m fwd f g lo hi greedy pos count = first_some (\<lambda>e. rep_val m fwd f g lo hi greedy e (Suc count)) (f pos)"
    and "\<not> count < lo \<Longrightarrow> rep_val m fwd f g lo hi greedy pos count =
      (if greedy then or_opt (more_ends m fwd f g lo hi greedy pos count) (g pos)
       else or_opt (g pos) (more_ends m fwd f g lo hi greedy pos count))"
  using ordered_reached [OF assms(1), of count]
  unfolding rep_val_def [of m fwd f g lo hi greedy pos count] first_reps [OF assms, of g greedy count]
  by (auto simp: Let_def more_ends_def rep_val_def cong: if_cong)

lemma repeat_onward_ok:
  assumes body: "node_ok m x body f" and nd: "numbered (group_count (regex m)) nd"
    and again: "\<And>stop caps st'. reach m (forward st) pos stop \<Longrightarrow> good_caps m caps \<Longrightarrow> fits m st' \<Longrightarrow> forward st' = forward st \<Longrightarrow>
      modifiers st' = modifiers st \<Longrightarrow> depth st < depth st' \<Longrightarrow>
      res_ok m x P st' (rep_val m (forward st) (f (forward st) (modifiers st)) g lo hi greedy stop (Suc count)) (again stop caps k st')"
    and k: "cont_ok m x P g st pos k" and pos: "pos \<le> length (input m)" and caps: "good_caps m caps" and st: "fits m st"
  shows "res_ok m x P st (or_opt (more_ends m (forward st) (f (forward st) (modifiers st)) g lo hi greedy pos count) (if greedy then g pos else None))
    (repeat_onward nd body hi greedy again count pos caps k st)"
proof -
  have stop: "res_ok m x P st' (if greedy then g pos else None) (if greedy then k pos caps st' else reject caps st')"
    if "later m st st'" for st'
    using that pos caps later_cells [OF that] later_fits [OF that st] cont_okD [OF k, of pos caps st'] by (auto simp: fits_def)
  have l: "later m st st" using st by (simp add: fits_def)
  show ?thesis
  proof (cases "reached hi count")
    case True
    then show ?thesis using stop [OF l] by (simp add: repeat_onward_def more_ends_def)
  next
    case False
    show ?thesis unfolding repeat_onward_def more_ends_def if_not_P [OF False]
    proof (intro clearedI [OF nd caps] or_elseI stop)
      fix fresh assume "good_caps m fresh"
      then show "res_ok m x P st (first_some (\<lambda>e. if e = pos then None
          else rep_val m (forward st) (f (forward st) (modifiers st)) g lo hi greedy e (Suc count)) (f (forward st) (modifiers st) pos))
        (body pos fresh (\<lambda>stop caps st. if stop = pos then reject caps st else again stop caps k st) st)"
        by (rule after_node [OF body pos _ st]) (auto simp: again fits_def)
    qed
  qed
qed

text \<open>One turn, when the turns that follow are right.\<close>

lemma repeat_turn_ok:
  assumes body: "node_ok m x body f" and nd: "numbered (group_count (regex m)) nd" and lohi: "ordered lo hi"
    and bounded: "bounded_paths m (forward st) (f (forward st) (modifiers st))"
    and again: "\<And>stop caps st'. reach m (forward st) pos stop \<Longrightarrow> good_caps m caps \<Longrightarrow> fits m st' \<Longrightarrow> forward st' = forward st \<Longrightarrow>
      modifiers st' = modifiers st \<Longrightarrow> depth st < depth st' \<Longrightarrow>
      res_ok m x P st' (rep_val m (forward st) (f (forward st) (modifiers st)) g lo hi greedy stop (Suc count)) (again stop caps k st')"
    and k: "cont_ok m x P g st pos k" and pos: "pos \<le> length (input m)" and caps: "good_caps m caps" and st: "fits m st"
  shows "res_ok m x P st (rep_val m (forward st) (f (forward st) (modifiers st)) g lo hi greedy pos count)
    (repeat_turn m nd body lo hi greedy again count pos caps k st)"
  unfolding repeat_turn_def
proof (rule mstepI [OF st])
  fix st1 assume st1: "later m st st1" "fits m st1"
  note cells = later_cells [OF st1(1)]
  note v = rep_val_cases [OF lohi bounded pos, of count g greedy]
  have k1: "cont_ok m x P g st' pos k" if "later m st1 st'" for st'
    using cells later_cells [OF that] pos by (intro cont_ok_mono [OF k]) auto
  have l1: "later m st1 st1" using st1 by (simp add: fits_def)
  have onward: "res_ok m x P st' (or_opt (more_ends m (forward st) (f (forward st) (modifiers st)) g lo hi greedy pos count) (if greedy then g pos else None))
      (repeat_onward nd body hi greedy again count pos caps k st')" if "later m st1 st'" "good_caps m caps" for caps st'
    using repeat_onward_ok [OF body nd _ k1 [OF that(1)] pos that(2) later_fits [OF that(1) st1(2)]] again cells later_cells [OF that(1)]
    by simp
  have stop: "res_ok m x P st1 (g pos) (k pos caps st1)" using cont_okD [OF k1 [OF l1], of pos caps st1] pos caps st1 by simp
  have iterate: "res_ok m x P st1 (first_some (\<lambda>e. rep_val m (forward st) (f (forward st) (modifiers st)) g lo hi greedy e (Suc count))
      (f (forward st1) (modifiers st1) pos)) (cleared nd caps (\<lambda>caps. body pos caps (\<lambda>stop caps st. again stop caps k st) st1))"
    using cells by (intro clearedI [OF nd caps] after_node [OF body pos _ st1(2)] again) auto
  show "res_ok m x P st1 (rep_val m (forward st) (f (forward st) (modifiers st)) g lo hi greedy pos count)
      (if count < lo then cleared nd caps (\<lambda>caps. body pos caps (\<lambda>stop caps st. again stop caps k st) st1)
       else if greedy then repeat_onward nd body hi greedy again count pos caps k st1
       else or_else (k pos caps st1) (\<lambda>caps st. repeat_onward nd body hi greedy again count pos caps k st))"
    using v iterate cells onward [OF l1 caps] or_elseI [OF stop, of _ "\<lambda>caps st. repeat_onward nd body hi greedy again count pos caps k st"] onward
    by (cases "count < lo"; cases greedy) auto
qed

lemma repeat_steps_ok:
  assumes body: "node_ok m x body (paths m nd)" and nd: "numbered (group_count (regex m)) nd" and lohi: "ordered lo hi"
    and "cont_ok m x P g st pos k" and "pos \<le> length (input m)" and "good_caps m caps" and "fits m st"
    and "1 \<le> depth st" and "MAX_DEPTH < n + depth st"
  shows "res_ok m x P st (rep_val m (forward st) (paths m nd (forward st) (modifiers st)) g lo hi greedy pos count)
    (repeat m nd body lo hi greedy n count pos caps k st)"
  using assms(4-)
proof (induction n arbitrary: count pos caps st)
  case 0
  then show ?case by (simp add: fits_def)
next
  case (Suc n)
  let ?goal = "\<lambda>r. res_ok m x P st (rep_val m (forward st) (paths m nd (forward st) (modifiers st)) g lo hi greedy pos count) r"
  have general: "?goal (repeat_turn m nd body lo hi greedy (repeat m nd body lo hi greedy n (count + 1)) count pos caps k st)"
  proof (rule repeat_turn_ok [OF body nd lohi paths_bounded _ Suc.prems(1-4)])
    fix stop caps st'
    assume *: "reach m (forward st) pos stop" "good_caps m caps" "fits m st'" "forward st' = forward st"
      "modifiers st' = modifiers st" "depth st < depth st'"
    have "cont_ok m x P g st' stop k" using * by (intro cont_ok_mono [OF Suc.prems(1)]) auto
    from Suc.IH [OF this, of caps "Suc count"] * reach_le [OF *(1)] Suc.prems(6)
    show "res_ok m x P st' (rep_val m (forward st) (paths m nd (forward st) (modifiers st)) g lo hi greedy stop (Suc count)) (repeat m nd body lo hi greedy n (count + 1) stop caps k st')" by simp
  qed
  have atom: "?goal (repeat_atom m a lo hi greedy pos caps k st)" if "count = 0" and "strip_groups nd = a" and
      "\<And>ms c. atom_matches m ms a c = Inr (p ms c)" and "paths m a = (\<lambda>fwd ms. one_path m fwd (p ms))" for a p
    using body_okD [OF repeat_atom_ok [OF that(3) lohi] Suc.prems(2-5,1)] that by (simp add: strip_groups_paths [of m nd, symmetric] rep_val_def)
  have "class": "?goal (repeat_class m negated is lo hi greedy pos caps k st)" if "count = 0" and "strip_groups nd = Class negated is" for negated "is"
    using body_okD [OF repeat_class_ok [OF lohi] Suc.prems(2-5,1)] that by (simp add: strip_groups_paths [of m nd, symmetric] rep_val_def)
  show ?case
  proof (cases "count = 0")
    case True
    then show ?thesis unfolding repeat.simps Let_def using general "class" atom [of "Char _"] atom [of AnyChar]
      by (cases "strip_groups nd") (auto simp: atom_matches_def)
  qed (use general in simp)
qed

lemma repeat_ok:
  assumes "node_ok m x body (paths m nd)" and "numbered (group_count (regex m)) nd" and "ordered lo hi"
  shows "body_ok m x (repeat m nd body lo hi greedy MAX_DEPTH 0) (\<lambda>fwd ms. reps m fwd (paths m nd fwd ms) greedy lo hi)"
  using repeat_steps_ok [OF assms, of _ _ _ _ _ _ MAX_DEPTH greedy 0] by (intro body_okI) (simp add: rep_val_def)

section \<open>Every node\<close>

theorem node_meets_reference:
  assumes "numbered (group_count (regex m)) nd" and "x \<longrightarrow> no_backrefs nd"
  shows "node_ok m x (node m nd) (paths m nd)"
  using assms
proof (induction nd)
  case Empty
  then show ?case unfolding node.simps paths.simps by (intro framed_ok empty_ok)
next
  case (Char want)
  then show ?case unfolding node.simps paths.simps by (intro framed_ok one_character_ok)
next
  case AnyChar
  then show ?case unfolding node.simps paths.simps by (intro framed_ok one_character_ok)
next
  case (Class negated "is")
  then show ?case unfolding node.simps paths.simps by (intro framed_ok class_ok)
next
  case (Concat nds)
  then have "list_all2 (node_ok m x) (map (node m) nds) (map (paths m) nds)"
    by (auto simp: list_all2_conv_all_nth list_all_length)
  then show ?case unfolding node.simps paths.simps by (intro framed_ok sequence_ok)
next
  case (Alt nds)
  then have "list_all2 (node_ok m x) (map (node m) nds) (map (paths m) nds)"
    by (auto simp: list_all2_conv_all_nth list_all_length)
  then show ?case unfolding node.simps paths.simps by (intro framed_ok alternatives_ok)
next
  case (Repeat nd lo hi greedy)
  then show ?case unfolding node.simps paths.simps by (intro framed_ok repeat_ok) (auto simp: ordered_def)
next
  case (Group index nd)
  then show ?case unfolding node.simps paths.simps
    by (cases index) (auto intro: framed_ok [OF node_body_ok] framed_ok [OF group_ok])
next
  case (Modifiers add remove nd)
  then show ?case unfolding node.simps paths.simps by (intro framed_ok modifiers_ok) auto
next
  case (Backref i)
  then have "\<not> x" by simp
  then show ?case unfolding node.simps by (intro framed_ok body_okI) (auto intro: backreference_ok)
next
  case (NamedBackref name)
  then have "\<not> x" by simp
  show ?case unfolding node.simps
  proof (intro framed_ok body_okI)
    fix P g pos caps k st
    assume *: "pos \<le> length (input m)" "good_caps m caps" "fits m st" and k: "cont_ok m x P g st pos k"
    have "res_ok m x P st (g pos) (k pos caps st)" using * by (intro cont_okD [OF k]) auto
    then have "res_ok m x P st v (k pos caps st)" for v using \<open>\<not> x\<close> by (rule_tac res_ok_eq) auto
    then show "res_ok m x P st (first_some g (paths m (NamedBackref name) (forward st) (modifiers st) pos))
        (case named_group m name caps of None \<Rightarrow> k pos caps st | Some i \<Rightarrow> backreference m i pos caps k st)"
      using backreference_ok [OF *, of P g k] k \<open>\<not> x\<close> by (auto split: option.split)
  qed
next
  case (Anchor a)
  then show ?case unfolding node.simps paths.simps by (intro framed_ok anchor_ok)
next
  case (Look ahead negative nd)
  then show ?case unfolding node.simps paths.simps by (intro framed_ok look_ok) auto
qed

section \<open>Searching\<close>

text \<open>The starts a search goes through, and the first of them from which the pattern matches, with the end it
  prefers there.\<close>

function starts :: "matcher \<Rightarrow> nat \<Rightarrow> nat list" where
  "starts m at = at # (if sticky (regex m) \<or> length (input m) \<le> at then [] else starts m (advance_pos m at))"
  by pat_completeness auto
termination
  using advance_grows by (relation "measure (\<lambda>(m, at). length (input m) - at)") (auto intro: diff_less_mono2)

declare starts.simps [simp del]

definition preferred_end :: "matcher \<Rightarrow> u8 \<Rightarrow> nat \<Rightarrow> (nat \<times> nat) option" where
  "preferred_end m ms at = (case paths m (root (regex m)) True ms at of [] \<Rightarrow> None | e # _ \<Rightarrow> Some (at, e))"

definition first_match :: "matcher \<Rightarrow> u8 \<Rightarrow> nat \<Rightarrow> (nat \<times> nat) option" where
  "first_match m ms at = first_some (preferred_end m ms) (starts m at)"

lemma first_match_unfold:
  "first_match m ms at = or_opt (preferred_end m ms at)
     (if sticky (regex m) \<or> length (input m) \<le> at then None else first_match m ms (advance_pos m at))"
  unfolding first_match_def by (subst starts.simps) simp

lemma advance_inside: "at < length (input m) \<Longrightarrow> advance_pos m at \<le> length (input m)"
  using scalar_width [of m at] scalar_inside [of at m] by (auto simp: advance_pos_def)

lemma fresh_captures: "good_caps m (replicate (group_count (regex m) + 1) None)"
  by (simp add: good_caps_def list_all_iff)

lemma final_ok: "cont_ok m x (\<lambda>w. \<exists>e. w = Some e \<and> reach m True at e) (\<lambda>e. Some (Some e)) st at final" if "forward st"
  using that by (intro cont_okI) (auto simp: final_def later_def fits_def)

definition search_ok :: "matcher \<Rightarrow> bool \<Rightarrow> (nat \<times> nat) option \<Rightarrow> halt + captures option \<Rightarrow> bool" where
  "search_ok m x v r = (case r of
     Inl h \<Rightarrow> h = Halt nesting_error \<or> h = Halt budget_error
   | Inr None \<Rightarrow> x \<longrightarrow> v = None
   | Inr (Some caps) \<Rightarrow> good_caps m caps \<and> caps ! 0 \<noteq> None \<and> (x \<longrightarrow> v = caps ! 0))"

lemma search_ok_eq: "search_ok m x v r \<Longrightarrow> x \<longrightarrow> v = w \<Longrightarrow> search_ok m x w r"
  by (auto simp: search_ok_def split: sum.splits option.splits)

lemma attempt:
  assumes "numbered (group_count (regex m)) (root (regex m))" and "x \<longrightarrow> no_backrefs (root (regex m))"
    and "at \<le> length (input m)" and "fits m st" and "forward st"
  shows "res_ok m x (\<lambda>w. \<exists>e. w = Some e \<and> reach m True at e) st (map_option (\<lambda>(_, e). Some e) (preferred_end m (modifiers st) at))
    (node m (root (regex m)) at (replicate (group_count (regex m) + 1) None) final st)"
proof -
  have "first_some (\<lambda>e. Some (Some e)) es = map_option Some (case es of [] \<Rightarrow> None | e # _ \<Rightarrow> Some e)" for es :: "nat list"
    by (cases es) auto
  then have "first_some (\<lambda>e. Some (Some e)) (paths m (root (regex m)) True (modifiers st) at)
      = map_option (\<lambda>(_, e). Some e) (preferred_end m (modifiers st) at)"
    by (auto simp: preferred_end_def split: list.split)
  then show ?thesis
    using node_okD [OF node_meets_reference [OF assms(1,2)] assms(3) fresh_captures assms(4) final_ok] assms(5) by simp
qed

lemma find_loop_ok:
  assumes "numbered (group_count (regex m)) (root (regex m))" and "x \<longrightarrow> no_backrefs (root (regex m))"
    and "at \<le> length (input m)" and "fits m st" and "forward st"
  shows "search_ok m x (first_match m (modifiers st) at) (find_loop m st at)"
  using assms
proof (induction m st at rule: find_loop.induct)
  case (1 m st at)
  have "st\<lparr>match_end := None\<rparr> = st" using 1(5) by (simp add: fits_def)
  note unfold = find_loop.simps [of m st at, unfolded this]
  note r = attempt [OF 1(2-6)]
  show ?case
  proof (cases "node m (root (regex m)) at (replicate (group_count (regex m) + 1) None) final st")
    case (Answer matched caps st')
    show ?thesis
    proof (cases matched)
      case True
      with r Answer obtain e where e: "match_end st' = Some e" "reach m True at e" "good_caps m caps"
          "x \<longrightarrow> preferred_end m (modifiers st) at = Some (at, e)"
        by (auto simp: preferred_end_def split: list.splits)
      have "set_capture 0 (Some (at, e)) caps = Inr (caps[0 := Some (at, e)])" "good_caps m (caps[0 := Some (at, e)])"
        using set_capture_good [OF e(3), of 0 "Some (at, e)"] e(2) by (auto simp: reach_def)
      then show ?thesis using e unfold Answer True
        by (auto simp: search_ok_def good_caps_def first_match_unfold [of m _ at])
    next
      case False
      with r Answer have st': "later m st st'" and none: "x \<longrightarrow> preferred_end m (modifiers st) at = None"
        by (auto simp: later_def)
      show ?thesis
      proof (cases "sticky (regex m) \<or> length (input m) \<le> at")
        case True
        then show ?thesis using none False Answer unfold by (auto simp: search_ok_def first_match_unfold [of m _ at])
      next
        case more: False
        have "search_ok m x (first_match m (modifiers st') (advance_pos m at)) (find_loop m st' (advance_pos m at))"
          using 1(1) [of False caps st'] Answer False more 1(2-6) advance_inside st' later_fits [OF st'] later_cells [OF st']
            \<open>st\<lparr>match_end := None\<rparr> = st\<close> by auto
        moreover have "x \<longrightarrow> first_match m (modifiers st) at = first_match m (modifiers st) (advance_pos m at)"
          using none more first_match_unfold [of m "modifiers st" at] by auto
        moreover have "find_loop m st at = find_loop m st' (advance_pos m at)" using False Answer more unfold by simp
        ultimately show ?thesis using later_cells [OF st'] by (auto intro: search_ok_eq)
      qed
    qed
  next
    case (Stopped h)
    then show ?thesis using r unfold by (simp add: search_ok_def)
  qed
qed

lemma first_start_inside: "start \<le> length us \<Longrightarrow> first_start r us start \<le> length us"
  by (auto simp: first_start_def)

lemma new_state_fits: "fits (new_matcher t r us) (new_state r)"
  by (simp add: fits_def new_state_def)

lemma find_at_ok:
  assumes "numbered (group_count r) (root r)" and "x \<longrightarrow> no_backrefs (root r)" and "start \<le> length us"
  shows "search_ok (new_matcher t r us) x (first_match (new_matcher t r us) (flag_bits r) (first_start r us start)) (find_at t r us start)"
  using find_loop_ok [of "new_matcher t r us" x "first_start r us start" "new_state r"] assms first_start_inside [OF assms(3)] new_state_fits
  by (auto simp: find_at_def new_matcher_def new_state_def)

section \<open>Repetition as a power\<close>

definition step_rel :: "(nat \<Rightarrow> nat list) \<Rightarrow> (nat \<times> nat) set" where
  "step_rel f = {(pos, e). e \<in> set (f pos)}"

lemma ordered_zero [simp]: "ordered 0 hi"
  by (simp add: ordered_def split: option.split)

lemma ordered_less_one: "ordered (Suc lo) hi \<Longrightarrow> ordered lo (less_one hi)"
  by (auto simp: ordered_def less_one_def split: option.splits)

lemma reps_sound:
  "ordered lo hi \<Longrightarrow> e \<in> set (reps m fwd f greedy lo hi pos) \<Longrightarrow>
     \<exists>n \<ge> lo. (case hi of None \<Rightarrow> True | Some h \<Rightarrow> n \<le> h) \<and> (pos, e) \<in> step_rel f ^^ n"
proof (induction m fwd f greedy lo hi pos rule: reps.induct)
  case (1 m fwd f greedy lo hi pos)
  from 1(3) obtain e' where e': "e' \<in> set (f pos)" "e \<in> set (reps m fwd f greedy lo (less_one hi) e')" by auto
  from 1(1) [OF e'(1) ordered_less_one [OF 1(2)] e'(2)] obtain n where
    n: "lo \<le> n" "case less_one hi of None \<Rightarrow> True | Some h \<Rightarrow> n \<le> h" "(e', e) \<in> step_rel f ^^ n" by auto
  have "(pos, e) \<in> step_rel f ^^ Suc n" by (rule relpow_Suc_I2 [OF _ n(3)]) (simp add: step_rel_def e'(1))
  then show ?case using n(1,2) 1(2)
    by (intro exI [of _ "Suc n"]) (auto simp: less_one_def ordered_def split: option.splits)
next
  case (2 m fwd f greedy hi pos)
  show ?case
  proof (cases "e = pos")
    case True
    then show ?thesis by (intro exI [of _ 0]) (auto split: option.split)
  next
    case False
    then obtain e' where e': "hi \<noteq> Some 0" "e' \<in> set (filter (\<lambda>e. left m fwd e < left m fwd pos) (f pos))"
        "e \<in> set (reps m fwd f greedy 0 (less_one hi) e')"
      using 2(3) by (auto simp: reps.simps(2) [of m fwd f greedy hi pos] Let_def split: if_splits)
    from 2(1) [OF e'(1,2) ordered_zero e'(3)] obtain n where
      n: "case less_one hi of None \<Rightarrow> True | Some h \<Rightarrow> n \<le> h" "(e', e) \<in> step_rel f ^^ n" by auto
    have "(pos, e) \<in> step_rel f ^^ Suc n" using e'(2) by (intro relpow_Suc_I2 [OF _ n(2)]) (simp add: step_rel_def)
    then show ?thesis using n(1) e'(1) by (intro exI [of _ "Suc n"]) (auto simp: less_one_def split: option.splits)
  qed
qed

lemma reps_complete:
  assumes "bounded_paths m fwd f"
  shows "pos \<le> length (input m) \<Longrightarrow> (pos, e) \<in> step_rel f ^^ n \<Longrightarrow> lo \<le> n \<Longrightarrow>
    (case hi of None \<Rightarrow> True | Some h \<Rightarrow> n \<le> h) \<Longrightarrow> e \<in> set (reps m fwd f greedy lo hi pos)"
proof (induction n arbitrary: lo hi pos)
  case 0
  then show ?case by (simp add: reps.simps(2) [of m fwd f greedy hi e] Let_def)
next
  case (Suc n)
  from Suc.prems(2) obtain e' where e': "e' \<in> set (f pos)" "(e', e) \<in> step_rel f ^^ n"
    using relpow_Suc_D2 [OF Suc.prems(2)] by (auto simp: step_rel_def)
  note reach = bounded_pathsD [OF assms e'(1) Suc.prems(1)]
  have hi: "case less_one hi of None \<Rightarrow> True | Some h \<Rightarrow> n \<le> h" using Suc.prems(4) by (auto simp: less_one_def split: option.splits)
  show ?case
  proof (cases lo)
    case (Suc l)
    then show ?thesis using Suc.IH [OF _ e'(2) _ hi, of l] e'(1) Suc.prems(3) reach_le [OF reach] by auto
  next
    case 0
    show ?thesis
    proof (cases "e' = pos")
      case True
      then show ?thesis using Suc.IH [of pos 0 hi] e'(2) Suc.prems(1,4) 0 by (auto split: option.splits)
    next
      case False
      then show ?thesis using Suc.IH [OF _ e'(2) _ hi, of 0] e'(1) reach_le [OF reach] left_less [OF reach] Suc.prems(4) 0
        by (auto simp: reps.simps(2) [of m fwd f greedy hi pos] Let_def)
    qed
  qed
qed

end
