(* ===== verification/Regex_Find.thy ===== *)
theory Regex_Find
  imports Regex_Search
begin

text \<open>
  What \<open>find_at\<close> promises: it finds the leftmost match in the order of preference, stays inside the input and
  the captures, and fails only with its budgets. The last section runs two patterns on which captures of an
  abandoned attempt survive.
\<close>

section \<open>Running a pattern\<close>

definition no_tables :: case_tables where
  "no_tables = \<lparr>simple_fold = id, to_uppercase = (\<lambda>c. [c]), changes_when_casefolded = []\<rparr>"

definition pattern :: "regex_node \<Rightarrow> nat \<Rightarrow> regex" where
  "pattern nd n = \<lparr>root = nd, group_count = n, names = [], source = default_string, flags = [], global = False, ignore_case = False, multiline = False,
     dot_all = False, sticky = False, unicode = False\<rparr>"

declare repeat.simps [simp del]

lemma repeat_run:
  "repeat m (Char c) body lo hi greedy (numeral v) 0 pos caps k st = repeat_atom m (Char c) lo hi greedy pos caps k st"
  "repeat m (Group (Some i) nd) body lo hi greedy (numeral v) 0 pos caps k st =
     repeat_turn m (Group (Some i) nd) body lo hi greedy (repeat m (Group (Some i) nd) body lo hi greedy (pred_numeral v) 1) 0 pos caps k st"
  "strip_groups nd = Concat nds \<Longrightarrow> repeat m (Group None nd) body lo hi greedy (numeral v) 0 pos caps k st =
     repeat_turn m (Group None nd) body lo hi greedy (repeat m (Group None nd) body lo hi greedy (pred_numeral v) 1) 0 pos caps k st"
  "repeat m nd body lo hi greedy (numeral v) (Suc 0) pos caps k st =
     repeat_turn m nd body lo hi greedy (repeat m nd body lo hi greedy (pred_numeral v) 2) 1 pos caps k st"
  "repeat m nd body lo hi greedy (numeral v) (numeral w) pos caps k st =
     repeat_turn m nd body lo hi greedy (repeat m nd body lo hi greedy (pred_numeral v) (numeral w + 1)) (numeral w) pos caps k st"
  by (simp_all add: numeral_eq_Suc repeat.simps)

text \<open>Continuations are evaluated when they are called.\<close>

lemma run_cong:
  "r = r' \<Longrightarrow> with_outcome r f = with_outcome r' f"
  "q = q' \<Longrightarrow> or_else q h = or_else q' h"
  "q = q' \<Longrightarrow> afterwards q j = afterwards q' j"
  "pos = pos' \<Longrightarrow> caps = caps' \<Longrightarrow> st = st' \<Longrightarrow> framed m body pos caps k st = framed m body pos' caps' k st'"
  "caps = caps' \<Longrightarrow> cleared nd caps i = cleared nd caps' i"
  by simp_all

lemmas run_defs = find_at_def new_matcher_def new_state_def first_start_def pattern_def find_loop.simps set_capture_def advance_pos_def
  framed_def MAX_DEPTH_def MAX_STEPS_def STEPS_PER_INPUT_UNIT_def usize_max_def mstep_def sequence.simps one_character_def
  character_def scalar_def get_at_def same_char_def width_def reject_def final_def or_else_def afterwards_def repeat_run
  repeat_atom_def atom_matches_def reached_def copy_back_def folds_case_def flag_bits_def atom_loop.simps atom_onward_def atom_finish_def repeat_turn_def repeat_onward_def
  cleared_def group_node_def look_node_def backreference_def get_capture_def index_at_def same_range.simps expect_def

section \<open>The first match\<close>

text \<open>C30: For a pattern without back references, numbered as the parser numbers it, a search returns the first
  match of the reference semantics: from the leftmost start that has one, with the end that comes first in
  the order of preference; it returns nothing exactly when no start has a match. The only other answers are
  the two errors of the budgets. In particular the loops end and nothing panics.\<close>

theorem find_at_first_match:
  assumes "numbered (group_count r) (root r)" and "no_backrefs (root r)" and "start \<le> length us"
  shows "find_at t r us start = Inl (Halt nesting_error) \<or> find_at t r us start = Inl (Halt budget_error)
    \<or> (case first_match (new_matcher t r us) (flag_bits r) (first_start r us start) of
        None \<Rightarrow> find_at t r us start = Inr None
      | Some found \<Rightarrow> \<exists>caps. find_at t r us start = Inr (Some caps) \<and> caps ! 0 = Some found)"
  using find_at_ok [OF assms(1) _ assms(3), of True t] assms(2)
  by (auto simp: search_ok_def split: sum.splits option.splits)

definition ab_star :: regex where
  "ab_star = pattern (Concat [Char 97, Repeat (Char 98) 0 None True]) 0"

lemma ab_star_found: "find_at no_tables ab_star [120, 97, 98, 98, 99] 0 = Inr (Some [Some (1, 4)])"
  by (simp add: ab_star_def run_defs cong: run_cong)

lemma ab_star_start: "first_start ab_star [120, 97, 98, 98, 99] 0 = 0"
  by (simp add: first_start_def)

text \<open>The pattern \<open>ab*\<close> on \<open>xabbc\<close>.\<close>

theorem find_at_first_match_witness:
  "numbered (group_count ab_star) (root ab_star) \<and> no_backrefs (root ab_star)
   \<and> first_match (new_matcher no_tables ab_star [120, 97, 98, 98, 99]) (flag_bits ab_star) 0 = Some (1, 4)"
  using find_at_first_match [of ab_star 0 "[120, 97, 98, 98, 99]" no_tables] ab_star_found
  unfolding ab_star_start by (auto simp: ab_star_def pattern_def split: option.splits)

section \<open>Bounds\<close>

text \<open>C31: Whatever the pattern, back references included, a search on a pattern whose groups are numbered as the
  parser numbers them ends with one of the two budget errors, with no match, or with captures for every group
  that all lie inside the input, the whole match among them. It never indexes outside the input or the
  captures.\<close>

theorem find_at_safe:
  assumes "numbered (group_count r) (root r)"
  shows "case find_at t r us start of
      Inl h \<Rightarrow> h = Halt nesting_error \<or> h = Halt budget_error
    | Inr None \<Rightarrow> True
    | Inr (Some caps) \<Rightarrow> length caps = group_count r + 1 \<and> caps ! 0 \<noteq> None
        \<and> (\<forall>s e. Some (s, e) \<in> set caps \<longrightarrow> s \<le> e \<and> e \<le> length us)"
proof (cases "start \<le> length us")
  case True
  have "input (new_matcher t r us) = us" "regex (new_matcher t r us) = r" by (simp_all add: new_matcher_def)
  then show ?thesis using find_at_ok [OF assms _ True, of False t]
    by (auto simp: search_ok_def good_caps_def list_all_iff split: sum.splits option.splits)
next
  case False
  then show ?thesis by (simp add: find_at_def)
qed

text \<open>A greedy repetition of \<open>b\<close> after \<open>a\<close>, as above.\<close>

theorem find_at_safe_witness:
  "numbered (group_count ab_star) (root ab_star) \<and> find_at no_tables ab_star [120, 97, 98, 98, 99] 0 = Inr (Some [Some (1, 4)])
   \<and> length [Some (1 :: nat, 4 :: nat)] = group_count ab_star + 1"
  using find_at_safe [where r = ab_star and t = no_tables and us = "[120, 97, 98, 98, 99]" and start = 0] ab_star_found
  by (simp add: ab_star_def pattern_def)

section \<open>Repetition is a power\<close>

text \<open>Leaving out iterations that consume nothing loses no end: the ends of a repetition are those of its body
  iterated any number of times within its bounds.\<close>

theorem reps_power:
  assumes "bounded_paths m fwd f" and "ordered lo hi" and "pos \<le> length (input m)"
  shows "set (reps m fwd f greedy lo hi pos) =
    {e. \<exists>n \<ge> lo. (case hi of None \<Rightarrow> True | Some h \<Rightarrow> n \<le> h) \<and> (pos, e) \<in> step_rel f ^^ n}"
  using reps_sound [OF assms(2)] reps_complete [OF assms(1,3)] by blast

section \<open>Captures of abandoned attempts\<close>

text \<open>The pattern \<open>(?:ab)*?(?=(a)?)c\<close> on \<open>abc\<close>: the lookahead of the first attempt sets the group, its
  continuation fails, and the capture is not taken back; the match reports \<open>a\<close> for a group that took no part in
  it.\<close>

lemma look_keeps_capture:
  "find_at no_tables (pattern (Concat [Repeat (Group None (Concat [Char 97, Char 98])) 0 None False,
      Look True False (Repeat (Group (Some 1) (Char 97)) 0 (Some 1) True), Char 99]) 1) [97, 98, 99] 0
   = Inr (Some [Some (0, 3), Some (0, 1)])"
  by (simp add: run_defs cong: run_cong)

text \<open>The pattern \<open>(?:(a)(?:ab)*?\1){2}\<close> on \<open>aabaa\<close>: the second iteration clears the group and fails, the first
  goes on with the group unset, and its back reference matches the empty string. No split of the input into
  two iterations has the group equal to what the back reference stands on.\<close>

lemma repeat_forgets_capture:
  "find_at no_tables (pattern (Repeat (Group None (Concat [Group (Some 1) (Char 97),
      Repeat (Group None (Concat [Char 97, Char 98])) 0 None False, Backref 1])) 2 (Some 2) True) 1) [97, 97, 98, 97, 97] 0
   = Inr (Some [Some (0, 5), Some (3, 4)])"
  by (simp add: run_defs cong: run_cong)

end
