(* ===== verification/Spec2Isabelle.thy ===== *)
theory Spec2Isabelle
  imports Big_Int_Ops Js_String Object_Cell Object_Literal Lazy_Collections Metered_Run Bytecode_Fork Event_Loop Wire_Peer Regex_Find
begin

text \<open>
  napi-vm is a JavaScript engine in Rust that a host embeds to run untrusted guest code. Source text is
  parsed, compiled to bytecode (\<open>bytecode/compiler.rs\<close>), verified (\<open>bytecode/verify.rs\<close>) and run by a
  register machine (\<open>bytecode/vm.rs\<close>) over an interpreter that owns the JavaScript semantics
  (\<open>interpreter/\<close>). Values rest on a few data structures of their own: big integers, UTF-16 strings,
  object cells with hidden classes and inline caches; regular expressions have a matcher of their own.
  Asynchronous work goes through promises, queues of jobs and timers, and an event loop the host drives;
  plugins run in other processes and talk to the host over framed connections
  (\<open>crates/napi-vm-plugin-protocol\<close>). This library models those parts; paths below are relative to \<open>crates/napi-vm-core/src\<close> unless they name another crate.

  \<^bold>\<open>The theories.\<close>

  \<^item> \<open>VM_Prelude\<close>: the machine integer types, the outcome of fallible code (an error message or a panic),
    loops over index ranges with their invariant rules, sequences of checks (\<open>all_checks\<close>, the question
    mark operator) and the collections of rules the components share.
  \<^item> \<open>Big_Int\<close>, \<open>Big_Int_Long\<close>, \<open>Big_Int_Ops\<close> (\<open>bigint.rs\<close>): sign and magnitude over 32-bit limbs, every
    carry and borrow loop at 64 bits. The invariant is that a magnitude has no leading zero limb, zero is
    not negative and the limb cap holds; each operator is shown to be the operator of the integers on
    \<open>to_int\<close>, or to report overflow. Square-and-multiply and the limb-wise operators are proved once, in
    the locales \<open>partial_product\<close> and \<open>limbwise\<close>.
  \<^item> \<open>Js_String\<close> (\<open>js_string.rs\<close>): code units with a lazily filled UTF-8 cache; decoding, property keys,
    searching, trimming, iteration. The cache invariant, lossless keys and the UTF-8 round trip.
  \<^item> \<open>Object_Shape\<close> (\<open>shape.rs\<close>): the transition tree of layouts in a store of nodes, replay of keys,
    identifiers with their 32-bit counter, and the inline cache as a state machine.
  \<^item> \<open>Lazy_Collections\<close> (\<open>lazy_collections.rs\<close>): maps and sets that allocate on first use, and the locale
    \<open>keyed_table\<close>, interpreted again for the metadata tables of objects.
  \<^item> \<open>Object_Cell\<close> (\<open>value.rs\<close>): array indices, attributes, accessor and private metadata, and the object
    cell whose lookups go through a dictionary or a shape cache that host writes may leave stale.
  \<^item> \<open>Object_Literal\<close> (\<open>interpreter/eval.rs\<close>): the slot vector of an object literal under construction
    (\<open>insert_object_property\<close>) as a refinement of a dictionary, and the class member lists.
  \<^item> \<open>Bytecode\<close> (\<open>bytecode/opcode.rs\<close>, \<open>constants.rs\<close>, \<open>function.rs\<close>, the operators of \<open>parser/ast.rs\<close>):
    instructions grouped as the source's sections group them, constants and templates, functions nested
    through their constants, the fuel cost. \<open>Bytecode_Fork\<close>: \<open>fork_for_owner\<close>.
  \<^item> \<open>Verifier\<close> (\<open>bytecode/verify.rs\<close>): one check per instruction, in the source's order, with the first
    defect as the verdict. The collection \<open>verify_ok\<close> gives every check as the condition it stands for.
  \<^item> \<open>Vm_Machine\<close>, \<open>Vm_Moves\<close>, \<open>Vm_Calls\<close>, \<open>Vm_Classes\<close>, \<open>Vm_Run\<close> (\<open>bytecode/vm.rs\<close>): call frames and a
    state monad over them, an arm per instruction, object and class construction, handler landing, the
    run loop, set-up and recycling of frames.
  \<^item> \<open>Execution_Budget\<close> (\<open>interpreter/scheduler.rs\<close>, \<open>interpreter/mod.rs\<close>): fuel, loop and job budgets, the
    interrupt check and its batched polling, as a transition system.
  \<^item> \<open>Metered_Run\<close>: the run loop over budgets.
  \<^item> \<open>Timer_Queue\<close>, \<open>Job_Queue\<close> (\<open>interpreter/jobs.rs\<close>): the timers of an agent in the order they are
    due, and the queues of microtasks, host events and timers with their bounds and budgets.
  \<^item> \<open>Promises\<close> (\<open>interpreter/promise.rs\<close>): promise cells in a store, reactions, settling, resolution with
    thenables.
  \<^item> \<open>Event_Loop\<close> (\<open>interpreter/promise.rs\<close>, \<open>interpreter/scheduler.rs\<close>): the dispatch of a job, ingress of host
    events, the choice of the next job and the turn that runs jobs under its budgets.
  \<^item> \<open>Regex_Class\<close>, \<open>Regex_Match\<close> (\<open>regex/mod.rs\<close>, with the tree of \<open>regex/parse.rs\<close> and the case folding of
    \<open>regex/unicode.rs\<close>): character classes with their tables of strings, and the backtracking matcher, a function
    of a position, captures and a continuation per node. \<open>Regex_Spec\<close>: what a pattern matches, as the list of its
    ends in the order of preference. \<open>Regex_Correct\<close>, \<open>Regex_Search\<close>: every construct and every loop meets it,
    in a logic of continuations (\<open>cont_ok\<close>, \<open>body_ok\<close>, \<open>node_ok\<close>). \<open>Regex_Find\<close>: what a search promises.
  \<^item> \<open>Wire_Values\<close>, \<open>Wire_Schema\<close>, \<open>Wire_Contract\<close> (\<open>lib.rs\<close> and \<open>schema.rs\<close> of the plugin
    protocol): plugin values and their normalisation, the schemas that describe them, and the admission of
    a plugin's contract.
  \<^item> \<open>Wire_Frames\<close>, \<open>Wire_Peer\<close> (\<open>peer.rs\<close>): length-prefixed frames, and one end of a connection
    as a state machine with its send lanes, pending calls, served calls and event fences.

  \<^bold>\<open>How the parts meet.\<close> The register machine calls the interpreter through the record \<open>interp\<close>: a request
  names a helper and its arguments, the interpreter answers with a value or an error and changes its own
  state \<open>'w\<close>, which the machine never looks into. Theorems about the machine hold for every such
  interpreter; where one relies on a helper, the reliance is a named hypothesis (\<open>fuel_granted\<close>,
  \<open>metered\<close>). Indexing outside a Rust vector is the value \<open>IndexPanic\<close>; the safety logic (\<open>safe\<close>, rules in
  \<open>vm_safe\<close>) shows from the checks of \<open>Verifier\<close> that it does not occur. \<open>Metered_Run\<close> joins
  \<open>Execution_Budget\<close> to the machine through the locale \<open>metered_interp\<close>, interpreted on any interpreter
  paired with an execution state (\<open>with_budget\<close>). The event loop reaches promises and timers through jobs: the
  callbacks of a job are a parameter, and the locale \<open>agent_relation\<close> carries what they keep of an agent
  through its turns. The locale \<open>peer_invariant\<close> carries a property of a connection through every step,
  interpreted for the bounds of the queues, the pending calls, the calls being served and the fences.

  \<^bold>\<open>What is shown.\<close> Verified code never leaves its tables and its frame stays well formed, whatever the
  interpreter answers; a recycled frame equals a fresh one; errors and returns land on the right handler
  with the stacks cut to the recorded depths; a call taken for a tail call does flow into a return;
  accepted argument ranges are exact; a fork has the verdict of its original. Fuel is charged exactly, an
  interrupt stops a run within 64 charges, and every run ends under its budgets. The data structures
  refine integers, code unit sequences, dictionaries and linear searches as listed above.
  A promise settles once and each reaction is queued once; timers fire in the order they are due; jobs are
  charged against their budgets, and the loop is fair between its queues. A search for a regular expression
  ends under its budgets, stays inside its input and its captures, and without back references finds the
  leftmost match with the end that is preferred there; two runs show captures of abandoned attempts that
  survive. An accepted schema validates every value or names its defect, and the branches of an accepted union exclude each other; frames round
  trip and are never read beyond their limit; a connection keeps its limits, answers each call once and
  sends the events a call produced only after its reply.

  \<^bold>\<open>Bounds.\<close> \<open>run_loop n\<close> takes at most \<open>n\<close> turns and answers \<open>None\<close> when they are used up; safety holds for
  every \<open>n\<close>, and for budgeted runs some \<open>n\<close> is enough. The search for a tail call takes as many steps as
  the function has instructions, like the source's loop. In the matcher the nesting limit bounds the
  turns of a repetition (\<open>MAX_DEPTH\<close>), the length of the input those over single characters and the step budget
  those over the frames of a class; \<open>OutOfTurns\<close> is shown not to occur. The decimal conversions of big integers
  and all other loops are total functions.

  \<^bold>\<open>Not modelled.\<close> Floating point is opaque: an \<open>f64\<close> is its 64 bits, and the three conversions of
  \<open>bigint.rs\<close> through it are left out. Syntax trees are a type parameter, so the compiler, the parser and
  the tree evaluator are not modelled; that backward jumps of compiled code go to loop heads is a
  hypothesis of the termination theorem, which the compiler's loop statements establish by emitting
  \<open>LoopHead\<close> at the address they jump back to. Of the machine, \<open>run_function\<close> and \<open>seed_captured\<close> (boxing
  captured bindings into environments), the fast paths of \<open>get_prop_cached\<close> and \<open>set_prop_cached\<close>, and
  tier counters are left out. The heap's cycle collection works on reference counts that a pure model
  does not have. Of promises and the event loop, async functions, generators and the host's wake-up channel
  are left out; of the plugins, the processes, sockets and the development kit that use the protocol.
  Patterns are syntax trees: their validation by another package and their parser are left out, and what the
  parser guarantees (groups numbered up to the count, bounds in order) is the hypothesis \<open>numbered\<close>; the tables of
  Unicode are parameters. Modules, the rest of the standard library, native addons and bindings are not
  modelled.
\<close>

end
